(* ===== verification/Prelude.thy ===== *)
theory Prelude
  imports Main "HOL-Library.Word"
begin

unbundle bit_operations_syntax

text \<open>
  Shared vocabulary of the development: bytes, C integer conversions, error results and the
  block copies \<open>memcpy\<close>/\<open>memmove\<close> perform on a fixed array.

  \<^item> A byte of a C buffer is a \<^typ>\<open>char\<close> (eight bits); \<open>byte c\<close> is its unsigned value.
  \<^item> A pointer into a buffer that a parser advances is the list of bytes from that pointer to
    the end of the buffer, so \<open>buf == buf_end\<close> is \<open>buf = []\<close>.
  \<^item> A C function that returns an error code is a function into a sum, \<open>Inl\<close> the error.
  \<^item> \<open>c_int\<close> is the conversion of a wider integer to a 32-bit \<open>int\<close>.
\<close>

section \<open>Collections of rewrite rules\<close>

named_theorems byte_simps \<open>facts about single bytes\<close>
named_theorems buf_simps \<open>facts about copies into fixed arrays\<close>

section \<open>Bytes\<close>

type_synonym bytes = "char list"

abbreviation byte :: "char \<Rightarrow> nat" where
  "byte c \<equiv> of_char c"

text \<open>The delimiters the code compares with, as named constants; \<open>byte\<close> tells them apart.\<close>

definition CR :: char where "CR = CHR 0x0D"
definition LF :: char where "LF = CHR 0x0A"
definition TAB :: char where "TAB = CHR 0x09"
definition SP :: char where "SP = CHR 0x20"
definition DEL :: char where "DEL = CHR 0x7F"
definition NUL :: char where "NUL = CHR 0x00"
definition COLON :: char where "COLON = CHR 0x3A"

abbreviation CRLF :: bytes where "CRLF \<equiv> [CR, LF]"

lemma byte_delim [simp]:
  "byte CR = 13"
  "byte LF = 10"
  "byte TAB = 9"
  "byte SP = 32"
  "byte DEL = 127"
  "byte NUL = 0"
  "byte COLON = 58"
  by (simp_all add: CR_def LF_def TAB_def SP_def DEL_def NUL_def COLON_def)

lemma eq_delim [byte_simps]:
  "c = CR \<longleftrightarrow> byte c = 13"
  "c = LF \<longleftrightarrow> byte c = 10"
  "c = TAB \<longleftrightarrow> byte c = 9"
  "c = SP \<longleftrightarrow> byte c = 32"
  "c = DEL \<longleftrightarrow> byte c = 127"
  "c = NUL \<longleftrightarrow> byte c = 0"
  "c = COLON \<longleftrightarrow> byte c = 58"
  by (metis byte_delim of_char_eq_iff)+

lemma delim_neq [simp]:
  "CR \<noteq> LF"
  "CR \<noteq> TAB"
  "CR \<noteq> SP"
  "CR \<noteq> DEL"
  "CR \<noteq> NUL"
  "CR \<noteq> COLON"
  "LF \<noteq> CR"
  "LF \<noteq> TAB"
  "LF \<noteq> SP"
  "LF \<noteq> DEL"
  "LF \<noteq> NUL"
  "LF \<noteq> COLON"
  "TAB \<noteq> CR"
  "TAB \<noteq> LF"
  "TAB \<noteq> SP"
  "TAB \<noteq> DEL"
  "TAB \<noteq> NUL"
  "TAB \<noteq> COLON"
  "SP \<noteq> CR"
  "SP \<noteq> LF"
  "SP \<noteq> TAB"
  "SP \<noteq> DEL"
  "SP \<noteq> NUL"
  "SP \<noteq> COLON"
  "DEL \<noteq> CR"
  "DEL \<noteq> LF"
  "DEL \<noteq> TAB"
  "DEL \<noteq> SP"
  "DEL \<noteq> NUL"
  "DEL \<noteq> COLON"
  "NUL \<noteq> CR"
  "NUL \<noteq> LF"
  "NUL \<noteq> TAB"
  "NUL \<noteq> SP"
  "NUL \<noteq> DEL"
  "NUL \<noteq> COLON"
  "COLON \<noteq> CR"
  "COLON \<noteq> LF"
  "COLON \<noteq> TAB"
  "COLON \<noteq> SP"
  "COLON \<noteq> DEL"
  "COLON \<noteq> NUL"
  by (simp_all add: eq_delim)

lemma byte_lt_256 [byte_simps]: "byte c < 256"
  by (rule nat_of_char_less_256)

lemma byte_eq_iff [byte_simps]: "c = d \<longleftrightarrow> byte c = byte d"
  by simp

text \<open>A 256-entry table indexed by a byte: one list comparison settles every entry.\<close>

lemma byte_table:
  assumes "list_all2 R [0..<256] t"
  shows "R (byte c) (t ! byte c)"
  using list_all2_nthD [OF assms, of "byte c"] byte_lt_256 [of c] by simp

lemma upt_256: "[0..<256] = 0 # 1 # [2..<256]"
  by (simp add: upt_conv_Cons)

lemmas byte_enum = upt_256 upt_rec_numeral

lemma byte_all: "list_all P [0..<256] \<Longrightarrow> P (byte c)"
  using byte_lt_256 [of c] by (simp add: list_all_iff)

text \<open>RFC 9110's \<open>tchar\<close> on byte values, the reference for both lookup tables of the program.\<close>

definition tchar :: "nat \<Rightarrow> bool" where
  "tchar n \<longleftrightarrow> n = 33 \<or> (35 \<le> n \<and> n \<le> 39) \<or> n = 42 \<or> n = 43 \<or> n = 45 \<or> n = 46
     \<or> (48 \<le> n \<and> n \<le> 57) \<or> (65 \<le> n \<and> n \<le> 90) \<or> (94 \<le> n \<and> n \<le> 122) \<or> n = 124 \<or> n = 126"

lemma tchar_bounds: "tchar n \<Longrightarrow> 33 \<le> n \<and> n \<le> 126 \<and> n \<noteq> 58"
  unfolding tchar_def by (elim disjE conjE) simp_all

text \<open>Case conversion of ASCII letters, as the C code writes it: an offset of 32.\<close>

definition ascii_lower :: "char \<Rightarrow> char" where
  "ascii_lower c = (if 65 \<le> byte c \<and> byte c \<le> 90 then char_of (byte c + 32) else c)"

definition ascii_upper :: "char \<Rightarrow> char" where
  "ascii_upper c = (if 97 \<le> byte c \<and> byte c \<le> 122 then char_of (byte c - 32) else c)"

text \<open>
  \<open>strncasecmp(a, b, n) == 0\<close> in the C locale, for two arrays of which at least \<open>n\<close> bytes are
  readable and which hold no NUL in them: the first \<open>n\<close> bytes agree up to ASCII case.
\<close>

definition strncasecmp_eq :: "bytes \<Rightarrow> bytes \<Rightarrow> nat \<Rightarrow> bool" where
  "strncasecmp_eq a b n \<longleftrightarrow> map ascii_lower (take n a) = map ascii_lower (take n b)"

section \<open>C integers\<close>

text \<open>Conversion to a 32-bit \<open>int\<close>: two's complement truncation, as every supported compiler does.\<close>

definition c_int :: "int \<Rightarrow> int" where
  "c_int n = signed_take_bit 31 n"

definition size_t_max :: nat where
  "size_t_max = 2 ^ 64 - 1"

lemma c_int_id: "- (2 ^ 31) \<le> n \<Longrightarrow> n < 2 ^ 31 \<Longrightarrow> c_int n = n"
  by (simp add: c_int_def signed_take_bit_int_eq_self_iff)

lemma c_int_range: "- (2 ^ 31) \<le> c_int n \<and> c_int n < 2 ^ 31"
  unfolding c_int_def
  using signed_take_bit_int_greater_eq_minus_exp [of 31 n] signed_take_bit_int_less_exp [of 31 n]
  by simp

section \<open>Error results\<close>

text \<open>Sequencing of fallible steps: the first error is the result, as an early return is.\<close>

definition andthen :: "'e + 'a \<Rightarrow> ('a \<Rightarrow> 'e + 'b) \<Rightarrow> 'e + 'b" where
  "andthen m f = (case m of Inl e \<Rightarrow> Inl e | Inr x \<Rightarrow> f x)"

lemma andthen_simps [simp]:
  "andthen (Inl e) f = Inl e"
  "andthen (Inr x) f = f x"
  by (simp_all add: andthen_def)

lemma andthen_eq_Inr [simp]: "andthen m f = Inr y \<longleftrightarrow> (\<exists>x. m = Inr x \<and> f x = Inr y)"
  by (cases m) simp_all

lemma andthen_eq_Inl: "andthen m f = Inl e \<longleftrightarrow> m = Inl e \<or> (\<exists>x. m = Inr x \<and> f x = Inl e)"
  by (cases m) simp_all

lemma andthen_cong [fundef_cong]:
  "m = m' \<Longrightarrow> (\<And>x. m' = Inr x \<Longrightarrow> f x = f' x) \<Longrightarrow> andthen m f = andthen m' f'"
  by (cases m') simp_all

section \<open>Copies into a fixed array\<close>

text \<open>
  \<open>memcpy(buf + off, xs, length xs)\<close>: the bytes from \<open>off\<close> on are replaced. The array keeps its
  length as long as the copy is in bounds, which is what each caller's bound is for.
\<close>

definition blit :: "'a list \<Rightarrow> nat \<Rightarrow> 'a list \<Rightarrow> 'a list" where
  "blit buf off xs = take off buf @ xs @ drop (off + length xs) buf"

lemma length_blit [simp, buf_simps]:
  "off + length xs \<le> length buf \<Longrightarrow> length (blit buf off xs) = length buf"
  by (simp add: blit_def)

lemma take_blit_end [buf_simps]:
  "off + length xs \<le> length buf \<Longrightarrow> take (off + length xs) (blit buf off xs) = take off buf @ xs"
  by (simp add: blit_def)

lemma take_blit_before [buf_simps]:
  "n \<le> off \<Longrightarrow> off \<le> length buf \<Longrightarrow> take n (blit buf off xs) = take n buf"
  by (simp add: blit_def min_def)

lemma blit_Nil [simp]: "blit buf off [] = buf"
  by (simp add: blit_def)

text \<open>A subbuf \<open>buf[a .. b)\<close> of an array.\<close>

definition subbuf :: "nat \<Rightarrow> nat \<Rightarrow> 'a list \<Rightarrow> 'a list" where
  "subbuf a b buf = drop a (take b buf)"

lemma length_subbuf [simp, buf_simps]: "b \<le> length buf \<Longrightarrow> length (subbuf a b buf) = b - a"
  by (simp add: subbuf_def)

lemma subbuf_blit_end [buf_simps]:
  "a \<le> b \<Longrightarrow> b + length xs \<le> length buf \<Longrightarrow>
   subbuf a (b + length xs) (blit buf b xs) = subbuf a b buf @ xs"
  by (simp add: subbuf_def take_blit_end)

lemma subbuf_blit_0 [buf_simps]:
  "length xs \<le> length buf \<Longrightarrow> subbuf 0 (length xs) (blit buf 0 xs) = xs"
  by (simp add: subbuf_def blit_def)

lemma subbuf_drop [buf_simps]: "subbuf (a + n) b buf = drop n (subbuf a b buf)"
  by (simp add: subbuf_def add.commute)

lemma subbuf_empty [simp]: "b \<le> a \<Longrightarrow> subbuf a b buf = []"
  by (simp add: subbuf_def)

end
