(* ===== verification/Parser.thy ===== *)
theory Parser
  imports Prelude
begin

text \<open>
  The request parser, \<^verbatim>\<open>vendor/picohttpparser/picohttpparser.c\<close>, as far as the server calls it:
  \<open>phr_parse_request\<close> and every static function below it.

  A \<open>const char *buf\<close> is the list of bytes from it to \<open>buf_end\<close>. The \<open>ret\<close> codes are
  \<^verbatim>\<open>-2\<close> (\<open>Partial\<close>, more bytes needed) and \<^verbatim>\<open>-1\<close> (\<open>Failed\<close>). The boolean argument \<open>sse\<close> is the
  build: true where \<open>__SSE4_2__\<close> is defined (a \<open>-march=native\<close> build), false otherwise; both
  bodies of the conditional code are modelled and proved equal.
\<close>

section \<open>Definitions\<close>

datatype phr_err = Partial | Failed

subsection \<open>Character classes\<close>

text \<open>\<open>IS_PRINTABLE_ASCII\<close>: one unsigned comparison, with the wrap-around of \<open>c - 040u\<close>.\<close>

definition IS_PRINTABLE_ASCII :: "char \<Rightarrow> bool" where
  "IS_PRINTABLE_ASCII c \<longleftrightarrow> (int (byte c) - 32) mod 2 ^ 32 < 95"

definition token_char_map :: "nat list" where
  "token_char_map =
    [0,0,0,0,0,0,0,0,0,0,0,0,0,0,0,0,0,0,0,0,0,0,0,0,0,0,0,0,0,0,0,0,
     0,1,0,1,1,1,1,1,0,0,1,1,0,1,1,0,1,1,1,1,1,1,1,1,1,1,0,0,0,0,0,0,
     0,1,1,1,1,1,1,1,1,1,1,1,1,1,1,1,1,1,1,1,1,1,1,1,1,1,1,0,0,0,1,1,
     1,1,1,1,1,1,1,1,1,1,1,1,1,1,1,1,1,1,1,1,1,1,1,1,1,1,1,0,1,0,1,0,
     0,0,0,0,0,0,0,0,0,0,0,0,0,0,0,0,0,0,0,0,0,0,0,0,0,0,0,0,0,0,0,0,
     0,0,0,0,0,0,0,0,0,0,0,0,0,0,0,0,0,0,0,0,0,0,0,0,0,0,0,0,0,0,0,0,
     0,0,0,0,0,0,0,0,0,0,0,0,0,0,0,0,0,0,0,0,0,0,0,0,0,0,0,0,0,0,0,0,
     0,0,0,0,0,0,0,0,0,0,0,0,0,0,0,0,0,0,0,0,0,0,0,0,0,0,0,0,0,0,0,0]"

definition is_token_char :: "char \<Rightarrow> bool" where
  "is_token_char c \<longleftrightarrow> token_char_map ! byte c \<noteq> 0"

text \<open>The byte that ends the scan of a field value: a control other than HTAB, or DEL.\<close>

definition is_eol_ctl :: "char \<Rightarrow> bool" where
  "is_eol_ctl c \<longleftrightarrow> (byte c < 32 \<and> c \<noteq> TAB) \<or> c = DEL"

subsection \<open>The vectorised scan\<close>

text \<open>\<open>_mm_cmpestri\<close> with \<open>_SIDD_CMP_RANGES\<close>: membership in a list of inclusive ranges.\<close>

fun in_ranges :: "nat list \<Rightarrow> nat \<Rightarrow> bool" where
  "in_ranges (lo # hi # rs) b \<longleftrightarrow> (lo \<le> b \<and> b \<le> hi) \<or> in_ranges rs b"
| "in_ranges _ b \<longleftrightarrow> False"

text \<open>\<open>findchar_fast\<close>: whole 16-byte blocks only; the flag is \<open>*found\<close>.\<close>

function findchar_blocks :: "nat list \<Rightarrow> bytes \<Rightarrow> bool \<times> bytes" where
  "findchar_blocks rs buf =
     (if length buf < 16 then (False, buf)
      else if \<exists>c \<in> set (take 16 buf). in_ranges rs (byte c)
        then (True, dropWhile (\<lambda>c. \<not> in_ranges rs (byte c)) buf)
      else findchar_blocks rs (drop 16 buf))"
  by pat_completeness auto
termination
  by (relation "measure (\<lambda>(rs, buf). length buf)") auto

declare findchar_blocks.simps [simp del]

definition findchar_fast :: "bool \<Rightarrow> nat list \<Rightarrow> bytes \<Rightarrow> bool \<times> bytes" where
  "findchar_fast sse rs buf = (if sse then findchar_blocks rs buf else (False, buf))"

subsection \<open>Tokens\<close>

definition token_ranges :: "nat list" where
  "token_ranges = [0x00, 0x20, 0x22, 0x22, 0x28, 0x29, 0x2C, 0x2C, 0x2F, 0x2F, 0x3A, 0x40,
                   0x5B, 0x5D, 0x7B, 0xFF]"

text \<open>The slow loop of \<open>parse_token\<close>: the rest starts at \<open>next_char\<close>.\<close>

fun token_loop :: "char \<Rightarrow> bytes \<Rightarrow> phr_err + bytes" where
  "token_loop next_char [] = Inl Partial"
| "token_loop next_char (c # cs) =
     (if c = next_char then Inr (c # cs)
      else if \<not> is_token_char c then Inl Failed
      else token_loop next_char cs)"

text \<open>A token is what lies between \<open>buf_start\<close> and \<open>buf\<close>.\<close>

definition between :: "bytes \<Rightarrow> bytes \<Rightarrow> bytes" where
  "between start rest = take (length start - length rest) start"

definition parse_token :: "bool \<Rightarrow> char \<Rightarrow> bytes \<Rightarrow> phr_err + (bytes \<times> bytes)" where
  "parse_token sse next_char buf =
     (let (found, b) = findchar_fast sse token_ranges buf
      in if \<not> found \<and> b = [] then Inl Partial
         else andthen (token_loop next_char b) (\<lambda>r. Inr (between buf r, r)))"

text \<open>The macro \<open>ADVANCE_TOKEN\<close>, which reads the request target.\<close>

definition path_ranges :: "nat list" where
  "path_ranges = [0x00, 0x20, 0x7F, 0x7F]"

fun advance_loop :: "bytes \<Rightarrow> phr_err + bytes" where
  "advance_loop [] = Inl Partial"
| "advance_loop (c # cs) =
     (if c = SP then Inr (c # cs)
      else if \<not> IS_PRINTABLE_ASCII c \<and> (byte c < 32 \<or> c = DEL) then Inl Failed
      else advance_loop cs)"

definition advance_token :: "bool \<Rightarrow> bytes \<Rightarrow> phr_err + (bytes \<times> bytes)" where
  "advance_token sse buf =
     (let (found, b) = findchar_fast sse path_ranges buf
      in if \<not> found \<and> b = [] then Inl Partial
         else andthen (advance_loop b) (\<lambda>r. Inr (between buf r, r)))"

subsection \<open>The rest of a line\<close>

definition eol_ranges :: "nat list" where
  "eol_ranges = [0x00, 0x08, 0x0A, 0x1F, 0x7F, 0x7F]"

text \<open>
  The unrolled loop of the build without SSE: eight \<open>DOIT()\<close> at a time; a non-printable byte
  that is no line end (HTAB, or a byte with the top bit set) is skipped and the loop goes on.
\<close>

function eol_unrolled :: "bytes \<Rightarrow> bool \<times> bytes" where
  "eol_unrolled buf =
     (if length buf < 8 then (False, buf)
      else let b = dropWhile IS_PRINTABLE_ASCII (take 8 buf) @ drop 8 buf
           in if length b = length buf - 8 then eol_unrolled b
              else if is_eol_ctl (hd b) then (True, b)
              else eol_unrolled (tl b))"
  by pat_completeness auto
termination
proof (relation "measure length")
  fix buf x :: bytes
  assume long: "\<not> length buf < 8" and x: "x = dropWhile IS_PRINTABLE_ASCII (take 8 buf) @ drop 8 buf"
    and "length x \<noteq> length buf - 8"
  moreover from x long have "length x \<le> length buf"
    using length_dropWhile_le [of IS_PRINTABLE_ASCII "take 8 buf"] by simp
  ultimately show "(tl x, buf) \<in> measure length" by (cases x) auto
qed auto

declare eol_unrolled.simps [simp del]

text \<open>The byte-by-byte loop after it.\<close>

fun eol_scan :: "bytes \<Rightarrow> phr_err + bytes" where
  "eol_scan [] = Inl Partial"
| "eol_scan (c # cs) =
     (if \<not> IS_PRINTABLE_ASCII c \<and> is_eol_ctl c then Inr (c # cs) else eol_scan cs)"

text \<open>The label \<open>FOUND_CTL\<close>.\<close>

definition found_ctl :: "bytes \<Rightarrow> bytes \<Rightarrow> phr_err + (bytes \<times> bytes)" where
  "found_ctl start buf =
     (case buf of
        [] \<Rightarrow> Inl Partial
      | c # cs \<Rightarrow>
          if c = CR then
            (case cs of
               [] \<Rightarrow> Inl Partial
             | d # ds \<Rightarrow> if d = LF then Inr (between start buf, ds) else Inl Failed)
          else if c = LF then Inr (between start buf, cs)
          else Inl Failed)"

definition get_token_to_eol :: "bool \<Rightarrow> bytes \<Rightarrow> phr_err + (bytes \<times> bytes)" where
  "get_token_to_eol sse buf =
     (let (found, b) = (if sse then findchar_fast sse eol_ranges buf else eol_unrolled buf)
      in if found then found_ctl buf b else andthen (eol_scan b) (found_ctl buf))"

subsection \<open>Completeness check\<close>

fun is_complete_loop :: "nat \<Rightarrow> bytes \<Rightarrow> phr_err + bytes" where
  "is_complete_loop ret_cnt [] = Inl Partial"
| "is_complete_loop ret_cnt (c # cs) =
     (if c = CR then
        (case cs of
           [] \<Rightarrow> Inl Partial
         | d # ds \<Rightarrow>
             if d \<noteq> LF then Inl Failed
             else if Suc ret_cnt = 2 then Inr ds
             else is_complete_loop (Suc ret_cnt) ds)
      else if c = LF then
        (if Suc ret_cnt = 2 then Inr cs else is_complete_loop (Suc ret_cnt) cs)
      else is_complete_loop 0 cs)"

definition is_complete :: "bytes \<Rightarrow> nat \<Rightarrow> phr_err + bytes" where
  "is_complete buf last_len =
     is_complete_loop 0 (if last_len < 3 then buf else drop (last_len - 3) buf)"

subsection \<open>Version, header fields, request line\<close>

text \<open>Nine readable bytes are required first; the digit is the minor version.\<close>

definition http_1_dot :: bytes where
  "http_1_dot = ''HTTP/1.''"

definition parse_http_version :: "bytes \<Rightarrow> phr_err + (nat \<times> bytes)" where
  "parse_http_version buf =
     (if length buf < 9 then Inl Partial
      else if take 7 buf \<noteq> http_1_dot then Inl Failed
      else if byte (buf ! 7) < 48 \<or> 57 < byte (buf ! 7) then Inl Failed
      else Inr (byte (buf ! 7) - 48, drop 8 buf))"

text \<open>
  \<open>struct phr_header\<close>. A null \<open>name\<close> marks the continuation line of a folded field. The C struct
  points into the request buffer; the model carries the bytes pointed at.
\<close>

record phr_header =
  hname :: "bytes option"
  hvalue :: bytes

definition is_ws :: "char \<Rightarrow> bool" where
  "is_ws c \<longleftrightarrow> c = SP \<or> c = TAB"

text \<open>\<open>for (;; ++buf)\<close> over leading blanks, with \<open>CHECK_EOF\<close> in the loop.\<close>

fun skip_ws :: "bytes \<Rightarrow> phr_err + bytes" where
  "skip_ws [] = Inl Partial"
| "skip_ws (c # cs) = (if is_ws c then skip_ws cs else Inr (c # cs))"

text \<open>\<open>do { ++buf; CHECK_EOF(); } while (*buf == ' ')\<close>, entered with \<open>*buf\<close> the first blank.\<close>

fun skip_sp :: "bytes \<Rightarrow> phr_err + bytes" where
  "skip_sp [] = Inl Partial"
| "skip_sp (c # cs) = (if c = SP then skip_sp cs else Inr (c # cs))"

text \<open>Trailing blanks are removed from the end of the value.\<close>

definition strip_value :: "bytes \<Rightarrow> bytes" where
  "strip_value v = rev (dropWhile is_ws (rev v))"

definition parse_header_name :: "bool \<Rightarrow> bytes \<Rightarrow> phr_err + (bytes option \<times> bytes)" where
  "parse_header_name sse buf =
     andthen (parse_token sse COLON buf) (\<lambda>(name, b).
       if name = [] then Inl Failed
       else andthen (skip_ws (tl b)) (\<lambda>b'. Inr (Some name, b')))"

text \<open>The end of a line: CRLF or a bare LF; \<open>None\<close> where \<open>*buf\<close> is neither CR nor LF.\<close>

definition line_end :: "bytes \<Rightarrow> (phr_err + bytes) option" where
  "line_end buf =
     (case buf of
        [] \<Rightarrow> None
      | c # cs \<Rightarrow>
          if c = CR then
            Some (case cs of [] \<Rightarrow> Inl Partial | d # ds \<Rightarrow> if d = LF then Inr ds else Inl Failed)
          else if c = LF then Some (Inr cs)
          else None)"

text \<open>One field line: its name (unless it is folded), then its value to the end of the line.\<close>

definition parse_field :: "bool \<Rightarrow> bool \<Rightarrow> bytes \<Rightarrow> phr_err + (phr_header \<times> bytes)" where
  "parse_field sse first buf =
     andthen (if \<not> first \<and> is_ws (hd buf) then Inr (None, buf) else parse_header_name sse buf)
       (\<lambda>(name, b). andthen (get_token_to_eol sse b)
         (\<lambda>(value, b'). Inr (\<lparr>hname = name, hvalue = strip_value value\<rparr>, b')))"

section \<open>The scanners meet their simple forms\<close>

text \<open>Single bytes: each fact is decided for all 256 of them.\<close>

lemma printable_iff [byte_simps]: "IS_PRINTABLE_ASCII c \<longleftrightarrow> 32 \<le> byte c \<and> byte c < 127"
proof (cases "32 \<le> byte c")
  case True
  then have "(int (byte c) - 32) mod 2 ^ 32 = int (byte c) - 32"
    using byte_lt_256 [of c]
    by (intro mod_pos_pos_trivial; simp del: nat_of_char_less_256; linarith)
  with True show ?thesis by (auto simp: IS_PRINTABLE_ASCII_def)
next
  case False
  then have "(int (byte c) - 32) mod 2 ^ 32 = int (byte c) - 32 + 2 ^ 32"
    by (subst mod_add_self2 [symmetric], intro mod_pos_pos_trivial) auto
  with False show ?thesis by (auto simp: IS_PRINTABLE_ASCII_def)
qed

lemma token_char_iff: "is_token_char c \<longleftrightarrow> tchar (byte c)"
proof -
  have "list_all2 (\<lambda>n b. b \<noteq> 0 \<longleftrightarrow> tchar n) [0..<256] token_char_map"
    by (simp add: byte_enum token_char_map_def tchar_def)
  from byte_table [OF this, of c] show ?thesis by (simp add: is_token_char_def)
qed

lemma not_token_range:
  assumes "\<not> in_ranges token_ranges (byte c)"
  shows "is_token_char c \<and> c \<noteq> SP \<and> c \<noteq> COLON"
proof -
  have "list_all (\<lambda>n. \<not> in_ranges token_ranges n \<longrightarrow> tchar n \<and> n \<noteq> 32 \<and> n \<noteq> 58) [0..<256]"
    by (simp add: byte_enum token_ranges_def tchar_def)
  from byte_all [OF this, of c] assms show ?thesis by (auto simp: token_char_iff eq_delim)
qed

lemma not_path_range: "\<not> in_ranges path_ranges (byte c) \<Longrightarrow> c \<noteq> SP \<and> 32 \<le> byte c \<and> c \<noteq> DEL"
  by (auto simp: path_ranges_def eq_delim)

lemma eol_range_iff: "in_ranges eol_ranges (byte c) \<longleftrightarrow> is_eol_ctl c"
  by (auto simp: eol_ranges_def is_eol_ctl_def eq_delim)

lemma eol_ctl_not_printable: "is_eol_ctl c \<Longrightarrow> \<not> IS_PRINTABLE_ASCII c"
  by (auto simp: is_eol_ctl_def printable_iff)

text \<open>What a block scan passes over holds no byte of the ranges.\<close>

lemma findchar_blocks_passes:
  "findchar_blocks rs buf = (found, b) \<Longrightarrow>
   \<exists>p. buf = p @ b \<and> (\<forall>c \<in> set p. \<not> in_ranges rs (byte c)) \<and> (found \<longrightarrow> b \<noteq> [] \<and> in_ranges rs (byte (hd b)))"
proof (induction rs buf arbitrary: found b rule: findchar_blocks.induct)
  case (1 rs buf)
  consider (short) "length buf < 16"
    | (hit) "\<not> length buf < 16" "\<exists>c \<in> set (take 16 buf). in_ranges rs (byte c)"
    | (miss) "\<not> length buf < 16" "\<not> (\<exists>c \<in> set (take 16 buf). in_ranges rs (byte c))"
    by blast
  then show ?case
  proof cases
    case short
    with 1 show ?thesis by (simp add: findchar_blocks.simps [of rs buf])
  next
    case hit
    then obtain c where "c \<in> set buf" "in_ranges rs (byte c)" by (auto dest: in_set_takeD)
    then have "dropWhile (\<lambda>c. \<not> in_ranges rs (byte c)) buf \<noteq> []" by (auto simp: dropWhile_eq_Nil_conv)
    moreover from this have "in_ranges rs (byte (hd (dropWhile (\<lambda>c. \<not> in_ranges rs (byte c)) buf)))"
      using hd_dropWhile [of "\<lambda>c. \<not> in_ranges rs (byte c)" buf] by blast
    moreover from hit "1.prems" have "found" "b = dropWhile (\<lambda>c. \<not> in_ranges rs (byte c)) buf"
      by (auto simp: findchar_blocks.simps [of rs buf])
    ultimately show ?thesis
      using set_takeWhileD [of _ "\<lambda>c. \<not> in_ranges rs (byte c)" buf]
      by (intro exI [of _ "takeWhile (\<lambda>c. \<not> in_ranges rs (byte c)) buf"]) auto
  next
    case miss
    with "1.prems" have "findchar_blocks rs (drop 16 buf) = (found, b)"
      by (simp add: findchar_blocks.simps [of rs buf])
    from "1.IH" [OF miss this] obtain p where
      "drop 16 buf = p @ b" "\<forall>c \<in> set p. \<not> in_ranges rs (byte c)"
      "found \<longrightarrow> b \<noteq> [] \<and> in_ranges rs (byte (hd b))" by blast
    moreover from this have "buf = (take 16 buf @ p) @ b"
      using append_take_drop_id [of 16 buf] by simp
    ultimately show ?thesis using miss by (intro exI [of _ "take 16 buf @ p"]) auto
  qed
qed

lemma findchar_fast_passes:
  assumes "findchar_fast sse rs buf = (found, b)"
  obtains p where "buf = p @ b" "\<forall>c \<in> set p. \<not> in_ranges rs (byte c)"
    "found \<longrightarrow> b \<noteq> [] \<and> in_ranges rs (byte (hd b))"
  using assms findchar_blocks_passes [of rs buf found b]
  by (cases sse) (auto simp: findchar_fast_def)

lemma eol_unrolled_passes:
  "eol_unrolled buf = (found, b) \<Longrightarrow>
   \<exists>p. buf = p @ b \<and> (\<forall>c \<in> set p. \<not> is_eol_ctl c) \<and> (found \<longrightarrow> b \<noteq> [] \<and> is_eol_ctl (hd b))"
proof (induction buf arbitrary: found b rule: eol_unrolled.induct)
  case (1 buf)
  define q where "q = takeWhile IS_PRINTABLE_ASCII (take 8 buf)"
  define r where "r = dropWhile IS_PRINTABLE_ASCII (take 8 buf) @ drop 8 buf"
  have buf: "buf = q @ r"
    unfolding q_def r_def by (metis append_assoc append_take_drop_id takeWhile_dropWhile_id)
  have q: "\<forall>c \<in> set q. \<not> is_eol_ctl c"
    using eol_ctl_not_printable by (auto simp: q_def dest: set_takeWhileD)
  consider (short) "length buf < 8" | (all) "\<not> length buf < 8" "length r = length buf - 8"
    | (hit) "\<not> length buf < 8" "length r \<noteq> length buf - 8" "is_eol_ctl (hd r)"
    | (skip) "\<not> length buf < 8" "length r \<noteq> length buf - 8" "\<not> is_eol_ctl (hd r)"
    by blast
  then show ?case
  proof cases
    case short
    with 1 show ?thesis by (simp add: eol_unrolled.simps [of buf])
  next
    case all
    with "1.prems" have "eol_unrolled r = (found, b)"
      by (simp add: eol_unrolled.simps [of buf] r_def)
    from "1.IH"(1) [OF all(1) r_def all(2) this] obtain p where
      "r = p @ b" "\<forall>c \<in> set p. \<not> is_eol_ctl c" "found \<longrightarrow> b \<noteq> [] \<and> is_eol_ctl (hd b)" by blast
    with buf q show ?thesis by (intro exI [of _ "q @ p"]) auto
  next
    case hit
    then have "r \<noteq> []" using length_0_conv [of r] by (auto simp: r_def)
    moreover from hit "1.prems" have "found" "b = r"
      by (auto simp: eol_unrolled.simps [of buf] r_def Let_def)
    ultimately show ?thesis using buf q hit by (intro exI [of _ q]) auto
  next
    case skip
    then have ne: "r \<noteq> []" using length_0_conv [of r] by (auto simp: r_def)
    from skip "1.prems" have "eol_unrolled (tl r) = (found, b)"
      by (simp add: eol_unrolled.simps [of buf] r_def Let_def)
    from "1.IH"(2) [OF skip(1) r_def skip(2,3) this] obtain p where
      "tl r = p @ b" "\<forall>c \<in> set p. \<not> is_eol_ctl c" "found \<longrightarrow> b \<noteq> [] \<and> is_eol_ctl (hd b)" by blast
    with buf q ne skip show ?thesis by (intro exI [of _ "q @ hd r # p"]) (cases r; auto)
  qed
qed

text \<open>The loops, run over a prefix they pass.\<close>

lemma token_loop_append:
  "\<forall>c \<in> set p. is_token_char c \<and> c \<noteq> nc \<Longrightarrow> token_loop nc (p @ b) = token_loop nc b"
  by (induction p) auto

lemma advance_loop_append:
  "\<forall>c \<in> set p. c \<noteq> SP \<and> 32 \<le> byte c \<and> c \<noteq> DEL \<Longrightarrow> advance_loop (p @ b) = advance_loop b"
  by (induction p) auto

lemma eol_scan_append: "\<forall>c \<in> set p. \<not> is_eol_ctl c \<Longrightarrow> eol_scan (p @ b) = eol_scan b"
  by (induction p) auto

lemma eol_scan_hit: "b \<noteq> [] \<Longrightarrow> is_eol_ctl (hd b) \<Longrightarrow> eol_scan b = Inr b"
  using eol_ctl_not_printable by (cases b) auto

text \<open>Both builds compute the plain loops.\<close>

lemma parse_token_simple:
  assumes "nc = SP \<or> nc = COLON"
  shows "parse_token sse nc buf = andthen (token_loop nc buf) (\<lambda>r. Inr (between buf r, r))"
proof -
  obtain found b where f: "findchar_fast sse token_ranges buf = (found, b)" by force
  then obtain p where p: "buf = p @ b" "\<forall>c \<in> set p. \<not> in_ranges token_ranges (byte c)"
    and hit: "found \<longrightarrow> b \<noteq> [] \<and> in_ranges token_ranges (byte (hd b))"
    by (rule findchar_fast_passes)
  have "\<forall>c \<in> set p. is_token_char c \<and> c \<noteq> nc"
    using p(2) not_token_range assms by blast
  then have "token_loop nc buf = token_loop nc b" using p(1) by (simp add: token_loop_append)
  then show ?thesis by (simp add: parse_token_def f)
qed

lemma advance_token_simple:
  "advance_token sse buf = andthen (advance_loop buf) (\<lambda>r. Inr (between buf r, r))"
proof -
  obtain found b where f: "findchar_fast sse path_ranges buf = (found, b)" by force
  then obtain p where p: "buf = p @ b" "\<forall>c \<in> set p. \<not> in_ranges path_ranges (byte c)"
    by (rule findchar_fast_passes)
  then have "advance_loop buf = advance_loop b"
    using not_path_range by (simp add: advance_loop_append)
  then show ?thesis by (simp add: advance_token_def f)
qed

lemma get_token_to_eol_simple: "get_token_to_eol sse buf = andthen (eol_scan buf) (found_ctl buf)"
proof -
  obtain found b where
    f: "(if sse then findchar_fast sse eol_ranges buf else eol_unrolled buf) = (found, b)" by force
  obtain p where p: "buf = p @ b" "\<forall>c \<in> set p. \<not> is_eol_ctl c"
    and hit: "found \<longrightarrow> b \<noteq> [] \<and> is_eol_ctl (hd b)"
  proof (cases sse)
    case True
    with f have "findchar_fast sse eol_ranges buf = (found, b)" by simp
    then show thesis by (rule findchar_fast_passes) (use that in \<open>simp add: eol_range_iff\<close>)
  next
    case False
    with f eol_unrolled_passes [of buf found b] show thesis using that by auto
  qed
  then have "eol_scan buf = eol_scan b" by (simp add: eol_scan_append)
  moreover have "found \<Longrightarrow> eol_scan b = Inr b" using hit by (simp add: eol_scan_hit)
  ultimately show ?thesis using f by (auto simp: get_token_to_eol_def)
qed

text \<open>What each plain loop accepts.\<close>

lemma token_loop_Inr:
  "token_loop nc buf = Inr r \<longleftrightarrow>
   (\<exists>t r'. buf = t @ r \<and> r = nc # r' \<and> (\<forall>c \<in> set t. is_token_char c \<and> c \<noteq> nc))"
proof
  show "token_loop nc buf = Inr r \<Longrightarrow>
    \<exists>t r'. buf = t @ r \<and> r = nc # r' \<and> (\<forall>c \<in> set t. is_token_char c \<and> c \<noteq> nc)"
  proof (induction nc buf rule: token_loop.induct)
    case (2 nc c cs)
    show ?case
    proof (cases "c = nc")
      case True
      with 2 show ?thesis by - (rule exI [of _ "[]"], auto)
    next
      case False
      with 2 obtain t r' where "cs = t @ r" "r = nc # r'" "\<forall>c \<in> set t. is_token_char c \<and> c \<noteq> nc"
        "is_token_char c" by (auto split: if_splits)
      with False show ?thesis by - (rule exI [of _ "c # t"], auto)
    qed
  qed simp
qed (auto simp: token_loop_append)

lemma advance_loop_Inr:
  "advance_loop buf = Inr r \<longleftrightarrow>
   (\<exists>t r'. buf = t @ r \<and> r = SP # r' \<and> (\<forall>c \<in> set t. c \<noteq> SP \<and> 32 \<le> byte c \<and> c \<noteq> DEL))"
proof
  show "advance_loop buf = Inr r \<Longrightarrow>
    \<exists>t r'. buf = t @ r \<and> r = SP # r' \<and> (\<forall>c \<in> set t. c \<noteq> SP \<and> 32 \<le> byte c \<and> c \<noteq> DEL)"
  proof (induction buf rule: advance_loop.induct)
    case (2 c cs)
    show ?case
    proof (cases "c = SP")
      case True
      with 2 show ?thesis by - (rule exI [of _ "[]"], auto)
    next
      case False
      have "\<not> IS_PRINTABLE_ASCII c \<and> (byte c < 32 \<or> c = DEL) \<longleftrightarrow> byte c < 32 \<or> c = DEL"
        by (auto simp: printable_iff)
      with 2 False obtain t r' where "cs = t @ r" "r = SP # r'" "32 \<le> byte c" "c \<noteq> DEL"
        "\<forall>c \<in> set t. c \<noteq> SP \<and> 32 \<le> byte c \<and> c \<noteq> DEL" by (auto split: if_splits)
      with False show ?thesis by - (rule exI [of _ "c # t"], auto)
    qed
  qed simp
next
  assume "\<exists>t r'. buf = t @ r \<and> r = SP # r' \<and> (\<forall>c \<in> set t. c \<noteq> SP \<and> 32 \<le> byte c \<and> c \<noteq> DEL)"
  then show "advance_loop buf = Inr r"
    by (elim exE conjE) (simp only: advance_loop_append advance_loop.simps if_True simp_thms)
qed

lemma eol_scan_Inr:
  "eol_scan buf = Inr r \<longleftrightarrow>
   (\<exists>t c r'. buf = t @ r \<and> r = c # r' \<and> is_eol_ctl c \<and> (\<forall>c \<in> set t. \<not> is_eol_ctl c))"
proof
  show "eol_scan buf = Inr r \<Longrightarrow>
    \<exists>t c r'. buf = t @ r \<and> r = c # r' \<and> is_eol_ctl c \<and> (\<forall>c \<in> set t. \<not> is_eol_ctl c)"
  proof (induction buf rule: eol_scan.induct)
    case (2 c cs)
    show ?case
    proof (cases "is_eol_ctl c")
      case True
      with 2 show ?thesis using eol_ctl_not_printable [of c] by - (rule exI [of _ "[]"], auto)
    next
      case False
      with 2 obtain t d r' where "cs = t @ r" "r = d # r'" "is_eol_ctl d" "\<forall>c \<in> set t. \<not> is_eol_ctl c"
        by auto
      with False show ?thesis by - (rule exI [of _ "c # t"], auto)
    qed
  qed simp
qed (auto simp: eol_scan_append dest: eol_ctl_not_printable)

text \<open>Ends of lines.\<close>

definition is_eol :: "bytes \<Rightarrow> bool" where
  "is_eol e \<longleftrightarrow> e = CRLF \<or> e = [LF]"

lemma between_append [simp]: "between (t @ r) r = t"
  by (simp add: between_def)

lemma line_end_Inr:
  "line_end buf = Some (Inr r) \<longleftrightarrow> (\<exists>e. is_eol e \<and> buf = e @ r)"
proof -
  have "line_end buf = Some (Inr r) \<longleftrightarrow> buf = CR # LF # r \<or> buf = LF # r"
    by (simp add: line_end_def split: list.split)
  then show ?thesis unfolding is_eol_def by fastforce
qed

lemma line_end_None: "line_end buf = None \<longleftrightarrow> buf = [] \<or> hd buf \<noteq> CR \<and> hd buf \<noteq> LF"
  by (cases buf) (auto simp: line_end_def)

lemma parse_token_Inr:
  assumes "nc = SP \<or> nc = COLON"
  shows "parse_token sse nc buf = Inr (t, r) \<longleftrightarrow>
    (\<exists>r'. buf = t @ r \<and> r = nc # r' \<and> (\<forall>c \<in> set t. is_token_char c))"
proof -
  have nt: "\<not> is_token_char nc" using assms by (auto simp: token_char_iff tchar_def)
  show ?thesis
    unfolding parse_token_simple [OF assms] andthen_eq_Inr token_loop_Inr using nt by auto
qed

lemma advance_token_Inr:
  "advance_token sse buf = Inr (t, r) \<longleftrightarrow>
   (\<exists>r'. buf = t @ r \<and> r = SP # r' \<and> (\<forall>c \<in> set t. c \<noteq> SP \<and> 32 \<le> byte c \<and> c \<noteq> DEL))"
  unfolding advance_token_simple andthen_eq_Inr advance_loop_Inr by auto

lemma get_token_to_eol_Inr:
  "get_token_to_eol sse buf = Inr (v, r) \<longleftrightarrow>
   (\<exists>e. buf = v @ e @ r \<and> is_eol e \<and> (\<forall>c \<in> set v. \<not> is_eol_ctl c))"
  (is "?L \<longleftrightarrow> ?R")
proof
  assume ?L
  then obtain b where b: "eol_scan buf = Inr b" "found_ctl buf b = Inr (v, r)"
    by (auto simp: get_token_to_eol_simple)
  then obtain t c b' where t: "buf = t @ b" "b = c # b'" "\<forall>c \<in> set t. \<not> is_eol_ctl c"
    by (auto simp: eol_scan_Inr)
  have "v = t \<and> (\<exists>e. is_eol e \<and> b = e @ r)"
    using b(2) t(1,2) by (auto simp: found_ctl_def is_eol_def split: if_splits list.splits)
  with t show ?R by auto
next
  assume ?R
  then obtain e where e: "buf = v @ e @ r" "is_eol e" "\<forall>c \<in> set v. \<not> is_eol_ctl c" by blast
  then have "eol_scan buf = Inr (e @ r)"
    by (auto simp: eol_scan_append is_eol_def is_eol_ctl_def printable_iff)
  with e show ?L by (auto simp: get_token_to_eol_simple found_ctl_def is_eol_def)
qed

lemma skip_ws_Inr:
  "skip_ws buf = Inr r \<longleftrightarrow> (\<exists>w. buf = w @ r \<and> (\<forall>c \<in> set w. is_ws c) \<and> r \<noteq> [] \<and> \<not> is_ws (hd r))"
  (is "?L buf \<longleftrightarrow> ?R buf")
proof (induction buf)
  case (Cons c cs)
  show ?case
  proof (cases "is_ws c")
    case True
    then have "?R (c # cs) \<longleftrightarrow> ?R cs"
      by (auto simp: Cons_eq_append_conv)
    with True Cons show ?thesis by simp
  qed (auto simp: Cons_eq_append_conv)
qed simp

lemma skip_sp_Inr:
  "skip_sp buf = Inr r \<longleftrightarrow> (\<exists>w. buf = w @ r \<and> (\<forall>c \<in> set w. c = SP) \<and> r \<noteq> [] \<and> hd r \<noteq> SP)"
  (is "?L buf \<longleftrightarrow> ?R buf")
proof (induction buf)
  case (Cons c cs)
  show ?case
  proof (cases "c = SP")
    case True
    then have "?R (c # cs) \<longleftrightarrow> ?R cs"
      by (auto simp: Cons_eq_append_conv)
    with True Cons show ?thesis by simp
  qed (auto simp: Cons_eq_append_conv)
qed simp

lemma length_http_1_dot [simp]: "length http_1_dot = 7"
  by (simp add: http_1_dot_def)

lemma parse_http_version_Inr:
  "parse_http_version buf = Inr (m, r) \<longleftrightarrow>
   m \<le> 9 \<and> r \<noteq> [] \<and> buf = http_1_dot @ char_of (48 + m) # r"
  (is "?L \<longleftrightarrow> ?R")
proof
  assume L: ?L
  then have len: "9 \<le> length buf" and t7: "take 7 buf = http_1_dot"
    and b: "48 \<le> byte (buf ! 7)" "byte (buf ! 7) \<le> 57"
    and m: "m = byte (buf ! 7) - 48" and r: "r = drop 8 buf"
    by (auto simp: parse_http_version_def split: if_splits)
  have "buf = take 7 buf @ buf ! 7 # drop 8 buf"
    using len id_take_nth_drop [of 7 buf] by simp
  moreover have "char_of (48 + m) = buf ! 7" using b m by simp
  moreover have "r \<noteq> []" using len r by simp
  moreover have "m \<le> 9" using b m by linarith
  ultimately show ?R using t7 r by simp
next
  assume R: ?R
  then have "byte (char_of (48 + m) :: char) = 48 + m" by (simp add: of_char_of)
  moreover from R have "9 \<le> length buf" by (cases r) auto
  ultimately show ?L using R by (simp add: parse_http_version_def nth_append)
qed


lemma parse_header_name_Inr:
  "parse_header_name sse buf = Inr (n, r) \<longleftrightarrow>
   (\<exists>name w. n = Some name \<and> name \<noteq> [] \<and> (\<forall>c \<in> set name. is_token_char c)
      \<and> buf = name @ COLON # w @ r \<and> (\<forall>c \<in> set w. is_ws c) \<and> r \<noteq> [] \<and> \<not> is_ws (hd r))"
  by (auto simp: parse_header_name_def parse_token_Inr skip_ws_Inr split: if_splits)

definition field_name_ok :: "bool \<Rightarrow> bytes option \<Rightarrow> bool" where
  "field_name_ok first n =
     (case n of None \<Rightarrow> \<not> first | Some name \<Rightarrow> name \<noteq> [] \<and> (\<forall>c \<in> set name. is_token_char c))"

lemma token_char_not_eol: "is_token_char c \<Longrightarrow> \<not> is_eol_ctl c"
  by (auto simp: token_char_iff tchar_def is_eol_ctl_def eq_delim)

lemma colon_not_eol: "\<not> is_eol_ctl COLON"
  by (simp add: is_eol_ctl_def)

lemma ws_not_eol: "is_ws c \<Longrightarrow> \<not> is_eol_ctl c"
  by (auto simp: is_ws_def is_eol_ctl_def)

lemma eol_hd: "is_eol e \<Longrightarrow> e \<noteq> [] \<and> (hd e = CR \<or> hd e = LF) \<and> \<not> is_ws (hd e)"
  by (auto simp: is_eol_def is_ws_def)

text \<open>
  A field line is consumed whole, and what follows it plays no part: the parse is decided by the
  bytes of the line alone.
\<close>

lemma parse_field_local:
  assumes h: "parse_field sse first buf = Inr (h, r)" and ne: "buf \<noteq> []"
  obtains q e v where "buf = q @ e @ r" "is_eol e" "\<forall>c \<in> set q. \<not> is_eol_ctl c"
    "hvalue h = strip_value v" "\<forall>c \<in> set v. \<not> is_eol_ctl c" "field_name_ok first (hname h)"
    "hname h \<noteq> None \<Longrightarrow> v \<noteq> [] \<Longrightarrow> \<not> is_ws (hd v)"
    "\<forall>r'. parse_field sse first (q @ e @ r') = Inr (h, r')"
proof (cases "\<not> first \<and> is_ws (hd buf)")
  case True
  then obtain v e where b: "buf = v @ e @ r" "is_eol e" "\<forall>c \<in> set v. \<not> is_eol_ctl c"
    and hh: "h = \<lparr>hname = None, hvalue = strip_value v\<rparr>"
    using h by (auto simp: parse_field_def get_token_to_eol_Inr)
  have v: "v \<noteq> []" using True b eol_hd [of e] by (cases v) auto
  have "parse_field sse first (v @ e @ r') = Inr (h, r')" for r'
  proof -
    have "\<not> first \<and> is_ws (hd (v @ e @ r'))" using True v b(1) by simp
    moreover have "get_token_to_eol sse (v @ e @ r') = Inr (v, r')"
      using b by (auto simp: get_token_to_eol_Inr)
    ultimately show ?thesis by (simp add: parse_field_def hh)
  qed
  with b hh True show thesis by (intro that [of v e v]) (auto simp: field_name_ok_def)
next
  case False
  then obtain n b v where n: "parse_header_name sse buf = Inr (n, b)"
    and g: "get_token_to_eol sse b = Inr (v, r)"
    and hh: "h = \<lparr>hname = n, hvalue = strip_value v\<rparr>"
    using h by (auto simp: parse_field_def)
  from n obtain name w where nm: "n = Some name" "name \<noteq> []" "\<forall>c \<in> set name. is_token_char c"
    and b: "buf = name @ COLON # w @ b" "\<forall>c \<in> set w. is_ws c" "b \<noteq> []" "\<not> is_ws (hd b)"
    by (auto simp: parse_header_name_Inr)
  from g obtain e where e: "b = v @ e @ r" "is_eol e" "\<forall>c \<in> set v. \<not> is_eol_ctl c"
    by (auto simp: get_token_to_eol_Inr)
  let ?q = "name @ COLON # w @ v"
  have q: "\<forall>c \<in> set ?q. \<not> is_eol_ctl c"
    using nm(3) b(2) e(3) token_char_not_eol ws_not_eol colon_not_eol by auto
  have "parse_field sse first (?q @ e @ r') = Inr (h, r')" for r'
  proof -
    have ok: "\<not> is_ws (hd (v @ e @ r'))" "v @ e @ r' \<noteq> []"
      using b(4) e eol_hd [of e] by (cases v; auto)+
    have "parse_header_name sse (?q @ e @ r') = Inr (Some name, v @ e @ r')"
      unfolding parse_header_name_Inr using nm b(2) ok
      by (intro exI [of _ name] exI [of _ w]) auto
    moreover have "get_token_to_eol sse (v @ e @ r') = Inr (v, r')"
      using e by (auto simp: get_token_to_eol_Inr)
    moreover have "\<not> (\<not> first \<and> is_ws (hd (?q @ e @ r')))"
      using False nm(2) b(1) by simp
    ultimately show ?thesis by (simp add: parse_field_def hh nm)
  qed
  with b e hh q nm show thesis by (intro that [of ?q e v]) (auto simp: field_name_ok_def)
qed

lemma parse_field_shorter: "parse_field sse first buf = Inr (h, r) \<Longrightarrow> buf \<noteq> [] \<Longrightarrow> length r < length buf"
  by (erule (1) parse_field_local) (auto simp: is_eol_def)

section \<open>Header block and request\<close>

function parse_headers ::
  "bool \<Rightarrow> nat \<Rightarrow> phr_header list \<Rightarrow> bytes \<Rightarrow> phr_err + (phr_header list \<times> bytes)" where
  "parse_headers sse max_headers headers buf =
     (if buf = [] then Inl Partial
      else case line_end buf of
        Some e \<Rightarrow> andthen e (\<lambda>b. Inr (headers, b))
      | None \<Rightarrow>
          if length headers = max_headers then Inl Failed
          else andthen (parse_field sse (headers = []) buf)
                 (\<lambda>(h, b). parse_headers sse max_headers (headers @ [h]) b))"
  by pat_completeness auto
termination
  by (relation "measure (\<lambda>(sse, m, hs, buf). length buf)") (auto dest: parse_field_shorter)

declare parse_headers.simps [simp del]

record phr_request =
  req_method :: bytes
  path :: bytes
  minor_version :: nat
  headers :: "phr_header list"

definition parse_request :: "bool \<Rightarrow> nat \<Rightarrow> bytes \<Rightarrow> phr_err + (phr_request \<times> bytes)" where
  "parse_request sse max_headers buf =
     (if buf = [] then Inl Partial
      else andthen (case line_end buf of Some e \<Rightarrow> e | None \<Rightarrow> Inr buf) (\<lambda>b1.
        andthen (parse_token sse SP b1) (\<lambda>(m, b2).
        andthen (skip_sp b2) (\<lambda>b3.
        andthen (advance_token sse b3) (\<lambda>(p, b4).
        andthen (skip_sp b4) (\<lambda>b5.
          if m = [] \<or> p = [] then Inl Failed
          else andthen (parse_http_version b5) (\<lambda>(v, b6).
            andthen (case line_end b6 of Some e \<Rightarrow> e | None \<Rightarrow> Inl Failed) (\<lambda>b7.
            andthen (parse_headers sse max_headers [] b7) (\<lambda>(hs, b8).
              Inr (\<lparr>req_method = m, path = p, minor_version = v, headers = hs\<rparr>, b8))))))))))"

text \<open>The result is the request and the number of bytes consumed (\<open>buf - buf_start\<close>).\<close>

definition phr_parse_request ::
  "bool \<Rightarrow> nat \<Rightarrow> bytes \<Rightarrow> nat \<Rightarrow> phr_err + (phr_request \<times> nat)" where
  "phr_parse_request sse max_headers buf last_len =
     andthen (if last_len \<noteq> 0 then is_complete buf last_len else Inr []) (\<lambda>_.
       andthen (parse_request sse max_headers buf) (\<lambda>(r, rest).
         Inr (r, length buf - length rest)))"


text \<open>What a parsed header field looks like.\<close>

definition field_ok :: "bool \<Rightarrow> phr_header \<Rightarrow> bool" where
  "field_ok first h \<longleftrightarrow> field_name_ok first (hname h)
     \<and> (\<forall>c \<in> set (hvalue h). \<not> is_eol_ctl c)
     \<and> (hvalue h \<noteq> [] \<longrightarrow> \<not> is_ws (last (hvalue h)))
     \<and> (hname h \<noteq> None \<longrightarrow> hvalue h \<noteq> [] \<longrightarrow> \<not> is_ws (hd (hvalue h)))"

fun headers_ok :: "bool \<Rightarrow> phr_header list \<Rightarrow> bool" where
  "headers_ok first [] = True"
| "headers_ok first (h # hs) = (field_ok first h \<and> headers_ok False hs)"

lemma strip_value_prefix: "\<exists>w. v = strip_value v @ w \<and> (\<forall>c \<in> set w. is_ws c)"
  unfolding strip_value_def
  by (rule exI [of _ "rev (takeWhile is_ws (rev v))"])
     (metis (no_types, lifting) rev_append rev_rev_ident set_rev set_takeWhileD takeWhile_dropWhile_id)

lemma strip_value_last: "strip_value v \<noteq> [] \<Longrightarrow> \<not> is_ws (last (strip_value v))"
  unfolding strip_value_def by (metis hd_dropWhile last_rev rev_is_Nil_conv)

lemma strip_value_hd: "strip_value v \<noteq> [] \<Longrightarrow> hd (strip_value v) = hd v"
  using strip_value_prefix [of v] by (metis hd_append2)

lemma set_strip_value: "set (strip_value v) \<subseteq> set v"
  using strip_value_prefix [of v] by (metis set_append sup_ge1)

lemma strip_value_id: "v = [] \<or> \<not> is_ws (last v) \<Longrightarrow> strip_value v = v"
  by (cases v rule: rev_cases) (auto simp: strip_value_def)

lemma parse_field_ok:
  assumes "parse_field sse first buf = Inr (h, r)" and "buf \<noteq> []"
  shows "field_ok first h"
proof (rule parse_field_local [OF assms])
  fix q e v
  assume v: "hvalue h = strip_value v" "\<forall>c \<in> set v. \<not> is_eol_ctl c" "field_name_ok first (hname h)"
    "hname h \<noteq> None \<Longrightarrow> v \<noteq> [] \<Longrightarrow> \<not> is_ws (hd v)"
  have "hname h \<noteq> None \<longrightarrow> strip_value v \<noteq> [] \<longrightarrow> \<not> is_ws (hd (strip_value v))"
    using v(4) strip_value_hd [of v] strip_value_prefix [of v] by (metis append_is_Nil_conv)
  then show "field_ok first h"
    using v set_strip_value [of v] strip_value_last [of v] by (auto simp: field_ok_def)
qed

text \<open>Every CR is followed by LF: what an accepted request is made of.\<close>

fun crlf_ok :: "bytes \<Rightarrow> bool" where
  "crlf_ok [] = True"
| "crlf_ok (c # cs) = ((c = CR \<longrightarrow> cs \<noteq> [] \<and> hd cs = LF) \<and> crlf_ok cs)"

lemma crlf_ok_append: "crlf_ok a \<Longrightarrow> crlf_ok b \<Longrightarrow> crlf_ok (a @ b)"
  by (induction a) auto

lemma crlf_ok_drop: "crlf_ok s \<Longrightarrow> crlf_ok (drop n s)"
proof (induction n arbitrary: s)
  case (Suc n)
  then show ?case by (cases s) auto
qed simp

lemma crlf_ok_eol: "is_eol e \<Longrightarrow> crlf_ok e"
  by (auto simp: is_eol_def)

lemma crlf_ok_noCR: "\<forall>c \<in> set q. c \<noteq> CR \<Longrightarrow> crlf_ok q"
  by (induction q) auto

lemma CR_eol_ctl [simp]: "is_eol_ctl CR" "is_eol_ctl LF"
  by (simp_all add: is_eol_ctl_def)

lemma crlf_ok_noeol: "\<forall>c \<in> set q. \<not> is_eol_ctl c \<Longrightarrow> crlf_ok q"
  by (rule crlf_ok_noCR) auto

lemma parse_headers_local:
  "parse_headers sse mx hs buf = Inr (H, r) \<Longrightarrow> length hs \<le> mx \<Longrightarrow>
   \<exists>fs e G. buf = fs @ e @ r \<and> is_eol e \<and> crlf_ok fs
     \<and> (fs = [] \<or> (\<exists>q e'. fs = q @ e' \<and> is_eol e'))
     \<and> (\<forall>r'. parse_headers sse mx hs (fs @ e @ r') = Inr (H, r'))
     \<and> H = hs @ G \<and> headers_ok (hs = []) G \<and> length H \<le> mx"
proof (induction sse mx hs buf arbitrary: H r rule: parse_headers.induct)
  case (1 sse mx hs buf)
  have ne: "buf \<noteq> []" using "1.prems" by (auto simp: parse_headers.simps [of sse mx hs buf])
  show ?case
  proof (cases "line_end buf")
    case (Some e)
    with "1.prems" ne have H: "H = hs" "line_end buf = Some (Inr r)"
      by (auto simp: parse_headers.simps [of sse mx hs buf])
    then obtain e where e: "is_eol e" "buf = e @ r" by (auto simp: line_end_Inr)
    moreover have "parse_headers sse mx hs (e @ r') = Inr (hs, r')" for r'
      using e(1) line_end_Inr [of "e @ r'" r'] eol_hd [of e]
      by (auto simp: parse_headers.simps [of sse mx hs "e @ r'"])
    ultimately show ?thesis using H "1.prems"(2)
      by (intro exI [of _ "[]"] exI [of _ e]) auto
  next
    case None
    with "1.prems" ne obtain h b where len: "length hs \<noteq> mx"
      and f: "parse_field sse (hs = []) buf = Inr (h, b)"
      and p: "parse_headers sse mx (hs @ [h]) b = Inr (H, r)"
      by (auto simp: parse_headers.simps [of sse mx hs buf] split: if_splits)
    have "length (hs @ [h]) \<le> mx" using len "1.prems"(2) by simp
    from "1.IH" [OF ne None len f refl p this] obtain fs e G where
      G: "b = fs @ e @ r" "is_eol e" "crlf_ok fs" "fs = [] \<or> (\<exists>q e'. fs = q @ e' \<and> is_eol e')"
        "\<forall>r'. parse_headers sse mx (hs @ [h]) (fs @ e @ r') = Inr (H, r')"
        "H = (hs @ [h]) @ G" "headers_ok (hs @ [h] = []) G" "length H \<le> mx" by blast
    from f ne obtain q e0 where q: "buf = q @ e0 @ b" "is_eol e0" "\<forall>c \<in> set q. \<not> is_eol_ctl c"
      "\<forall>r'. parse_field sse (hs = []) (q @ e0 @ r') = Inr (h, r')"
      by (rule parse_field_local)
    have qn: "q \<noteq> []" using None q(1,2) ne eol_hd [of e0] by (auto simp: line_end_None)
    let ?fs = "q @ e0 @ fs"
    have "parse_headers sse mx hs (?fs @ e @ r') = Inr (H, r')" for r'
    proof -
      have "line_end (?fs @ e @ r') = None"
        using None ne qn q(1) by (auto simp: line_end_None)
      then show ?thesis using qn len q(4) G(5)
        by (simp add: parse_headers.simps [of sse mx hs "q @ e0 @ fs @ e @ r'"])
    qed
    moreover have "crlf_ok ?fs"
      using crlf_ok_noeol [OF q(3)] crlf_ok_eol [OF q(2)] G(3) by (simp add: crlf_ok_append)
    moreover have "\<exists>q e'. ?fs = q @ e' \<and> is_eol e'"
    proof (cases "fs = []")
      case True
      with q(2) show ?thesis by auto
    next
      case False
      with G(4) obtain q' e' where "fs = q' @ e'" "is_eol e'" by blast
      then show ?thesis by (intro exI [of _ "q @ e0 @ q'"] exI [of _ e']) simp
    qed
    moreover have "field_ok (hs = []) h" using f ne by (rule parse_field_ok)
    ultimately show ?thesis using q(1) G
      by (intro exI [of _ ?fs] exI [of _ e] exI [of _ "h # G"]) auto
  qed
qed


definition path_char :: "char \<Rightarrow> bool" where
  "path_char c \<longleftrightarrow> c \<noteq> SP \<and> 32 \<le> byte c \<and> c \<noteq> DEL"

text \<open>The well-formed requests: what a successful parse delivers to the rest of the server.\<close>

definition request_ok :: "nat \<Rightarrow> phr_request \<Rightarrow> bool" where
  "request_ok max_headers q \<longleftrightarrow>
     req_method q \<noteq> [] \<and> (\<forall>c \<in> set (req_method q). is_token_char c)
     \<and> path q \<noteq> [] \<and> (\<forall>c \<in> set (path q). path_char c)
     \<and> minor_version q \<le> 9
     \<and> headers_ok True (headers q) \<and> length (headers q) \<le> max_headers"

lemma noCR_facts:
  "\<not> is_token_char CR" "\<not> path_char CR" "m \<le> (9::nat) \<Longrightarrow> CR \<noteq> char_of (48 + m)"
  by (auto simp: token_char_iff tchar_def path_char_def of_char_of dest: arg_cong [of _ _ byte])

lemma http_1_dot_noCR: "\<forall>c \<in> set http_1_dot. c \<noteq> CR"
  by (simp add: http_1_dot_def CR_def)

text \<open>Exactly the inputs a request is accepted from.\<close>

lemma parse_request_Inr:
  "parse_request sse mx buf = Inr (q, r) \<longleftrightarrow>
   (\<exists>e0 w1 w2 e1 b.
      buf = e0 @ req_method q @ w1 @ path q @ w2 @ http_1_dot @ char_of (48 + minor_version q) # e1 @ b
      \<and> (e0 = [] \<or> is_eol e0) \<and> req_method q \<noteq> [] \<and> (\<forall>c \<in> set (req_method q). is_token_char c)
      \<and> w1 \<noteq> [] \<and> (\<forall>c \<in> set w1. c = SP) \<and> path q \<noteq> [] \<and> (\<forall>c \<in> set (path q). path_char c)
      \<and> w2 \<noteq> [] \<and> (\<forall>c \<in> set w2. c = SP) \<and> minor_version q \<le> 9 \<and> is_eol e1
      \<and> parse_headers sse mx [] b = Inr (headers q, r))"
  (is "?L \<longleftrightarrow> ?R")
proof
  assume L: ?L
  then have ne: "buf \<noteq> []" by (auto simp: parse_request_def)
  with L obtain b1 m b2 b3 p b4 b5 v b6 b7 hs where
    s1: "(case line_end buf of Some e \<Rightarrow> e | None \<Rightarrow> Inr buf) = Inr b1"
    and s2: "parse_token sse SP b1 = Inr (m, b2)" and s3: "skip_sp b2 = Inr b3"
    and s4: "advance_token sse b3 = Inr (p, b4)" and s5: "skip_sp b4 = Inr b5"
    and mp: "m \<noteq> []" "p \<noteq> []" and s6: "parse_http_version b5 = Inr (v, b6)"
    and s7: "(case line_end b6 of Some e \<Rightarrow> e | None \<Rightarrow> Inl Failed) = Inr b7"
    and s8: "parse_headers sse mx [] b7 = Inr (hs, r)"
    and q: "q = \<lparr>req_method = m, path = p, minor_version = v, headers = hs\<rparr>"
    by (auto simp: parse_request_def split: if_splits)
  obtain e0 where e0: "buf = e0 @ b1" "e0 = [] \<or> is_eol e0"
    using s1 by (cases "line_end buf") (auto simp: line_end_Inr)
  obtain e1 where e1: "b6 = e1 @ b7" "is_eol e1"
    using s7 by (cases "line_end b6") (auto simp: line_end_Inr)
  obtain b2' where b2: "b1 = m @ b2" "b2 = SP # b2'" "\<forall>c \<in> set m. is_token_char c"
    using s2 by (auto simp: parse_token_Inr)
  obtain w1 where w1: "b2 = w1 @ b3" "\<forall>c \<in> set w1. c = SP" "hd b3 \<noteq> SP"
    using s3 by (auto simp: skip_sp_Inr)
  obtain b4' where b4: "b3 = p @ b4" "b4 = SP # b4'" "\<forall>c \<in> set p. path_char c"
    using s4 by (auto simp: advance_token_Inr path_char_def)
  obtain w2 where w2: "b4 = w2 @ b5" "\<forall>c \<in> set w2. c = SP" "hd b5 \<noteq> SP"
    using s5 by (auto simp: skip_sp_Inr)
  have "w1 \<noteq> []" "w2 \<noteq> []" using w1 w2 b2(2) b4(2) by auto
  moreover have v: "b5 = http_1_dot @ char_of (48 + v) # b6" "v \<le> 9"
    using s6 by (auto simp: parse_http_version_Inr)
  ultimately show ?R using e0 e1 b2 w1 b4 w2 v mp s8 q
    by (intro exI [of _ e0] exI [of _ w1] exI [of _ w2] exI [of _ e1] exI [of _ b7]) simp
next
  assume ?R
  then obtain e0 w1 w2 e1 b where
    buf: "buf = e0 @ req_method q @ w1 @ path q @ w2 @ http_1_dot @ char_of (48 + minor_version q) # e1 @ b"
    and e0: "e0 = [] \<or> is_eol e0" and m: "req_method q \<noteq> []" "\<forall>c \<in> set (req_method q). is_token_char c"
    and w1: "w1 \<noteq> []" "\<forall>c \<in> set w1. c = SP" and p: "path q \<noteq> []" "\<forall>c \<in> set (path q). path_char c"
    and w2: "w2 \<noteq> []" "\<forall>c \<in> set w2. c = SP" and v: "minor_version q \<le> 9" and e1: "is_eol e1"
    and hs: "parse_headers sse mx [] b = Inr (headers q, r)" by blast
  define b5 where "b5 = http_1_dot @ char_of (48 + minor_version q) # e1 @ b"
  define b3 where "b3 = path q @ w2 @ b5"
  define b1 where "b1 = req_method q @ w1 @ b3"
  have b1: "buf = e0 @ b1" using buf by (simp add: b1_def b3_def b5_def)
  have hdm: "hd b1 \<noteq> CR \<and> hd b1 \<noteq> LF"
    using m token_char_not_eol [of "hd (req_method q)"] by (auto simp: b1_def)
  have s1: "(case line_end buf of Some e \<Rightarrow> e | None \<Rightarrow> Inr buf) = Inr b1"
  proof (cases "e0 = []")
    case True
    then have "line_end buf = None" using b1 hdm by (simp add: line_end_None)
    with True b1 show ?thesis by simp
  next
    case False
    with e0 b1 have "line_end buf = Some (Inr b1)" by (auto simp: line_end_Inr)
    then show ?thesis by simp
  qed
  have s2: "parse_token sse SP b1 = Inr (req_method q, w1 @ b3)"
    using m w1 by (cases w1) (auto simp: parse_token_Inr b1_def)
  have hd3: "hd b3 \<noteq> SP" "b3 \<noteq> []" using p by (auto simp: b3_def path_char_def)
  then have s3: "skip_sp (w1 @ b3) = Inr b3" using w1 by (auto simp: skip_sp_Inr)
  have s4: "advance_token sse b3 = Inr (path q, w2 @ b5)"
    using p w2 by (cases w2) (auto simp: advance_token_Inr b3_def path_char_def)
  have "hd b5 = CHR ''H''" by (simp add: b5_def http_1_dot_def)
  then have s5: "skip_sp (w2 @ b5) = Inr b5"
    using w2 by (auto simp: skip_sp_Inr SP_def b5_def)
  have s6: "parse_http_version b5 = Inr (minor_version q, e1 @ b)"
    using v e1 eol_hd [of e1] by (auto simp: parse_http_version_Inr b5_def)
  have s7: "line_end (e1 @ b) = Some (Inr b)" using e1 by (auto simp: line_end_Inr)
  have "buf \<noteq> []" using b1 m by (auto simp: b1_def)
  then show ?L using s1 s2 s3 s4 s5 s6 s7 hs m p by (simp add: parse_request_def)
qed


lemma parse_request_local:
  assumes "parse_request sse mx buf = Inr (q, r)"
  obtains pre z e1 e2 where "buf = pre @ r" "\<forall>r'. parse_request sse mx (pre @ r') = Inr (q, r')"
    "request_ok mx q" "pre = z @ e1 @ e2" "is_eol e1" "is_eol e2" "crlf_ok pre"
proof -
  from assms obtain e0 w1 w2 e1 b where
    buf: "buf = e0 @ req_method q @ w1 @ path q @ w2 @ http_1_dot @ char_of (48 + minor_version q) # e1 @ b"
    and e0: "e0 = [] \<or> is_eol e0" and m: "req_method q \<noteq> []" "\<forall>c \<in> set (req_method q). is_token_char c"
    and w1: "w1 \<noteq> []" "\<forall>c \<in> set w1. c = SP" and p: "path q \<noteq> []" "\<forall>c \<in> set (path q). path_char c"
    and w2: "w2 \<noteq> []" "\<forall>c \<in> set w2. c = SP" and v: "minor_version q \<le> 9" and e1: "is_eol e1"
    and hs: "parse_headers sse mx [] b = Inr (headers q, r)"
    unfolding parse_request_Inr by (elim exE conjE) (rule that)
  from parse_headers_local [OF hs] obtain fs e where
    fs: "b = fs @ e @ r" "is_eol e" "crlf_ok fs" "fs = [] \<or> (\<exists>q e'. fs = q @ e' \<and> is_eol e')"
      "\<forall>r'. parse_headers sse mx [] (fs @ e @ r') = Inr (headers q, r')"
      "headers_ok True (headers q)" "length (headers q) \<le> mx" by auto
  define line where
    "line = e0 @ req_method q @ w1 @ path q @ w2 @ http_1_dot @ [char_of (48 + minor_version q)]"
  have "crlf_ok (req_method q @ w1 @ path q @ w2 @ http_1_dot @ [char_of (48 + minor_version q)])"
    using m(2) w1(2) p(2) w2(2) noCR_facts(1,2) noCR_facts(3) [OF v] http_1_dot_noCR
    by (intro crlf_ok_noCR) auto
  then have line: "crlf_ok line"
    using e0 crlf_ok_eol [of e0] by (auto simp: line_def intro: crlf_ok_append)
  define pre where "pre = line @ e1 @ fs @ e"
  have pre: "crlf_ok pre"
    using line crlf_ok_eol [OF e1] crlf_ok_eol [OF fs(2)] fs(3) by (simp add: crlf_ok_append pre_def)
  have "parse_request sse mx (pre @ r') = Inr (q, r')" for r'
    unfolding parse_request_Inr line_def pre_def using e0 m w1 p w2 v e1 fs(5)
    by (intro exI [of _ e0] exI [of _ w1] exI [of _ w2] exI [of _ e1] exI [of _ "fs @ e @ r'"]) simp
  moreover have "request_ok mx q" using m p v fs(6,7) by (simp add: request_ok_def)
  moreover have "buf = pre @ r" using buf fs(1) by (simp add: line_def pre_def)
  moreover obtain z e' where "pre = z @ e' @ e" "is_eol e'"
  proof (cases "fs = []")
    case True
    with e1 show thesis by (intro that [of line e1]) (auto simp: pre_def)
  next
    case False
    with fs(4) obtain q' e' where "fs = q' @ e'" "is_eol e'" by blast
    then show thesis by (intro that [of "line @ e1 @ q'" e']) (auto simp: pre_def)
  qed
  ultimately show thesis using fs(2) pre by (intro that [of pre z e' e]) blast+
qed

text \<open>The completeness check stops at or before the end of an accepted request.\<close>

lemma is_complete_found:
  "n < 2 \<Longrightarrow> is_eol e1 \<Longrightarrow> is_eol e2 \<Longrightarrow> crlf_ok (z @ e1 @ e2) \<Longrightarrow>
   \<exists>r'. is_complete_loop n (z @ e1 @ e2 @ r) = Inr r'"
proof (induction z arbitrary: n rule: length_induct)
  case (1 z)
  have n: "n = 0 \<or> n = 1" using "1.prems"(1) by auto
  show ?case
  proof (cases z)
    case Nil
    with n "1.prems"(2,3) show ?thesis by (auto simp: is_eol_def)
  next
    case (Cons c cs)
    consider (cr) "c = CR" | (lf) "c = LF" | (other) "c \<noteq> CR" "c \<noteq> LF" by blast
    then show ?thesis
    proof cases
      case cr
      show ?thesis
      proof (cases cs)
        case Nil
        with Cons cr "1.prems" n show ?thesis by (auto simp: is_eol_def)
      next
        case (Cons d ds)
        with cr \<open>z = c # cs\<close> "1.prems"(4) have d: "d = LF" and ok: "crlf_ok (ds @ e1 @ e2)" by auto
        have "length ds < length z" using Cons \<open>z = c # cs\<close> by simp
        with "1.IH" "1.prems"(2,3) ok
        have "\<exists>r'. is_complete_loop 1 (ds @ e1 @ e2 @ r) = Inr r'" by auto
        with n d cr Cons \<open>z = c # cs\<close> show ?thesis by auto
      qed
    next
      case lf
      with Cons "1.prems"(4) have ok: "crlf_ok (cs @ e1 @ e2)" by auto
      with "1.IH" "1.prems"(2,3) Cons
      have "\<exists>r'. is_complete_loop 1 (cs @ e1 @ e2 @ r) = Inr r'" by auto
      with n lf Cons show ?thesis by auto
    next
      case other
      with Cons "1.prems"(4) have ok: "crlf_ok (cs @ e1 @ e2)" by auto
      with "1.IH" "1.prems"(2,3) Cons
      have "\<exists>r'. is_complete_loop 0 (cs @ e1 @ e2 @ r) = Inr r'" by auto
      with other Cons show ?thesis by auto
    qed
  qed
qed

text \<open>The longest suffix that can miss the final two line ends has three bytes.\<close>

lemma is_complete_of_local:
  assumes pre: "pre = z @ e1 @ e2" "is_eol e1" "is_eol e2" "crlf_ok pre" and l: "l < length pre"
  shows "\<exists>r'. is_complete (pre @ r) l = Inr r'"
proof -
  define k where "k = (if l < 3 then 0 else l - 3)"
  have "length (e1 @ e2) \<le> 4" using pre(2,3) by (auto simp: is_eol_def)
  then have "k \<le> length z" using l pre(1) by (auto simp: k_def)
  then have d: "drop k pre = drop k z @ e1 @ e2" using pre(1) by simp
  moreover have "drop k (pre @ r) = drop k pre @ r" using l by (auto simp: k_def)
  moreover have "crlf_ok (drop k pre)" using pre(4) by (rule crlf_ok_drop)
  ultimately have "\<exists>r'. is_complete_loop 0 (drop k (pre @ r)) = Inr r'"
    using is_complete_found [OF _ pre(2,3), of 0 "drop k z" r] by simp
  then show ?thesis by (auto simp: is_complete_def k_def)
qed

section \<open>What the parser guarantees\<close>

lemma phr_parse_request_0:
  "phr_parse_request sse mx buf 0 = Inr (q, n) \<longleftrightarrow>
   (\<exists>r. parse_request sse mx buf = Inr (q, r) \<and> n = length buf - length r)"
  by (auto simp: phr_parse_request_def)

lemma parse_headers_sse: "parse_headers sse mx hs buf = parse_headers False mx hs buf"
proof (induction sse mx hs buf rule: parse_headers.induct)
  case (1 sse mx hs buf)
  have f: "parse_field sse f b = parse_field False f b" for f b
    by (simp add: parse_field_def parse_header_name_def parse_token_simple get_token_to_eol_simple)
  show ?case
    unfolding parse_headers.simps [of sse mx hs buf] parse_headers.simps [of False mx hs buf]
    using "1.IH" f by (auto split: option.splits intro!: andthen_cong)
qed

text \<open>
  C1. The build that scans with SSE4.2 instructions and the portable build parse every input, with
  every \<open>max_headers\<close> and \<open>last_len\<close>, to the same result.
\<close>

theorem phr_sse_equiv:
  "phr_parse_request True max_headers buf last_len = phr_parse_request False max_headers buf last_len"
proof -
  have "parse_request True max_headers buf = parse_request False max_headers buf"
    by (simp add: parse_request_def parse_token_simple advance_token_simple
        parse_headers_sse [of True] cong: if_cong)
  then show ?thesis by (simp add: phr_parse_request_def)
qed


lemma phr_accept:
  assumes "phr_parse_request sse max_headers buf last_len = Inr (q, n)"
  shows "request_ok max_headers q \<and> 0 < n \<and> n \<le> length buf
    \<and> (\<forall>r'. phr_parse_request sse max_headers (take n buf @ r') 0 = Inr (q, n))"
proof -
  from assms obtain r where r: "parse_request sse max_headers buf = Inr (q, r)"
    and n: "n = length buf - length r"
    by (auto simp: phr_parse_request_def)
  from r obtain pre z e1 e2 where pre: "buf = pre @ r"
    "\<forall>r'. parse_request sse max_headers (pre @ r') = Inr (q, r')"
    "request_ok max_headers q" "pre = z @ e1 @ e2" "is_eol e1" "is_eol e2" "crlf_ok pre"
    by (rule parse_request_local)
  have "n = length pre" "take n buf = pre" using n pre(1) by simp_all
  moreover have "0 < length pre" using pre(4) eol_hd [OF pre(5)] by auto
  ultimately show ?thesis using pre by (auto simp: phr_parse_request_0)
qed

text \<open>
  C2. A request that is accepted is well formed (a non-empty token as method, a non-empty target
  without blanks, controls or DEL, field names that are non-empty tokens, field values without line
  ends or other controls and without surrounding blanks, at most \<open>max_headers\<close> fields), the number
  of bytes consumed is positive and within the buffer, and the bytes after them play no part: any
  other bytes may follow the consumed prefix and the result is the same.
\<close>

theorem phr_accept_sound:
  assumes "phr_parse_request sse max_headers buf last_len = Inr (q, n)"
  shows "request_ok max_headers q \<and> 0 < n \<and> n \<le> length buf
    \<and> (\<forall>r'. phr_parse_request sse max_headers (take n buf @ r') 0 = Inr (q, n))"
  using assms by (rule phr_accept)

definition sample_request :: phr_request where
  "sample_request = \<lparr>req_method = ''GET'', path = ''/a'', minor_version = 1,
     headers = [\<lparr>hname = Some ''Host'', hvalue = ''b''\<rparr>]\<rparr>"

definition sample_bytes :: bytes where
  "sample_bytes = ''GET /a HTTP/1.1'' @ CRLF @ ''Host: b'' @ CRLF @ CRLF"

lemma sample_parses: "phr_parse_request False 64 sample_bytes 0 = Inr (sample_request, 28)"
  by code_simp

theorem phr_accept_sound_witness:
  "request_ok 64 sample_request \<and> (0::nat) < 28 \<and> 28 \<le> length sample_bytes
    \<and> (\<forall>r'. phr_parse_request False 64 (take 28 sample_bytes @ r') 0 = Inr (sample_request, 28))"
  using phr_accept_sound [OF sample_parses] by simp

lemma phr_last_len:
  assumes "\<forall>q. phr_parse_request sse max_headers (take last_len buf) 0 \<noteq> Inr q"
    and "last_len \<le> length buf"
  shows "phr_parse_request sse max_headers buf last_len = Inr res \<longleftrightarrow>
    phr_parse_request sse max_headers buf 0 = Inr res"
proof
  assume "phr_parse_request sse max_headers buf 0 = Inr res"
  then obtain q r where r: "parse_request sse max_headers buf = Inr (q, r)"
    and res: "res = (q, length buf - length r)"
    by (auto simp: phr_parse_request_def)
  from r obtain pre z e1 e2 where pre: "buf = pre @ r"
    "\<forall>r'. parse_request sse max_headers (pre @ r') = Inr (q, r')"
    "request_ok max_headers q" "pre = z @ e1 @ e2" "is_eol e1" "is_eol e2" "crlf_ok pre"
    by (rule parse_request_local)
  have "last_len < length pre"
  proof (rule ccontr)
    assume "\<not> last_len < length pre"
    then have "take last_len buf = pre @ take (last_len - length pre) r" using pre(1) by simp
    with assms(1) pre(2) show False by (simp add: phr_parse_request_def)
  qed
  with pre(4-7) obtain r' where "is_complete (pre @ r) last_len = Inr r'"
    using is_complete_of_local by blast
  then show "phr_parse_request sse max_headers buf last_len = Inr res"
    using r res pre(1) by (simp add: phr_parse_request_def)
qed (auto simp: phr_parse_request_def split: if_splits)

text \<open>
  Parsing again with \<open>last_len\<close> set to the length that was found incomplete loses no request: the
  quick completeness scan over the new bytes (from three bytes before them) never hides a request
  that a full parse accepts, and never changes the result.
\<close>

theorem phr_incremental:
  assumes "phr_parse_request sse max_headers (take last_len buf) 0 = Inl Partial"
    and "last_len \<le> length buf"
  shows "phr_parse_request sse max_headers buf last_len = Inr res \<longleftrightarrow>
    phr_parse_request sse max_headers buf 0 = Inr res"
  using assms by (intro phr_last_len) simp_all

theorem phr_incremental_witness:
  "phr_parse_request False 64 sample_bytes 20 = Inr (sample_request, 28)"
proof -
  have "phr_parse_request False 64 (take 20 sample_bytes) 0 = Inl Partial" by code_simp
  moreover have "20 \<le> length sample_bytes" by code_simp
  ultimately show ?thesis using phr_incremental sample_parses by blast
qed

text \<open>A request written out the way a client writes it.\<close>

definition render_header :: "phr_header \<Rightarrow> bytes" where
  "render_header h =
     (case hname h of None \<Rightarrow> hvalue h | Some name \<Rightarrow> name @ COLON # SP # hvalue h) @ CRLF"

definition render_request :: "phr_request \<Rightarrow> bytes" where
  "render_request q = req_method q @ [SP] @ path q @ [SP] @ http_1_dot @ [char_of (48 + minor_version q)]
     @ CRLF @ concat (map render_header (headers q)) @ CRLF"

definition named_headers :: "phr_header list \<Rightarrow> bool" where
  "named_headers hs \<longleftrightarrow> (\<forall>h \<in> set hs. hname h \<noteq> None)"

lemma parse_field_render:
  assumes "field_ok f h" "hname h \<noteq> None"
  shows "parse_field sse f (render_header h @ r) = Inr (h, r) \<and> line_end (render_header h @ r) = None"
proof -
  obtain name where nm: "hname h = Some name" "name \<noteq> []" "\<forall>c \<in> set name. is_token_char c"
    using assms by (auto simp: field_ok_def field_name_ok_def)
  let ?v = "hvalue h"
  have v: "\<forall>c \<in> set ?v. \<not> is_eol_ctl c" "?v \<noteq> [] \<Longrightarrow> \<not> is_ws (last ?v)" "?v \<noteq> [] \<Longrightarrow> \<not> is_ws (hd ?v)"
    using assms by (auto simp: field_ok_def)
  have eq: "render_header h @ r = name @ COLON # [SP] @ ?v @ CRLF @ r"
    by (simp add: render_header_def nm)
  have hv: "?v @ CRLF @ r \<noteq> []" "\<not> is_ws (hd (?v @ CRLF @ r))"
    using v(3) by (cases ?v; auto simp: is_ws_def)+
  have n: "parse_header_name sse (render_header h @ r) = Inr (Some name, ?v @ CRLF @ r)"
    unfolding parse_header_name_Inr eq using nm hv
    by (intro exI [of _ name] exI [of _ "[SP]"]) (auto simp: is_ws_def)
  have g: "get_token_to_eol sse (?v @ CRLF @ r) = Inr (?v, r)"
    using v(1) by (auto simp: get_token_to_eol_Inr is_eol_def)
  have hd: "hd (render_header h @ r) = hd name" "is_token_char (hd name)" using nm eq by auto
  then have ws: "\<not> is_ws (hd (render_header h @ r))"
    by (auto simp: is_ws_def token_char_iff tchar_def)
  have "hd (render_header h @ r) \<noteq> CR" "hd (render_header h @ r) \<noteq> LF"
    using hd token_char_not_eol by (metis CR_eol_ctl)+
  moreover have "\<lparr>hname = Some name, hvalue = strip_value ?v\<rparr> = h"
    using strip_value_id [of ?v] v(2) nm by (cases h) auto
  ultimately show ?thesis using n g ws by (simp add: parse_field_def line_end_None)
qed

lemma parse_headers_render:
  "headers_ok (hs0 = []) hs \<Longrightarrow> named_headers hs \<Longrightarrow> length (hs0 @ hs) \<le> mx \<Longrightarrow>
   parse_headers sse mx hs0 (concat (map render_header hs) @ CRLF @ r) = Inr (hs0 @ hs, r)"
proof (induction hs arbitrary: hs0)
  case Nil
  have "line_end (CRLF @ r) = Some (Inr r)" using line_end_Inr [of "CRLF @ r" r] by (auto simp: is_eol_def)
  then show ?case by (simp add: parse_headers.simps [of sse mx hs0 "CR # LF # r"])
next
  case (Cons h hs)
  let ?b = "render_header h @ concat (map render_header hs) @ CRLF @ r"
  have f: "parse_field sse (hs0 = []) ?b = Inr (h, concat (map render_header hs) @ CRLF @ r)"
    "line_end ?b = None"
    using parse_field_render [of "hs0 = []" h] Cons.prems by (auto simp: named_headers_def)
  have ne: "?b \<noteq> []" by (simp add: render_header_def)
  from Cons.prems have "parse_headers sse mx (hs0 @ [h]) (concat (map render_header hs) @ CRLF @ r)
      = Inr ((hs0 @ [h]) @ hs, r)" by (intro Cons.IH) (auto simp: named_headers_def)
  with f ne Cons.prems(3) show ?case
    by (simp add: parse_headers.simps [of sse mx hs0
        "render_header h @ concat (map render_header hs) @ CR # LF # r"])
qed

lemma phr_render:
  assumes "request_ok max_headers q" and "named_headers (headers q)"
  shows "phr_parse_request sse max_headers (render_request q @ rest) 0
    = Inr (q, length (render_request q))"
proof -
  let ?b = "concat (map render_header (headers q)) @ CRLF @ rest"
  have "parse_headers sse max_headers [] ?b = Inr ([] @ headers q, rest)"
    using assms by (intro parse_headers_render) (auto simp: request_ok_def)
  then have "parse_request sse max_headers (render_request q @ rest) = Inr (q, rest)"
    unfolding parse_request_Inr using assms(1)
    by (intro exI [of _ "[]"] exI [of _ "[SP]"] exI [of _ CRLF] exI [of _ ?b])
       (auto simp: render_request_def request_ok_def is_eol_def)
  then show ?thesis by (simp add: phr_parse_request_def)
qed

text \<open>
  C4. Round trip: every well-formed request without folded lines, written out in the canonical form
  and followed by anything (its body, the next pipelined request), is parsed back to itself, and
  exactly its own bytes are consumed.
\<close>

theorem phr_roundtrip:
  assumes "request_ok max_headers q" and "named_headers (headers q)"
  shows "phr_parse_request sse max_headers (render_request q @ rest) 0
    = Inr (q, length (render_request q))"
  using assms by (rule phr_render)

theorem phr_roundtrip_witness:
  "phr_parse_request True 64 (render_request sample_request @ ''body'') 0
    = Inr (sample_request, length (render_request sample_request))"
proof -
  have "request_ok 64 sample_request" by code_simp
  moreover have "named_headers (headers sample_request)" by code_simp
  ultimately show ?thesis by (rule phr_roundtrip)
qed

end
