(* ===== verification/Prefix.thy ===== *)
theory Prefix
  imports Parser
begin

text \<open>
  A verdict of the request parser stands, whatever bytes follow: a prefix that is rejected is the prefix of
  no request. So a server that answers 400 as soon as the parser fails never turns away a request that was
  still on its way, and a prefix of a request is never more than incomplete.
\<close>

section \<open>Failures are final\<close>

text \<open>\<open>p\<close> reads from the front of the buffer; more bytes behind it change neither a result nor a failure.\<close>

definition steady :: "(bytes \<Rightarrow> phr_err + 'a \<times> bytes) \<Rightarrow> bytes \<Rightarrow> bool" where
  "steady p b \<longleftrightarrow> (\<forall>s. (p b = Inl Failed \<longrightarrow> p (b @ s) = Inl Failed)
     \<and> (\<forall>x r. p b = Inr (x, r) \<longrightarrow> p (b @ s) = Inr (x, r @ s)))"

lemma steadyI:
  assumes "\<And>s. p b = Inl Failed \<Longrightarrow> p (b @ s) = Inl Failed" "\<And>x r s. p b = Inr (x, r) \<Longrightarrow> p (b @ s) = Inr (x, r @ s)"
  shows "steady p b"
  using assms by (simp add: steady_def)

lemma steadyD:
  "steady p b \<Longrightarrow> p b = Inl Failed \<Longrightarrow> p (b @ s) = Inl Failed"
  "steady p b \<Longrightarrow> p b = Inr (x, r) \<Longrightarrow> p (b @ s) = Inr (x, r @ s)"
  by (simp_all add: steady_def)

text \<open>Sequences of steady parsers are steady.\<close>

lemma steady_andthen:
  assumes "steady p b" "\<And>x r. p b = Inr (x, r) \<Longrightarrow> steady (f x) r"
  shows "steady (\<lambda>b. andthen (p b) (\<lambda>(x, r). f x r)) b"
proof (rule steadyI)
  fix s
  assume "andthen (p b) (\<lambda>(x, r). f x r) = Inl Failed"
  then show "andthen (p (b @ s)) (\<lambda>(x, r). f x r) = Inl Failed"
    using steadyD(1) [OF assms(1), of s] steadyD(2) [OF assms(1), of _ _ s] steadyD(1) [OF assms(2), of _ _ s]
    by (auto simp: andthen_eq_Inl)
next
  fix x r s
  assume "andthen (p b) (\<lambda>(x, r). f x r) = Inr (x, r)"
  then show "andthen (p (b @ s)) (\<lambda>(x, r). f x r) = Inr (x, r @ s)"
    using steadyD(2) [OF assms(1), of _ _ s] steadyD(2) [OF assms(2), of _ _ _ _ s] by auto
qed

lemma steady_Inr: "steady (\<lambda>b. Inr (x, b)) b"
  by (simp add: steady_def)

lemma steady_Failed: "steady (\<lambda>b. Inl Failed) b"
  by (simp add: steady_def)

section \<open>The pieces\<close>

lemma token_loop_Failed: "token_loop nc b = Inl Failed \<Longrightarrow> token_loop nc (b @ s) = Inl Failed"
  by (induction nc b rule: token_loop.induct) (auto split: if_splits)

lemma advance_loop_Failed: "advance_loop b = Inl Failed \<Longrightarrow> advance_loop (b @ s) = Inl Failed"
  by (induction b rule: advance_loop.induct) (auto split: if_splits)

lemma eol_scan_no_failure: "eol_scan b \<noteq> Inl Failed"
  by (induction b rule: eol_scan.induct) auto

lemma skip_no_failure: "skip_ws b \<noteq> Inl Failed" "skip_sp b \<noteq> Inl Failed"
  by (induction b) auto

lemma parse_token_steady:
  assumes "nc = SP \<or> nc = COLON"
  shows "steady (parse_token sse nc) b"
proof (rule steadyI)
  show "parse_token sse nc (b @ s) = Inl Failed" if "parse_token sse nc b = Inl Failed" for s
    using that token_loop_Failed [of nc b s] unfolding parse_token_simple [OF assms] by (auto simp: andthen_eq_Inl)
  show "parse_token sse nc (b @ s) = Inr (x, r @ s)" if "parse_token sse nc b = Inr (x, r)" for x r s
    using that unfolding parse_token_Inr [OF assms] by auto
qed

lemma advance_token_steady: "steady (advance_token sse) b"
proof (rule steadyI)
  show "advance_token sse (b @ s) = Inl Failed" if "advance_token sse b = Inl Failed" for s
    using that advance_loop_Failed [of b s] unfolding advance_token_simple by (auto simp: andthen_eq_Inl)
  show "advance_token sse (b @ s) = Inr (x, r @ s)" if "advance_token sse b = Inr (x, r)" for x r s
    using that unfolding advance_token_Inr by auto
qed

lemma skip_sp_steady: "steady (\<lambda>b. andthen (skip_sp b) (\<lambda>r. Inr ((), r))) b"
proof (rule steadyI)
  show "andthen (skip_sp (b @ s)) (\<lambda>r. Inr ((), r)) = Inr (x, r @ s)"
    if "andthen (skip_sp b) (\<lambda>r. Inr ((), r)) = Inr (x, r)" for x r s
  proof -
    have "skip_sp b = Inr r" using that by auto
    then obtain w where "b = w @ r" "\<forall>c \<in> set w. c = SP" "r \<noteq> []" "hd r \<noteq> SP" unfolding skip_sp_Inr by blast
    then have "skip_sp (b @ s) = Inr (r @ s)" unfolding skip_sp_Inr by auto
    then show ?thesis by simp
  qed
qed (use skip_no_failure in \<open>auto simp: andthen_eq_Inl\<close>)

lemma skip_ws_steady: "steady (\<lambda>b. andthen (skip_ws b) (\<lambda>r. Inr ((), r))) b"
proof (rule steadyI)
  show "andthen (skip_ws (b @ s)) (\<lambda>r. Inr ((), r)) = Inr (x, r @ s)"
    if "andthen (skip_ws b) (\<lambda>r. Inr ((), r)) = Inr (x, r)" for x r s
  proof -
    have "skip_ws b = Inr r" using that by auto
    then obtain w where "b = w @ r" "\<forall>c \<in> set w. is_ws c" "r \<noteq> []" "\<not> is_ws (hd r)" unfolding skip_ws_Inr by blast
    then have "skip_ws (b @ s) = Inr (r @ s)" unfolding skip_ws_Inr by auto
    then show ?thesis by simp
  qed
qed (use skip_no_failure in \<open>auto simp: andthen_eq_Inl\<close>)

lemma get_token_to_eol_steady: "steady (get_token_to_eol sse) b"
proof (rule steadyI)
  show "get_token_to_eol sse (b @ s) = Inl Failed" if f: "get_token_to_eol sse b = Inl Failed" for s
  proof -
    obtain d where d: "eol_scan b = Inr d" "found_ctl b d = Inl Failed"
      using f eol_scan_no_failure [of b] by (cases "eol_scan b") (auto simp: get_token_to_eol_simple)
    obtain t c d' where t: "b = t @ d" "d = c # d'" "is_eol_ctl c" "\<forall>c \<in> set t. \<not> is_eol_ctl c"
      using d(1) by (auto simp: eol_scan_Inr)
    then have "eol_scan (b @ s) = Inr (d @ s)" unfolding eol_scan_Inr by auto
    moreover have "found_ctl (b @ s) (d @ s) = Inl Failed"
      using d(2) t(2) by (auto simp: found_ctl_def split: list.splits if_splits)
    ultimately show ?thesis by (simp add: get_token_to_eol_simple)
  qed
  show "get_token_to_eol sse (b @ s) = Inr (x, r @ s)" if "get_token_to_eol sse b = Inr (x, r)" for x r s
    using that unfolding get_token_to_eol_Inr by auto
qed

lemma parse_http_version_steady: "steady parse_http_version b"
proof (rule steadyI)
  show "parse_http_version (b @ s) = Inl Failed" if "parse_http_version b = Inl Failed" for s
    using that by (auto simp: parse_http_version_def nth_append split: if_splits)
  show "parse_http_version (b @ s) = Inr (x, r @ s)" if "parse_http_version b = Inr (x, r)" for x r s
    using that unfolding parse_http_version_Inr by auto
qed

text \<open>An optional and a required end of line.\<close>

lemma line_end_append:
  "line_end b = Some (Inl Failed) \<Longrightarrow> line_end (b @ s) = Some (Inl Failed)"
  "line_end b = Some (Inr r) \<Longrightarrow> line_end (b @ s) = Some (Inr (r @ s))"
  "b \<noteq> [] \<Longrightarrow> line_end b = None \<Longrightarrow> line_end (b @ s) = None"
  by (auto simp: line_end_def split: list.splits if_splits)

lemma first_line_steady:
  "b \<noteq> [] \<Longrightarrow> steady (\<lambda>b. andthen (case line_end b of Some e \<Rightarrow> e | None \<Rightarrow> Inr b) (\<lambda>r. Inr ((), r))) b"
  by (rule steadyI) (cases "line_end b"; auto simp: line_end_append andthen_eq_Inl)+

lemma eol_steady:
  "b \<noteq> [] \<Longrightarrow> steady (\<lambda>b. andthen (case line_end b of Some e \<Rightarrow> e | None \<Rightarrow> Inl Failed) (\<lambda>r. Inr ((), r))) b"
  by (rule steadyI) (cases "line_end b"; auto simp: line_end_append andthen_eq_Inl)+

text \<open>Header fields and the header block.\<close>

lemma parse_header_name_steady: "steady (parse_header_name sse) b"
proof -
  have e: "parse_header_name sse = (\<lambda>b. andthen (parse_token sse COLON b) (\<lambda>(n, r).
      (if n = [] then \<lambda>r. Inl Failed else (\<lambda>r. andthen (andthen (skip_ws (tl r)) (\<lambda>r. Inr ((), r))) (\<lambda>(_, r). Inr (Some n, r)))) r))"
    by (rule ext) (auto simp: parse_header_name_def andthen_def split: sum.split)
  have "steady (\<lambda>r. andthen (andthen (skip_ws (tl r)) (\<lambda>r. Inr ((), r))) (\<lambda>(_, r). Inr (Some n, r))) r"
    if "r \<noteq> []" for r and n :: bytes
  proof -
    have "steady (\<lambda>b. andthen (andthen (skip_ws b) (\<lambda>r. Inr ((), r))) (\<lambda>(_, r). Inr (Some n, r))) (tl r)"
      by (rule steady_andthen [OF skip_ws_steady steady_Inr])
    then show ?thesis using that by (simp add: steady_def)
  qed
  moreover have "r \<noteq> []" if "parse_token sse COLON b = Inr (n, r)" for n r
    using that by (auto simp: parse_token_Inr)
  ultimately show ?thesis unfolding e
    by (intro steady_andthen parse_token_steady) (auto intro: steady_Failed)
qed

lemma parse_field_steady:
  assumes "b \<noteq> []"
  shows "steady (parse_field sse first) b"
proof -
  let ?n = "\<lambda>b. if \<not> first \<and> is_ws (hd b) then Inr (None, b) else parse_header_name sse b"
  have e: "parse_field sse first = (\<lambda>b. andthen (?n b) (\<lambda>(n, r).
      andthen (get_token_to_eol sse r) (\<lambda>(v, r'). Inr (\<lparr>hname = n, hvalue = strip_value v\<rparr>, r'))))"
    by (rule ext) (simp add: parse_field_def)
  have "steady ?n b"
    using parse_header_name_steady [of sse b] assms by (auto simp: steady_def)
  then show ?thesis unfolding e
    by (rule steady_andthen) (rule steady_andthen [OF get_token_to_eol_steady steady_Inr])
qed

lemma parse_headers_steady: "steady (parse_headers sse mx hs) b"
proof (rule steadyI)
  show "parse_headers sse mx hs (b @ s) = Inl Failed" if "parse_headers sse mx hs b = Inl Failed" for s
    using that
  proof (induction sse mx hs b rule: parse_headers.induct)
    case (1 sse mx hs b)
    have ne: "b \<noteq> []" using "1.prems" by (auto simp: parse_headers.simps [of sse mx hs b])
    show ?case
    proof (cases "line_end b")
      case (Some e)
      then have "e = Inl Failed" using "1.prems" ne by (auto simp: parse_headers.simps [of sse mx hs b] andthen_eq_Inl)
      then show ?thesis using Some ne line_end_append(1) [of b s] by (simp add: parse_headers.simps [of sse mx hs "b @ s"])
    next
      case None
      note n = line_end_append(3) [OF ne None, of s]
      show ?thesis
      proof (cases "length hs = mx")
        case True
        then show ?thesis using ne n by (simp add: parse_headers.simps [of sse mx hs "b @ s"])
      next
        case False
        have "parse_field sse (hs = []) b = Inl Failed
            \<or> (\<exists>h r. parse_field sse (hs = []) b = Inr (h, r) \<and> parse_headers sse mx (hs @ [h]) r = Inl Failed)"
          using "1.prems" ne None False by (auto simp: parse_headers.simps [of sse mx hs b] andthen_eq_Inl)
        then show ?thesis
        proof
          assume "parse_field sse (hs = []) b = Inl Failed"
          then show ?thesis using steadyD(1) [OF parse_field_steady [OF ne]] ne n False
            by (simp add: parse_headers.simps [of sse mx hs "b @ s"])
        next
          assume "\<exists>h r. parse_field sse (hs = []) b = Inr (h, r) \<and> parse_headers sse mx (hs @ [h]) r = Inl Failed"
          then obtain h r where h: "parse_field sse (hs = []) b = Inr (h, r)" "parse_headers sse mx (hs @ [h]) r = Inl Failed" by blast
          have "parse_headers sse mx (hs @ [h]) (r @ s) = Inl Failed"
            by (rule "1.IH" [OF ne None False h(1) refl h(2)])
          then show ?thesis using steadyD(2) [OF parse_field_steady [OF ne] h(1)] ne n False
            by (simp add: parse_headers.simps [of sse mx hs "b @ s"])
        qed
      qed
    qed
  qed
  show "parse_headers sse mx hs (b @ s) = Inr (x, r @ s)" if "parse_headers sse mx hs b = Inr (x, r)" for x r s
    using that
  proof (induction sse mx hs b rule: parse_headers.induct)
    case (1 sse mx hs b)
    have ne: "b \<noteq> []" using "1.prems" by (auto simp: parse_headers.simps [of sse mx hs b])
    show ?case
    proof (cases "line_end b")
      case (Some e)
      then have "e = Inr r" "x = hs" using "1.prems" ne by (auto simp: parse_headers.simps [of sse mx hs b])
      then show ?thesis using Some ne line_end_append(2) [of b r s] by (simp add: parse_headers.simps [of sse mx hs "b @ s"])
    next
      case None
      then obtain h r' where h: "length hs \<noteq> mx" "parse_field sse (hs = []) b = Inr (h, r')"
        "parse_headers sse mx (hs @ [h]) r' = Inr (x, r)"
        using "1.prems" ne by (auto simp: parse_headers.simps [of sse mx hs b] split: if_splits)
      have "parse_headers sse mx (hs @ [h]) (r' @ s) = Inr (x, r @ s)"
        by (rule "1.IH" [OF ne None h(1,2) refl h(3)])
      then show ?thesis using steadyD(2) [OF parse_field_steady [OF ne] h(2)] ne line_end_append(3) [OF ne None] h(1)
        by (simp add: parse_headers.simps [of sse mx hs "b @ s"])
    qed
  qed
qed

section \<open>The request\<close>

text \<open>The parser as a chain of steady steps.\<close>

lemma parse_request_steady: "steady (parse_request sse mx) b"
proof (cases "b = []")
  case True
  then show ?thesis by (simp add: steady_def parse_request_def)
next
  case False
  let ?unit = "\<lambda>(m :: phr_err + bytes). andthen m (\<lambda>r. Inr ((), r))"
  define q where "q = (\<lambda>b. andthen (?unit (case line_end b of Some e \<Rightarrow> e | None \<Rightarrow> Inr b)) (\<lambda>(_, b1).
    andthen (parse_token sse SP b1) (\<lambda>(m, b2).
    andthen (?unit (skip_sp b2)) (\<lambda>(_, b3).
    andthen (advance_token sse b3) (\<lambda>(p, b4).
    andthen (?unit (skip_sp b4)) (\<lambda>(_, b5).
      (if m = [] \<or> p = [] then (\<lambda>b5. Inl Failed)
      else (\<lambda>b5. andthen (parse_http_version b5) (\<lambda>(v, b6).
        andthen (?unit (case line_end b6 of Some e \<Rightarrow> e | None \<Rightarrow> Inl Failed)) (\<lambda>(_, b7).
        andthen (parse_headers sse mx [] b7) (\<lambda>(hs, b8).
          Inr (\<lparr>req_method = m, path = p, minor_version = v, headers = hs\<rparr>, b8)))))) b5))))))"
  have unit: "andthen (?unit m) f = andthen m (\<lambda>r. f ((), r))" for m and f :: "unit \<times> bytes \<Rightarrow> phr_err + phr_request \<times> bytes"
    by (cases m) simp_all
  have q_eq: "parse_request sse mx b' = q b'" if "b' \<noteq> []" for b'
    using that unfolding q_def unit by (simp add: parse_request_def) (auto intro!: andthen_cong)
  have v: "b6 \<noteq> []" if "parse_http_version b5 = Inr (v, b6)" for b5 v b6 using that by (simp add: parse_http_version_Inr)
  have "steady q b" unfolding q_def
    by (rule steady_andthen [OF first_line_steady [OF False]], rule steady_andthen [OF parse_token_steady [OF disjI1 [OF refl]]],
        rule steady_andthen [OF skip_sp_steady], rule steady_andthen [OF advance_token_steady],
        rule steady_andthen [OF skip_sp_steady])
      (auto intro!: steady_Failed steady_andthen parse_http_version_steady eol_steady parse_headers_steady steady_Inr dest: v)
  then show ?thesis using q_eq False by (simp add: steady_def)
qed

lemma is_complete_loop_Failed: "is_complete_loop n b = Inl Failed \<Longrightarrow> is_complete_loop n (b @ s) = Inl Failed"
  by (induction n b rule: is_complete_loop.induct) (auto split: if_splits list.splits)

text \<open>
  What is rejected, with a \<open>last_len\<close> that counts no complete request, is the beginning of no request.
\<close>

lemma phr_rejected_final:
  assumes "phr_parse_request sse mx b l = Inl Failed" "l \<le> length b"
    and "l \<noteq> 0 \<Longrightarrow> \<forall>q. phr_parse_request sse mx (take l b) 0 \<noteq> Inr q"
  shows "phr_parse_request sse mx (b @ s) 0 \<noteq> Inr q"
proof
  assume a: "phr_parse_request sse mx (b @ s) 0 = Inr q"
  have "phr_parse_request sse mx (b @ s) l = Inr q"
    using a phr_last_len [of sse mx l "b @ s" q] assms(2,3) by (cases "l = 0") auto
  then obtain r n where ok: "l \<noteq> 0 \<Longrightarrow> is_complete (b @ s) l \<noteq> Inl Failed" "parse_request sse mx (b @ s) = Inr (r, n)"
    by (auto simp: phr_parse_request_def split: if_splits)
  have "is_complete (b @ s) l = Inl Failed" if "is_complete b l = Inl Failed"
    using that is_complete_loop_Failed [of 0 _ s] assms(2) by (auto simp: is_complete_def split: if_splits)
  moreover have "parse_request sse mx (b @ s) = Inl Failed" if "parse_request sse mx b = Inl Failed"
    using steadyD(1) [OF parse_request_steady that] .
  ultimately show False using assms(1) ok by (auto simp: phr_parse_request_def andthen_eq_Inl split: if_splits)
qed

text \<open>A blank line: two ends of line in a row. A buffer that has one is not incomplete for the count of line ends.\<close>

definition blank_line :: "bytes \<Rightarrow> bool" where
  "blank_line b \<longleftrightarrow> (\<exists>p s. b = p @ LF # LF # s \<or> b = p @ LF # CR # LF # s)"

lemma blank_line_Cons:
  "blank_line (c # cs) \<longleftrightarrow> (c = LF \<and> (\<exists>s. cs = LF # s \<or> cs = CR # LF # s)) \<or> blank_line cs"
proof -
  have "(\<exists>p s. c # cs = p @ LF # q @ s) \<longleftrightarrow> (c = LF \<and> (\<exists>s. cs = q @ s)) \<or> (\<exists>p s. cs = p @ LF # q @ s)" for q :: bytes
    by (auto simp: Cons_eq_append_conv)
  from this [of "[LF]"] this [of "[CR, LF]"] show ?thesis by (auto simp: blank_line_def)
qed

lemma blank_line_simps [simp]: "\<not> blank_line []"
  by (simp add: blank_line_def)

text \<open>The bytes that complete a blank line after \<open>n\<close> line ends just counted.\<close>

definition line_left :: "nat \<Rightarrow> bytes \<Rightarrow> bool" where
  "line_left n b \<longleftrightarrow> blank_line b \<or> n = 1 \<and> (\<exists>s. b = LF # s \<or> b = CR # LF # s)"

lemma line_left_Cons:
  "line_left n (c # cs) \<longleftrightarrow> (if c = LF then n = 1 \<or> line_left 1 cs
     else if c = CR then blank_line cs \<or> (n = 1 \<and> cs \<noteq> [] \<and> hd cs = LF) else line_left 0 cs)"
  by (cases cs) (auto simp: line_left_def blank_line_Cons)

lemma is_complete_blank: "line_left n b \<Longrightarrow> n < 2 \<Longrightarrow> is_complete_loop n b \<noteq> Inl Partial"
proof (induction n b rule: is_complete_loop.induct)
  case (1 n)
  then show ?case by (simp add: line_left_def)
next
  case (2 n c cs)
  show ?case
  proof (cases "c = CR")
    case True
    then obtain d ds where d: "cs = d # ds" using "2.prems" by (cases cs) (auto simp: line_left_Cons)
    have "line_left (Suc n) ds" if "d = LF" "n = 0"
      using "2.prems" True that d by (simp add: line_left_Cons) (auto simp: line_left_def blank_line_Cons)
    then show ?thesis using "2.IH"(1) [OF True d] True d "2.prems"(2) by (cases "n = 0") auto
  next
    case nc: False
    show ?thesis
    proof (cases "c = LF")
      case True
      have "line_left (Suc n) cs" if "n = 0" using "2.prems" True that by (simp add: line_left_Cons)
      then show ?thesis using "2.IH"(2) [OF nc True] True nc "2.prems"(2) by (cases "n = 0") auto
    next
      case False
      then have "line_left 0 cs" using "2.prems"(1) nc by (simp add: line_left_Cons)
      then show ?thesis using "2.IH"(3) [OF nc False] nc False by simp
    qed
  qed
qed

lemma rejected_with_blank_line:
  assumes "phr_parse_request sse mx b 0 = Inl Failed" "l = 0 \<or> blank_line (drop (l - 3) b)"
  shows "phr_parse_request sse mx b l = Inl Failed"
proof -
  have "parse_request sse mx b = Inl Failed" using assms(1) by (auto simp: phr_parse_request_def andthen_eq_Inl)
  moreover have "is_complete b l \<noteq> Inl Partial" if "l \<noteq> 0"
    using is_complete_blank [of 0 "drop (l - 3) b"] assms(2) that by (auto simp: is_complete_def line_left_def)
  ultimately show ?thesis
    by (cases "is_complete b l") (auto simp: phr_parse_request_def intro: phr_err.exhaust)
qed

end
