(* ===== verification/RespParser.thy ===== *)
theory RespParser
  imports Parser
begin

text \<open>
  The rest of the parser half of \<^verbatim>\<open>vendor/picohttpparser/picohttpparser.c\<close>: \<open>phr_parse_response\<close> with
  \<open>parse_response\<close> and the macro \<open>PARSE_INT_3\<close>, and \<open>phr_parse_headers\<close>. The server never calls them
  (it only reads requests); here they also serve as an independent reader of what the server writes.
  The conventions, and everything below these functions, are those of theory Parser.
\<close>

section \<open>Definitions\<close>

text \<open>\<open>PARSE_INT(valp, mul)\<close>: one digit, times its weight.\<close>

definition parse_int :: "nat \<Rightarrow> bytes \<Rightarrow> phr_err + (nat \<times> bytes)" where
  "parse_int mul buf =
     (if byte (hd buf) < 48 \<or> 57 < byte (hd buf) then Inl Failed
      else Inr (mul * (byte (hd buf) - 48), tl buf))"

text \<open>\<open>PARSE_INT_3(valp)\<close>; the caller has checked that four bytes are readable.\<close>

definition parse_int_3 :: "bytes \<Rightarrow> phr_err + (nat \<times> bytes)" where
  "parse_int_3 buf =
     andthen (parse_int 100 buf) (\<lambda>(h, b1).
     andthen (parse_int 10 b1) (\<lambda>(t, b2).
     andthen (parse_int 1 b2) (\<lambda>(u, b3). Inr (h + t + u, b3))))"

record phr_response =
  rs_minor :: nat
  rs_status :: nat
  rs_msg :: bytes
  rs_headers :: "phr_header list"

text \<open>
  The message with the blanks before it: the loop over them stops at the line end at the latest,
  which \<open>get_token_to_eol\<close> has found, so it removes exactly the leading blanks. A message that is not
  empty and does not start with a blank is garbage after the status code.
\<close>

definition strip_msg :: "bytes \<Rightarrow> phr_err + bytes" where
  "strip_msg msg =
     (if msg = [] then Inr msg
      else if hd msg = SP then Inr (dropWhile (\<lambda>c. c = SP) msg)
      else Inl Failed)"

definition parse_response :: "bool \<Rightarrow> nat \<Rightarrow> bytes \<Rightarrow> phr_err + (phr_response \<times> bytes)" where
  "parse_response sse max_headers buf =
     andthen (parse_http_version buf) (\<lambda>(v, b1).
       if hd b1 \<noteq> SP then Inl Failed
       else andthen (skip_sp b1) (\<lambda>b2.
         if length b2 < 4 then Inl Partial
         else andthen (parse_int_3 b2) (\<lambda>(st, b3).
           andthen (get_token_to_eol sse b3) (\<lambda>(m, b4).
           andthen (strip_msg m) (\<lambda>msg.
           andthen (parse_headers sse max_headers [] b4) (\<lambda>(hs, b5).
             Inr (\<lparr>rs_minor = v, rs_status = st, rs_msg = msg, rs_headers = hs\<rparr>, b5)))))))"

definition phr_parse_response ::
  "bool \<Rightarrow> nat \<Rightarrow> bytes \<Rightarrow> nat \<Rightarrow> phr_err + (phr_response \<times> nat)" where
  "phr_parse_response sse max_headers buf last_len =
     andthen (if last_len \<noteq> 0 then is_complete buf last_len else Inr []) (\<lambda>_.
       andthen (parse_response sse max_headers buf) (\<lambda>(r, rest).
         Inr (r, length buf - length rest)))"

definition phr_parse_headers ::
  "bool \<Rightarrow> nat \<Rightarrow> bytes \<Rightarrow> nat \<Rightarrow> phr_err + (phr_header list \<times> nat)" where
  "phr_parse_headers sse max_headers buf last_len =
     andthen (if last_len \<noteq> 0 then is_complete buf last_len else Inr []) (\<lambda>_.
       andthen (parse_headers sse max_headers [] buf) (\<lambda>(hs, rest).
         Inr (hs, length buf - length rest)))"

section \<open>Both builds agree\<close>

theorem phr_response_sse_equiv:
  "phr_parse_response True max_headers buf last_len = phr_parse_response False max_headers buf last_len"
  by (simp add: phr_parse_response_def parse_response_def get_token_to_eol_simple
      parse_headers_sse [of True] cong: if_cong)

theorem phr_headers_sse_equiv:
  "phr_parse_headers True max_headers buf last_len = phr_parse_headers False max_headers buf last_len"
  by (simp add: phr_parse_headers_def parse_headers_sse [of True] cong: if_cong)

section \<open>What is accepted\<close>

definition digit :: "nat \<Rightarrow> char" where
  "digit d = char_of (48 + d)"

lemma byte_digit [simp]: "d \<le> 9 \<Longrightarrow> byte (digit d) = 48 + d"
  by (simp add: digit_def of_char_of)

lemma digit_byte: "48 \<le> byte c \<Longrightarrow> digit (byte c - 48) = c"
  by (simp add: digit_def)

definition three_digits :: "nat \<Rightarrow> bytes" where
  "three_digits n = [digit (n div 10 div 10), digit (n div 10 mod 10), digit (n mod 10)]"

lemma parse_int_digit: "d \<le> 9 \<Longrightarrow> parse_int mul (digit d # b) = Inr (mul * d, b)"
  by (simp add: parse_int_def)

lemma parse_int_Inr:
  "parse_int mul (c # b) = Inr (n, r) \<Longrightarrow> \<exists>d \<le> 9. c = digit d \<and> n = mul * d \<and> r = b"
  by (rule exI [of _ "byte c - 48"]) (auto simp: parse_int_def digit_byte split: if_splits)

lemma three_digits_sum:
  fixes n :: nat
  shows "100 * (n div 10 div 10) + 10 * (n div 10 mod 10) + n mod 10 = n"
proof -
  define m where "m = n div 10"
  have "n = 10 * m + n mod 10" "m = 10 * (m div 10) + m mod 10" by (simp_all add: m_def)
  then show ?thesis unfolding m_def [symmetric] by linarith
qed

lemma three_digits_le:
  assumes "n \<le> (999::nat)"
  shows "n div 10 div 10 \<le> 9 \<and> n div 10 mod 10 \<le> 9 \<and> n mod 10 \<le> 9"
proof -
  have "n div 10 div 10 \<le> 9" using assms by (simp flip: div_mult2_eq)
  moreover have "k mod 10 \<le> 9" for k :: nat by simp
  ultimately show ?thesis by blast
qed

lemma parse_int_3_digits:
  assumes "n \<le> 999"
  shows "parse_int_3 (three_digits n @ b) = Inr (n, b)"
  using three_digits_le [OF assms] three_digits_sum [of n]
  by (simp add: parse_int_3_def three_digits_def parse_int_digit)

lemma three_digits_of:
  fixes h t u :: nat
  assumes "h \<le> 9" "t \<le> 9" "u \<le> 9"
  shows "three_digits (100 * h + 10 * t + u) = [digit h, digit t, digit u]"
proof -
  have e: "100 * h + 10 * t + u = u + 10 * (t + 10 * h)" by simp
  have "(100 * h + 10 * t + u) div 10 = t + 10 * h" "(100 * h + 10 * t + u) mod 10 = u"
    unfolding e div_mult_self2 [OF zero_neq_numeral [symmetric]] mod_mult_self2
    using assms(3) by simp_all
  moreover have "(t + 10 * h) div 10 = h" "(t + 10 * h) mod 10 = t"
    unfolding div_mult_self2 [OF zero_neq_numeral [symmetric]] mod_mult_self2
    using assms(2) by simp_all
  ultimately show ?thesis by (simp add: three_digits_def)
qed

lemma parse_int_3_Inr:
  assumes "4 \<le> length buf" and "parse_int_3 buf = Inr (n, r)"
  shows "n \<le> 999 \<and> buf = three_digits n @ r"
proof -
  from assms(1) obtain a b c s where buf: "buf = a # b # c # s"
    by (cases buf; cases "tl buf"; cases "tl (tl buf)") auto
  with assms(2) obtain x y z b1 b2 where
    "parse_int 100 (a # b # c # s) = Inr (x, b1)" "parse_int 10 b1 = Inr (y, b2)"
    "parse_int 1 b2 = Inr (z, r)" "n = x + y + z"
    by (auto simp: parse_int_3_def)
  then obtain h t u where "h \<le> 9" "t \<le> 9" "u \<le> 9" "n = 100 * h + 10 * t + u" "r = s"
    "a = digit h" "b = digit t" "c = digit u"
    by (auto dest!: parse_int_Inr)
  then show ?thesis using buf three_digits_of [of h t u] by simp
qed

lemma strip_msg_Inr:
  "strip_msg m = Inr msg \<longleftrightarrow>
   (\<exists>w. m = w @ msg \<and> (\<forall>c \<in> set w. c = SP) \<and> (w = [] \<longrightarrow> msg = []) \<and> (msg \<noteq> [] \<longrightarrow> hd msg \<noteq> SP))"
  (is "?L \<longleftrightarrow> ?R")
proof
  assume L: ?L
  show ?R
  proof (cases m)
    case Nil
    with L show ?thesis by (simp add: strip_msg_def)
  next
    case (Cons c cs)
    with L have c: "c = SP" and msg: "msg = dropWhile (\<lambda>c. c = SP) m"
      by (auto simp: strip_msg_def split: if_splits)
    have "m = takeWhile (\<lambda>c. c = SP) m @ msg" using msg by simp
    moreover have "takeWhile (\<lambda>c. c = SP) m \<noteq> []" using Cons c by simp
    moreover have "msg \<noteq> [] \<longrightarrow> hd msg \<noteq> SP" using msg hd_dropWhile [of "\<lambda>c. c = SP" m] by simp
    ultimately show ?thesis by (intro exI [of _ "takeWhile (\<lambda>c. c = SP) m"]) (auto dest: set_takeWhileD)
  qed
next
  assume ?R
  then obtain w where w: "m = w @ msg" "\<forall>c \<in> set w. c = SP" "w = [] \<longrightarrow> msg = []"
    "msg \<noteq> [] \<longrightarrow> hd msg \<noteq> SP" by blast
  have "dropWhile (\<lambda>c. c = SP) (w @ msg) = msg"
    using w(2,4) by (cases msg) (simp_all add: dropWhile_append2)
  with w show ?L by (cases w) (auto simp: strip_msg_def)
qed

text \<open>The well-formed responses and exactly the inputs one is accepted from.\<close>

definition response_ok :: "nat \<Rightarrow> phr_response \<Rightarrow> bool" where
  "response_ok max_headers q \<longleftrightarrow> rs_minor q \<le> 9 \<and> rs_status q \<le> 999
     \<and> (\<forall>c \<in> set (rs_msg q). \<not> is_eol_ctl c) \<and> (rs_msg q \<noteq> [] \<longrightarrow> hd (rs_msg q) \<noteq> SP)
     \<and> headers_ok True (rs_headers q) \<and> length (rs_headers q) \<le> max_headers"

text \<open>The parts of a status line, as the parser takes them apart.\<close>

definition resp_line_ok :: "bytes \<Rightarrow> bytes \<Rightarrow> phr_response \<Rightarrow> bool" where
  "resp_line_ok w s q \<longleftrightarrow> rs_minor q \<le> 9 \<and> w \<noteq> [] \<and> (\<forall>c \<in> set w. c = SP) \<and> rs_status q \<le> 999
     \<and> (\<forall>c \<in> set s. c = SP) \<and> (s = [] \<longrightarrow> rs_msg q = [])
     \<and> (\<forall>c \<in> set (rs_msg q). \<not> is_eol_ctl c) \<and> (rs_msg q \<noteq> [] \<longrightarrow> hd (rs_msg q) \<noteq> SP)"

definition resp_line :: "bytes \<Rightarrow> bytes \<Rightarrow> phr_response \<Rightarrow> bytes" where
  "resp_line w s q = http_1_dot @ [digit (rs_minor q)] @ w @ three_digits (rs_status q) @ s @ rs_msg q"

lemma digit_not_eol: "d \<le> 9 \<Longrightarrow> \<not> is_eol_ctl (digit d) \<and> digit d \<noteq> SP \<and> digit d \<noteq> CR"
  by (auto simp: is_eol_ctl_def dest: arg_cong [of _ _ byte])

lemma three_digits_not_eol:
  assumes "n \<le> 999" and "c \<in> set (three_digits n)"
  shows "\<not> is_eol_ctl c \<and> c \<noteq> SP \<and> c \<noteq> CR"
proof -
  from three_digits_le [OF assms(1)] obtain d where "d \<le> 9" "c = digit d" using assms(2) by (auto simp: three_digits_def)
  then show ?thesis using digit_not_eol [of d] by simp
qed

lemma length_three_digits [simp]: "length (three_digits n) = 3"
  by (simp add: three_digits_def)

lemma three_digits_cons: "three_digits n = hd (three_digits n) # tl (three_digits n)"
  by (simp add: three_digits_def)

lemma parse_response_Inr:
  "parse_response sse mx buf = Inr (q, r) \<longleftrightarrow>
   (\<exists>w s e b. buf = resp_line w s q @ e @ b \<and> resp_line_ok w s q \<and> is_eol e
      \<and> parse_headers sse mx [] b = Inr (rs_headers q, r))"
  (is "?L \<longleftrightarrow> ?R")
proof
  assume ?L
  then obtain v b1 b2 st b3 m b4 msg hs where
    s1: "parse_http_version buf = Inr (v, b1)" and s2: "hd b1 = SP" "skip_sp b1 = Inr b2"
    and s3: "4 \<le> length b2" "parse_int_3 b2 = Inr (st, b3)"
    and s4: "get_token_to_eol sse b3 = Inr (m, b4)" and s5: "strip_msg m = Inr msg"
    and s6: "parse_headers sse mx [] b4 = Inr (hs, r)"
    and q: "q = \<lparr>rs_minor = v, rs_status = st, rs_msg = msg, rs_headers = hs\<rparr>"
    by (auto simp: parse_response_def not_less split: if_splits)
  have v: "v \<le> 9" "b1 \<noteq> []" "buf = http_1_dot @ digit v # b1"
    using s1 by (auto simp: parse_http_version_Inr digit_def)
  obtain w where w: "b1 = w @ b2" "\<forall>c \<in> set w. c = SP" "hd b2 \<noteq> SP"
    using s2 by (auto simp: skip_sp_Inr)
  have wne: "w \<noteq> []" using w s2(1) by auto
  have st: "st \<le> 999" "b2 = three_digits st @ b3" using parse_int_3_Inr [OF s3] by auto
  obtain e where e: "b3 = m @ e @ b4" "is_eol e" "\<forall>c \<in> set m. \<not> is_eol_ctl c"
    using s4 by (auto simp: get_token_to_eol_Inr)
  obtain s where s: "m = s @ msg" "\<forall>c \<in> set s. c = SP" "s = [] \<longrightarrow> msg = []"
    "msg \<noteq> [] \<longrightarrow> hd msg \<noteq> SP"
    using s5 by (auto simp: strip_msg_Inr)
  have "buf = resp_line w s q @ e @ b4"
    by (simp add: resp_line_def q v(3) w(1) st(2) e(1) s(1))
  moreover have "\<forall>c \<in> set msg. \<not> is_eol_ctl c" using e(3) s(1) by simp
  then have "resp_line_ok w s q"
    using v(1) wne w(2) st(1) s(2-4) by (simp add: resp_line_ok_def q)
  ultimately show ?R using e(2) s6 by (intro exI conjI) (assumption | simp add: q)+
next
  assume ?R
  then obtain w s e b where buf: "buf = resp_line w s q @ e @ b" and ok: "resp_line_ok w s q"
    and e: "is_eol e" and hs: "parse_headers sse mx [] b = Inr (rs_headers q, r)" by blast
  define b3 where "b3 = s @ rs_msg q @ e @ b"
  define b2 where "b2 = three_digits (rs_status q) @ b3"
  have wne: "w @ b2 \<noteq> []" "hd (w @ b2) = SP" using ok by (cases w; auto simp: resp_line_ok_def)+
  have s1: "parse_http_version buf = Inr (rs_minor q, w @ b2)"
    using ok wne by (auto simp: parse_http_version_Inr buf resp_line_def resp_line_ok_def
        b2_def b3_def digit_def)
  have "hd b2 \<noteq> SP" "b2 \<noteq> []"
    using ok three_digits_not_eol [of "rs_status q" "hd (three_digits (rs_status q))"]
    by (subst b2_def, subst three_digits_cons; auto simp: resp_line_ok_def b2_def three_digits_def)+
  then have s2: "skip_sp (w @ b2) = Inr b2" using ok by (auto simp: skip_sp_Inr resp_line_ok_def)
  have "b3 \<noteq> []" using eol_hd [OF e] by (simp add: b3_def)
  then have s3: "4 \<le> length b2" by (cases b3) (auto simp: b2_def)
  have s4: "parse_int_3 b2 = Inr (rs_status q, b3)"
    using ok by (simp add: b2_def parse_int_3_digits resp_line_ok_def)
  have "\<not> is_eol_ctl SP" by (simp add: is_eol_ctl_def)
  then have s5: "get_token_to_eol sse b3 = Inr (s @ rs_msg q, b)"
    using ok e unfolding get_token_to_eol_Inr b3_def resp_line_ok_def
    by (intro exI [of _ e]) auto
  have s6: "strip_msg (s @ rs_msg q) = Inr (rs_msg q)"
    unfolding strip_msg_Inr using ok by (intro exI [of _ s]) (auto simp: resp_line_ok_def)
  show ?L using s1 wne s2 s3 s4 s5 s6 hs by (simp add: parse_response_def)
qed

section \<open>Locality and the completeness check\<close>

lemma parse_response_local:
  assumes "parse_response sse mx buf = Inr (q, r)"
  obtains pre z e1 e2 where "buf = pre @ r" "\<forall>r'. parse_response sse mx (pre @ r') = Inr (q, r')"
    "response_ok mx q" "pre = z @ e1 @ e2" "is_eol e1" "is_eol e2" "crlf_ok pre"
proof -
  from assms obtain w s e1 b where buf: "buf = resp_line w s q @ e1 @ b"
    and ok: "resp_line_ok w s q" and e1: "is_eol e1"
    and hs: "parse_headers sse mx [] b = Inr (rs_headers q, r)"
    unfolding parse_response_Inr by blast
  from parse_headers_local [OF hs] obtain fs e where
    fs: "b = fs @ e @ r" "is_eol e" "crlf_ok fs" "fs = [] \<or> (\<exists>q e'. fs = q @ e' \<and> is_eol e')"
      "\<forall>r'. parse_headers sse mx [] (fs @ e @ r') = Inr (rs_headers q, r')"
      "headers_ok True (rs_headers q)" "length (rs_headers q) \<le> mx" by auto
  have "crlf_ok (resp_line w s q)"
  proof (rule crlf_ok_noCR, rule ballI)
    fix c assume "c \<in> set (resp_line w s q)"
    then consider "c \<in> set http_1_dot" | "c = digit (rs_minor q)" | "c = SP"
      | "c \<in> set (three_digits (rs_status q))" | "c \<in> set (rs_msg q)"
      using ok by (auto simp: resp_line_def resp_line_ok_def)
    then show "c \<noteq> CR"
      using ok http_1_dot_noCR digit_not_eol [of "rs_minor q"] three_digits_not_eol [of "rs_status q" c]
      by cases (auto simp: resp_line_ok_def)
  qed
  moreover define pre where "pre = resp_line w s q @ e1 @ fs @ e"
  ultimately have pre: "crlf_ok pre"
    using crlf_ok_eol [OF e1] crlf_ok_eol [OF fs(2)] fs(3) by (simp add: crlf_ok_append)
  have "parse_response sse mx (pre @ r') = Inr (q, r')" for r'
    unfolding parse_response_Inr pre_def using ok e1 fs(5)
    by (intro exI [of _ w] exI [of _ s] exI [of _ e1] exI [of _ "fs @ e @ r'"]) simp
  moreover have "response_ok mx q" using ok fs(6,7) by (simp add: response_ok_def resp_line_ok_def)
  moreover have "buf = pre @ r" using buf fs(1) by (simp add: pre_def)
  moreover obtain z e' where "pre = z @ e' @ e" "is_eol e'"
  proof (cases "fs = []")
    case True
    with e1 show thesis by (intro that [of "resp_line w s q" e1]) (auto simp: pre_def)
  next
    case False
    with fs(4) obtain q' e' where "fs = q' @ e'" "is_eol e'" by blast
    then show thesis by (intro that [of "resp_line w s q @ e1 @ q'" e']) (auto simp: pre_def)
  qed
  ultimately show thesis using fs(2) pre by (intro that [of pre z e' e]) blast+
qed

text \<open>An accepted response is well formed and decided by the bytes it consumes.\<close>

theorem phr_response_sound:
  assumes "phr_parse_response sse max_headers buf last_len = Inr (q, n)"
  shows "response_ok max_headers q \<and> 0 < n \<and> n \<le> length buf
    \<and> (\<forall>r'. phr_parse_response sse max_headers (take n buf @ r') 0 = Inr (q, n))"
proof -
  from assms obtain r where r: "parse_response sse max_headers buf = Inr (q, r)"
    and n: "n = length buf - length r"
    by (auto simp: phr_parse_response_def)
  from r obtain pre z e1 e2 where pre: "buf = pre @ r"
    "\<forall>r'. parse_response sse max_headers (pre @ r') = Inr (q, r')"
    "response_ok max_headers q" "pre = z @ e1 @ e2" "is_eol e1" "is_eol e2" "crlf_ok pre"
    by (rule parse_response_local)
  have "n = length pre" "take n buf = pre" using n pre(1) by simp_all
  moreover have "0 < length pre" using pre(4) eol_hd [OF pre(5)] by auto
  ultimately show ?thesis using pre by (auto simp: phr_parse_response_def)
qed

text \<open>The quick check hides no response that was not there before.\<close>

theorem phr_response_incremental:
  assumes "phr_parse_response sse max_headers (take last_len buf) 0 = Inl err"
    and "last_len \<le> length buf"
  shows "phr_parse_response sse max_headers buf last_len = Inr res \<longleftrightarrow>
    phr_parse_response sse max_headers buf 0 = Inr res"
proof
  assume "phr_parse_response sse max_headers buf 0 = Inr res"
  then obtain q r where r: "parse_response sse max_headers buf = Inr (q, r)"
    and res: "res = (q, length buf - length r)"
    by (auto simp: phr_parse_response_def)
  from r obtain pre z e1 e2 where pre: "buf = pre @ r"
    "\<forall>r'. parse_response sse max_headers (pre @ r') = Inr (q, r')"
    "response_ok max_headers q" "pre = z @ e1 @ e2" "is_eol e1" "is_eol e2" "crlf_ok pre"
    by (rule parse_response_local)
  have "last_len < length pre"
  proof (rule ccontr)
    assume "\<not> last_len < length pre"
    then have "take last_len buf = pre @ take (last_len - length pre) r" using pre(1) by simp
    with assms(1) pre(2) show False by (simp add: phr_parse_response_def)
  qed
  with pre(4-7) obtain r' where "is_complete (pre @ r) last_len = Inr r'"
    using is_complete_of_local by blast
  then show "phr_parse_response sse max_headers buf last_len = Inr res"
    using r res pre(1) by (simp add: phr_parse_response_def)
qed (auto simp: phr_parse_response_def split: if_splits)

text \<open>
  A bare header block has only one line end when it is empty, and the check asks for two: with
  \<open>last_len\<close> set, \<open>phr_parse_headers\<close> keeps waiting for an empty block that a full parse accepts.
\<close>

lemma phr_headers_empty_block_hidden:
  "phr_parse_headers False 64 [CR] 0 = Inl Partial
   \<and> phr_parse_headers False 64 [CR, LF] 0 = Inr ([], 2)
   \<and> phr_parse_headers False 64 [CR, LF] 1 = Inl Partial"
  by code_simp

text \<open>With a field in it the check is as harmless as in a request.\<close>

theorem phr_headers_incremental:
  assumes "phr_parse_headers sse max_headers (take last_len buf) 0 = Inl err"
    and "last_len \<le> length buf" and "hs \<noteq> []"
  shows "phr_parse_headers sse max_headers buf last_len = Inr (hs, n) \<longleftrightarrow>
    phr_parse_headers sse max_headers buf 0 = Inr (hs, n)"
proof
  assume "phr_parse_headers sse max_headers buf 0 = Inr (hs, n)"
  then obtain r where r: "parse_headers sse max_headers [] buf = Inr (hs, r)"
    and n: "n = length buf - length r"
    by (auto simp: phr_parse_headers_def)
  from parse_headers_local [OF r] obtain fs e where
    fs: "buf = fs @ e @ r" "is_eol e" "crlf_ok fs" "fs = [] \<or> (\<exists>q e'. fs = q @ e' \<and> is_eol e')"
      "\<forall>r'. parse_headers sse max_headers [] (fs @ e @ r') = Inr (hs, r')" by auto
  have "fs \<noteq> []"
  proof
    assume "fs = []"
    then have "line_end buf = Some (Inr r)" "buf \<noteq> []"
      using fs(1,2) eol_hd [OF fs(2)] by (auto simp: line_end_Inr)
    with r have "hs = []" by (simp add: parse_headers.simps [of sse max_headers "[]" buf])
    with assms(3) show False by simp
  qed
  with fs(4) obtain z e' where z: "fs = z @ e'" "is_eol e'" by blast
  have "last_len < length (fs @ e)"
  proof (rule ccontr)
    assume "\<not> last_len < length (fs @ e)"
    then have "take last_len buf = fs @ e @ take (last_len - length (fs @ e)) r" using fs(1) by simp
    with assms(1) fs(5) show False by (simp add: phr_parse_headers_def)
  qed
  moreover have "crlf_ok (fs @ e)" using fs(3) crlf_ok_eol [OF fs(2)] by (rule crlf_ok_append)
  ultimately obtain r' where "is_complete ((fs @ e) @ r) last_len = Inr r'"
    using is_complete_of_local [of "fs @ e" z e' e last_len r] z fs(2) by auto
  then show "phr_parse_headers sse max_headers buf last_len = Inr (hs, n)"
    using r n fs(1) by (simp add: phr_parse_headers_def)
qed (auto simp: phr_parse_headers_def split: if_splits)

section \<open>Round trip\<close>

text \<open>A response as a server prints it; an empty reason phrase leaves its blank out or not.\<close>

definition render_response :: "bool \<Rightarrow> phr_response \<Rightarrow> bytes" where
  "render_response blank q = http_1_dot @ [digit (rs_minor q)] @ [SP] @ three_digits (rs_status q)
     @ (if blank \<or> rs_msg q \<noteq> [] then SP # rs_msg q else []) @ CRLF
     @ concat (map render_header (rs_headers q)) @ CRLF"

theorem phr_response_roundtrip:
  assumes "response_ok max_headers q" and "named_headers (rs_headers q)"
  shows "phr_parse_response sse max_headers (render_response blank q @ rest) 0
    = Inr (q, length (render_response blank q))"
proof -
  let ?b = "concat (map render_header (rs_headers q)) @ CRLF @ rest"
  let ?s = "if blank \<or> rs_msg q \<noteq> [] then [SP] else []"
  have "parse_headers sse max_headers [] ?b = Inr ([] @ rs_headers q, rest)"
    using assms by (intro parse_headers_render) (auto simp: response_ok_def)
  moreover have "resp_line_ok [SP] ?s q"
    using assms(1) by (auto simp: resp_line_ok_def response_ok_def)
  ultimately have "parse_response sse max_headers (render_response blank q @ rest) = Inr (q, rest)"
    unfolding parse_response_Inr
    by (intro exI [of _ "[SP]"] exI [of _ ?s] exI [of _ CRLF] exI [of _ ?b])
       (auto simp: render_response_def resp_line_def is_eol_def)
  then show ?thesis by (simp add: phr_parse_response_def)
qed

end
