(* ===== verification/Chunked.thy ===== *)
theory Chunked
  imports Prelude
begin

text \<open>
  The decoder for chunked transfer coding, the last part of \<^verbatim>\<open>vendor/picohttpparser/picohttpparser.c\<close>:
  \<open>decode_hex\<close>, \<open>phr_decode_chunked\<close> and \<open>phr_decode_chunked_is_in_data\<close>. The server does not call it (it
  ignores \<open>Transfer-Encoding\<close>); it is modelled because the file ships with the program.

  The decoder works in the caller's buffer: \<open>src\<close> reads, \<open>dst\<close> writes what was decoded, and one call can
  stop after any byte. The reference is an automaton that takes one byte at a time (\<open>chunk_step\<close>); the
  code is shown to compute it, whatever the calls the input is cut into.
\<close>

section \<open>Definitions\<close>

datatype chunk_state =
    IN_CHUNK_SIZE
  | IN_CHUNK_EXT
  | IN_CHUNK_HEADER_EXPECT_LF
  | IN_CHUNK_DATA
  | IN_CHUNK_DATA_EXPECT_CR
  | IN_CHUNK_DATA_EXPECT_LF
  | IN_TRAILERS_LINE_HEAD
  | IN_TRAILERS_LINE_MIDDLE

text \<open>
  \<open>struct phr_chunked_decoder\<close>; \<open>consume_trailer\<close> is a \<open>char\<close> that is only tested, \<open>_hex_count\<close> one that
  counts to 16.
\<close>

record phr_chunked_decoder =
  bytes_left :: "64 word"
  consume_trailer :: bool
  hex_count :: nat
  chunk_state :: chunk_state
  total_read :: "64 word"
  total_overhead :: "64 word"

definition decode_hex :: "char \<Rightarrow> nat option" where
  "decode_hex ch =
     (if 48 \<le> byte ch \<and> byte ch \<le> 57 then Some (byte ch - 48)
      else if 65 \<le> byte ch \<and> byte ch \<le> 70 then Some (byte ch - 65 + 10)
      else if 97 \<le> byte ch \<and> byte ch \<le> 102 then Some (byte ch - 97 + 10)
      else None)"

text \<open>
  The local variables of a call (\<open>bufsz\<close> is the length of the buffer), and how a \<open>case\<close> of the switch is
  left: \<open>goto Exit\<close> with the return code, \<open>goto Complete\<close>, or on to the next case. Every fall-through sets
  \<open>_state\<close> to the case it falls into, so falling through and going round the loop are the same.
\<close>

record decoding =
  dec :: phr_chunked_decoder
  cbuf :: bytes
  src :: nat
  dst :: nat

datatype flow = Exit int | Complete | Next

abbreviation goto_state :: "chunk_state \<Rightarrow> decoding \<Rightarrow> decoding" where
  "goto_state st s \<equiv> s\<lparr>dec := (dec s)\<lparr>chunk_state := st\<rparr>\<rparr>"

abbreviation advance :: "decoding \<Rightarrow> decoding" where
  "advance s \<equiv> s\<lparr>src := Suc (src s)\<rparr>"

abbreviation cur :: "decoding \<Rightarrow> char" where
  "cur s \<equiv> cbuf s ! src s"

abbreviation at_end :: "decoding \<Rightarrow> bool" where
  "at_end s \<equiv> length (cbuf s) \<le> src s"

definition after_size :: "char set" where
  "after_size = {SP, TAB, CHR '';'', LF, CR}"

text \<open>\<open>case CHUNKED_IN_CHUNK_SIZE\<close>: the digits, each with its overflow check.\<close>

function in_chunk_size :: "decoding \<Rightarrow> flow \<times> decoding" where
  "in_chunk_size s =
     (if at_end s then (Exit (- 2), s)
      else case decode_hex (cur s) of
        None \<Rightarrow>
          if hex_count (dec s) = 0 then (Exit (- 1), s)
          else if cur s \<notin> after_size then (Exit (- 1), s)
          else (Next, goto_state IN_CHUNK_EXT (s\<lparr>dec := (dec s)\<lparr>hex_count := 0\<rparr>\<rparr>))
      | Some v \<Rightarrow>
          if hex_count (dec s) = 16 then (Exit (- 1), s)
          else in_chunk_size (advance (s\<lparr>dec := (dec s)\<lparr>bytes_left := bytes_left (dec s) * 16 + of_nat v,
                 hex_count := Suc (hex_count (dec s))\<rparr>\<rparr>)))"
  by pat_completeness auto
termination
  by (relation "measure (\<lambda>s. length (cbuf s) - src s)") auto

function in_chunk_ext :: "decoding \<Rightarrow> flow \<times> decoding" where
  "in_chunk_ext s =
     (if at_end s then (Exit (- 2), s)
      else if cur s = CR then (Next, goto_state IN_CHUNK_HEADER_EXPECT_LF (advance s))
      else if cur s = LF then (Exit (- 1), s)
      else in_chunk_ext (advance s))"
  by pat_completeness auto
termination
  by (relation "measure (\<lambda>s. length (cbuf s) - src s)") auto

definition in_chunk_header_expect_lf :: "decoding \<Rightarrow> flow \<times> decoding" where
  "in_chunk_header_expect_lf s =
     (if at_end s then (Exit (- 2), s)
      else if cur s \<noteq> LF then (Exit (- 1), s)
      else if bytes_left (dec s) = 0 then
        (if consume_trailer (dec s) then (Next, goto_state IN_TRAILERS_LINE_HEAD (advance s))
         else (Complete, advance s))
      else (Next, goto_state IN_CHUNK_DATA (advance s)))"

text \<open>\<open>memmove(buf + d, buf + s, n)\<close> inside one array: position \<open>d + i\<close> gets what was at \<open>s + i\<close>.\<close>

definition memmove :: "'a list \<Rightarrow> nat \<Rightarrow> nat \<Rightarrow> nat \<Rightarrow> 'a list" where
  "memmove xs d s n = map (\<lambda>i. if d \<le> i \<and> i < d + n then xs ! (s + (i - d)) else xs ! i) [0..<length xs]"

text \<open>\<open>if (dst != src) memmove(buf + dst, buf + src, n)\<close>, then both indices move on by \<open>n\<close>.\<close>

definition move_data :: "nat \<Rightarrow> decoding \<Rightarrow> decoding" where
  "move_data n s =
     s\<lparr>cbuf := (if dst s \<noteq> src s then memmove (cbuf s) (dst s) (src s) n else cbuf s),
       src := src s + n, dst := dst s + n\<rparr>"

definition in_chunk_data :: "decoding \<Rightarrow> flow \<times> decoding" where
  "in_chunk_data s =
     (let avail = length (cbuf s) - src s; left = bytes_left (dec s)
      in if avail < unat left then
           (Exit (- 2), (move_data avail s)\<lparr>dec := (dec s)\<lparr>bytes_left := left - of_nat avail\<rparr>\<rparr>)
         else
           (Next, goto_state IN_CHUNK_DATA_EXPECT_CR
                    ((move_data (unat left) s)\<lparr>dec := (dec s)\<lparr>bytes_left := 0\<rparr>\<rparr>)))"

definition in_chunk_data_expect_cr :: "decoding \<Rightarrow> flow \<times> decoding" where
  "in_chunk_data_expect_cr s =
     (if at_end s then (Exit (- 2), s)
      else if cur s \<noteq> CR then (Exit (- 1), s)
      else (Next, goto_state IN_CHUNK_DATA_EXPECT_LF (advance s)))"

definition in_chunk_data_expect_lf :: "decoding \<Rightarrow> flow \<times> decoding" where
  "in_chunk_data_expect_lf s =
     (if at_end s then (Exit (- 2), s)
      else if cur s \<noteq> LF then (Exit (- 1), s)
      else (Next, goto_state IN_CHUNK_SIZE (advance s)))"

function in_trailers_line_head :: "decoding \<Rightarrow> flow \<times> decoding" where
  "in_trailers_line_head s =
     (if at_end s then (Exit (- 2), s)
      else if cur s = CR then in_trailers_line_head (advance s)
      else if cur s = LF then (Complete, advance s)
      else (Next, goto_state IN_TRAILERS_LINE_MIDDLE (advance s)))"
  by pat_completeness auto
termination
  by (relation "measure (\<lambda>s. length (cbuf s) - src s)") auto

function in_trailers_line_middle :: "decoding \<Rightarrow> flow \<times> decoding" where
  "in_trailers_line_middle s =
     (if at_end s then (Exit (- 2), s)
      else if cur s = LF then (Next, goto_state IN_TRAILERS_LINE_HEAD (advance s))
      else in_trailers_line_middle (advance s))"
  by pat_completeness auto
termination
  by (relation "measure (\<lambda>s. length (cbuf s) - src s)") auto

declare in_chunk_size.simps [simp del] in_chunk_ext.simps [simp del]
  in_trailers_line_head.simps [simp del] in_trailers_line_middle.simps [simp del]

definition chunk_turn :: "decoding \<Rightarrow> flow \<times> decoding" where
  "chunk_turn s =
     (case chunk_state (dec s) of
        IN_CHUNK_SIZE \<Rightarrow> in_chunk_size s
      | IN_CHUNK_EXT \<Rightarrow> in_chunk_ext s
      | IN_CHUNK_HEADER_EXPECT_LF \<Rightarrow> in_chunk_header_expect_lf s
      | IN_CHUNK_DATA \<Rightarrow> in_chunk_data s
      | IN_CHUNK_DATA_EXPECT_CR \<Rightarrow> in_chunk_data_expect_cr s
      | IN_CHUNK_DATA_EXPECT_LF \<Rightarrow> in_chunk_data_expect_lf s
      | IN_TRAILERS_LINE_HEAD \<Rightarrow> in_trailers_line_head s
      | IN_TRAILERS_LINE_MIDDLE \<Rightarrow> in_trailers_line_middle s)"

text \<open>Every turn of the \<open>while (1)\<close> that is not the last reads a byte or leaves a case that reads none.\<close>

definition turn_rank :: "decoding \<Rightarrow> nat" where
  "turn_rank s = 2 * (length (cbuf s) - src s)
     + (if chunk_state (dec s) \<in> {IN_CHUNK_SIZE, IN_CHUNK_DATA} then 1 else 0)"

lemma in_chunk_size_rank: "in_chunk_size s = (Next, s') \<Longrightarrow> chunk_state (dec s) = IN_CHUNK_SIZE \<Longrightarrow> turn_rank s' < turn_rank s"
proof (induction s rule: in_chunk_size.induct)
  case (1 s)
  then show ?case
    by (subst (asm) in_chunk_size.simps [of s])
       (fastforce simp: turn_rank_def split: if_splits option.splits)
qed

lemma in_chunk_ext_rank: "in_chunk_ext s = (Next, s') \<Longrightarrow> chunk_state (dec s) = IN_CHUNK_EXT \<Longrightarrow> turn_rank s' < turn_rank s"
proof (induction s rule: in_chunk_ext.induct)
  case (1 s)
  then show ?case
    by (subst (asm) in_chunk_ext.simps [of s]) (fastforce simp: turn_rank_def split: if_splits)
qed

lemma in_trailers_line_head_rank:
  "in_trailers_line_head s = (Next, s') \<Longrightarrow> chunk_state (dec s) = IN_TRAILERS_LINE_HEAD \<Longrightarrow> turn_rank s' < turn_rank s"
proof (induction s rule: in_trailers_line_head.induct)
  case (1 s)
  then show ?case
    by (subst (asm) in_trailers_line_head.simps [of s]) (fastforce simp: turn_rank_def split: if_splits)
qed

lemma in_trailers_line_middle_rank:
  "in_trailers_line_middle s = (Next, s') \<Longrightarrow> chunk_state (dec s) = IN_TRAILERS_LINE_MIDDLE \<Longrightarrow> turn_rank s' < turn_rank s"
proof (induction s rule: in_trailers_line_middle.induct)
  case (1 s)
  then show ?case
    by (subst (asm) in_trailers_line_middle.simps [of s]) (fastforce simp: turn_rank_def split: if_splits)
qed

lemma length_memmove [simp]: "length (memmove xs d s n) = length xs"
  by (simp add: memmove_def)

lemma move_data_simps [simp]:
  "length (cbuf (move_data n s)) = length (cbuf s)"
  "src (move_data n s) = src s + n"
  "dst (move_data n s) = dst s + n"
  "dec (move_data n s) = dec s"
  by (simp_all add: move_data_def)

lemma chunk_turn_rank:
  assumes "chunk_turn s = (Next, s')"
  shows "turn_rank s' < turn_rank s"
proof (cases "chunk_state (dec s)")
  case IN_CHUNK_SIZE
  with assms show ?thesis by (intro in_chunk_size_rank) (simp_all add: chunk_turn_def)
next
  case IN_CHUNK_EXT
  with assms show ?thesis by (intro in_chunk_ext_rank) (simp_all add: chunk_turn_def)
next
  case IN_TRAILERS_LINE_HEAD
  with assms show ?thesis by (intro in_trailers_line_head_rank) (simp_all add: chunk_turn_def)
next
  case IN_TRAILERS_LINE_MIDDLE
  with assms show ?thesis by (intro in_trailers_line_middle_rank) (simp_all add: chunk_turn_def)
qed (use assms in \<open>auto simp: chunk_turn_def turn_rank_def in_chunk_header_expect_lf_def in_chunk_data_def Let_def
      in_chunk_data_expect_cr_def in_chunk_data_expect_lf_def split: if_splits\<close>)

text \<open>The \<open>while (1)\<close>.\<close>

function decode_loop :: "decoding \<Rightarrow> flow \<times> decoding" where
  "decode_loop s = (case chunk_turn s of (Next, s') \<Rightarrow> decode_loop s' | r \<Rightarrow> r)"
  by pat_completeness auto
termination
  by (relation "measure turn_rank") (auto intro: chunk_turn_rank [OF sym])

declare decode_loop.simps [simp del]

text \<open>
  A call: the return code, the decoder, the buffer and \<open>*bufsz\<close> (the length of what was decoded, at the
  start of the buffer). What was not read is moved behind it. A call that is not complete is an error
  when 100 KiB of framing have been seen and less than a quarter of all bytes were data.
\<close>

definition too_much_framing :: "phr_chunked_decoder \<Rightarrow> bool" where
  "too_much_framing d \<longleftrightarrow>
     100 * 1024 \<le> total_overhead d \<and> total_read d - total_overhead d < total_read d div 4"

definition phr_decode_chunked ::
  "phr_chunked_decoder \<Rightarrow> bytes \<Rightarrow> int \<times> phr_chunked_decoder \<times> bytes \<times> nat" where
  "phr_decode_chunked decoder buf =
     (let bufsz = length buf;
          (f, s) = decode_loop \<lparr>dec = decoder\<lparr>total_read := total_read decoder + of_nat bufsz\<rparr>,
                                cbuf = buf, src = 0, dst = 0\<rparr>;
          ret = (case f of Exit r \<Rightarrow> r | _ \<Rightarrow> int (bufsz - src s));
          buf' = (if dst s \<noteq> src s then memmove (cbuf s) (dst s) (src s) (bufsz - src s) else cbuf s)
      in if ret = - 2 then
           let d = (dec s)\<lparr>total_overhead := total_overhead (dec s) + of_nat (bufsz - dst s)\<rparr>
           in (if too_much_framing d then - 1 else ret, d, buf', dst s)
         else (ret, dec s, buf', dst s))"

definition phr_decode_chunked_is_in_data :: "phr_chunked_decoder \<Rightarrow> bool" where
  "phr_decode_chunked_is_in_data decoder \<longleftrightarrow> chunk_state decoder = IN_CHUNK_DATA"

section \<open>The reference: one byte at a time\<close>

text \<open>
  A byte makes the coding malformed, ends it, or is taken: then the state changes and at most one byte
  is decoded.
\<close>

datatype chunk_result =
    Malformed
  | Incomplete phr_chunked_decoder bytes
  | Finished phr_chunked_decoder bytes bytes

fun decoded :: "bytes \<Rightarrow> chunk_result \<Rightarrow> chunk_result" where
  "decoded o' Malformed = Malformed"
| "decoded o' (Incomplete d out) = Incomplete d (o' @ out)"
| "decoded o' (Finished d out rest) = Finished d (o' @ out) rest"

definition ext_step :: "phr_chunked_decoder \<Rightarrow> char \<Rightarrow> (phr_chunked_decoder \<times> bytes \<times> bool) option" where
  "ext_step d c =
     (if c = CR then Some (d\<lparr>chunk_state := IN_CHUNK_HEADER_EXPECT_LF\<rparr>, [], False)
      else if c = LF then None else Some (d, [], False))"

definition chunk_step :: "phr_chunked_decoder \<Rightarrow> char \<Rightarrow> (phr_chunked_decoder \<times> bytes \<times> bool) option" where
  "chunk_step d c =
     (case chunk_state d of
        IN_CHUNK_SIZE \<Rightarrow>
          (case decode_hex c of
             Some v \<Rightarrow> if hex_count d = 16 then None
               else Some (d\<lparr>bytes_left := bytes_left d * 16 + of_nat v, hex_count := Suc (hex_count d)\<rparr>, [], False)
           | None \<Rightarrow> if hex_count d = 0 \<or> c \<notin> after_size then None
               else ext_step (d\<lparr>hex_count := 0, chunk_state := IN_CHUNK_EXT\<rparr>) c)
      | IN_CHUNK_EXT \<Rightarrow> ext_step d c
      | IN_CHUNK_HEADER_EXPECT_LF \<Rightarrow>
          if c \<noteq> LF then None
          else if bytes_left d \<noteq> 0 then Some (d\<lparr>chunk_state := IN_CHUNK_DATA\<rparr>, [], False)
          else if consume_trailer d then Some (d\<lparr>chunk_state := IN_TRAILERS_LINE_HEAD\<rparr>, [], False)
          else Some (d, [], True)
      | IN_CHUNK_DATA \<Rightarrow>
          Some (d\<lparr>bytes_left := bytes_left d - 1,
                  chunk_state := (if bytes_left d = 1 then IN_CHUNK_DATA_EXPECT_CR else IN_CHUNK_DATA)\<rparr>, [c], False)
      | IN_CHUNK_DATA_EXPECT_CR \<Rightarrow>
          if c \<noteq> CR then None else Some (d\<lparr>chunk_state := IN_CHUNK_DATA_EXPECT_LF\<rparr>, [], False)
      | IN_CHUNK_DATA_EXPECT_LF \<Rightarrow>
          if c \<noteq> LF then None else Some (d\<lparr>chunk_state := IN_CHUNK_SIZE\<rparr>, [], False)
      | IN_TRAILERS_LINE_HEAD \<Rightarrow>
          if c = CR then Some (d, [], False)
          else if c = LF then Some (d, [], True)
          else Some (d\<lparr>chunk_state := IN_TRAILERS_LINE_MIDDLE\<rparr>, [], False)
      | IN_TRAILERS_LINE_MIDDLE \<Rightarrow>
          if c = LF then Some (d\<lparr>chunk_state := IN_TRAILERS_LINE_HEAD\<rparr>, [], False) else Some (d, [], False))"

fun feed :: "phr_chunked_decoder \<Rightarrow> bytes \<Rightarrow> chunk_result" where
  "feed d [] = Incomplete d []"
| "feed d (c # cs) =
     (case chunk_step d c of
        None \<Rightarrow> Malformed
      | Some (d', out, False) \<Rightarrow> decoded out (feed d' cs)
      | Some (d', out, True) \<Rightarrow> Finished d' out cs)"

lemma decoded_Nil [simp]: "decoded [] r = r"
  by (cases r) simp_all

lemma decoded_decoded [simp]: "decoded a (decoded b r) = decoded (a @ b) r"
  by (cases r) simp_all

text \<open>Input that comes in pieces is decoded like input that comes at once.\<close>

theorem feed_append:
  "feed d (xs @ ys) =
     (case feed d xs of
        Malformed \<Rightarrow> Malformed
      | Incomplete d' out \<Rightarrow> decoded out (feed d' ys)
      | Finished d' out rest \<Rightarrow> Finished d' out (rest @ ys))"
proof (induction xs arbitrary: d)
  case (Cons c cs)
  show ?case
  proof (cases "chunk_step d c")
    case (Some p)
    obtain d' out fin where p: "p = (d', out, fin)" by (cases p)
    have "(case decoded out r of Malformed \<Rightarrow> Malformed | Incomplete d2 o2 \<Rightarrow> decoded o2 (feed d2 ys)
        | Finished d2 o2 rest \<Rightarrow> Finished d2 o2 (rest @ ys)) =
      decoded out (case r of Malformed \<Rightarrow> Malformed | Incomplete d2 o2 \<Rightarrow> decoded o2 (feed d2 ys)
        | Finished d2 o2 rest \<Rightarrow> Finished d2 o2 (rest @ ys))" for r
      by (cases r) simp_all
    with Cons Some p show ?thesis by (cases fin) simp_all
  qed simp
qed simp

section \<open>The code computes the reference\<close>

text \<open>
  What a decoding in progress will amount to: what is decoded already, then the rest of the buffer fed to
  the automaton. No turn changes it.
\<close>

definition outlook :: "decoding \<Rightarrow> chunk_result" where
  "outlook s = decoded (take (dst s) (cbuf s)) (feed (dec s) (drop (src s) (cbuf s)))"

definition indices_ok :: "decoding \<Rightarrow> bool" where
  "indices_ok s \<longleftrightarrow> dst s \<le> src s \<and> src s \<le> length (cbuf s)
     \<and> (chunk_state (dec s) = IN_CHUNK_DATA \<longrightarrow> bytes_left (dec s) \<noteq> 0)"

fun turn_result :: "decoding \<Rightarrow> flow \<Rightarrow> decoding \<Rightarrow> bool" where
  "turn_result s Next s' \<longleftrightarrow> outlook s = outlook s' \<and> indices_ok s'"
| "turn_result s Complete s' \<longleftrightarrow> outlook s = Finished (dec s') (take (dst s') (cbuf s')) (drop (src s') (cbuf s'))"
| "turn_result s (Exit r) s' \<longleftrightarrow>
     r = - 2 \<and> outlook s = Incomplete (dec s') (take (dst s') (cbuf s')) \<and> src s' = length (cbuf s')
     \<or> r = - 1 \<and> outlook s = Malformed"

definition turn_good :: "decoding \<Rightarrow> flow \<times> decoding \<Rightarrow> bool" where
  "turn_good s r \<longleftrightarrow> turn_result s (fst r) (snd r) \<and> dst (snd r) \<le> src (snd r)
     \<and> src (snd r) \<le> length (cbuf s) \<and> length (cbuf (snd r)) = length (cbuf s)"

lemma turn_good_pair [simp]:
  "turn_good s (f, s') \<longleftrightarrow> turn_result s f s' \<and> dst s' \<le> src s' \<and> src s' \<le> length (cbuf s) \<and> length (cbuf s') = length (cbuf s)"
  by (simp add: turn_good_def)

lemma drop_cur: "\<not> at_end s \<Longrightarrow> drop (src s) (cbuf s) = cur s # drop (Suc (src s)) (cbuf s)"
  by (simp add: Cons_nth_drop_Suc)

lemma outlook_end: "at_end s \<Longrightarrow> outlook s = Incomplete (dec s) (take (dst s) (cbuf s))"
  by (simp add: outlook_def)

lemma outlook_cons:
  "\<not> at_end s \<Longrightarrow> outlook s = decoded (take (dst s) (cbuf s))
     (case chunk_step (dec s) (cur s) of
        None \<Rightarrow> Malformed
      | Some (d', out, False) \<Rightarrow> decoded out (feed d' (drop (Suc (src s)) (cbuf s)))
      | Some (d', out, True) \<Rightarrow> Finished d' out (drop (Suc (src s)) (cbuf s)))"
  by (simp add: outlook_def drop_cur)

lemma outlook_take:
  "\<not> at_end s \<Longrightarrow> chunk_step (dec s) (cur s) = Some (dec t, [], False) \<Longrightarrow>
   cbuf t = cbuf s \<Longrightarrow> src t = Suc (src s) \<Longrightarrow> dst t = dst s \<Longrightarrow> outlook s = outlook t"
  by (simp add: outlook_def drop_cur)

lemma outlook_same:
  "\<not> at_end s \<Longrightarrow> chunk_step (dec s) (cur s) = chunk_step (dec t) (cur s) \<Longrightarrow>
   cbuf t = cbuf s \<Longrightarrow> src t = src s \<Longrightarrow> dst t = dst s \<Longrightarrow> outlook s = outlook t"
  by (simp add: outlook_def drop_cur)

lemma outlook_bad: "\<not> at_end s \<Longrightarrow> chunk_step (dec s) (cur s) = None \<Longrightarrow> outlook s = Malformed"
  by (simp add: outlook_cons)

lemma outlook_fin:
  "\<not> at_end s \<Longrightarrow> chunk_step (dec s) (cur s) = Some (d', [], True) \<Longrightarrow>
   outlook s = Finished d' (take (dst s) (cbuf s)) (drop (Suc (src s)) (cbuf s))"
  by (simp add: outlook_cons)

lemma turn_good_shift:
  "outlook s = outlook t \<Longrightarrow> length (cbuf s) = length (cbuf t) \<Longrightarrow> turn_good t r \<Longrightarrow> turn_good s r"
  by (cases r; cases "fst r") (auto simp: turn_good_def)

text \<open>The loops over single bytes.\<close>

lemma in_chunk_size_ok: "indices_ok s \<Longrightarrow> chunk_state (dec s) = IN_CHUNK_SIZE \<Longrightarrow> turn_good s (in_chunk_size s)"
proof (induction s rule: in_chunk_size.induct)
  case (1 s)
  show ?case
  proof (cases "at_end s")
    case True
    with 1 show ?thesis by (subst in_chunk_size.simps) (simp add: outlook_end indices_ok_def)
  next
    case False
    show ?thesis
    proof (cases "decode_hex (cur s)")
      case None
      show ?thesis
      proof (cases "hex_count (dec s) = 0 \<or> cur s \<notin> after_size")
        case True
        with 1 False None have "chunk_step (dec s) (cur s) = None" by (simp add: chunk_step_def)
        with 1 False None True show ?thesis
          by (subst in_chunk_size.simps) (auto simp: outlook_bad indices_ok_def)
      next
        case ok: False
        let ?s = "goto_state IN_CHUNK_EXT (s\<lparr>dec := (dec s)\<lparr>hex_count := 0\<rparr>\<rparr>)"
        have "outlook s = outlook ?s"
          using 1 False None ok by (intro outlook_same) (simp_all add: chunk_step_def)
        moreover have "in_chunk_size s = (Next, ?s)" using False None ok by (subst in_chunk_size.simps) simp
        ultimately show ?thesis using 1 by (simp add: indices_ok_def)
      qed
    next
      case (Some v)
      show ?thesis
      proof (cases "hex_count (dec s) = 16")
        case True
        with 1 False Some have "chunk_step (dec s) (cur s) = None" by (simp add: chunk_step_def)
        with 1 False Some True show ?thesis
          by (subst in_chunk_size.simps) (simp add: outlook_bad indices_ok_def)
      next
        case ok: False
        let ?d = "(dec s)\<lparr>bytes_left := bytes_left (dec s) * 16 + of_nat v, hex_count := Suc (hex_count (dec s))\<rparr>"
        let ?s = "advance (s\<lparr>dec := ?d\<rparr>)"
        have "turn_good ?s (in_chunk_size ?s)"
          using "1.IH" [OF False Some ok] "1.prems" False by (simp add: indices_ok_def)
        moreover have "outlook s = outlook ?s"
          using False Some ok "1.prems" outlook_take [of s ?s] by (simp add: chunk_step_def)
        moreover have "in_chunk_size s = in_chunk_size ?s"
          using False Some ok by (subst in_chunk_size.simps) simp
        ultimately show ?thesis using turn_good_shift [of s ?s] by simp
      qed
    qed
  qed
qed

lemma in_chunk_ext_ok: "indices_ok s \<Longrightarrow> chunk_state (dec s) = IN_CHUNK_EXT \<Longrightarrow> turn_good s (in_chunk_ext s)"
proof (induction s rule: in_chunk_ext.induct)
  case (1 s)
  consider (stop) "at_end s" | (cr) "\<not> at_end s" "cur s = CR" | (lf) "\<not> at_end s" "cur s = LF"
    | (other) "\<not> at_end s" "cur s \<noteq> CR" "cur s \<noteq> LF" by blast
  then show ?case
  proof cases
    case stop
    with 1 show ?thesis by (subst in_chunk_ext.simps) (simp add: outlook_end indices_ok_def)
  next
    case cr
    have "outlook s = outlook (goto_state IN_CHUNK_HEADER_EXPECT_LF (advance s))"
      using cr 1 by (intro outlook_take) (simp_all add: chunk_step_def ext_step_def)
    with cr 1 show ?thesis by (subst in_chunk_ext.simps) (simp add: indices_ok_def)
  next
    case lf
    with 1 have "outlook s = Malformed" by (intro outlook_bad) (simp_all add: chunk_step_def ext_step_def)
    with lf 1 show ?thesis by (subst in_chunk_ext.simps) (simp add: indices_ok_def)
  next
    case other
    have "turn_good (advance s) (in_chunk_ext (advance s))"
      using "1.IH" [OF other] "1.prems" other(1) by (simp add: indices_ok_def)
    moreover have "outlook s = outlook (advance s)"
      using other 1 outlook_take [of s "advance s"] by (simp add: chunk_step_def ext_step_def)
    moreover have "in_chunk_ext s = in_chunk_ext (advance s)"
      using other by (subst in_chunk_ext.simps) simp
    ultimately show ?thesis using turn_good_shift [of s "advance s"] by simp
  qed
qed

lemma in_trailers_line_head_ok:
  "indices_ok s \<Longrightarrow> chunk_state (dec s) = IN_TRAILERS_LINE_HEAD \<Longrightarrow> turn_good s (in_trailers_line_head s)"
proof (induction s rule: in_trailers_line_head.induct)
  case (1 s)
  consider (stop) "at_end s" | (cr) "\<not> at_end s" "cur s = CR" | (lf) "\<not> at_end s" "cur s = LF"
    | (other) "\<not> at_end s" "cur s \<noteq> CR" "cur s \<noteq> LF" by blast
  then show ?case
  proof cases
    case stop
    with 1 show ?thesis by (subst in_trailers_line_head.simps) (simp add: outlook_end indices_ok_def)
  next
    case other
    have "outlook s = outlook (goto_state IN_TRAILERS_LINE_MIDDLE (advance s))"
      using other 1 by (intro outlook_take) (simp_all add: chunk_step_def)
    with other 1 show ?thesis by (subst in_trailers_line_head.simps) (simp add: indices_ok_def)
  next
    case lf
    with 1 have "outlook s = Finished (dec s) (take (dst s) (cbuf s)) (drop (Suc (src s)) (cbuf s))"
      by (intro outlook_fin) (simp_all add: chunk_step_def)
    with lf 1 show ?thesis by (subst in_trailers_line_head.simps) (simp add: indices_ok_def)
  next
    case cr
    have "turn_good (advance s) (in_trailers_line_head (advance s))"
      using "1.IH" [OF cr] "1.prems" cr(1) by (simp add: indices_ok_def)
    moreover have "outlook s = outlook (advance s)"
      using cr 1 outlook_take [of s "advance s"] by (simp add: chunk_step_def)
    moreover have "in_trailers_line_head s = in_trailers_line_head (advance s)"
      using cr by (subst in_trailers_line_head.simps) simp
    ultimately show ?thesis using turn_good_shift [of s "advance s"] by simp
  qed
qed

lemma in_trailers_line_middle_ok:
  "indices_ok s \<Longrightarrow> chunk_state (dec s) = IN_TRAILERS_LINE_MIDDLE \<Longrightarrow> turn_good s (in_trailers_line_middle s)"
proof (induction s rule: in_trailers_line_middle.induct)
  case (1 s)
  consider (stop) "at_end s" | (lf) "\<not> at_end s" "cur s = LF" | (other) "\<not> at_end s" "cur s \<noteq> LF" by blast
  then show ?case
  proof cases
    case stop
    with 1 show ?thesis by (subst in_trailers_line_middle.simps) (simp add: outlook_end indices_ok_def)
  next
    case lf
    have "outlook s = outlook (goto_state IN_TRAILERS_LINE_HEAD (advance s))"
      using lf 1 by (intro outlook_take) (simp_all add: chunk_step_def)
    with lf 1 show ?thesis by (subst in_trailers_line_middle.simps) (simp add: indices_ok_def)
  next
    case other
    have "turn_good (advance s) (in_trailers_line_middle (advance s))"
      using "1.IH" [OF other] "1.prems" other(1) by (simp add: indices_ok_def)
    moreover have "outlook s = outlook (advance s)"
      using other 1 outlook_take [of s "advance s"] by (simp add: chunk_step_def)
    moreover have "in_trailers_line_middle s = in_trailers_line_middle (advance s)"
      using other by (subst in_trailers_line_middle.simps) simp
    ultimately show ?thesis using turn_good_shift [of s "advance s"] by simp
  qed
qed

text \<open>The data of a chunk, moved as a block.\<close>

lemma take_memmove:
  assumes "d \<le> s" "s + n \<le> length xs"
  shows "take (d + n) (memmove xs d s n) = take d xs @ take n (drop s xs)"
proof -
  have "d + n \<le> length xs" using assms by simp
  then show ?thesis using assms by (intro nth_equalityI) (auto simp: memmove_def nth_append)
qed

lemma drop_memmove: "d + n \<le> k \<Longrightarrow> drop k (memmove xs d s n) = drop k xs"
  by (intro nth_equalityI) (auto simp: memmove_def)

lemma move_data_effect:
  assumes "dst s \<le> src s" "src s + n \<le> length (cbuf s)"
  shows "take (dst s + n) (cbuf (move_data n s)) = take (dst s) (cbuf s) @ take n (drop (src s) (cbuf s))"
    "drop (src s + n) (cbuf (move_data n s)) = drop (src s + n) (cbuf s)"
  using assms take_memmove [OF assms] drop_memmove [of "dst s" n "src s + n" "cbuf s" "src s"] take_add
  by (auto simp: move_data_def)

lemma unat_minus: "n \<le> unat (w :: 64 word) \<Longrightarrow> unat (w - of_nat n) = unat w - n"
  using unat_sub [of "of_nat n" w] by (simp add: word_le_nat_alt le_unat_uoi)

lemma feed_data:
  "chunk_state d = IN_CHUNK_DATA \<Longrightarrow> length xs < unat (bytes_left d) \<Longrightarrow>
   feed d (xs @ ys) = decoded xs (feed (d\<lparr>bytes_left := bytes_left d - of_nat (length xs)\<rparr>) ys)"
proof (induction xs arbitrary: d)
  case (Cons x xs)
  let ?d = "d\<lparr>bytes_left := bytes_left d - 1\<rparr>"
  have u: "unat (bytes_left d - 1) = unat (bytes_left d) - 1"
    using Cons.prems(2) unat_minus [of 1 "bytes_left d"] by simp
  have "bytes_left d \<noteq> 1" using Cons.prems(2) by auto
  then have "chunk_step d x = Some (?d, [x], False)"
    using Cons.prems(1) by (simp add: chunk_step_def)
  moreover have "feed ?d (xs @ ys) = decoded xs (feed (?d\<lparr>bytes_left := bytes_left ?d - of_nat (length xs)\<rparr>) ys)"
    using Cons.prems u by (intro Cons.IH) simp_all
  ultimately show ?case by (simp add: algebra_simps)
qed simp

lemma feed_data_all:
  assumes "chunk_state d = IN_CHUNK_DATA" "length xs = unat (bytes_left d)" "bytes_left d \<noteq> 0"
  shows "feed d (xs @ ys) = decoded xs (feed (d\<lparr>bytes_left := 0, chunk_state := IN_CHUNK_DATA_EXPECT_CR\<rparr>) ys)"
proof -
  have "xs \<noteq> []" using assms(2,3) by (auto simp: unat_eq_0)
  then obtain zs z where xs: "xs = zs @ [z]" by (cases xs rule: rev_cases) auto
  let ?d = "d\<lparr>bytes_left := bytes_left d - of_nat (length zs)\<rparr>"
  have "feed d (zs @ z # ys) = decoded zs (feed ?d (z # ys))"
    using assms(1,2) xs by (intro feed_data) simp_all
  moreover have one: "bytes_left d - of_nat (length zs) = 1"
  proof -
    have "bytes_left d = of_nat (length xs)" using assms(2) by simp
    then show ?thesis by (simp add: xs)
  qed
  then have "chunk_step ?d z = Some (d\<lparr>bytes_left := 0, chunk_state := IN_CHUNK_DATA_EXPECT_CR\<rparr>, [z], False)"
    using assms(1) by (simp add: chunk_step_def)
  ultimately show ?thesis by (simp add: xs)
qed

lemma in_chunk_data_ok:
  assumes "indices_ok s" "chunk_state (dec s) = IN_CHUNK_DATA"
  shows "turn_good s (in_chunk_data s)"
proof -
  let ?b = "drop (src s) (cbuf s)" and ?left = "bytes_left (dec s)"
  let ?avail = "length (cbuf s) - src s"
  have i: "dst s \<le> src s" "src s \<le> length (cbuf s)" "?left \<noteq> 0" using assms by (simp_all add: indices_ok_def)
  show ?thesis
  proof (cases "?avail < unat ?left")
    case True
    have "feed (dec s) (?b @ []) = decoded ?b (feed ((dec s)\<lparr>bytes_left := ?left - of_nat (length ?b)\<rparr>) [])"
      using True assms(2) by (intro feed_data) simp_all
    moreover have "take (dst s + ?avail) (cbuf (move_data ?avail s)) = take (dst s) (cbuf s) @ ?b"
      using move_data_effect(1) [of s ?avail] i by simp
    ultimately show ?thesis using True i by (simp add: in_chunk_data_def outlook_def)
  next
    case False
    let ?n = "unat ?left"
    let ?d = "(dec s)\<lparr>bytes_left := 0, chunk_state := IN_CHUNK_DATA_EXPECT_CR\<rparr>"
    have n: "src s + ?n \<le> length (cbuf s)" using False i by simp
    have "feed (dec s) ?b = decoded (take ?n ?b) (feed ?d (drop ?n ?b))"
      using feed_data_all [OF assms(2) _ i(3), of "take ?n ?b" "drop ?n ?b"] n
      unfolding append_take_drop_id by simp
    moreover have "take (dst s + ?n) (cbuf (move_data ?n s)) = take (dst s) (cbuf s) @ take ?n ?b"
      "drop (src s + ?n) (cbuf (move_data ?n s)) = drop ?n ?b"
      using move_data_effect [OF i(1) n] by (simp_all add: add.commute)
    ultimately show ?thesis using False n i(1)
      by (simp add: in_chunk_data_def outlook_def indices_ok_def)
  qed
qed

text \<open>The cases that expect one byte.\<close>

lemma expect_ok:
  assumes "indices_ok s"
  shows "chunk_state (dec s) = IN_CHUNK_HEADER_EXPECT_LF \<Longrightarrow> turn_good s (in_chunk_header_expect_lf s)"
    and "chunk_state (dec s) = IN_CHUNK_DATA_EXPECT_CR \<Longrightarrow> turn_good s (in_chunk_data_expect_cr s)"
    and "chunk_state (dec s) = IN_CHUNK_DATA_EXPECT_LF \<Longrightarrow> turn_good s (in_chunk_data_expect_lf s)"
  using assms
  by (auto simp: in_chunk_header_expect_lf_def in_chunk_data_expect_cr_def in_chunk_data_expect_lf_def
      indices_ok_def chunk_step_def outlook_end outlook_bad
      intro: outlook_take outlook_fin)

theorem chunk_turn_good: "indices_ok s \<Longrightarrow> turn_good s (chunk_turn s)"
  using in_chunk_size_ok in_chunk_ext_ok in_trailers_line_head_ok in_trailers_line_middle_ok in_chunk_data_ok expect_ok
  by (cases "chunk_state (dec s)") (simp_all add: chunk_turn_def)

text \<open>The loop ends in \<open>Exit\<close> or \<open>Complete\<close>, with what the automaton makes of the input.\<close>

lemma decode_loop_ok: "indices_ok s \<Longrightarrow> fst (decode_loop s) \<noteq> Next \<and> turn_good s (decode_loop s)"
proof (induction s rule: decode_loop.induct)
  case (1 s)
  obtain f t where t: "chunk_turn s = (f, t)" by force
  show ?case
  proof (cases "f = Next")
    case True
    with t chunk_turn_good [OF "1.prems"] have o': "outlook s = outlook t" "indices_ok t" "length (cbuf t) = length (cbuf s)"
      by simp_all
    from "1.IH" [OF t [symmetric] True o'(2)] turn_good_shift [of s t "decode_loop t"] o' t True
    show ?thesis by (simp add: decode_loop.simps [of s])
  next
    case False
    with t have "decode_loop s = (f, t)" by (cases f) (simp_all add: decode_loop.simps [of s])
    with False t chunk_turn_good [OF "1.prems"] show ?thesis by simp
  qed
qed

section \<open>What a call does\<close>

text \<open>A decoder between two calls: data are only expected when some are left.\<close>

definition decoder_ready :: "phr_chunked_decoder \<Rightarrow> bool" where
  "decoder_ready d \<longleftrightarrow> (chunk_state d = IN_CHUNK_DATA \<longrightarrow> bytes_left d \<noteq> 0)"

definition counted :: "phr_chunked_decoder \<Rightarrow> nat \<Rightarrow> phr_chunked_decoder" where
  "counted d n = d\<lparr>total_read := total_read d + of_nat n\<rparr>"

definition overhead_counted :: "phr_chunked_decoder \<Rightarrow> nat \<Rightarrow> phr_chunked_decoder" where
  "overhead_counted d n = d\<lparr>total_overhead := total_overhead d + of_nat n\<rparr>"

text \<open>
  \<open>phr_decode_chunked\<close> computes the automaton in place. The decoded bytes are at the start of the buffer
  and \<open>*bufsz\<close> is their number; when the coding has ended the return value is the number of bytes behind
  it, and those follow the decoded ones in the buffer; a call that is not complete returns \<open>-2\<close> unless the
  framing has got out of proportion, and \<open>-1\<close> is returned for malformed input.
\<close>

theorem phr_decode_chunked_exact:
  assumes "decoder_ready d" "phr_decode_chunked d buf = (ret, d', buf', n)"
  shows "length buf' = length buf \<and> n \<le> length buf \<and>
    (case feed (counted d (length buf)) buf of
       Malformed \<Rightarrow> ret = - 1
     | Incomplete e out \<Rightarrow>
         d' = overhead_counted e (length buf - n) \<and> ret = (if too_much_framing d' then - 1 else - 2)
         \<and> n = length out \<and> take n buf' = out
     | Finished e out rest \<Rightarrow>
         d' = e \<and> ret = int (length rest) \<and> n = length out \<and> take n buf' = out \<and> take (length rest) (drop n buf') = rest)"
proof -
  let ?d = "counted d (length buf)"
  let ?s = "\<lparr>dec = ?d, cbuf = buf, src = 0, dst = 0\<rparr>"
  obtain f s where l: "decode_loop ?s = (f, s)" by force
  have "indices_ok ?s" using assms(1) by (simp add: indices_ok_def decoder_ready_def counted_def)
  from decode_loop_ok [OF this] l have f: "f \<noteq> Next" and t: "turn_good ?s (f, s)" by simp_all
  define b where "b = (if dst s \<noteq> src s then memmove (cbuf s) (dst s) (src s) (length buf - src s) else cbuf s)"
  have lb: "length (cbuf s) = length buf" "dst s \<le> src s" "src s \<le> length buf" using t by simp_all
  have b: "length b = length buf" using lb by (simp add: b_def)
  have tb: "take (dst s + (length buf - src s)) b = take (dst s) (cbuf s) @ drop (src s) (cbuf s)"
    using lb take_memmove [OF lb(2), of "length buf - src s" "cbuf s"] by (simp add: b_def)
  then have td: "take (dst s) b = take (dst s) (cbuf s)"
    using lb take_take [of "dst s" "dst s + (length buf - src s)" b] by (simp del: take_take)
  have o': "outlook ?s = feed ?d buf" by (simp add: outlook_def)
  show ?thesis
  proof (cases f)
    case Complete
    with t o' have r: "feed ?d buf = Finished (dec s) (take (dst s) (cbuf s)) (drop (src s) (cbuf s))" by simp
    have "phr_decode_chunked d buf = (int (length buf - src s), dec s, b, dst s)"
      using l Complete by (simp add: phr_decode_chunked_def counted_def b_def Let_def)
    moreover have "take (length buf - src s) (drop (dst s) b) = drop (src s) (cbuf s)"
      using tb td by (simp add: take_add)
    ultimately show ?thesis using assms(2) r td lb b by simp
  next
    case (Exit r)
    with t o' consider (part) "r = - 2" "feed ?d buf = Incomplete (dec s) (take (dst s) (cbuf s))"
      | (bad) "r = - 1" "feed ?d buf = Malformed" by auto
    then show ?thesis
    proof cases
      case part
      let ?e = "overhead_counted (dec s) (length buf - dst s)"
      have "phr_decode_chunked d buf = (if too_much_framing ?e then - 1 else - 2, ?e, b, dst s)"
        using l Exit part(1) by (simp add: phr_decode_chunked_def counted_def b_def overhead_counted_def Let_def)
      with assms(2) part(2) td lb b show ?thesis by auto
    next
      case bad
      have "phr_decode_chunked d buf = (- 1, dec s, b, dst s)"
        using l Exit bad(1) by (simp add: phr_decode_chunked_def counted_def b_def Let_def)
      with assms(2) bad(2) lb b show ?thesis by simp
    qed
  qed (use f in simp)
qed

section \<open>Input in pieces\<close>

text \<open>The counters play no part in the decoding.\<close>

fun on_decoder :: "(phr_chunked_decoder \<Rightarrow> phr_chunked_decoder) \<Rightarrow> chunk_result \<Rightarrow> chunk_result" where
  "on_decoder f Malformed = Malformed"
| "on_decoder f (Incomplete d out) = Incomplete (f d) out"
| "on_decoder f (Finished d out rest) = Finished (f d) out rest"

abbreviation with_totals :: "64 word \<Rightarrow> 64 word \<Rightarrow> phr_chunked_decoder \<Rightarrow> phr_chunked_decoder" where
  "with_totals r v d \<equiv> d\<lparr>total_read := r, total_overhead := v\<rparr>"

lemma on_decoder_decoded [simp]: "on_decoder f (decoded out r) = decoded out (on_decoder f r)"
  by (cases r) simp_all

lemma chunk_step_totals:
  "chunk_step (with_totals r v d) c = map_option (\<lambda>(e, out, fin). (with_totals r v e, out, fin)) (chunk_step d c)"
  by (cases "chunk_state d") (auto simp: chunk_step_def ext_step_def split: option.splits)

lemma feed_totals: "feed (with_totals r v d) xs = on_decoder (with_totals r v) (feed d xs)"
proof (induction xs arbitrary: d)
  case (Cons c cs)
  show ?case
  proof (cases "chunk_step d c")
    case (Some p)
    obtain e out fin where "p = (e, out, fin)" by (cases p)
    with Some Cons show ?thesis by (cases fin) (simp_all add: chunk_step_totals)
  qed (simp add: chunk_step_totals)
qed simp

lemma counted_totals:
  "counted d n = with_totals (total_read d + of_nat n) (total_overhead d) d"
  "counted (with_totals r v d) n = with_totals (r + of_nat n) v d"
  by (cases d; simp add: counted_def)+

lemma feed_counted: "feed (counted d n) xs = on_decoder (with_totals (total_read d + of_nat n) (total_overhead d)) (feed d xs)"
  unfolding counted_totals(1) by (rule feed_totals)

lemma feed_ready: "decoder_ready d \<Longrightarrow> feed d xs = Incomplete e out \<Longrightarrow> decoder_ready e"
proof (induction xs arbitrary: d out)
  case (Cons c cs)
  then obtain d' o1 where s: "chunk_step d c = Some (d', o1, False)"
    by (auto split: option.splits prod.splits bool.splits)
  with Cons.prems(2) obtain o2 where "feed d' cs = Incomplete e o2" by (cases "feed d' cs") auto
  moreover have "decoder_ready d'"
  proof (cases "chunk_state d")
    case IN_CHUNK_DATA
    with s show ?thesis by (auto simp: chunk_step_def decoder_ready_def split: if_splits)
  qed (use s in \<open>auto simp: chunk_step_def ext_step_def decoder_ready_def split: if_splits option.splits\<close>)
  ultimately show ?case by (rule Cons.IH [rotated])
qed simp

text \<open>
  A coding that arrives in two calls is decoded like one that arrives at once: the outputs add up, and
  the end is found at the same byte. (By induction the same holds for any number of calls.)
\<close>

theorem phr_decode_chunked_pieces:
  assumes "decoder_ready d" "phr_decode_chunked d a = (- 2, d1, a', n)" "phr_decode_chunked d1 b = (ret, d2, b', m)"
  shows "decoder_ready d1 \<and>
    (case feed d (a @ b) of
       Malformed \<Rightarrow> ret = - 1
     | Incomplete e out \<Rightarrow> ret \<in> {- 1, - 2} \<and> take n a' @ take m b' = out
     | Finished e out rest \<Rightarrow> ret = int (length rest) \<and> take n a' @ take m b' = out)"
proof -
  obtain e0 o0 where f0: "feed d a = Incomplete e0 o0"
    using phr_decode_chunked_exact [OF assms(1,2)] by (cases "feed d a") (auto simp: feed_counted)
  then have d1: "\<exists>r v. d1 = with_totals r v e0" and out: "take n a' = o0"
    using phr_decode_chunked_exact [OF assms(1,2)] by (auto simp: feed_counted overhead_counted_def)
  have ready: "decoder_ready d1"
    using feed_ready [OF assms(1) f0] d1 by (auto simp: decoder_ready_def)
  obtain g where g: "feed (counted d1 (length b)) b = on_decoder g (feed e0 b)"
    using d1 feed_totals by (metis counted_totals(2))
  have "feed d (a @ b) = decoded o0 (feed e0 b)" by (simp add: feed_append f0)
  with ready out g phr_decode_chunked_exact [OF ready assms(3)] show ?thesis
    by (cases "feed e0 b") auto
qed

section \<open>Round trip\<close>

definition hex_char :: "nat \<Rightarrow> char" where
  "hex_char v = char_of (if v < 10 then 48 + v else 87 + v)"

fun hex_digits :: "nat \<Rightarrow> bytes" where
  "hex_digits n = (if n < 16 then [hex_char n] else hex_digits (n div 16) @ [hex_char (n mod 16)])"

declare hex_digits.simps [simp del]

definition encode_chunk :: "bytes \<Rightarrow> bytes" where
  "encode_chunk x = hex_digits (length x) @ CRLF @ x @ CRLF"

text \<open>The last chunk, and a trailer section as it stands behind it.\<close>

definition encode_chunks :: "bytes list \<Rightarrow> bytes" where
  "encode_chunks xs = concat (map encode_chunk xs) @ CHR ''0'' # CRLF"

definition encode_trailer :: "bytes list \<Rightarrow> bytes" where
  "encode_trailer ls = concat (map (\<lambda>l. l @ CRLF) ls) @ CRLF"

definition trailer_line :: "bytes \<Rightarrow> bool" where
  "trailer_line l \<longleftrightarrow> l \<noteq> [] \<and> hd l \<noteq> CR \<and> LF \<notin> set l"

lemma decode_hex_char: "v < 16 \<Longrightarrow> decode_hex (hex_char v) = Some v"
  by (auto simp: decode_hex_def hex_char_def of_char_of)

lemma length_hex_digits: "n < 16 ^ k \<Longrightarrow> 0 < k \<Longrightarrow> 0 < length (hex_digits n) \<and> length (hex_digits n) \<le> k"
proof (induction k arbitrary: n)
  case (Suc k)
  show ?case
  proof (cases "n < 16")
    case False
    have "0 < k" using False Suc.prems by (cases k) auto
    moreover have "n div 16 < 16 ^ k" using Suc.prems by (intro less_mult_imp_div_less) (simp add: mult.commute)
    ultimately show ?thesis using Suc.IH [of "n div 16"] False by (simp add: hex_digits.simps [of n])
  qed (simp add: hex_digits.simps)
qed simp

abbreviation size_read :: "nat \<Rightarrow> nat \<Rightarrow> phr_chunked_decoder \<Rightarrow> phr_chunked_decoder" where
  "size_read n k d \<equiv> d\<lparr>bytes_left := bytes_left d * 16 ^ k + of_nat n, hex_count := hex_count d + k\<rparr>"

lemma feed_digit:
  "chunk_state d = IN_CHUNK_SIZE \<Longrightarrow> v < 16 \<Longrightarrow> hex_count d < 16 \<Longrightarrow>
   feed d (hex_char v # ys) = feed (size_read v 1 d) ys"
  by (simp add: chunk_step_def decode_hex_char)

text \<open>The digits are read without overflow: at most sixteen are accepted.\<close>

lemma feed_hex:
  "chunk_state d = IN_CHUNK_SIZE \<Longrightarrow> hex_count d + length (hex_digits n) \<le> 16 \<Longrightarrow>
   feed d (hex_digits n @ ys) = feed (size_read n (length (hex_digits n)) d) ys"
proof (induction n arbitrary: ys rule: hex_digits.induct)
  case (1 n)
  show ?case
  proof (cases "n < 16")
    case True
    then show ?thesis using 1(2,3) feed_digit [of d n] by (simp add: hex_digits.simps [of n])
  next
    case False
    let ?h = "hex_digits (n div 16)"
    let ?d = "size_read (n div 16) (length ?h) d"
    have h: "hex_digits n = ?h @ [hex_char (n mod 16)]" using False by (simp add: hex_digits.simps [of n])
    have "feed d (?h @ hex_char (n mod 16) # ys) = feed ?d (hex_char (n mod 16) # ys)"
      using 1 False h by simp
    also have "\<dots> = feed (size_read (n mod 16) 1 ?d) ys"
      using 1(2,3) h by (intro feed_digit) simp_all
    also have "size_read (n mod 16) 1 ?d = size_read n (length (hex_digits n)) d"
    proof -
      have "(of_nat n :: 64 word) = of_nat (n div 16 * 16 + n mod 16)" by simp
      then show ?thesis by (simp only: h of_nat_add of_nat_mult length_append) (simp add: algebra_simps)
    qed
    finally show ?thesis by (simp add: h)
  qed
qed

definition between_chunks :: "phr_chunked_decoder \<Rightarrow> bool" where
  "between_chunks d \<longleftrightarrow> chunk_state d = IN_CHUNK_SIZE \<and> bytes_left d = 0 \<and> hex_count d = 0"

lemma feed_size_line:
  assumes "between_chunks d" "n < 2 ^ 64"
  shows "feed d (hex_digits n @ CR # ys)
    = feed (d\<lparr>bytes_left := of_nat n, chunk_state := IN_CHUNK_HEADER_EXPECT_LF\<rparr>) ys"
proof -
  let ?k = "length (hex_digits n)"
  have k: "0 < ?k" "?k \<le> 16" using length_hex_digits [of n 16] assms(2) by simp_all
  have d: "chunk_state d = IN_CHUNK_SIZE" "bytes_left d = 0" "hex_count d = 0"
    using assms(1) by (simp_all add: between_chunks_def)
  have "feed d (hex_digits n @ CR # ys) = feed (size_read n ?k d) (CR # ys)"
    using d k by (intro feed_hex) simp_all
  moreover have "decode_hex CR = None" by (simp add: decode_hex_def)
  then have "chunk_step (size_read n ?k d) CR
      = Some (d\<lparr>bytes_left := of_nat n, hex_count := 0, chunk_state := IN_CHUNK_HEADER_EXPECT_LF\<rparr>, [], False)"
    using d k by (simp add: chunk_step_def ext_step_def after_size_def)
  moreover have "d\<lparr>hex_count := 0\<rparr> = d" using d(3) by (cases d) simp
  then have "d\<lparr>bytes_left := of_nat n, hex_count := 0, chunk_state := IN_CHUNK_HEADER_EXPECT_LF\<rparr>
      = d\<lparr>bytes_left := of_nat n, chunk_state := IN_CHUNK_HEADER_EXPECT_LF\<rparr>" by (cases d) simp
  ultimately show ?thesis by simp
qed

lemma feed_chunk:
  assumes "between_chunks d" "x \<noteq> []" "length x < 2 ^ 64"
  shows "feed d (encode_chunk x @ ys) = decoded x (feed d ys)"
proof -
  let ?n = "of_nat (length x) :: 64 word"
  let ?e = "d\<lparr>bytes_left := ?n, chunk_state := IN_CHUNK_DATA\<rparr>"
  have u: "unat ?n = length x" using assms(3) by (simp add: unat_of_nat take_bit_nat_eq_self)
  then have n: "?n \<noteq> 0" using assms(2) by (metis length_0_conv unat_0)
  have "feed d (encode_chunk x @ ys)
      = feed (d\<lparr>bytes_left := ?n, chunk_state := IN_CHUNK_HEADER_EXPECT_LF\<rparr>) (LF # x @ CRLF @ ys)"
    using feed_size_line [OF assms(1,3)] by (simp add: encode_chunk_def)
  also have "\<dots> = feed ?e (x @ CRLF @ ys)" using n by (simp add: chunk_step_def)
  also have "\<dots> = decoded x (feed (?e\<lparr>bytes_left := 0, chunk_state := IN_CHUNK_DATA_EXPECT_CR\<rparr>) (CRLF @ ys))"
    using u n by (intro feed_data_all) simp_all
  also have "feed (?e\<lparr>bytes_left := 0, chunk_state := IN_CHUNK_DATA_EXPECT_CR\<rparr>) (CRLF @ ys)
      = feed (d\<lparr>bytes_left := 0, chunk_state := IN_CHUNK_SIZE\<rparr>) ys" by (simp add: chunk_step_def)
  also have "d\<lparr>bytes_left := 0, chunk_state := IN_CHUNK_SIZE\<rparr> = d"
    using assms(1) by (cases d) (simp add: between_chunks_def)
  finally show ?thesis .
qed

lemma feed_chunks:
  "between_chunks d \<Longrightarrow> \<forall>x \<in> set xs. x \<noteq> [] \<and> length x < 2 ^ 64 \<Longrightarrow>
   feed d (concat (map encode_chunk xs) @ ys) = decoded (concat xs) (feed d ys)"
  by (induction xs) (simp_all add: feed_chunk)

lemma feed_middle:
  "chunk_state d = IN_TRAILERS_LINE_MIDDLE \<Longrightarrow> LF \<notin> set l \<Longrightarrow>
   feed d (l @ LF # ys) = feed (d\<lparr>chunk_state := IN_TRAILERS_LINE_HEAD\<rparr>) ys"
  by (induction l) (auto simp: chunk_step_def)

lemma feed_trailer_line:
  assumes "chunk_state d = IN_TRAILERS_LINE_HEAD" "trailer_line l"
  shows "feed d (l @ CR # LF # ys) = feed d ys"
proof -
  obtain c cs where l: "l = c # cs" "c \<noteq> CR" "c \<noteq> LF" "LF \<notin> set cs"
    using assms(2) by (cases l) (auto simp: trailer_line_def)
  have "feed d (l @ CR # LF # ys) = feed (d\<lparr>chunk_state := IN_TRAILERS_LINE_HEAD\<rparr>) ys"
    using assms(1) l feed_middle [of "d\<lparr>chunk_state := IN_TRAILERS_LINE_MIDDLE\<rparr>" "cs @ [CR]" ys]
    by (simp add: chunk_step_def)
  also have "d\<lparr>chunk_state := IN_TRAILERS_LINE_HEAD\<rparr> = d" using assms(1) by (cases d) simp
  finally show ?thesis .
qed

lemma feed_trailer:
  "chunk_state d = IN_TRAILERS_LINE_HEAD \<Longrightarrow> \<forall>l \<in> set ls. trailer_line l \<Longrightarrow>
   feed d (encode_trailer ls @ ys) = Finished d [] ys"
  by (induction ls) (simp_all add: encode_trailer_def feed_trailer_line, simp add: chunk_step_def)

lemma hex_zero: "hex_digits 0 = [CHR ''0'']"
  by (simp add: hex_digits.simps hex_char_def char_of_def bit_iff_odd)

text \<open>
  A body sent in non-empty chunks is decoded to the body. Without \<open>consume_trailer\<close> decoding ends behind
  the last chunk's size line, with it behind the trailer section.
\<close>

theorem chunked_roundtrip:
  assumes "between_chunks d" "\<forall>x \<in> set xs. x \<noteq> [] \<and> length x < 2 ^ 64" "\<forall>l \<in> set ls. trailer_line l"
  shows "\<exists>e. feed d (encode_chunks xs @ (if consume_trailer d then encode_trailer ls else []) @ rest)
    = Finished e (concat xs) rest"
proof -
  let ?t = "(if consume_trailer d then encode_trailer ls else []) @ rest"
  let ?d = "d\<lparr>bytes_left := 0, chunk_state := IN_CHUNK_HEADER_EXPECT_LF\<rparr>"
  have "feed d (CHR ''0'' # CR # LF # ?t) = feed ?d (LF # ?t)"
    using feed_size_line [OF assms(1), of 0 "LF # ?t"] by (simp add: hex_zero)
  moreover have "\<exists>e. feed ?d (LF # ?t) = Finished e [] rest"
    using feed_trailer [of "?d\<lparr>chunk_state := IN_TRAILERS_LINE_HEAD\<rparr>" ls rest] assms(3)
    by (auto simp: chunk_step_def)
  ultimately obtain e where "feed d (CHR ''0'' # CR # LF # ?t) = Finished e [] rest" by auto
  then show ?thesis
    using feed_chunks [OF assms(1,2), of "CHR ''0'' # CR # LF # ?t"] by (simp add: encode_chunks_def)
qed

text \<open>The same for a call of the code: the body is at the start of the buffer, the rest behind it.\<close>

theorem phr_decode_chunked_roundtrip:
  assumes "between_chunks d" "\<forall>x \<in> set xs. x \<noteq> [] \<and> length x < 2 ^ 64" "\<forall>l \<in> set ls. trailer_line l"
    "phr_decode_chunked d (encode_chunks xs @ (if consume_trailer d then encode_trailer ls else []) @ rest) = (ret, d', buf', n)"
  shows "ret = int (length rest) \<and> take n buf' = concat xs \<and> n = length (concat xs) \<and> take (length rest) (drop n buf') = rest"
proof -
  have "decoder_ready d" using assms(1) by (simp add: decoder_ready_def between_chunks_def)
  from phr_decode_chunked_exact [OF this assms(4)] chunked_roundtrip [OF assms(1-3), of rest]
  show ?thesis by (auto simp: feed_counted)
qed

text \<open>
  The comment at the limit speaks of more than 80% framing; the test is for less than a quarter of data,
  that is for more than 75%: here 23% of what was read was data.
\<close>

lemma framing_limit_is_three_quarters:
  "\<exists>d. too_much_framing d \<and> unat (total_overhead d) * 100 = 77 * unat (total_read d)"
  by (rule exI [of _ "\<lparr>bytes_left = 0, consume_trailer = False, hex_count = 0, chunk_state = IN_CHUNK_SIZE,
       total_read = 200000, total_overhead = 154000\<rparr>"]) (simp add: too_much_framing_def)

end
