(* ===== verification/Decimal.thy ===== *)
theory Decimal
  imports Prelude
begin

text \<open>
  Decimal numbers on the wire: the integer writer \<open>uint_ndigits\<close>/\<open>write_uint\<close> of
  \<^verbatim>\<open>freastal/src/server.h\<close>, which both response formatters use for \<open>Content-Length\<close>, and the C
  library's \<open>strtoul(s, NULL, 10)\<close>, which the request side uses to read it. The reference is
  \<open>dec\<close>, the shortest decimal form.
\<close>

section \<open>Definitions\<close>

definition TWO_DIGITS :: bytes where
  "TWO_DIGITS =
    ''00010203040506070809'' @ ''10111213141516171819'' @
    ''20212223242526272829'' @ ''30313233343536373839'' @
    ''40414243444546474849'' @ ''50515253545556575859'' @
    ''60616263646566676869'' @ ''70717273747576777879'' @
    ''80818283848586878889'' @ ''90919293949596979899''"

text \<open>The \<open>for (;;)\<close> of \<open>uint_ndigits\<close>; \<open>u\<close> is a \<open>uint64_t\<close> and only ever divided.\<close>

function uint_ndigits_from :: "nat \<Rightarrow> nat \<Rightarrow> nat" where
  "uint_ndigits_from d u =
     (if u < 10 then d
      else if u < 100 then d + 1
      else if u < 1000 then d + 2
      else if u < 10000 then d + 3
      else uint_ndigits_from (d + 4) (u div 10000))"
  by pat_completeness auto
termination
  by (relation "measure (\<lambda>(d, u). u)") auto

declare uint_ndigits_from.simps [simp del]

definition uint_ndigits :: "nat \<Rightarrow> nat" where
  "uint_ndigits u = uint_ndigits_from 1 u"

definition two_digits :: "nat \<Rightarrow> bytes" where
  "two_digits k = [TWO_DIGITS ! (k * 2), TWO_DIGITS ! (k * 2 + 1)]"

text \<open>The digits are written backwards from \<open>p\<close>, two per division.\<close>

function put_digits :: "bytes \<Rightarrow> nat \<Rightarrow> nat \<Rightarrow> bytes" where
  "put_digits buf p u =
     (if u \<ge> 100 then put_digits (blit buf (p - 2) (two_digits (u mod 100))) (p - 2) (u div 100)
      else if u \<ge> 10 then blit buf (p - 2) (two_digits u)
      else blit buf (p - 1) [char_of (48 + u)])"
  by pat_completeness auto
termination
  by (relation "measure (\<lambda>(buf, p, u). u)") auto

declare put_digits.simps [simp del]

text \<open>
  \<open>write_uint(dst, remaining, n)\<close> with \<open>dst\<close> the position \<open>off\<close> of the array \<open>buf\<close>. The result is the
  return value and the array; \<open>n\<close> is a \<open>Py_ssize_t\<close>, cast to \<open>uint64_t\<close>.
\<close>

definition write_uint :: "bytes \<Rightarrow> nat \<Rightarrow> int \<Rightarrow> int \<Rightarrow> int \<times> bytes" where
  "write_uint buf off remaining n =
     (let u = nat (n mod 2 ^ 64); d = uint_ndigits u
      in if int d > remaining then (-1, buf)
         else (int d, put_digits buf (off + d) u))"

text \<open>The C library's \<open>strtoul\<close> in base 10: blanks, a sign, digits; it saturates on overflow.\<close>

definition c_isspace :: "char \<Rightarrow> bool" where
  "c_isspace c \<longleftrightarrow> c = SP \<or> (9 \<le> byte c \<and> byte c \<le> 13)"

definition c_isdigit :: "char \<Rightarrow> bool" where
  "c_isdigit c \<longleftrightarrow> 48 \<le> byte c \<and> byte c \<le> 57"

fun digits_value :: "nat \<Rightarrow> bytes \<Rightarrow> nat" where
  "digits_value acc [] = acc"
| "digits_value acc (c # cs) = (if c_isdigit c then digits_value (acc * 10 + (byte c - 48)) cs else acc)"

definition strtoul :: "bytes \<Rightarrow> nat" where
  "strtoul s =
     (let t = dropWhile c_isspace s;
          neg = (t \<noteq> [] \<and> hd t = CHR ''-'');
          ds = (if t \<noteq> [] \<and> (hd t = CHR ''-'' \<or> hd t = CHR ''+'') then tl t else t);
          v = digits_value 0 ds
      in if v > size_t_max then size_t_max
         else if neg then nat ((- int v) mod 2 ^ 64) else v)"

text \<open>The reference: the decimal form of a number.\<close>

fun dec :: "nat \<Rightarrow> bytes" where
  "dec n = (if n < 10 then [char_of (48 + n)] else dec (n div 10) @ [char_of (48 + n mod 10)])"

declare dec.simps [simp del]

section \<open>Facts\<close>

lemma length_TWO_DIGITS: "length TWO_DIGITS = 200"
  by (simp add: TWO_DIGITS_def)

lemma upt_100: "[0..<100] = 0 # 1 # [2..<100]"
  by (simp add: upt_conv_Cons)

lemma TWO_DIGITS_bytes:
  "map byte TWO_DIGITS = concat (map (\<lambda>k. [48 + k div 10, 48 + k mod 10]) [0..<100])"
  by (simp add: TWO_DIGITS_def upt_100 upt_rec_numeral)

lemma length_pairs: "length (concat (map (\<lambda>k. [f k, g k]) [0..<n])) = n * 2"
  by (induction n) auto

lemma nth_pairs:
  "k < n \<Longrightarrow> concat (map (\<lambda>k. [f k, g k]) [0..<n]) ! (k * 2) = f k
     \<and> concat (map (\<lambda>k. [f k, g k]) [0..<n]) ! (k * 2 + 1) = g k"
  by (induction n) (auto simp: nth_append length_pairs less_Suc_eq)

lemma two_digits_eq:
  assumes "k < 100"
  shows "two_digits k = [char_of (48 + k div 10), char_of (48 + k mod 10)]"
proof -
  have "byte (TWO_DIGITS ! (k * 2)) = 48 + k div 10" "byte (TWO_DIGITS ! (k * 2 + 1)) = 48 + k mod 10"
    using nth_pairs [OF assms, of "\<lambda>k. 48 + k div 10" "\<lambda>k. 48 + k mod 10"] assms
    unfolding TWO_DIGITS_bytes [symmetric] by (simp_all add: length_TWO_DIGITS)
  then show ?thesis by (metis char_of_char two_digits_def)
qed

lemma dec_small: "n < 10 \<Longrightarrow> dec n = [char_of (48 + n)]"
  by (simp add: dec.simps [of n])

lemma dec_big: "10 \<le> n \<Longrightarrow> dec n = dec (n div 10) @ [char_of (48 + n mod 10)]"
  by (simp add: dec.simps [of n])

lemma dec_two: "10 \<le> k \<Longrightarrow> k < 100 \<Longrightarrow> dec k = two_digits k"
  using dec_big [of k] dec_small [of "k div 10"] two_digits_eq [of k] by simp

lemma dec_hundreds: "100 \<le> n \<Longrightarrow> dec n = dec (n div 100) @ two_digits (n mod 100)"
proof -
  assume n: "100 \<le> n"
  have "n div 10 div 10 = n div 100" "n div 10 mod 10 = n mod 100 div 10" "n mod 10 = n mod 100 mod 10"
    by (simp_all add: div_mult2_eq [symmetric] mod_mod_cancel) (simp add: mod_mult2_eq [of n 10 10, simplified])
  moreover have "10 \<le> n div 10" using n by linarith
  ultimately show ?thesis using n
    using dec_big [of n] dec_big [of "n div 10"] two_digits_eq [of "n mod 100"] by simp
qed

lemma length_dec_mono: "length (dec (n div 10)) = length (dec n) - (if n < 10 then 0 else 1)"
  by (auto simp: dec_big dec_small)

lemma dec_not_Nil [simp]: "dec n \<noteq> []"
  by (simp add: dec.simps [of n])

lemma uint_ndigits_from_dec: "uint_ndigits_from d u = d + length (dec u) - 1"
proof (induction d u rule: uint_ndigits_from.induct)
  case (1 d u)
  have four: "10000 \<le> u \<Longrightarrow> length (dec u) = length (dec (u div 10000)) + 4"
    using dec_hundreds [of u] dec_hundreds [of "u div 100"]
    by (simp add: two_digits_def div_mult2_eq [symmetric])
  have pos: "0 < length (dec (u div 10000))" by simp
  show ?case
    using 1 four pos
    by (auto simp: uint_ndigits_from.simps [of d u] dec_small dec_big)
qed

lemma uint_ndigits_dec: "uint_ndigits u = length (dec u)"
  by (simp add: uint_ndigits_def uint_ndigits_from_dec)

lemma blit_blit_before:
  "a + length xs = b \<Longrightarrow> b + length ys \<le> length buf \<Longrightarrow>
   blit (blit buf b ys) a xs = blit buf a (xs @ ys)"
  by (auto simp: blit_def min_def add.assoc)

lemma put_digits_dec:
  "off + length (dec u) \<le> length buf \<Longrightarrow>
   put_digits buf (off + length (dec u)) u = blit buf off (dec u)"
proof (induction buf "off + length (dec u)" u rule: put_digits.induct)
  case (1 buf u)
  show ?case
  proof (cases "100 \<le> u")
    case True
    have d: "dec u = dec (u div 100) @ two_digits (u mod 100)" using True by (rule dec_hundreds)
    have l: "length (two_digits (u mod 100)) = 2" by (simp add: two_digits_def)
    have p: "off + length (dec u) - 2 = off + length (dec (u div 100))" using d l by simp
    have "put_digits (blit buf (off + length (dec (u div 100))) (two_digits (u mod 100)))
        (off + length (dec (u div 100))) (u div 100)
      = blit (blit buf (off + length (dec (u div 100))) (two_digits (u mod 100))) off (dec (u div 100))"
      using "1.hyps" [OF True p] "1.prems" d l p by simp
    also have "\<dots> = blit buf off (dec u)"
      using "1.prems" d l by (subst blit_blit_before) auto
    finally show ?thesis using True p
      by (simp add: put_digits.simps [of buf "off + length (dec u)" u])
  next
    case False
    then show ?thesis
      by (auto simp: put_digits.simps [of buf "off + length (dec u)" u] dec_small dec_two two_digits_def)
  qed
qed

lemma write_uint_eq:
  assumes "0 \<le> n" "n < 2 ^ 63" "off + nat remaining \<le> length buf"
  shows "write_uint buf off remaining n =
    (if int (length (dec (nat n))) > remaining then (-1, buf)
     else (int (length (dec (nat n))), blit buf off (dec (nat n))))"
proof -
  have "n mod 2 ^ 64 = n" using assms by simp
  moreover have "\<not> int (length (dec (nat n))) > remaining \<Longrightarrow>
    put_digits buf (off + length (dec (nat n))) (nat n) = blit buf off (dec (nat n))"
    using assms(3) by (intro put_digits_dec) linarith
  ultimately show ?thesis by (simp add: write_uint_def uint_ndigits_dec Let_def)
qed

lemma dec_digits: "c \<in> set (dec n) \<Longrightarrow> c_isdigit c"
proof (induction n rule: dec.induct)
  case (1 n)
  then show ?case by (cases "n < 10") (auto simp: dec_small dec_big c_isdigit_def of_char_of)
qed

lemma digits_value_append:
  "\<forall>c \<in> set xs. c_isdigit c \<Longrightarrow> digits_value a (xs @ ys) = digits_value (digits_value a xs) ys"
  by (induction xs arbitrary: a) auto

lemma digits_value_dec: "digits_value 0 (dec n) = n"
proof (induction n rule: dec.induct)
  case (1 n)
  have d: "c_isdigit (char_of (48 + n mod 10))" "byte (char_of (48 + n mod 10) :: char) = 48 + n mod 10"
    by (simp_all add: c_isdigit_def of_char_of)
  show ?case
  proof (cases "n < 10")
    case True
    with d show ?thesis by (simp add: dec_small)
  next
    case False
    with 1 d show ?thesis by (simp add: dec_big digits_value_append dec_digits)
  qed
qed

lemma strtoul_dec: "n \<le> size_t_max \<Longrightarrow> strtoul (dec n) = n"
proof -
  assume n: "n \<le> size_t_max"
  have h: "c_isdigit (hd (dec n))" using dec_digits [of "hd (dec n)" n] by simp
  then have "\<not> c_isspace (hd (dec n))" "hd (dec n) \<noteq> CHR ''-''" "hd (dec n) \<noteq> CHR ''+''"
    by (auto simp: c_isdigit_def c_isspace_def)
  moreover have "dropWhile c_isspace (dec n) = dec n"
    using calculation(1) by (cases "dec n") auto
  ultimately show ?thesis using n by (simp add: strtoul_def digits_value_dec)
qed

lemma length_dec_bound: "n < 10 ^ k \<Longrightarrow> 0 < k \<Longrightarrow> length (dec n) \<le> k"
proof (induction k arbitrary: n)
  case (Suc k)
  show ?case
  proof (cases "n < 10")
    case False
    then have "n div 10 < 10 ^ k" "0 < k" using Suc.prems by (auto simp: div_less_iff_less_mult mult.commute intro: gr0I)
    with Suc.IH False show ?thesis by (simp add: dec_big)
  qed (simp add: dec_small)
qed simp

text \<open>The decimal form has no leading zero.\<close>

lemma dec_no_leading_zero: "0 < n \<Longrightarrow> hd (dec n) \<noteq> CHR ''0''"
proof (induction n rule: dec.induct)
  case (1 n)
  show ?case
  proof (cases "n < 10")
    case True
    then have "byte (char_of (48 + n) :: char) = 48 + n" by (simp add: of_char_of)
    then have "(char_of (48 + n) :: char) \<noteq> CHR ''0''" using 1(2) by (auto dest!: arg_cong [of _ _ byte])
    then show ?thesis using True by (simp add: dec_small)
  next
    case False
    then show ?thesis using 1 by (simp add: dec_big)
  qed
qed

text \<open>
  C5. The integer writer: given room for \<open>remaining\<close> bytes at \<open>off\<close>, \<open>write_uint\<close> returns \<open>-1\<close> with the
  buffer untouched, exactly when the decimal form \<open>dec n\<close> is longer than \<open>remaining\<close>; otherwise it returns
  the length of that form (at most 19), the bytes at \<open>off\<close> are that form, which has no leading zero
  and reads back with \<open>strtoul\<close> as \<open>n\<close>, and no byte before or after it has changed.
\<close>

theorem write_uint_correct:
  assumes "0 \<le> n" and "n < 2 ^ 63" and "off + nat remaining \<le> length buf"
  shows "if remaining < int (length (dec (nat n))) then write_uint buf off remaining n = (-1, buf)
    else (\<exists>buf'. write_uint buf off remaining n = (int (length (dec (nat n))), buf')
         \<and> subbuf off (off + length (dec (nat n))) buf' = dec (nat n) \<and> length (dec (nat n)) \<le> 19
         \<and> (0 < n \<longrightarrow> hd (dec (nat n)) \<noteq> CHR ''0'') \<and> strtoul (dec (nat n)) = nat n
         \<and> length buf' = length buf \<and> take off buf' = take off buf
         \<and> drop (off + length (dec (nat n))) buf' = drop (off + length (dec (nat n))) buf)"
proof (cases "remaining < int (length (dec (nat n)))")
  case True
  with write_uint_eq [OF assms] show ?thesis by simp
next
  case False
  let ?d = "length (dec (nat n))"
  have len: "off + ?d \<le> length buf" using False assms(3) by linarith
  have "nat n < 10 ^ 19" using assms(1,2) by simp
  then have "?d \<le> 19" by (rule length_dec_bound) simp
  moreover have "strtoul (dec (nat n)) = nat n"
    using assms(2) by (intro strtoul_dec) (simp add: size_t_max_def)
  moreover have "subbuf off (off + ?d) (blit buf off (dec (nat n))) = dec (nat n)"
    using len by (simp add: subbuf_def blit_def)
  moreover have "0 < n \<longrightarrow> hd (dec (nat n)) \<noteq> CHR ''0''" using dec_no_leading_zero [of "nat n"] by simp
  ultimately show ?thesis using False len write_uint_eq [OF assms]
    by (intro if_not_P [THEN iffD2] exI [of _ "blit buf off (dec (nat n))"]) (auto simp: blit_def)
qed

theorem write_uint_correct_witness:
  "(\<exists>buf'. write_uint (replicate 8 NUL) 2 6 40961 = (5, buf') \<and> subbuf 2 7 buf' = ''40961''
      \<and> length buf' = 8 \<and> take 2 buf' = [NUL, NUL] \<and> drop 7 buf' = [NUL])
   \<and> write_uint (replicate 8 NUL) 2 4 40961 = (- 1, replicate 8 NUL)"
proof -
  have d: "dec 40961 = ''40961''" by (simp add: dec.simps char_of_def bit_iff_odd)
  have f: "(0::int) \<le> 40961" "(40961::int) < 2 ^ 63" by simp_all
  have t: "replicate 2 NUL = [NUL, NUL]" by (simp add: numeral_eq_Suc)
  show ?thesis
    using write_uint_correct [OF f, of 2 6 "replicate 8 NUL"] write_uint_correct [OF f, of 2 4 "replicate 8 NUL"]
    by (auto simp: d t)
qed

end
