(* ===== verification/HdrValid.thy ===== *)
theory HdrValid
  imports Prelude
begin

text \<open>
  Validation of the response headers an application supplies, \<^verbatim>\<open>freastal/src/hdrvalid.h\<close>: the token
  table, the checks of a field name, of a field value and of a WSGI status string. A C string with
  its length is the list of its bytes.
\<close>

section \<open>Definitions\<close>

definition freastal_tchar :: "nat list" where
  "freastal_tchar =
    [0,0,0,0,0,0,0,0, 0,0,0,0,0,0,0,0,
     0,0,0,0,0,0,0,0, 0,0,0,0,0,0,0,0,
     0,1,0,1, 1,1,1,1, 0,0,1,1, 0,1,1,0,
     1,1,1,1, 1,1,1,1, 1,1,0,0, 0,0,0,0,
     0,1,1,1, 1,1,1,1, 1,1,1,1, 1,1,1,1,
     1,1,1,1, 1,1,1,1, 1,1,1,0, 0,0,1,1,
     1,1,1,1, 1,1,1,1, 1,1,1,1, 1,1,1,1,
     1,1,1,1, 1,1,1,1, 1,1,1,0, 1,0,1,0,
     0,0,0,0,0,0,0,0, 0,0,0,0,0,0,0,0,
     0,0,0,0,0,0,0,0, 0,0,0,0,0,0,0,0,
     0,0,0,0,0,0,0,0, 0,0,0,0,0,0,0,0,
     0,0,0,0,0,0,0,0, 0,0,0,0,0,0,0,0,
     0,0,0,0,0,0,0,0, 0,0,0,0,0,0,0,0,
     0,0,0,0,0,0,0,0, 0,0,0,0,0,0,0,0,
     0,0,0,0,0,0,0,0, 0,0,0,0,0,0,0,0,
     0,0,0,0,0,0,0,0, 0,0,0,0,0,0,0,0]"

fun tchar_loop :: "bytes \<Rightarrow> bool" where
  "tchar_loop [] = True"
| "tchar_loop (c # cs) = (if freastal_tchar ! byte c = 0 then False else tchar_loop cs)"

definition freastal_hdr_name_ok :: "bytes \<Rightarrow> bool" where
  "freastal_hdr_name_ok s = (if length s = 0 then False else tchar_loop s)"

fun freastal_hdr_value_ok :: "bytes \<Rightarrow> bool" where
  "freastal_hdr_value_ok [] = True"
| "freastal_hdr_value_ok (c # cs) =
     (if c = TAB then freastal_hdr_value_ok cs
      else if byte c < 0x20 \<or> byte c = 0x7F then False
      else freastal_hdr_value_ok cs)"

definition freastal_status_ok :: "bytes \<Rightarrow> bool" where
  "freastal_status_ok s =
     (if length s < 3 then False
      else if \<exists>i \<in> set [0..<3]. byte (s ! i) < 48 \<or> 57 < byte (s ! i) then False
      else if length s > 3 \<and> s ! 3 \<noteq> SP then False
      else freastal_hdr_value_ok (drop 3 s))"

section \<open>What the checks admit\<close>

text \<open>Bytes that may stand inside a line of the response: no control other than HTAB, no DEL.\<close>

definition line_char :: "char \<Rightarrow> bool" where
  "line_char c \<longleftrightarrow> c = TAB \<or> (32 \<le> byte c \<and> c \<noteq> DEL)"

lemma freastal_tchar_iff: "freastal_tchar ! byte c \<noteq> 0 \<longleftrightarrow> tchar (byte c)"
proof -
  have "list_all2 (\<lambda>n b. b \<noteq> 0 \<longleftrightarrow> tchar n) [0..<256] freastal_tchar"
    by (simp add: byte_enum freastal_tchar_def tchar_def)
  from byte_table [OF this, of c] show ?thesis .
qed

lemma tchar_loop_iff: "tchar_loop s \<longleftrightarrow> (\<forall>c \<in> set s. tchar (byte c))"
  by (induction s) (auto simp: freastal_tchar_iff [symmetric])

lemma hdr_name_ok_iff: "freastal_hdr_name_ok s \<longleftrightarrow> s \<noteq> [] \<and> (\<forall>c \<in> set s. tchar (byte c))"
  by (simp add: freastal_hdr_name_ok_def tchar_loop_iff)

lemma hdr_value_ok_iff: "freastal_hdr_value_ok s \<longleftrightarrow> (\<forall>c \<in> set s. line_char c)"
  by (induction s) (auto simp: line_char_def eq_delim)

lemma tchar_line_char: "tchar (byte c) \<Longrightarrow> line_char c \<and> c \<noteq> COLON \<and> c \<noteq> SP"
  using tchar_bounds [of "byte c"] by (simp add: line_char_def eq_delim)

lemma line_char_no_delim: "line_char c \<Longrightarrow> c \<noteq> CR \<and> c \<noteq> LF \<and> c \<noteq> NUL"
  by (auto simp: line_char_def eq_delim)

lemma status_ok_iff:
  "freastal_status_ok s \<longleftrightarrow>
   (\<exists>a b c r. s = [a, b, c] @ r \<and> (\<forall>d \<in> {a, b, c}. 48 \<le> byte d \<and> byte d \<le> 57)
      \<and> (r = [] \<or> hd r = SP) \<and> (\<forall>d \<in> set r. line_char d))"
proof (cases "\<exists>a b c r. s = a # b # c # r")
  case True
  then obtain a b c r where s: "s = a # b # c # r" by blast
  have u: "set [0..<3] = {0, 1, 2 :: nat}" by (auto simp: upt_rec_numeral upt_conv_Cons)
  show ?thesis unfolding s freastal_status_ok_def u
    by (simp add: hdr_value_ok_iff not_less) (cases r; simp)
next
  case False
  then have "length s < 3" by (cases s; cases "tl s"; cases "tl (tl s)"; simp)
  with False show ?thesis by (auto simp: freastal_status_ok_def)
qed

lemma digit_line_char: "48 \<le> byte d \<and> byte d \<le> 57 \<Longrightarrow> line_char d"
  by (simp add: line_char_def eq_delim)

lemma status_ok_line: "freastal_status_ok s \<Longrightarrow> \<forall>c \<in> set s. line_char c"
  using digit_line_char by (fastforce simp: status_ok_iff)

text \<open>
  C6. The three checks admit exactly what RFC 9110 and PEP 3333 allow, and in particular nothing that
  can end or split a line: a field name is accepted iff it is a non-empty token, a value iff it has
  no control but HTAB and no DEL, a status iff it is three digits, alone or followed by a blank and
  such text; and no accepted string holds CR, LF or NUL (an accepted name holds no colon or blank
  either).
\<close>

theorem header_checks_exact:
  "freastal_hdr_name_ok s = (s \<noteq> [] \<and> (\<forall>c \<in> set s. tchar (byte c)))
   \<and> freastal_hdr_value_ok s = (\<forall>c \<in> set s. c = TAB \<or> (32 \<le> byte c \<and> byte c \<noteq> 127))
   \<and> freastal_status_ok s =
       (\<exists>a b c r. s = [a, b, c] @ r \<and> (\<forall>d \<in> {a, b, c}. 48 \<le> byte d \<and> byte d \<le> 57)
          \<and> (r = [] \<or> hd r = SP) \<and> freastal_hdr_value_ok r)
   \<and> (freastal_hdr_name_ok s \<longrightarrow> set s \<inter> {CR, LF, NUL, COLON, SP} = {})
   \<and> (freastal_hdr_value_ok s \<or> freastal_status_ok s \<longrightarrow> set s \<inter> {CR, LF, NUL} = {})"
proof (intro conjI impI)
  show "freastal_hdr_value_ok s = (\<forall>c \<in> set s. c = TAB \<or> (32 \<le> byte c \<and> byte c \<noteq> 127))"
    by (simp add: hdr_value_ok_iff line_char_def eq_delim)
  show "freastal_hdr_name_ok s \<Longrightarrow> set s \<inter> {CR, LF, NUL, COLON, SP} = {}"
    using tchar_line_char line_char_no_delim by (auto simp: hdr_name_ok_iff)
  show "freastal_hdr_value_ok s \<or> freastal_status_ok s \<Longrightarrow> set s \<inter> {CR, LF, NUL} = {}"
    using status_ok_line line_char_no_delim by (auto simp: hdr_value_ok_iff)
qed (simp_all add: hdr_name_ok_iff status_ok_iff hdr_value_ok_iff)

theorem header_checks_exact_witness:
  "freastal_hdr_name_ok ''X-A'' \<and> set ''X-A'' \<inter> {CR, LF, NUL, COLON, SP} = {}
   \<and> freastal_status_ok ''200 OK'' \<and> set ''200 OK'' \<inter> {CR, LF, NUL} = {}"
proof -
  have a: "freastal_hdr_name_ok ''X-A''" by (simp add: hdr_name_ok_iff tchar_def)
  have b: "freastal_status_ok ''200 OK''"
    by (simp add: freastal_status_ok_def upt_rec_numeral upt_conv_Cons eq_delim)
  from a have "set ''X-A'' \<inter> {CR, LF, NUL, COLON, SP} = {}"
    by (rule header_checks_exact [of "''X-A''", THEN conjunct2, THEN conjunct2, THEN conjunct2,
          THEN conjunct1, rule_format])
  moreover from b have "set ''200 OK'' \<inter> {CR, LF, NUL} = {}"
    by (intro header_checks_exact [of "''200 OK''", THEN conjunct2, THEN conjunct2, THEN conjunct2,
          THEN conjunct2, rule_format] disjI2)
  ultimately show ?thesis using a b by (intro conjI)
qed

end
