(* ===== verification/HdrCache.thy ===== *)
theory HdrCache
  imports Prelude
begin

text \<open>
  The cache of request header names, \<^verbatim>\<open>freastal/src/hdrcache.c\<close>: a table of the names that recur,
  sorted by length, with the Python objects both scope builders need for them, and an index from a
  length to the slice of the table that can match.

  A Python \<open>bytes\<close> or Latin-1 \<open>str\<close> object is the list of its characters; \<open>None\<close> is a null pointer
  (not built yet, or an allocation that failed). The allocator is the parameter \<open>alloc\<close>: for entry
  \<open>i\<close>, whether its two objects could be built.
\<close>

section \<open>Definitions\<close>

definition HDR_CACHE_MAX_LEN :: nat where
  "HDR_CACHE_MAX_LEN = 32"

definition hdr_names :: "bytes list" where
  "hdr_names =
    [''dnt'',
     ''host'',
     ''range'',
     ''accept'', ''cookie'', ''expect'', ''origin'', ''pragma'',
     ''referer'', ''upgrade'',
     ''if-match'', ''priority'',
     ''sec-ch-ua'', ''x-real-ip'',
     ''connection'', ''keep-alive'', ''user-agent'',
     ''content-type'', ''max-forwards'', ''x-request-id'',
     ''authorization'', ''cache-control'', ''if-none-match'',
     ''accept-charset'', ''content-length'', ''sec-fetch-dest'', ''sec-fetch-mode'',
     ''sec-fetch-site'', ''sec-fetch-user'',
     ''accept-encoding'', ''accept-language'', ''x-forwarded-for'',
     ''sec-ch-ua-mobile'', ''x-forwarded-host'', ''x-requested-with'',
     ''if-modified-since'', ''transfer-encoding'', ''x-forwarded-proto'',
     ''sec-ch-ua-platform'',
     ''if-unmodified-since'',
     ''upgrade-insecure-requests'']"

definition HDR_CACHE_N :: nat where
  "HDR_CACHE_N = length hdr_names"

record hdr_cache_entry =
  ename :: "bytes option"
  elen :: nat
  asgi_name :: "bytes option"
  wsgi_key :: "bytes option"

record hdr_cache =
  hdr_table :: "hdr_cache_entry list"
  hdr_offset :: "nat list"

text \<open>The statics before the first call: zeroed memory.\<close>

definition hdr_cache_zero :: hdr_cache where
  "hdr_cache_zero =
     \<lparr>hdr_table = replicate HDR_CACHE_N \<lparr>ename = None, elen = 0, asgi_name = None, wsgi_key = None\<rparr>,
      hdr_offset = replicate (HDR_CACHE_MAX_LEN + 2) 0\<rparr>"

fun hdr_eq_ci :: "bytes \<Rightarrow> bytes \<Rightarrow> bool" where
  "hdr_eq_ci (a # s) (b # lower) =
     (if a = b then hdr_eq_ci s lower
      else if (byte a XOR 0x20) \<noteq> byte b \<or> byte b < 97 \<or> byte b > 122 then False
      else hdr_eq_ci s lower)"
| "hdr_eq_ci _ _ = True"

text \<open>The search loop over \<open>[i, end)\<close>.\<close>

fun lookup_loop :: "hdr_cache_entry list \<Rightarrow> bytes \<Rightarrow> char \<Rightarrow> hdr_cache_entry option" where
  "lookup_loop [] name c0 = None"
| "lookup_loop (e # es) name c0 =
     (case ename e of
        None \<Rightarrow> lookup_loop es name c0
      | Some n \<Rightarrow>
          if hd n \<noteq> c0 then lookup_loop es name c0
          else if hdr_eq_ci (tl name) (tl n) then Some e
          else lookup_loop es name c0)"

definition fold_first :: "bytes \<Rightarrow> char" where
  "fold_first name = (if 65 \<le> byte (hd name) \<and> byte (hd name) \<le> 90
                      then char_of (byte (hd name) OR 0x20) else hd name)"

definition hdr_cache_lookup :: "hdr_cache \<Rightarrow> bytes \<Rightarrow> hdr_cache_entry option" where
  "hdr_cache_lookup hc name =
     (if length name = 0 \<or> length name > HDR_CACHE_MAX_LEN then None
      else let c0 = fold_first name;
               i = hdr_offset hc ! length name;
               end = hdr_offset hc ! (length name + 1)
           in lookup_loop (subbuf i end (hdr_table hc)) name c0)"

text \<open>
  The key of the environ entry: \<open>HTTP_\<close>, then the name in upper case with \<open>-\<close> turned into \<open>_\<close>. The
  cache builds it once per table entry, \<open>wsgi_header_key\<close> in \<^verbatim>\<open>wsgi.c\<close> builds it for other names.
\<close>

definition key_char :: "char \<Rightarrow> char" where
  "key_char ch = (if 97 \<le> byte ch \<and> byte ch \<le> 122 then char_of (byte ch - 32)
                  else if ch = CHR ''-'' then CHR ''_'' else ch)"

definition cached_key :: "bytes \<Rightarrow> bytes" where
  "cached_key n = ''HTTP_'' @ map key_char n"

text \<open>The first loop of \<open>hdr_cache_init\<close>. \<open>Inl\<close> is the \<open>-1\<close> return, with the table as it stands then.\<close>

fun init_entries ::
  "(nat \<Rightarrow> bool \<times> bool) \<Rightarrow> bytes list \<Rightarrow> nat \<Rightarrow> nat \<Rightarrow> hdr_cache_entry list
    \<Rightarrow> hdr_cache_entry list + hdr_cache_entry list" where
  "init_entries alloc [] i prev table = Inr table"
| "init_entries alloc (n # ns) i prev table =
     (let len = length n
      in if len = 0 \<or> len > HDR_CACHE_MAX_LEN \<or> len < prev then Inl table
         else let e = \<lparr>ename = Some n, elen = len mod 256,
                       asgi_name = (if fst (alloc i) then Some n else None),
                       wsgi_key = (if snd (alloc i) then Some (cached_key n) else None)\<rparr>;
                  table' = table[i := e]
              in if asgi_name e = None \<or> wsgi_key e = None then Inl table'
                 else init_entries alloc ns (Suc i) (len mod 256) table')"

text \<open>\<open>while (idx < HDR_CACHE_N && hdr_table[idx].len < L) idx++\<close>\<close>

definition skip_shorter :: "hdr_cache_entry list \<Rightarrow> nat \<Rightarrow> nat \<Rightarrow> nat" where
  "skip_shorter table L idx = idx + length (takeWhile (\<lambda>e. elen e < L) (drop idx table))"

fun init_offsets :: "hdr_cache_entry list \<Rightarrow> nat list \<Rightarrow> nat \<Rightarrow> nat list" where
  "init_offsets table [] idx = []"
| "init_offsets table (L # Ls) idx =
     (let idx' = skip_shorter table L idx in (idx' mod 256) # init_offsets table Ls idx')"

definition hdr_cache_init :: "(nat \<Rightarrow> bool \<times> bool) \<Rightarrow> hdr_cache \<Rightarrow> int \<times> hdr_cache" where
  "hdr_cache_init alloc hc =
     (if asgi_name (hdr_table hc ! 0) \<noteq> None then (0, hc)
      else case init_entries alloc hdr_names 0 0 (hdr_table hc) of
        Inl table \<Rightarrow> (-1, hc\<lparr>hdr_table := table\<rparr>)
      | Inr table \<Rightarrow>
          (0, hc\<lparr>hdr_table := table,
                 hdr_offset := init_offsets table [0..<HDR_CACHE_MAX_LEN + 2] 0\<rparr>))"

section \<open>The cache once built\<close>

definition built_entry :: "bytes \<Rightarrow> hdr_cache_entry" where
  "built_entry n = \<lparr>ename = Some n, elen = length n, asgi_name = Some n, wsgi_key = Some (cached_key n)\<rparr>"

definition built_cache :: hdr_cache where
  "built_cache =
     \<lparr>hdr_table = map built_entry hdr_names,
      hdr_offset = map (\<lambda>L. length (filter (\<lambda>n. length n < L) hdr_names)) [0..<34]\<rparr>"

lemma hdr_names_map_length:
  "map length hdr_names =
     [3, 4, 5, 6, 6, 6, 6, 6, 7, 7, 8, 8, 9, 9, 10, 10, 10, 12, 12, 12, 13, 13, 13,
      14, 14, 14, 14, 14, 14, 15, 15, 15, 16, 16, 16, 17, 17, 17, 18, 19, 25]"
  by (simp add: hdr_names_def)

lemma sorted_hdr_names: "sorted (map length hdr_names)"
  by (simp add: hdr_names_map_length)

lemma hdr_names_lengths: "\<forall>n \<in> set hdr_names. 0 < length n \<and> length n \<le> 32"
proof -
  have "\<forall>k \<in> set (map length hdr_names). 0 < k \<and> k \<le> 32" unfolding hdr_names_map_length by simp
  then show ?thesis by simp
qed

lemma HDR_CACHE_N_eq: "HDR_CACHE_N = 41"
  using arg_cong [OF hdr_names_map_length, of length] by (simp add: HDR_CACHE_N_def)

lemma init_entries_ok:
  "sorted (prev # map length ns) \<Longrightarrow> \<forall>n \<in> set ns. 0 < length n \<and> length n \<le> 32 \<Longrightarrow>
    init_entries (\<lambda>_. (True, True)) ns i prev table \<noteq> Inl t"
proof (induction ns arbitrary: i prev table)
  case (Cons n ns)
  have "init_entries (\<lambda>_. (True, True)) ns (Suc i) (length n) t' \<noteq> Inl t" for t'
    using Cons.prems by (intro Cons.IH) simp_all
  then show ?case using Cons.prems by (simp add: HDR_CACHE_MAX_LEN_def Let_def not_less)
qed simp

lemma init_entries_built:
  "\<forall>n \<in> set ns. length n \<le> 32 \<Longrightarrow> length dn + length ns = length table \<Longrightarrow> take (length dn) table = dn \<Longrightarrow>
   init_entries alloc ns (length dn) prev table = Inr t \<Longrightarrow> t = dn @ map built_entry ns"
proof (induction ns arbitrary: dn prev table)
  case Nil
  have "table = t" using Nil.prems(4) by simp
  moreover have "length dn = length table" using Nil.prems(2) by simp
  ultimately show ?case using Nil.prems(3) by (metis append_Nil2 list.map(1) take_all_iff order_refl)
next
  case (Cons n ns)
  let ?t = "table[length dn := built_entry n]"
  have "take (Suc (length dn)) ?t = dn @ [built_entry n]"
    using Cons.prems(2,3) by (simp add: take_Suc_conv_app_nth)
  moreover have "init_entries alloc ns (length (dn @ [built_entry n])) (length n) ?t = Inr t"
    using Cons.prems(1,4) by (auto simp: built_entry_def Let_def split: if_splits)
  ultimately have "t = (dn @ [built_entry n]) @ map built_entry ns"
    using Cons.prems by (intro Cons.IH [of "dn @ [built_entry n]" ?t "length n"]) auto
  then show ?case by simp
qed

text \<open>In a table sorted by length the skip stops at the number of shorter entries.\<close>

lemma filter_none:
  "\<not> length n < L \<Longrightarrow> \<forall>x \<in> set ns. length n \<le> length x \<Longrightarrow> filter (\<lambda>n. length n < L) ns = []"
  by (auto simp: filter_empty_conv)

lemma takeWhile_sorted:
  "sorted (map length ns) \<Longrightarrow> takeWhile (\<lambda>n. length n < L) ns = filter (\<lambda>n. length n < L) ns"
  by (induction ns) (auto simp: filter_none)

definition shorter :: "bytes list \<Rightarrow> nat \<Rightarrow> nat" where
  "shorter ns L = length (filter (\<lambda>n. length n < L) ns)"

lemma drop_shorter:
  "sorted (map length ns) \<Longrightarrow> drop (shorter ns K) ns = filter (\<lambda>n. \<not> length n < K) ns"
proof (induction ns)
  case (Cons n ns)
  then show ?case
    by (cases "length n < K") (auto simp: shorter_def filter_none)
qed (simp add: shorter_def)

lemma skip_shorter_eq:
  assumes "sorted (map length ns)" "K \<le> L"
  shows "skip_shorter (map built_entry ns) L (shorter ns K) = shorter ns L"
proof -
  have s: "sorted (map length (drop (shorter ns K) ns))"
    using assms(1) by (simp add: drop_map [symmetric])
  have "takeWhile (\<lambda>e. elen e < L) (drop (shorter ns K) (map built_entry ns))
      = map built_entry (filter (\<lambda>n. length n < L) (filter (\<lambda>n. \<not> length n < K) ns))"
    using takeWhile_sorted [OF s, of L] drop_shorter [OF assms(1), of K]
    by (simp add: drop_map takeWhile_map o_def built_entry_def)
  moreover have "shorter ns L = shorter ns K + length (filter (\<lambda>n. length n < L \<and> \<not> length n < K) ns)"
    using assms(2) unfolding shorter_def by (induction ns) auto
  ultimately show ?thesis by (simp add: skip_shorter_def conj_commute)
qed

lemma init_offsets_eq:
  assumes "sorted (map length ns)" "length ns < 256"
  shows "K \<le> a \<Longrightarrow> init_offsets (map built_entry ns) [a..<b] (shorter ns K) = map (shorter ns) [a..<b]"
proof (induction "b - a" arbitrary: a K)
  case (Suc k)
  have "shorter ns a \<le> length ns" by (simp add: shorter_def)
  moreover have "[a..<b] = a # [Suc a..<b]" using Suc.hyps(2) by (intro upt_conv_Cons) linarith
  moreover have "init_offsets (map built_entry ns) [Suc a..<b] (shorter ns a) = map (shorter ns) [Suc a..<b]"
    using Suc.hyps(2) by (intro Suc.hyps(1)) linarith+
  ultimately show ?case using assms Suc.prems by (simp add: skip_shorter_eq)
qed simp

lemma shorter_0 [simp]: "shorter ns 0 = 0"
  by (simp add: shorter_def)

lemma hdr_cache_zero_None: "asgi_name (hdr_table hdr_cache_zero ! 0) = None"
  by (simp add: hdr_cache_zero_def HDR_CACHE_N_eq)

lemma hdr_cache_init_built:
  assumes "hdr_cache_init alloc hdr_cache_zero = (0, hc)"
  shows "hc = built_cache"
proof -
  obtain t where t: "init_entries alloc hdr_names (length ([] :: hdr_cache_entry list)) 0 (hdr_table hdr_cache_zero) = Inr t"
    and hc: "hc = hdr_cache_zero\<lparr>hdr_table := t, hdr_offset := init_offsets t [0..<34] 0\<rparr>"
    using assms hdr_cache_zero_None
    by (auto simp: hdr_cache_init_def HDR_CACHE_MAX_LEN_def split: sum.splits)
  have "t = [] @ map built_entry hdr_names"
    using hdr_names_lengths by (intro init_entries_built [OF _ _ _ t]) (simp_all add: hdr_cache_zero_def HDR_CACHE_N_def)
  moreover have "init_offsets (map built_entry hdr_names) [0..<34] (shorter hdr_names 0)
      = map (shorter hdr_names) [0..<34]"
    using sorted_hdr_names HDR_CACHE_N_eq by (intro init_offsets_eq) (simp_all add: HDR_CACHE_N_def)
  ultimately show ?thesis
    by (simp add: hc built_cache_def shorter_def [abs_def] hdr_cache_zero_def)
qed

lemma hdr_cache_init_succeeds: "fst (hdr_cache_init (\<lambda>_. (True, True)) hdr_cache_zero) = 0"
proof -
  have "init_entries (\<lambda>_. (True, True)) hdr_names 0 0 (hdr_table hdr_cache_zero) \<noteq> Inl t" for t
    using sorted_hdr_names hdr_names_lengths by (intro init_entries_ok) simp_all
  then show ?thesis using hdr_cache_zero_None
    by (auto simp: hdr_cache_init_def split: sum.splits)
qed

text \<open>The slice for a length holds the names of that length.\<close>

lemma subbuf_shorter:
  assumes "sorted (map length ns)"
  shows "subbuf (shorter ns L) (shorter ns (Suc L)) ns = filter (\<lambda>n. length n = L) ns"
proof -
  have le: "shorter ns (Suc L) \<le> length ns" by (simp add: shorter_def)
  have "take (shorter ns (Suc L)) ns = filter (\<lambda>n. length n < Suc L) ns"
    using takeWhile_sorted [OF assms, of "Suc L"] takeWhile_eq_take [of "\<lambda>n. length n < Suc L" ns]
    by (simp add: shorter_def)
  moreover have "drop (shorter ns L) (filter (\<lambda>n. length n < Suc L) ns)
      = filter (\<lambda>n. length n = L) ns"
  proof -
    have "sorted (map length (filter (\<lambda>n. length n < Suc L) ns))"
      using assms by (rule sorted_filter)
    moreover have "shorter (filter (\<lambda>n. length n < Suc L) ns) L = shorter ns L"
      by (simp add: shorter_def) (metis (mono_tags, lifting) less_SucI)
    ultimately show ?thesis
      using drop_shorter [of "filter (\<lambda>n. length n < Suc L) ns" L]
      by simp (metis (mono_tags, lifting) less_antisym less_irrefl less_SucI lessI)
  qed
  ultimately show ?thesis by (simp add: subbuf_def)
qed

section \<open>Lookup\<close>

lemma xor_case:
  "(97 \<le> byte a XOR 32 \<and> byte a XOR 32 \<le> 122) = (65 \<le> byte a \<and> byte a \<le> 90)"
  by (rule byte_all) (simp add: byte_enum)

lemma xor_upper: "65 \<le> byte a \<and> byte a \<le> 90 \<longrightarrow> byte a XOR 32 = byte a + 32 \<and> byte a OR 32 = byte a + 32"
  by (rule byte_all) (simp add: byte_enum)

lemma byte_ascii_lower: "byte (ascii_lower c) = (if 65 \<le> byte c \<and> byte c \<le> 90 then byte c + 32 else byte c)"
  by (simp add: ascii_lower_def of_char_of)

lemma ci_char:
  assumes "\<not> (65 \<le> byte b \<and> byte b \<le> 90)"
  shows "a = b \<or> (byte a XOR 32 = byte b \<and> 97 \<le> byte b \<and> byte b \<le> 122) \<longleftrightarrow> ascii_lower a = b"
proof -
  have "ascii_lower a = b \<longleftrightarrow> byte (ascii_lower a) = byte b" by simp
  then show ?thesis
    using assms xor_case [of a] xor_upper [of a] unfolding byte_ascii_lower by auto
qed

lemma hdr_eq_ci_iff:
  "length s = length lower \<Longrightarrow> \<forall>b \<in> set lower. \<not> (65 \<le> byte b \<and> byte b \<le> 90) \<Longrightarrow>
   hdr_eq_ci s lower \<longleftrightarrow> map ascii_lower s = lower"
proof (induction s lower rule: list_induct2)
  case (Cons a s b lower)
  then show ?case using ci_char [of b a] by auto
qed simp

definition no_upper :: "bytes \<Rightarrow> bool" where
  "no_upper n = list_all (\<lambda>c. \<not> (65 \<le> byte c \<and> byte c \<le> 90)) n"

lemma hdr_names_no_upper: "list_all no_upper hdr_names"
  by (simp add: hdr_names_def no_upper_def)

lemma lookup_loop_built:
  assumes "\<forall>n \<in> set ns. length n = length name \<and> no_upper n" "name \<noteq> []"
  shows "lookup_loop (map built_entry ns) name (ascii_lower (hd name))
    = (if map ascii_lower name \<in> set ns then Some (built_entry (map ascii_lower name)) else None)"
  using assms(1)
proof (induction ns)
  case (Cons n ns)
  obtain c cs where name: "name = c # cs" using assms(2) by (cases name) auto
  obtain b bs where n: "n = b # bs" "length cs = length bs"
    using Cons.prems name by (cases n) auto
  have "hdr_eq_ci cs bs \<longleftrightarrow> map ascii_lower cs = bs"
    using Cons.prems n by (intro hdr_eq_ci_iff) (auto simp: no_upper_def list_all_iff)
  then show ?case using Cons name n by (auto simp: built_entry_def)
qed simp

lemma hdr_cache_lookup_built:
  "hdr_cache_lookup built_cache name =
    (if map ascii_lower name \<in> set hdr_names then Some (built_entry (map ascii_lower name)) else None)"
proof (cases "name = [] \<or> length name > 32")
  case True
  then have "map ascii_lower name \<notin> set hdr_names"
    using hdr_names_lengths by (metis length_greater_0_conv length_map not_le)
  then show ?thesis using True by (auto simp: hdr_cache_lookup_def HDR_CACHE_MAX_LEN_def)
next
  case False
  let ?L = "length name"
  have c0: "fold_first name = ascii_lower (hd name)"
    using xor_upper [of "hd name"] by (simp add: ascii_lower_def fold_first_def)
  have "hdr_offset built_cache ! k = shorter hdr_names k" if "k < 34" for k
    using that by (simp add: built_cache_def shorter_def)
  then have slice: "subbuf (hdr_offset built_cache ! ?L) (hdr_offset built_cache ! (?L + 1)) (hdr_table built_cache)
      = map built_entry (filter (\<lambda>n. length n = ?L) hdr_names)"
    using False subbuf_shorter [OF sorted_hdr_names, of ?L]
    by (simp add: built_cache_def subbuf_def take_map drop_map)
  have len: "\<not> (length name = 0 \<or> length name > HDR_CACHE_MAX_LEN)"
    using False by (simp add: HDR_CACHE_MAX_LEN_def)
  have "\<forall>n \<in> set (filter (\<lambda>n. length n = ?L) hdr_names). length n = ?L \<and> no_upper n"
    using hdr_names_no_upper by (simp add: list_all_iff)
  then have "lookup_loop (map built_entry (filter (\<lambda>n. length n = ?L) hdr_names)) name (ascii_lower (hd name))
      = (if map ascii_lower name \<in> set (filter (\<lambda>n. length n = ?L) hdr_names)
         then Some (built_entry (map ascii_lower name)) else None)"
    using False by (intro lookup_loop_built) simp_all
  then show ?thesis
    unfolding hdr_cache_lookup_def Let_def if_not_P [OF len] slice c0 by simp
qed

lemma key_char_lower: "key_char (ascii_lower c) = key_char c"
proof -
  have "d = CHR ''-'' \<longleftrightarrow> byte d = 45" for d
    using of_char_eq_iff [of d "CHR ''-''", where 'a = nat] by simp
  then have "ascii_lower c = CHR ''-'' \<longleftrightarrow> c = CHR ''-''"
    by (simp add: byte_ascii_lower)
  then show ?thesis
    unfolding key_char_def byte_ascii_lower
    by (cases "65 \<le> byte c \<and> byte c \<le> 90") (auto simp: ascii_lower_def)
qed

lemma cached_key_lower: "cached_key (map ascii_lower n) = cached_key n"
  by (simp add: cached_key_def key_char_lower)

section \<open>What a user of the cache relies on\<close>

text \<open>
  The contract of the cache towards the two scope builders: the objects of a hit are the ones the
  builder would have made itself from the name on the wire.
\<close>

locale name_cache =
  fixes hc :: hdr_cache
  assumes hit: "hdr_cache_lookup hc name = Some e \<Longrightarrow>
    asgi_name e = Some (map ascii_lower name) \<and> wsgi_key e = Some (cached_key name)"
begin

lemma asgi_transparent:
  "(case hdr_cache_lookup hc name of Some e \<Rightarrow> asgi_name e | None \<Rightarrow> Some (map ascii_lower name))
    = Some (map ascii_lower name)"
  using hit by (auto split: option.splits)

lemma wsgi_transparent:
  "(case hdr_cache_lookup hc name of Some e \<Rightarrow> wsgi_key e | None \<Rightarrow> Some (cached_key name))
    = Some (cached_key name)"
  using hit by (auto split: option.splits)

end

interpretation built: name_cache built_cache
  by unfold_locales
    (auto simp: hdr_cache_lookup_built built_entry_def cached_key_lower split: if_splits)

text \<open>A cache that was never built answers no lookup, so it satisfies the contract too.\<close>

interpretation unbuilt: name_cache hdr_cache_zero
proof
  fix name e
  assume "hdr_cache_lookup hdr_cache_zero name = Some e"
  moreover have "hdr_offset hdr_cache_zero ! k = 0" if "k < 34" for k
    using that by (simp only: hdr_cache_zero_def hdr_cache.simps HDR_CACHE_MAX_LEN_def nth_replicate)
  ultimately have False
    by (simp add: hdr_cache_lookup_def HDR_CACHE_MAX_LEN_def Let_def split: if_splits)
  then show "asgi_name e = Some (map ascii_lower name) \<and> wsgi_key e = Some (cached_key name)" ..
qed

section \<open>Properties\<close>

text \<open>
  C7. The header name cache built by \<open>hdr_cache_init\<close> is exact. Whenever the initialisation
  succeeds, a lookup of a name from the wire finds an entry precisely when the name, in lower case,
  is one of the cached names (the length index and the first-byte filter lose nothing, and the
  bit-5 comparison confuses nothing); the entry it finds carries the lower-case name for ASGI and
  the \<open>HTTP_\<close> key for WSGI; and the initialisation does succeed when its allocations do.
\<close>

theorem hdr_cache_exact:
  assumes "hdr_cache_init alloc hdr_cache_zero = (0, hc)"
  shows "(hdr_cache_lookup hc name = None \<longleftrightarrow> map ascii_lower name \<notin> set hdr_names)
    \<and> (\<forall>e. hdr_cache_lookup hc name = Some e \<longrightarrow>
         asgi_name e = Some (map ascii_lower name) \<and> wsgi_key e = Some (cached_key name))
    \<and> fst (hdr_cache_init (\<lambda>_. (True, True)) hdr_cache_zero) = 0"
  using hdr_cache_init_built [OF assms] built.hit hdr_cache_init_succeeds
  by (simp add: hdr_cache_lookup_built)

lemma sample_init: "hdr_cache_init (\<lambda>_. (True, True)) hdr_cache_zero = (0, built_cache)"
  using hdr_cache_init_succeeds hdr_cache_init_built by (metis prod.collapse)

theorem hdr_cache_exact_witness:
  "(hdr_cache_lookup built_cache ''X-Absent'' = None \<longleftrightarrow> map ascii_lower ''X-Absent'' \<notin> set hdr_names)
    \<and> asgi_name (built_entry ''host'') = Some (map ascii_lower ''Host'')
    \<and> wsgi_key (built_entry ''host'') = Some (cached_key ''Host'')"
proof -
  have l: "map ascii_lower ''Host'' = ''host''"
    by (simp add: ascii_lower_def char_of_eq_iff)
  have "''host'' \<in> set hdr_names" by (simp add: hdr_names_def)
  then have "hdr_cache_lookup built_cache ''Host'' = Some (built_entry ''host'')"
    by (simp only: hdr_cache_lookup_built l if_True)
  then show ?thesis
    using hdr_cache_exact [OF sample_init, of "''X-Absent''"]
      hdr_cache_exact [OF sample_init, of "''Host''"] by blast
qed

end
