(* ===== verification/PyObj.thy ===== *)
theory PyObj
  imports Prelude "HOL-Library.AList"
begin

text \<open>
  The Python values that cross the boundary between the C server and an application, and the parts
  of the C API the server calls on them.

  \<^item> A \<open>str\<close> is the list of its code points; \<open>utf8_encode\<close> is \<open>PyUnicode_AsUTF8AndSize\<close> (which
    fails on a lone surrogate), \<open>utf8_decode\<close> the strict decoder behind
    \<open>PyUnicode_FromStringAndSize\<close>, \<open>latin1\<close> is \<open>PyUnicode_DecodeLatin1\<close>.
  \<^item> The flag of \<open>PyBytes\<close>, \<open>PyTuple\<close> and \<open>PyList\<close> says that the object is of exactly that type
    (\<open>CheckExact\<close>); a subclass instance passes \<open>Check\<close> only. \<open>PySeq\<close> is an object of any other class
    that answers the sequence protocol.
  \<^item> A \<open>dict\<close> with string keys is an association list in insertion order; \<open>AList.update\<close> is
    \<open>PyDict_SetItem\<close>, which keeps the position of a key that is already present.
  \<^item> \<open>pycode\<close> is application code seen from the server: a finite tree of what it does next. It can
    call \<open>start_response\<close> (and go on in one way if that returned, in another if it raised), change the
    contents of the header list it passed to \<open>start_response\<close>, yield, return or raise. A generator is
    \<open>PyGen\<close> of the code that runs as it is iterated.

  Reference counts are not part of the model: the objects are values.
\<close>

section \<open>Objects\<close>

type_synonym pystr = "nat list"

datatype pyobj =
    PyNone
  | PyBool bool
  | PyInt int
  | PyStr pystr
  | PyBytes bool bytes
  | PyTuple bool "pyobj list"
  | PyList bool "pyobj list"
  | PySeq "pyobj list"
  | PyDict "(string \<times> pyobj) list"
  | PyBytesIO bytes
  | PyObject nat
  | PyGen pycode
and pycode =
    CallSR "pyobj list" pycode pycode
  | MutateHeaders "pyobj list" pycode
  | Yield pyobj pycode
  | Return pyobj
  | Raise

text \<open>
  An ASGI application, seen through \<open>run_asgi_request\<close> of \<^verbatim>\<open>_asgi_protocol.py\<close>: it calls
  \<open>asgi_send_response\<close> with a status, headers and a body (and goes on in one way if that returned, in
  another if it raised), suspends until the event loop resumes it, finishes, or raises.
\<close>

datatype asgi_code =
    ASend pyobj pyobj pyobj asgi_code asgi_code
  | ASuspend asgi_code
  | AFinish
  | ARaise

type_synonym pydict = "(string \<times> pyobj) list"

fun PyBytes_Check :: "pyobj \<Rightarrow> bool" where
  "PyBytes_Check (PyBytes _ _) = True"
| "PyBytes_Check _ = False"

fun PyUnicode_Check :: "pyobj \<Rightarrow> bool" where
  "PyUnicode_Check (PyStr _) = True"
| "PyUnicode_Check _ = False"

text \<open>The bytes of an object that passed \<open>PyBytes_Check\<close>.\<close>

fun bytes_of :: "pyobj \<Rightarrow> bytes" where
  "bytes_of (PyBytes _ b) = b"
| "bytes_of _ = []"

text \<open>\<open>PySequence_GetItem(obj, i)\<close>; \<open>None\<close> is an exception.\<close>

fun seq_item :: "pyobj \<Rightarrow> nat \<Rightarrow> pyobj option" where
  "seq_item (PyTuple _ xs) i = (if i < length xs then Some (xs ! i) else None)"
| "seq_item (PyList _ xs) i = (if i < length xs then Some (xs ! i) else None)"
| "seq_item (PySeq xs) i = (if i < length xs then Some (xs ! i) else None)"
| "seq_item (PyStr s) i = (if i < length s then Some (PyStr [s ! i]) else None)"
| "seq_item (PyBytes _ b) i = (if i < length b then Some (PyInt (int (byte (b ! i)))) else None)"
| "seq_item _ i = None"

section \<open>Text codecs\<close>

definition latin1 :: "bytes \<Rightarrow> pystr" where
  "latin1 b = map of_char b"

definition utf8_char :: "nat \<Rightarrow> bytes option" where
  "utf8_char cp =
     (if cp < 0x80 then Some [char_of cp]
      else if cp < 0x800 then Some [char_of (0xC0 + cp div 64), char_of (0x80 + cp mod 64)]
      else if 0xD800 \<le> cp \<and> cp < 0xE000 then None
      else if cp < 0x10000 then
        Some [char_of (0xE0 + cp div 4096), char_of (0x80 + cp div 64 mod 64), char_of (0x80 + cp mod 64)]
      else if cp < 0x110000 then
        Some [char_of (0xF0 + cp div 262144), char_of (0x80 + cp div 4096 mod 64),
              char_of (0x80 + cp div 64 mod 64), char_of (0x80 + cp mod 64)]
      else None)"

fun utf8_encode :: "pystr \<Rightarrow> bytes option" where
  "utf8_encode [] = Some []"
| "utf8_encode (cp # s) =
     (case utf8_char cp of
        None \<Rightarrow> None
      | Some b \<Rightarrow> (case utf8_encode s of None \<Rightarrow> None | Some bs \<Rightarrow> Some (b @ bs)))"

definition cont_byte :: "char \<Rightarrow> bool" where
  "cont_byte c \<longleftrightarrow> 0x80 \<le> byte c \<and> byte c < 0xC0"

text \<open>The strict decoder: overlong forms, surrogates and values past U+10FFFF are errors.\<close>

fun utf8_decode :: "bytes \<Rightarrow> pystr option" where
  "utf8_decode [] = Some []"
| "utf8_decode (a # s) =
     (if byte a < 0x80 then map_option (\<lambda>t. byte a # t) (utf8_decode s)
      else case s of
        [] \<Rightarrow> None
      | b # s1 \<Rightarrow>
          if \<not> cont_byte b then None
          else if 0xC2 \<le> byte a \<and> byte a < 0xE0 then
            map_option (\<lambda>t. ((byte a - 0xC0) * 64 + (byte b - 0x80)) # t) (utf8_decode s1)
          else (case s1 of
            [] \<Rightarrow> None
          | c # s2 \<Rightarrow>
              if \<not> cont_byte c then None
              else if 0xE0 \<le> byte a \<and> byte a < 0xF0 then
                (let cp = (byte a - 0xE0) * 4096 + (byte b - 0x80) * 64 + (byte c - 0x80)
                 in if cp < 0x800 \<or> (0xD800 \<le> cp \<and> cp < 0xE000) then None
                    else map_option (\<lambda>t. cp # t) (utf8_decode s2))
              else (case s2 of
                [] \<Rightarrow> None
              | d # s3 \<Rightarrow>
                  if \<not> cont_byte d then None
                  else if 0xF0 \<le> byte a \<and> byte a < 0xF5 then
                    (let cp = (byte a - 0xF0) * 262144 + (byte b - 0x80) * 4096
                              + (byte c - 0x80) * 64 + (byte d - 0x80)
                     in if cp < 0x10000 \<or> 0x110000 \<le> cp then None
                        else map_option (\<lambda>t. cp # t) (utf8_decode s3))
                  else None)))"

lemma latin1_Nil [simp]: "latin1 [] = []"
  by (simp add: latin1_def)

lemma latin1_append [simp]: "latin1 (a @ b) = latin1 a @ latin1 b"
  by (simp add: latin1_def)

lemma latin1_inj: "latin1 a = latin1 b \<longleftrightarrow> a = b"
  by (auto simp: latin1_def inj_map_eq_map inj_def)

lemma utf8_decode_ascii: "\<forall>c \<in> set b. byte c < 0x80 \<Longrightarrow> utf8_decode b = Some (latin1 b)"
  by (induction b) (simp_all add: latin1_def)

section \<open>Dictionaries\<close>

text \<open>\<open>PyDict_SetDefault(d, k, v)\<close> leaves a present key alone.\<close>

definition dict_setdefault :: "string \<Rightarrow> pyobj \<Rightarrow> pydict \<Rightarrow> pydict" where
  "dict_setdefault k v d = (case map_of d k of None \<Rightarrow> d @ [(k, v)] | Some _ \<Rightarrow> d)"

lemma map_of_setdefault [simp]:
  "map_of (dict_setdefault k v d) k' =
     (if k' = k \<and> map_of d k = None then Some v else map_of d k')"
  by (auto simp: dict_setdefault_def map_add_def split: option.splits)

lemma update_append_new: "map_of d k = None \<Longrightarrow> AList.update k v d = d @ [(k, v)]"
  by (induction d) (auto split: if_splits)

lemma fst_update: "map fst (AList.update k v d) = (if k \<in> set (map fst d) then map fst d else map fst d @ [k])"
  by (induction d) auto

lemma length_dict_setdefault:
  "length (dict_setdefault k v d) = length d \<longleftrightarrow> map_of d k \<noteq> None"
  by (auto simp: dict_setdefault_def split: option.splits)

end
