(* ===== verification/HdrBuf.thy ===== *)
theory HdrBuf
  imports Decimal
begin

text \<open>
  The response header buffer \<open>resp_hdr[RESP_HDR_SIZE]\<close> and the way both formatters
  (\<open>format_response_headers\<close> in \<^verbatim>\<open>wsgi.c\<close>, \<open>format_response_asgi\<close> in \<^verbatim>\<open>asgi.c\<close>) fill it: the
  \<open>HDR_APPEND\<close> macro, and the lines each adds behind the application's headers.

  The state of a formatter is the array with the number of bytes written; the array is never longer
  or shorter than \<open>RESP_HDR_SIZE\<close>. \<open>HdrFull\<close> is the formatter's \<open>-1\<close>; \<open>HdrOverrun\<close> stands for a
  copy whose length is a negative \<open>int\<close> converted to \<open>size_t\<close>, or for reading an object as a type it
  is not: undefined behaviour, after which nothing is claimed.
\<close>

section \<open>Definitions\<close>

definition RESP_HDR_SIZE :: nat where
  "RESP_HDR_SIZE = 8 * 1024"

datatype hdr_err = HdrFull | HdrOverrun

type_synonym hdr_buf = "bytes \<times> int"

text \<open>\<open>int _sl = (int)(srclen); if (_sl > max - len) return -1; memcpy(...); len += _sl\<close>\<close>

definition HDR_APPEND :: "bytes \<Rightarrow> hdr_buf \<Rightarrow> hdr_err + hdr_buf" where
  "HDR_APPEND src = (\<lambda>(hdr, len).
     let sl = c_int (int (length src))
     in if sl > int RESP_HDR_SIZE - len then Inl HdrFull
        else if sl < 0 then Inl HdrOverrun
        else Inr (blit hdr (nat len) (take (nat sl) src), len + sl))"

text \<open>\<open>write_uint(hdr + len, max - len, n)\<close> with its check.\<close>

definition HDR_UINT :: "int \<Rightarrow> hdr_buf \<Rightarrow> hdr_err + hdr_buf" where
  "HDR_UINT n = (\<lambda>(hdr, len).
     case write_uint hdr (nat len) (int RESP_HDR_SIZE - len) n of
       (k, hdr') \<Rightarrow> if k < 0 then Inl HdrFull else Inr (hdr', len + k))"

text \<open>
  The end both formatters share: the automatic \<open>Content-Length\<close> and \<open>Connection\<close> lines, each unless
  the application sent its own, and the empty line.
\<close>

definition append_tail :: "bool \<Rightarrow> bool \<Rightarrow> bool \<Rightarrow> int \<Rightarrow> hdr_buf \<Rightarrow> hdr_err + hdr_buf" where
  "append_tail have_cl have_conn keep_alive body_len st0 =
     andthen
       (if \<not> have_cl then
          andthen (HDR_APPEND ''Content-Length: '' st0) (\<lambda>st1.
          andthen (HDR_UINT body_len st1) (\<lambda>st2. HDR_APPEND CRLF st2))
        else Inr st0) (\<lambda>st3.
     andthen
       (if \<not> have_conn then
          (if keep_alive then HDR_APPEND (''Connection: keep-alive'' @ CRLF) st3
           else HDR_APPEND (''Connection: close'' @ CRLF) st3)
        else Inr st3) (\<lambda>st4.
     HDR_APPEND CRLF st4))"

section \<open>Writing exactly a text\<close>

declare split_paired_Ex [simp del] split_paired_All [simp del]

definition hdr_wf :: "hdr_buf \<Rightarrow> bool" where
  "hdr_wf st \<longleftrightarrow> length (fst st) = RESP_HDR_SIZE \<and> 0 \<le> snd st \<and> snd st \<le> int RESP_HDR_SIZE"

definition hdr_text :: "hdr_buf \<Rightarrow> bytes" where
  "hdr_text st = take (nat (snd st)) (fst st)"

text \<open>
  \<open>writes f b\<close>: from every well-formed state, \<open>f\<close> appends \<open>b\<close> when the result fits in the buffer,
  and reports a full buffer when it does not.
\<close>

definition writes :: "(hdr_buf \<Rightarrow> hdr_err + hdr_buf) \<Rightarrow> bytes \<Rightarrow> bool" where
  "writes f b \<longleftrightarrow> (\<forall>st. hdr_wf st \<longrightarrow>
     (if length (hdr_text st @ b) \<le> RESP_HDR_SIZE
      then \<exists>st'. f st = Inr st' \<and> hdr_wf st' \<and> hdr_text st' = hdr_text st @ b
      else f st = Inl HdrFull))"

lemma writesD:
  assumes "writes f b" "hdr_wf st"
  shows "length (hdr_text st @ b) \<le> RESP_HDR_SIZE \<Longrightarrow>
      \<exists>st'. f st = Inr st' \<and> hdr_wf st' \<and> hdr_text st' = hdr_text st @ b"
    and "\<not> length (hdr_text st @ b) \<le> RESP_HDR_SIZE \<Longrightarrow> f st = Inl HdrFull"
  using assms by (auto simp: writes_def)

lemma writes_Inr [intro]: "writes Inr []"
  by (auto simp: writes_def hdr_wf_def hdr_text_def)

lemma writes_andthen:
  assumes f: "writes f a" and g: "writes g b"
  shows "writes (\<lambda>st. andthen (f st) g) (a @ b)"
  unfolding writes_def
proof (intro allI impI)
  fix st
  assume wf: "hdr_wf st"
  show "if length (hdr_text st @ a @ b) \<le> RESP_HDR_SIZE
      then \<exists>st'. andthen (f st) g = Inr st' \<and> hdr_wf st' \<and> hdr_text st' = hdr_text st @ a @ b
      else andthen (f st) g = Inl HdrFull"
  proof (cases "length (hdr_text st @ a) \<le> RESP_HDR_SIZE")
    case True
    from writesD(1) [OF f wf True] obtain st' where
      st': "f st = Inr st'" "hdr_wf st'" "hdr_text st' = hdr_text st @ a" by blast
    show ?thesis using writesD [OF g st'(2)] st' by simp
  next
    case False
    with writesD(2) [OF f wf False] show ?thesis by simp
  qed
qed

lemma writes_eq: "writes f a \<Longrightarrow> a = b \<Longrightarrow> writes f b"
  by simp

section \<open>Writers\<close>

fun puts :: "('a \<Rightarrow> hdr_buf \<Rightarrow> hdr_err + hdr_buf) \<Rightarrow> 'a list \<Rightarrow> hdr_buf \<Rightarrow> hdr_err + hdr_buf" where
  "puts put [] st = Inr st"
| "puts put (x # xs) st = andthen (put x st) (puts put xs)"

text \<open>
  What the formatters need of an append operation: \<open>put\<close> writes one item behind what is there, or
  says that it does not fit; \<open>small\<close> marks the items for which it does so without overrunning.
\<close>

locale hdr_writer =
  fixes put :: "'a \<Rightarrow> hdr_buf \<Rightarrow> hdr_err + hdr_buf"
    and chunk :: "'a \<Rightarrow> bytes"
    and small :: "'a \<Rightarrow> bool"
  assumes put_fits: "hdr_wf st \<Longrightarrow> small x \<Longrightarrow> length (hdr_text st @ chunk x) \<le> RESP_HDR_SIZE \<Longrightarrow>
      \<exists>st'. put x st = Inr st' \<and> hdr_wf st' \<and> hdr_text st' = hdr_text st @ chunk x"
    and put_full: "hdr_wf st \<Longrightarrow> small x \<Longrightarrow> RESP_HDR_SIZE < length (hdr_text st @ chunk x) \<Longrightarrow>
      put x st = Inl HdrFull"
begin

lemma put_writes: "small x \<Longrightarrow> writes (put x) (chunk x)"
  using put_fits put_full by (simp add: writes_def not_le)

lemma puts_writes: "\<forall>x \<in> set xs. small x \<Longrightarrow> writes (puts put xs) (concat (map chunk xs))"
proof (induction xs)
  case Nil
  have "puts put [] = Inr" by (rule ext) simp
  then show ?case using writes_Inr by simp
next
  case (Cons x xs)
  have "puts put (x # xs) = (\<lambda>st. andthen (put x st) (puts put xs))" by (rule ext) simp
  then show ?case using Cons put_writes writes_andthen by simp
qed

end

definition copyable :: "bytes \<Rightarrow> bool" where
  "copyable b \<longleftrightarrow> length b < 2 ^ 31"

lemma length_hdr_text: "hdr_wf st \<Longrightarrow> length (hdr_text st) = nat (snd st)"
  by (auto simp: hdr_wf_def hdr_text_def)

lemma hdr_text_blit:
  assumes "hdr_wf (hdr, len)" "nat len + length b \<le> RESP_HDR_SIZE"
  shows "hdr_wf (blit hdr (nat len) b, len + int (length b))"
    and "hdr_text (blit hdr (nat len) b, len + int (length b)) = hdr_text (hdr, len) @ b"
  using assms by (auto simp: hdr_wf_def hdr_text_def nat_add_distrib take_blit_end)

interpretation app: hdr_writer HDR_APPEND "\<lambda>b. b" copyable
proof
  fix st b
  assume wf: "hdr_wf st" and b: "copyable b"
  obtain hdr len where st: "st = (hdr, len)" by (cases st)
  have c: "c_int (int (length b)) = int (length b)"
    using b by (intro c_int_id) (auto simp: copyable_def)
  have l: "length (hdr_text st @ b) = nat len + length b" "0 \<le> len"
    using wf length_hdr_text [OF wf] by (simp_all add: st hdr_wf_def)
  show "\<exists>st'. HDR_APPEND b st = Inr st' \<and> hdr_wf st' \<and> hdr_text st' = hdr_text st @ b"
    if "length (hdr_text st @ b) \<le> RESP_HDR_SIZE"
    using that l wf hdr_text_blit [of hdr len b]
    by (auto simp: st HDR_APPEND_def c Let_def)
  show "HDR_APPEND b st = Inl HdrFull" if "RESP_HDR_SIZE < length (hdr_text st @ b)"
    using that l by (auto simp: st HDR_APPEND_def c Let_def)
qed

interpretation uint: hdr_writer HDR_UINT "\<lambda>n. dec (nat n)" "\<lambda>n. 0 \<le> n \<and> n < 2 ^ 63"
proof
  fix st and n :: int
  assume wf: "hdr_wf st" and n: "0 \<le> n \<and> n < 2 ^ 63"
  obtain hdr len where st: "st = (hdr, len)" by (cases st)
  have l: "length (hdr_text st @ dec (nat n)) = nat len + length (dec (nat n))" "0 \<le> len"
    using wf length_hdr_text [OF wf] by (simp_all add: st hdr_wf_def)
  have w: "write_uint hdr (nat len) (int RESP_HDR_SIZE - len) n =
    (if int (length (dec (nat n))) > int RESP_HDR_SIZE - len then (-1, hdr)
     else (int (length (dec (nat n))), blit hdr (nat len) (dec (nat n))))"
    using wf n by (intro write_uint_eq) (auto simp: st hdr_wf_def)
  show "\<exists>st'. HDR_UINT n st = Inr st' \<and> hdr_wf st' \<and> hdr_text st' = hdr_text st @ dec (nat n)"
    if "length (hdr_text st @ dec (nat n)) \<le> RESP_HDR_SIZE"
    using that l wf w hdr_text_blit [of hdr len "dec (nat n)"]
    by (auto simp: st HDR_UINT_def)
  show "HDR_UINT n st = Inl HdrFull" if "RESP_HDR_SIZE < length (hdr_text st @ dec (nat n))"
    using that l w by (auto simp: st HDR_UINT_def)
qed

lemma writes_append [intro]: "copyable b \<Longrightarrow> writes (HDR_APPEND b) b"
  by (rule app.put_writes)

lemma writes_uint [intro]: "0 \<le> n \<and> n < 2 ^ 63 \<Longrightarrow> writes (HDR_UINT n) (dec (nat n))"
  by (rule uint.put_writes)

lemma copyable_literals [simp]:
  "copyable CRLF"
  "copyable ''Content-Length: ''"
  "copyable (''Connection: keep-alive'' @ CRLF)"
  "copyable (''Connection: close'' @ CRLF)"
  by (simp_all add: copyable_def)

definition auto_lines :: "bool \<Rightarrow> bool \<Rightarrow> bool \<Rightarrow> nat \<Rightarrow> bytes" where
  "auto_lines have_cl have_conn keep_alive n =
     (if have_cl then [] else ''Content-Length: '' @ dec n @ CRLF)
     @ (if have_conn then []
        else if keep_alive then ''Connection: keep-alive'' @ CRLF else ''Connection: close'' @ CRLF)
     @ CRLF"

lemma append_tail_writes:
  assumes "int n < 2 ^ 63"
  shows "writes (append_tail have_cl have_conn keep_alive (int n)) (auto_lines have_cl have_conn keep_alive n)"
proof -
  have u: "writes (HDR_UINT (int n)) (dec n)" using writes_uint [of "int n"] assms by simp
  have cl: "writes (\<lambda>st. if \<not> have_cl then
        andthen (HDR_APPEND ''Content-Length: '' st) (\<lambda>st1.
        andthen (HDR_UINT (int n) st1) (\<lambda>st2. HDR_APPEND CRLF st2)) else Inr st)
      (if have_cl then [] else ''Content-Length: '' @ dec n @ CRLF)"
  proof (cases have_cl)
    case False
    then show ?thesis
      by (simp only: if_False not_False_eq_True if_True)
        (intro writes_andthen writes_append u copyable_literals)
  qed (simp add: writes_Inr)
  have conn: "writes (\<lambda>st. if \<not> have_conn then
        (if keep_alive then HDR_APPEND (''Connection: keep-alive'' @ CRLF) st
         else HDR_APPEND (''Connection: close'' @ CRLF) st) else Inr st)
      (if have_conn then []
        else if keep_alive then ''Connection: keep-alive'' @ CRLF else ''Connection: close'' @ CRLF)"
    using writes_append [OF copyable_literals(3)] writes_append [OF copyable_literals(4)] writes_Inr
    by (cases have_conn; cases keep_alive; simp only: if_True if_False not_True_eq_False not_False_eq_True)
  show ?thesis
    unfolding append_tail_def [abs_def] auto_lines_def
    by (intro writes_andthen cl conn writes_append copyable_literals)
qed

text \<open>
  A string of 2 GiB or more is not refused: its length becomes a negative \<open>int\<close>, which passes the
  check, and the copy is asked for that many bytes as \<open>size_t\<close>.
\<close>

theorem hdr_append_overrun:
  assumes "hdr_wf st" "2 ^ 31 \<le> length src" "length src < 2 ^ 32"
  shows "HDR_APPEND src st = Inl HdrOverrun"
proof -
  obtain hdr len where st: "st = (hdr, len)" by (cases st)
  have "(int (length src) + 2 ^ 31) mod 2 ^ 32 = int (length src) + 2 ^ 31 - 2 ^ 32"
    using assms(2,3) by (subst mod_pos_geq) simp_all
  then have "c_int (int (length src)) = int (length src) - 2 ^ 32"
    by (simp add: c_int_def signed_take_bit_eq_take_bit_shift take_bit_eq_mod)
  then show ?thesis using assms by (auto simp: st HDR_APPEND_def hdr_wf_def Let_def)
qed

end
