(* ===== verification/Client.thy ===== *)
theory Client
  imports Parser PyObj HdrBuf HdrCache
begin

text \<open>
  The state a connection handler works on, \<open>server_t\<close> and \<open>client_t\<close> of \<^verbatim>\<open>freastal/src/server.h\<close>, and
  the calls it makes to libuv.

  The record \<open>server\<close> holds the fields of \<open>g_server\<close> that requests touch, \<open>conn\<close> the fields of one
  \<open>client_t\<close> and, as its first field, the server: a handler runs to completion on one thread, so its
  state is the globals together with the connection it was called for.

  \<^item> The parsed request (\<open>method\<close>, \<open>path\<close>, \<open>minor_version\<close>, \<open>headers\<close>) is the field \<open>req\<close>. In the C code
    these are pointers into \<open>read_buf\<close> that stay valid until \<open>client_reset\<close>; \<open>None\<close> is the state in
    which they are null.
  \<^item> libuv is the log \<open>uv\<close> of the calls made on the connection's handle. \<open>ext\<close> collects what the code
    does not control: whether a \<open>uv_write\<close> is accepted, whether a \<open>malloc\<close> succeeds, whether the
    Python allocations of a builder do, the application, and picotls, whose state has type \<open>'p\<close>.
  \<^item> \<open>tls_hs_bufs\<close> are the heap blocks of handshake writes that libuv has not completed yet (each is a
    \<open>tls_hs_write_t\<close>).
  \<^item> A heap block is a number, the index of the \<open>malloc\<close> call that returned it; \<open>heap_freed\<close> records
    the blocks given back with \<open>free\<close>.
\<close>

section \<open>Sizes\<close>

definition READ_BUF_SIZE :: nat where "READ_BUF_SIZE = 16 * 1024"
definition TLS_MAX_ENC_RECORD :: nat where "TLS_MAX_ENC_RECORD = 16384 + 256"
definition TLS_ENC_BUF_SIZE :: nat where "TLS_ENC_BUF_SIZE = 5 + TLS_MAX_ENC_RECORD"
definition TLS_MAX_RECORD_PLAINTEXT :: nat where "TLS_MAX_RECORD_PLAINTEXT = 16 * 1024"
definition TLS_WBUF_SIZE :: nat where "TLS_WBUF_SIZE = TLS_MAX_RECORD_PLAINTEXT + 512"
definition TLS_WBUF_POOL_MAX :: nat where "TLS_WBUF_POOL_MAX = 256"
definition TLS_SPILL_SIZE :: nat where "TLS_SPILL_SIZE = TLS_ENC_BUF_SIZE + TLS_MAX_ENC_RECORD"
definition TLS_SPILL_POOL_MAX :: nat where "TLS_SPILL_POOL_MAX = 64"
abbreviation TLS_RECORD_OVERHEAD :: nat where "TLS_RECORD_OVERHEAD \<equiv> 22"
definition TLS_DECRYPT_SLACK :: nat where "TLS_DECRYPT_SLACK = TLS_RECORD_OVERHEAD"
definition READ_BUF_ALLOC :: nat where "READ_BUF_ALLOC = READ_BUF_SIZE + TLS_DECRYPT_SLACK"
definition TLS_WSEG_MAX :: nat where "TLS_WSEG_MAX = 128"
definition TLS_BIGBUF_KEEP_MAX :: nat where "TLS_BIGBUF_KEEP_MAX = 2 * 1024 * 1024"
definition MAX_HEADERS :: nat where "MAX_HEADERS = 64"

lemmas sizes = READ_BUF_SIZE_def TLS_MAX_ENC_RECORD_def TLS_ENC_BUF_SIZE_def
  TLS_MAX_RECORD_PLAINTEXT_def TLS_WBUF_SIZE_def TLS_WBUF_POOL_MAX_def TLS_SPILL_SIZE_def
  TLS_SPILL_POOL_MAX_def TLS_DECRYPT_SLACK_def READ_BUF_ALLOC_def TLS_WSEG_MAX_def
  TLS_BIGBUF_KEEP_MAX_def MAX_HEADERS_def

text \<open>
  The relations between the sizes that \<^verbatim>\<open>server.h\<close> asserts at compile time. (The alignment of a
  \<open>tls_wseg_t\<close> is 8.)
\<close>

definition TLS_MAX_DECRYPT_RESERVE :: nat where "TLS_MAX_DECRYPT_RESERVE = 5 + TLS_MAX_ENC_RECORD"
definition TLS_READ_ZEROCOPY_MAX :: nat where "TLS_READ_ZEROCOPY_MAX = READ_BUF_SIZE"

definition tls_record_asserts :: bool where
  "tls_record_asserts \<longleftrightarrow> TLS_RECORD_OVERHEAD = 5 + 1 + 16 \<and> TLS_MAX_DECRYPT_RESERVE \<le> TLS_SPILL_SIZE"

definition tls_block_asserts :: bool where
  "tls_block_asserts \<longleftrightarrow> TLS_WBUF_SIZE mod 8 = 0 \<and> TLS_MAX_RECORD_PLAINTEXT + 64 \<le> TLS_WBUF_SIZE"

definition read_buf_asserts :: bool where
  "read_buf_asserts \<longleftrightarrow> TLS_ENC_BUF_SIZE + TLS_MAX_ENC_RECORD \<le> TLS_SPILL_SIZE
     \<and> TLS_READ_ZEROCOPY_MAX = READ_BUF_SIZE \<and> READ_BUF_ALLOC - TLS_DECRYPT_SLACK = READ_BUF_SIZE"

lemma size_asserts: tls_record_asserts tls_block_asserts read_buf_asserts
  by (simp_all add: tls_record_asserts_def tls_block_asserts_def read_buf_asserts_def sizes
      TLS_MAX_DECRYPT_RESERVE_def TLS_READ_ZEROCOPY_MAX_def)

text \<open>
  What the slack is for: with it, what picotls reserves for a record (its plaintext and
  \<open>TLS_RECORD_OVERHEAD\<close>) fits behind \<open>read_len\<close> exactly when the plaintext fits into \<open>read_buf\<close>, so no
  record that fits makes the buffer grow, and none that does not fit is let through.
\<close>

lemma zero_copy_exact:
  assumes "read_len \<le> READ_BUF_SIZE"
  shows "plaintext + TLS_RECORD_OVERHEAD \<le> READ_BUF_ALLOC - read_len \<longleftrightarrow> plaintext \<le> READ_BUF_SIZE - read_len"
  using assms by (auto simp: READ_BUF_ALLOC_def TLS_DECRYPT_SLACK_def)

section \<open>libuv\<close>

text \<open>The completion callback of a write; \<open>NoCb\<close> is a null callback.\<close>

datatype write_cb = OnWrite | OnTlsFinal | OnTlsHs | NoCb

text \<open>
  \<open>UvWrite data cb ok\<close>: the bytes handed over, the callback, and whether \<open>uv_write\<close> returned 0. \<open>OutOfBounds\<close>
  is no call: it marks the place where the C code would read or write past the end of an array, after
  which nothing it does is defined.
\<close>

datatype uv_call = UvWrite bytes write_cb bool | UvReadStart | UvReadStop | UvClose | OutOfBounds

section \<open>Records\<close>

text \<open>
  \<open>ptls_buffer_t\<close>: what it writes into (one of freastal's blocks, memory of the connection, or an
  allocation of picotls's own), the bytes written (\<open>off\<close> is their number), the capacity, and the
  flag picotls sets when it replaces the base by an allocation.
\<close>

datatype pb_mem = Block nat | Embedded | Picotls

record ptls_buffer =
  pb_base :: pb_mem
  pb_data :: bytes
  pb_capacity :: nat
  pb_allocated :: bool

text \<open>A block of an encrypted response with its trailer \<open>tls_wseg_t\<close>; a chain is the list of them.\<close>

record tls_wseg =
  seg_block :: nat
  seg_buf :: ptls_buffer

record server =
  asgi_mode :: bool
  srv_cache :: hdr_cache
  environ_template :: "pydict option"
  environ_template_https :: "pydict option"
  asgi_scope_template :: pydict
  asgi_scope_template_https :: pydict
  tls_wbuf_pool :: "nat list"
  tls_wbuf_pool_n :: nat
  tls_spill_pool :: "nat list"
  tls_spill_pool_n :: nat
  tls_bigbuf :: "nat option"
  tls_bigbuf_cap :: nat
  tls_wbuf_live :: int
  tls_bigbuf_live :: int
  tls_wbuf_mallocs :: int
  tls_read_grows :: int
  tls_read_spills :: int
  heap_next :: nat
  heap_freed :: "nat list"

record 'p conn =
  srv :: server
  read_off :: int
  read_len :: int
  last_len :: int
  req :: "phr_request option"
  headers_end :: int
  content_length :: nat
  resp_status :: "pyobj option"
  resp_pyheaders :: "pyobj option"
  resp_body :: "pyobj option"
  resp_hdr :: bytes
  resp_hdr_len :: int
  peer_addr :: bytes
  peer_port :: nat
  keep_alive :: bool
  in_flight :: bool
  read_armed :: bool
  peer_addr_obj :: "pyobj option"
  asgi_task :: "asgi_code option"
  asgi_client_obj :: "pyobj option"
  asgi_capsule :: bool
  read_buf :: bytes
  uv :: "uv_call list"
  tls :: "'p option"
  tls_enc :: "nat option"
  tls_hs_done :: bool
  tls_hs_bufs :: "nat list"
  tls_wblock :: "tls_wseg list"
  tls_wbig :: "nat option"
  tls_broken :: bool
  tls_spill :: "(nat \<times> bytes) option"
  tls_spill_len :: int

text \<open>Which of the Python allocations of a request succeed.\<close>

record py_mem =
  environ_alloc :: bool
  start_response_alloc :: bool
  scope_alloc :: bool
  body_alloc :: bool
  capsule_alloc :: bool

text \<open>
  What the code does not control. \<open>ptls_receive s buf data\<close> gives the return code, the number of input
  bytes consumed, the new TLS state and the output buffer; \<open>ptls_handshake s data\<close> the return code,
  the bytes consumed, the new state and the bytes to send; \<open>ptls_send_v s buf vecs\<close> and
  \<open>ptls_send_alert s buf\<close> the return code, the new state and the buffer; \<open>ptls_new\<close> is \<open>None\<close> when
  no TLS state could be allocated.
\<close>

record 'p ext =
  wsgi_app :: "pydict \<Rightarrow> pycode"
  asgi_app :: "pydict \<Rightarrow> bytes \<Rightarrow> asgi_code"
  py_mem :: py_mem
  uv_write_ok :: "uv_call list \<Rightarrow> bool"
  malloc_ok :: "nat \<Rightarrow> bool"
  sse_build :: bool
  ptls_new :: "'p option"
  ptls_receive :: "'p \<Rightarrow> ptls_buffer \<Rightarrow> bytes \<Rightarrow> int \<times> nat \<times> 'p \<times> ptls_buffer"
  ptls_handshake :: "'p \<Rightarrow> bytes \<Rightarrow> int \<times> nat \<times> 'p \<times> bytes"
  ptls_send_v :: "'p \<Rightarrow> ptls_buffer \<Rightarrow> bytes list \<Rightarrow> int \<times> 'p \<times> ptls_buffer"
  ptls_send_alert :: "'p \<Rightarrow> ptls_buffer \<Rightarrow> int \<times> 'p \<times> ptls_buffer"
  ptls_record_overhead :: "'p \<Rightarrow> nat"

section \<open>Calls\<close>

definition uv_write :: "'p ext \<Rightarrow> bytes \<Rightarrow> write_cb \<Rightarrow> 'p conn \<Rightarrow> bool \<times> 'p conn" where
  "uv_write X data cb c =
     (let ok = uv_write_ok X (uv c) in (ok, c\<lparr>uv := uv c @ [UvWrite data cb ok]\<rparr>))"

definition uv_close :: "'p conn \<Rightarrow> 'p conn" where
  "uv_close c = c\<lparr>uv := uv c @ [UvClose]\<rparr>"

definition out_of_bounds :: "'p conn \<Rightarrow> 'p conn" where
  "out_of_bounds c = c\<lparr>uv := uv c @ [OutOfBounds]\<rparr>"

definition uv_read_start :: "'p conn \<Rightarrow> 'p conn" where
  "uv_read_start c = c\<lparr>uv := uv c @ [UvReadStart]\<rparr>"

definition uv_read_stop :: "'p conn \<Rightarrow> 'p conn" where
  "uv_read_stop c = c\<lparr>uv := uv c @ [UvReadStop]\<rparr>"

definition uv_is_closing :: "'p conn \<Rightarrow> bool" where
  "uv_is_closing c \<longleftrightarrow> UvClose \<in> set (uv c)"

definition malloc :: "'p ext \<Rightarrow> server \<Rightarrow> nat option \<times> server" where
  "malloc X s = (if malloc_ok X (heap_next s) then Some (heap_next s) else None,
                 s\<lparr>heap_next := Suc (heap_next s)\<rparr>)"

definition free :: "nat \<Rightarrow> server \<Rightarrow> server" where
  "free b s = s\<lparr>heap_freed := b # heap_freed s\<rparr>"

section \<open>Sample states\<close>

text \<open>An idle server, a fresh plaintext connection and an environment in which nothing fails.\<close>

definition sample_server :: server where
  "sample_server =
     \<lparr>asgi_mode = False, srv_cache = built_cache, environ_template = Some [], environ_template_https = Some [],
      asgi_scope_template = [], asgi_scope_template_https = [],
      tls_wbuf_pool = [], tls_wbuf_pool_n = 0, tls_spill_pool = [], tls_spill_pool_n = 0,
      tls_bigbuf = None, tls_bigbuf_cap = 0, tls_wbuf_live = 0, tls_bigbuf_live = 0, tls_wbuf_mallocs = 0,
      tls_read_grows = 0, tls_read_spills = 0, heap_next = 0, heap_freed = []\<rparr>"

definition sample_conn :: "'p conn" where
  "sample_conn =
     \<lparr>srv = sample_server, read_off = 0, read_len = 0, last_len = 0, req = None, headers_end = 0,
      content_length = 0, resp_status = None, resp_pyheaders = None, resp_body = None,
      resp_hdr = replicate RESP_HDR_SIZE NUL, resp_hdr_len = 0, peer_addr = ''127.0.0.1'', peer_port = 40000,
      keep_alive = False, in_flight = False, read_armed = True, peer_addr_obj = None, asgi_task = None,
      asgi_client_obj = None, asgi_capsule = False, read_buf = replicate READ_BUF_ALLOC NUL, uv = [],
      tls = None, tls_enc = None, tls_hs_done = False, tls_hs_bufs = [], tls_wblock = [], tls_wbig = None,
      tls_broken = False, tls_spill = None, tls_spill_len = 0\<rparr>"

definition sample_ext :: "'p ext" where
  "sample_ext =
     \<lparr>wsgi_app = (\<lambda>_. Raise), asgi_app = (\<lambda>_ _. ARaise),
      py_mem = \<lparr>environ_alloc = True, start_response_alloc = True, scope_alloc = True, body_alloc = True,
                capsule_alloc = True\<rparr>,
      uv_write_ok = (\<lambda>_. True), malloc_ok = (\<lambda>_. True), sse_build = False, ptls_new = None,
      ptls_receive = (\<lambda>s buf d. (0, length d, s, buf)), ptls_handshake = (\<lambda>s d. (0, length d, s, [])),
      ptls_send_v = (\<lambda>s buf v. (0, s, buf)), ptls_send_alert = (\<lambda>s buf. (0, s, buf)),
      ptls_record_overhead = (\<lambda>_. 22)\<rparr>"

end
