(* ===== verification/TlsBuf.thy ===== *)
theory TlsBuf
  imports Client "HOL-Library.Multiset"
begin

text \<open>
  Buffers of the TLS layer, \<^verbatim>\<open>freastal/src/tls.c\<close>: the free list of encryption blocks
  (\<open>tls_wbuf_get\<close>, \<open>tls_wbuf_put\<close>), the one retained oversized buffer (\<open>tls_bigbuf_get\<close>,
  \<open>tls_bigbuf_put\<close>), the free list of spill blocks, and what a connection gives back
  (\<open>tls_release_wbuf\<close>, \<open>tls_release_spill\<close>, \<open>tls_conn_free\<close>).

  A free list linked through the first word of its blocks is the list of the blocks. The invariant
  is an account of the heap: every block \<open>malloc\<close> ever returned is in exactly one place (a free list,
  the retained slot, a connection, or given back to \<open>free\<close>), which rules out leaks, double frees and
  a block handed out twice at once.
\<close>

section \<open>Definitions\<close>

definition tls_wbuf_get :: "'p ext \<Rightarrow> server \<Rightarrow> nat option \<times> server" where
  "tls_wbuf_get X s =
     (case tls_wbuf_pool s of
        block # rest \<Rightarrow>
          (Some block, s\<lparr>tls_wbuf_pool := rest, tls_wbuf_pool_n := tls_wbuf_pool_n s - 1,
                         tls_wbuf_live := tls_wbuf_live s + 1\<rparr>)
      | [] \<Rightarrow>
          (case malloc X s of
             (Some block, s') \<Rightarrow>
               (Some block, s'\<lparr>tls_wbuf_mallocs := tls_wbuf_mallocs s' + 1,
                               tls_wbuf_live := tls_wbuf_live s' + 1\<rparr>)
           | (None, s') \<Rightarrow> (None, s')))"

definition tls_wbuf_put :: "nat \<Rightarrow> server \<Rightarrow> server" where
  "tls_wbuf_put block s0 =
     (let s = s0\<lparr>tls_wbuf_live := tls_wbuf_live s0 - 1\<rparr>
      in if tls_wbuf_pool_n s \<ge> TLS_WBUF_POOL_MAX then free block s
         else s\<lparr>tls_wbuf_pool := block # tls_wbuf_pool s, tls_wbuf_pool_n := tls_wbuf_pool_n s + 1\<rparr>)"

text \<open>The result is the buffer and its capacity (\<open>*cap_out\<close>).\<close>

definition tls_bigbuf_get ::
  "'p ext \<Rightarrow> nat \<Rightarrow> server \<Rightarrow> (nat option \<times> nat) \<times> server" where
  "tls_bigbuf_get X need s =
     (if tls_bigbuf s \<noteq> None \<and> tls_bigbuf_cap s \<ge> need then
        ((tls_bigbuf s, tls_bigbuf_cap s),
         s\<lparr>tls_bigbuf := None, tls_bigbuf_cap := 0, tls_bigbuf_live := tls_bigbuf_live s + 1\<rparr>)
      else
        (case malloc X s of
           (Some b, s') \<Rightarrow>
             ((Some b, need), s'\<lparr>tls_wbuf_mallocs := tls_wbuf_mallocs s' + 1,
                                 tls_bigbuf_live := tls_bigbuf_live s' + 1\<rparr>)
         | (None, s') \<Rightarrow> ((None, need), s')))"

definition tls_bigbuf_put :: "nat \<Rightarrow> nat \<Rightarrow> server \<Rightarrow> server" where
  "tls_bigbuf_put buf cap s0 =
     (let s = s0\<lparr>tls_bigbuf_live := tls_bigbuf_live s0 - 1\<rparr>
      in if cap > TLS_BIGBUF_KEEP_MAX then free buf s
         else (case tls_bigbuf s of
             Some kept \<Rightarrow>
               if cap \<le> tls_bigbuf_cap s then free buf s
               else (free kept s)\<lparr>tls_bigbuf := Some buf, tls_bigbuf_cap := cap\<rparr>
           | None \<Rightarrow> s\<lparr>tls_bigbuf := Some buf, tls_bigbuf_cap := cap\<rparr>))"

text \<open>
  The walk of \<open>tls_release_wbuf\<close> over the chain; it returns \<open>big_returned\<close> too. What picotls put in
  place of a block is picotls's: \<open>ptls_buffer_dispose\<close> does not touch freastal's heap.
\<close>

fun release_chain :: "nat option \<Rightarrow> tls_wseg list \<Rightarrow> bool \<Rightarrow> server \<Rightarrow> bool \<times> server" where
  "release_chain big [] returned s = (returned, s)"
| "release_chain big (seg # segs) returned s =
     (let base = pb_base (seg_buf seg);
          swapped = (base \<noteq> Block (seg_block seg));
          ours = (case big of Some b \<Rightarrow> base = Block b | None \<Rightarrow> False);
          s1 = (if swapped \<and> ours then tls_bigbuf_put (the big) (pb_capacity (seg_buf seg)) s else s)
      in release_chain big segs (returned \<or> (swapped \<and> ours)) (tls_wbuf_put (seg_block seg) s1))"

definition tls_release_wbuf :: "'p conn \<Rightarrow> 'p conn" where
  "tls_release_wbuf c =
     (let big = tls_wbig c;
          (returned, s) = release_chain big (tls_wblock c) False (srv c);
          s' = (case big of
                  Some b \<Rightarrow> if returned then s else free b (s\<lparr>tls_bigbuf_live := tls_bigbuf_live s - 1\<rparr>)
                | None \<Rightarrow> s)
      in c\<lparr>tls_wblock := [], tls_wbig := None, srv := s'\<rparr>)"

definition tls_spill_get :: "'p ext \<Rightarrow> server \<Rightarrow> nat option \<times> server" where
  "tls_spill_get X s =
     (case tls_spill_pool s of
        block # rest \<Rightarrow>
          (Some block, s\<lparr>tls_spill_pool := rest, tls_spill_pool_n := tls_spill_pool_n s - 1\<rparr>)
      | [] \<Rightarrow> malloc X s)"

definition tls_spill_put :: "nat \<Rightarrow> server \<Rightarrow> server" where
  "tls_spill_put block s =
     (if tls_spill_pool_n s \<ge> TLS_SPILL_POOL_MAX then free block s
      else s\<lparr>tls_spill_pool := block # tls_spill_pool s, tls_spill_pool_n := tls_spill_pool_n s + 1\<rparr>)"

definition tls_release_spill :: "'p conn \<Rightarrow> 'p conn" where
  "tls_release_spill c =
     (case tls_spill c of
        Some (block, _) \<Rightarrow> c\<lparr>srv := tls_spill_put block (srv c), tls_spill := None, tls_spill_len := 0\<rparr>
      | None \<Rightarrow> c\<lparr>tls_spill_len := 0\<rparr>)"

text \<open>\<open>tls_conn_init\<close> after its check of the ticket ring (for which see theory \<open>TicketRing\<close>).\<close>

definition tls_conn_init :: "'p ext \<Rightarrow> 'p conn \<Rightarrow> 'p conn" where
  "tls_conn_init X c =
     (let (enc, s) = malloc X (srv c)
      in c\<lparr>srv := s, tls_enc := enc, tls := ptls_new X, tls_hs_done := False, tls_broken := False,
           tls_wblock := [], tls_wbig := None, tls_spill := None, tls_spill_len := 0\<rparr>)"

definition tls_conn_free :: "'p conn \<Rightarrow> 'p conn" where
  "tls_conn_free c0 =
     (let c1 = (case tls_enc c0 of Some b \<Rightarrow> c0\<lparr>srv := free b (srv c0), tls_enc := None\<rparr> | None \<Rightarrow> c0);
          c2 = tls_release_spill c1;
          c3 = c2\<lparr>tls := None\<rparr>;
          c4 = tls_release_wbuf c3
      in c4\<lparr>tls_hs_done := False, tls_broken := False\<rparr>)"

section \<open>The account of the heap\<close>

definition opt_list :: "'a option \<Rightarrow> 'a list" where
  "opt_list x = (case x of None \<Rightarrow> [] | Some y \<Rightarrow> [y])"

lemma opt_list_simps [simp]: "opt_list None = []" "opt_list (Some y) = [y]"
  by (simp_all add: opt_list_def)

text \<open>Blocks the server holds: the two free lists, the retained slot, and what was freed.\<close>

definition srv_blocks :: "server \<Rightarrow> nat multiset" where
  "srv_blocks s = mset (tls_wbuf_pool s) + mset (tls_spill_pool s) + mset (opt_list (tls_bigbuf s))
     + mset (heap_freed s)"

text \<open>Blocks a connection holds.\<close>

definition conn_blocks :: "'p conn \<Rightarrow> nat multiset" where
  "conn_blocks c = mset (map seg_block (tls_wblock c)) + mset (opt_list (tls_wbig c))
     + mset (opt_list (map_option fst (tls_spill c))) + mset (opt_list (tls_enc c)) + mset (tls_hs_bufs c)"

definition alloc_ids :: "(nat \<Rightarrow> bool) \<Rightarrow> nat \<Rightarrow> nat multiset" where
  "alloc_ids ok n = mset (filter ok [0..<n])"

lemma alloc_ids_Suc [simp]: "alloc_ids ok (Suc n) = (if ok n then add_mset n (alloc_ids ok n) else alloc_ids ok n)"
  by (simp only: alloc_ids_def upt_Suc_append le0 filter_append mset_append) simp

lemma alloc_ids_0: "alloc_ids ok 0 = {#}"
  by (simp add: alloc_ids_def)

definition mallocked :: "'p ext \<Rightarrow> server \<Rightarrow> nat multiset" where
  "mallocked X s = alloc_ids (malloc_ok X) (heap_next s)"

text \<open>\<open>held\<close> are the blocks held outside the server's lists.\<close>

definition accounted :: "'p ext \<Rightarrow> nat multiset \<Rightarrow> server \<Rightarrow> bool" where
  "accounted X held s \<longleftrightarrow> srv_blocks s + held = mallocked X s"

lemma accounted_distinct:
  assumes "accounted X held s"
  shows "count (srv_blocks s + held) b \<le> 1"
proof -
  have "count (mset (filter (malloc_ok X) [0..<heap_next s])) b \<le> 1"
    using distinct_count_atmost_1 [of "filter (malloc_ok X) [0..<heap_next s]"] by simp
  then show ?thesis using assms by (simp only: accounted_def mallocked_def alloc_ids_def)
qed

lemma mallocked_malloc:
  "malloc X s = (r, s') \<Longrightarrow> mallocked X s' = mallocked X s + mset (opt_list r) \<and> srv_blocks s' = srv_blocks s"
  by (auto simp: malloc_def mallocked_def srv_blocks_def)

lemma accounted_malloc:
  "malloc X s = (r, s') \<Longrightarrow> accounted X held s \<Longrightarrow> accounted X (held + mset (opt_list r)) s'"
  using mallocked_malloc [of X s r s'] by (auto simp: accounted_def)

lemma accounted_free:
  "accounted X (add_mset b held) s \<Longrightarrow> accounted X held (free b s)"
  by (simp add: accounted_def free_def srv_blocks_def mallocked_def)

text \<open>Fields that are not part of the account can change freely.\<close>

lemma accounted_cong:
  "srv_blocks s' = srv_blocks s \<Longrightarrow> heap_next s' = heap_next s \<Longrightarrow> accounted X held s' = accounted X held s"
  by (simp add: accounted_def mallocked_def)

section \<open>Pools\<close>

text \<open>
  What a user of a buffer pool relies on. \<open>acc held s\<close> is the account of the heap with \<open>held\<close>
  outside the pool; a block taken out is added to it, a block given back leaves it.
\<close>

locale block_pool =
  fixes acc :: "nat multiset \<Rightarrow> 's \<Rightarrow> bool"
    and get :: "'s \<Rightarrow> nat option \<times> 's"
    and put :: "nat \<Rightarrow> 's \<Rightarrow> 's"
  assumes acc_unique: "acc held s \<Longrightarrow> count held b \<le> 1"
    and acc_get: "acc held s \<Longrightarrow> get s = (r, s') \<Longrightarrow> acc (held + mset (opt_list r)) s'"
    and acc_put: "acc (add_mset b held) s \<Longrightarrow> acc held (put b s)"
begin

text \<open>A block that is handed out was held by nobody.\<close>

lemma get_fresh: "acc held s \<Longrightarrow> get s = (Some b, s') \<Longrightarrow> b \<notin># held"
  using acc_unique [of "held + {#b#}" s' b] acc_get [of held s "Some b" s']
  by (auto simp: not_in_iff)

lemma get_put: "acc held s \<Longrightarrow> get s = (Some b, s') \<Longrightarrow> acc held (put b s')"
  using acc_get [of held s "Some b" s'] by (intro acc_put) simp

lemma put_all: "acc (mset bs + held) s \<Longrightarrow> acc held (fold put bs s)"
proof (induction bs arbitrary: s)
  case (Cons b bs)
  then have "acc (mset bs + held) (put b s)" by (intro acc_put) simp
  with Cons.IH show ?case by simp
qed simp

end

lemma accounted_held_unique: "accounted X held s \<Longrightarrow> count held b \<le> 1"
  using accounted_distinct [of X held s b] by simp

interpretation wbuf: block_pool "accounted X" "tls_wbuf_get X" tls_wbuf_put for X :: "'p ext"
proof
  fix held and s s' :: "server" and r b
  show "accounted X held s \<Longrightarrow> count held b \<le> 1" by (rule accounted_held_unique)
  show "accounted X held s \<Longrightarrow> tls_wbuf_get X s = (r, s') \<Longrightarrow> accounted X (held + mset (opt_list r)) s'"
    by (auto simp: tls_wbuf_get_def malloc_def accounted_def srv_blocks_def mallocked_def split: list.splits if_splits)
  show "accounted X (add_mset b held) s \<Longrightarrow> accounted X held (tls_wbuf_put b s)"
    by (auto simp: tls_wbuf_put_def free_def accounted_def srv_blocks_def mallocked_def Let_def)
qed

interpretation spill: block_pool "accounted X" "tls_spill_get X" tls_spill_put for X :: "'p ext"
proof
  fix held and s s' :: "server" and r b
  show "accounted X held s \<Longrightarrow> count held b \<le> 1" by (rule accounted_held_unique)
  show "accounted X held s \<Longrightarrow> tls_spill_get X s = (r, s') \<Longrightarrow> accounted X (held + mset (opt_list r)) s'"
    by (auto simp: tls_spill_get_def malloc_def accounted_def srv_blocks_def mallocked_def split: list.splits if_splits)
  show "accounted X (add_mset b held) s \<Longrightarrow> accounted X held (tls_spill_put b s)"
    by (auto simp: tls_spill_put_def free_def accounted_def srv_blocks_def mallocked_def)
qed

text \<open>The retained slot is a pool of at most one buffer; the capacities do not matter to the account.\<close>

lemma bigbuf_get_accounted:
  "accounted X held s \<Longrightarrow>
   accounted X (held + mset (opt_list (fst (fst (tls_bigbuf_get X need s))))) (snd (tls_bigbuf_get X need s))"
  by (cases "tls_bigbuf s")
    (simp_all add: tls_bigbuf_get_def malloc_def accounted_def srv_blocks_def mallocked_def)

interpretation bigbuf: block_pool "accounted X"
  "\<lambda>s. (fst (fst (tls_bigbuf_get X need s)), snd (tls_bigbuf_get X need s))" "\<lambda>b. tls_bigbuf_put b cap"
  for X :: "'p ext" and need cap
proof
  fix held and s s' :: "server" and r b
  show "accounted X held s \<Longrightarrow> count held b \<le> 1" by (rule accounted_held_unique)
  show "accounted X held s \<Longrightarrow>
      (fst (fst (tls_bigbuf_get X need s)), snd (tls_bigbuf_get X need s)) = (r, s') \<Longrightarrow>
      accounted X (held + mset (opt_list r)) s'"
    using bigbuf_get_accounted [of X held s need] by simp
  show "accounted X (add_mset b held) s \<Longrightarrow> accounted X held (tls_bigbuf_put b cap s)"
    by (auto simp: tls_bigbuf_put_def free_def accounted_def srv_blocks_def mallocked_def Let_def
        add_mset_commute split: option.splits)
qed

section \<open>Releasing\<close>

text \<open>
  The chain of a response as the writer leaves it: at most one segment writes into the oversized
  buffer.
\<close>

definition big_segs :: "nat option \<Rightarrow> tls_wseg list \<Rightarrow> nat" where
  "big_segs big segs =
     (case big of None \<Rightarrow> 0
      | Some b \<Rightarrow> length (filter (\<lambda>seg. pb_base (seg_buf seg) = Block b \<and> seg_block seg \<noteq> b) segs))"

definition chain_ok :: "'p conn \<Rightarrow> bool" where
  "chain_ok c \<longleftrightarrow> big_segs (tls_wbig c) (tls_wblock c) \<le> 1"

lemma release_chain_accounted:
  assumes "release_chain big segs returned s = (returned', s')"
    and "accounted X (mset (map seg_block segs) + (if returned then {#} else mset (opt_list big)) + held) s"
    and "big_segs big segs \<le> (if returned then 0 else 1)"
  shows "accounted X ((if returned' then {#} else mset (opt_list big)) + held) s'"
  using assms
proof (induction segs arbitrary: returned s)
  case Nil
  then show ?case by simp
next
  case (Cons seg segs)
  let ?o = "\<exists>b. big = Some b \<and> pb_base (seg_buf seg) = Block b \<and> seg_block seg \<noteq> b"
  let ?s1 = "if ?o then tls_bigbuf_put (the big) (pb_capacity (seg_buf seg)) s else s"
  have rel: "release_chain big segs (returned \<or> ?o) (tls_wbuf_put (seg_block seg) ?s1) = (returned', s')"
    using Cons.prems(1) by (cases big) (auto simp: Let_def split: if_splits)
  have b: "big_segs big segs \<le> (if returned \<or> ?o then 0 else 1)" "?o \<longrightarrow> \<not> returned"
    using Cons.prems(3) by (cases big; auto simp: big_segs_def split: if_splits)+
  have "accounted X (add_mset (seg_block seg)
      (mset (map seg_block segs) + (if returned \<or> ?o then {#} else mset (opt_list big)) + held)) ?s1"
  proof (cases ?o)
    case True
    then obtain b where bb: "big = Some b" by blast
    have "accounted X (add_mset b (add_mset (seg_block seg) (mset (map seg_block segs) + held))) s"
      using Cons.prems(2) True b(2) bb by (simp add: add_mset_commute)
    from bigbuf.acc_put [OF this] show ?thesis using True bb by simp
  next
    case False
    then show ?thesis using Cons.prems(2) by (auto split: if_splits)
  qed
  then have "accounted X (mset (map seg_block segs) + (if returned \<or> ?o then {#} else mset (opt_list big)) + held)
      (tls_wbuf_put (seg_block seg) ?s1)"
    by (rule wbuf.acc_put)
  from Cons.IH [OF rel this b(1)] show ?case .
qed

text \<open>The account of one connection, with what everyone else holds in \<open>others\<close>.\<close>

definition conn_accounted :: "'p ext \<Rightarrow> nat multiset \<Rightarrow> 'p conn \<Rightarrow> bool" where
  "conn_accounted X others c \<longleftrightarrow> accounted X (conn_blocks c + others) (srv c)"

lemma tls_release_wbuf_accounted:
  assumes "conn_accounted X others c" "chain_ok c"
  shows "conn_accounted X others (tls_release_wbuf c)"
proof -
  obtain returned s where rel: "release_chain (tls_wbig c) (tls_wblock c) False (srv c) = (returned, s)"
    by (cases "release_chain (tls_wbig c) (tls_wblock c) False (srv c)")
  let ?held = "conn_blocks (c\<lparr>tls_wblock := [], tls_wbig := None\<rparr>) + others"
  have acc0: "accounted X (mset (map seg_block (tls_wblock c))
      + (if False then {#} else mset (opt_list (tls_wbig c))) + ?held) (srv c)"
    using assms(1) by (simp add: conn_accounted_def conn_blocks_def ac_simps)
  have "big_segs (tls_wbig c) (tls_wblock c) \<le> (if False then 0 else 1)"
    using assms(2) by (simp add: chain_ok_def)
  from release_chain_accounted [OF rel acc0 this]
  have acc1: "accounted X ((if returned then {#} else mset (opt_list (tls_wbig c))) + ?held) s" .
  show ?thesis
  proof (cases "tls_wbig c")
    case None
    then show ?thesis using acc1 rel
      by (simp add: tls_release_wbuf_def Let_def conn_accounted_def conn_blocks_def split: if_splits)
  next
    case (Some b)
    have "accounted X ?held (free b (s\<lparr>tls_bigbuf_live := tls_bigbuf_live s - 1\<rparr>))" if "\<not> returned"
      using acc1 that Some
      by (intro accounted_free) (simp add: accounted_def srv_blocks_def mallocked_def)
    then show ?thesis using acc1 rel Some
      by (auto simp: tls_release_wbuf_def Let_def conn_accounted_def conn_blocks_def)
  qed
qed

lemma tls_release_spill_accounted:
  assumes "conn_accounted X others c"
  shows "conn_accounted X others (tls_release_spill c)"
proof (cases "tls_spill c")
  case None
  then show ?thesis using assms by (simp add: tls_release_spill_def conn_accounted_def conn_blocks_def)
next
  case (Some p)
  obtain b d where p: "p = (b, d)" by (cases p)
  have "accounted X (conn_blocks (c\<lparr>tls_spill := None\<rparr>) + others) (tls_spill_put b (srv c))"
    using assms Some p by (intro spill.acc_put) (simp add: conn_accounted_def conn_blocks_def ac_simps)
  then show ?thesis using Some p by (simp add: tls_release_spill_def conn_accounted_def conn_blocks_def)
qed

lemma tls_wbuf_live_put [simp]:
  "tls_wbuf_live (tls_wbuf_put b s) = tls_wbuf_live s - 1"
  "tls_wbuf_live (tls_bigbuf_put b cap s) = tls_wbuf_live s"
  "tls_wbuf_live (free b s) = tls_wbuf_live s"
  "tls_wbuf_live (tls_spill_put b s) = tls_wbuf_live s"
  by (auto simp: tls_wbuf_put_def tls_bigbuf_put_def free_def tls_spill_put_def Let_def split: option.splits)

lemma release_chain_live:
  "tls_wbuf_live (snd (release_chain big segs returned s)) = tls_wbuf_live s - int (length segs)"
  by (induction big segs returned s rule: release_chain.induct) (auto simp: Let_def)

lemma tls_release_wbuf_live:
  "tls_wbuf_live (srv (tls_release_wbuf c)) = tls_wbuf_live (srv c) - int (length (tls_wblock c))"
  using release_chain_live [of "tls_wbig c" "tls_wblock c" False "srv c"]
  by (auto simp: tls_release_wbuf_def Let_def split: prod.splits option.splits)

text \<open>The free lists: each counter is the length of its list, and within its bound.\<close>

definition pools_ok :: "server \<Rightarrow> bool" where
  "pools_ok s \<longleftrightarrow> tls_wbuf_pool_n s = length (tls_wbuf_pool s) \<and> tls_wbuf_pool_n s \<le> TLS_WBUF_POOL_MAX
     \<and> tls_spill_pool_n s = length (tls_spill_pool s) \<and> tls_spill_pool_n s \<le> TLS_SPILL_POOL_MAX
     \<and> tls_bigbuf_cap s \<le> TLS_BIGBUF_KEEP_MAX"

lemma pools_ok_ops [simp]:
  "pools_ok s \<Longrightarrow> pools_ok (snd (malloc X s))"
  "pools_ok s \<Longrightarrow> pools_ok (free b s)"
  "pools_ok s \<Longrightarrow> pools_ok (snd (tls_wbuf_get X s))"
  "pools_ok s \<Longrightarrow> pools_ok (tls_wbuf_put b s)"
  "pools_ok s \<Longrightarrow> pools_ok (snd (tls_spill_get X s))"
  "pools_ok s \<Longrightarrow> pools_ok (tls_spill_put b s)"
  "pools_ok s \<Longrightarrow> pools_ok (snd (tls_bigbuf_get X need s))"
  "pools_ok s \<Longrightarrow> pools_ok (tls_bigbuf_put b cap s)"
  by (auto simp: pools_ok_def malloc_def free_def tls_wbuf_get_def tls_wbuf_put_def tls_spill_get_def
      tls_spill_put_def tls_bigbuf_get_def tls_bigbuf_put_def Let_def split: list.splits option.splits)

lemma pools_ok_release_chain: "pools_ok s \<Longrightarrow> pools_ok (snd (release_chain big segs returned s))"
  by (induction big segs returned s rule: release_chain.induct) (auto simp: Let_def)

lemma pools_ok_release_wbuf: "pools_ok (srv c) \<Longrightarrow> pools_ok (srv (tls_release_wbuf c))"
  using pools_ok_release_chain [of "srv c" "tls_wbig c" "tls_wblock c" False]
  by (auto simp: tls_release_wbuf_def Let_def pools_ok_def free_def split: prod.splits option.splits)

lemma pools_ok_release_spill: "pools_ok (srv c) \<Longrightarrow> pools_ok (srv (tls_release_spill c))"
  by (auto simp: tls_release_spill_def split: option.splits)

section \<open>Properties\<close>

text \<open>
  C8. Teardown gives everything back exactly once. If every block that \<open>malloc\<close> returned is in one
  place, and the connection's chain was left by the writer, then after \<open>tls_conn_free\<close> the connection
  holds no block except the handshake writes that libuv still has to complete, every block is still
  in exactly one place (nothing leaked, nothing freed or pooled twice), the count of live encryption
  blocks dropped by the length of the chain, and both free lists stay within their bounds.
\<close>

theorem tls_conn_free_releases:
  assumes "conn_accounted X others c" and "chain_ok c" and "pools_ok (srv c)"
  shows "conn_accounted X others (tls_conn_free c)
    \<and> conn_blocks (tls_conn_free c) = mset (tls_hs_bufs c)
    \<and> tls_wbuf_live (srv (tls_conn_free c)) = tls_wbuf_live (srv c) - int (length (tls_wblock c))
    \<and> pools_ok (srv (tls_conn_free c))"
proof -
  define c1 where "c1 = (case tls_enc c of Some b \<Rightarrow> c\<lparr>srv := free b (srv c), tls_enc := None\<rparr> | None \<Rightarrow> c)"
  define c3 where "c3 = (tls_release_spill c1)\<lparr>tls := None\<rparr>"
  have f: "tls_conn_free c = (tls_release_wbuf c3)\<lparr>tls_hs_done := False, tls_broken := False\<rparr>"
    by (simp add: tls_conn_free_def c1_def c3_def Let_def)
  have "conn_accounted X others c1"
    using assms(1) by (auto simp: c1_def conn_accounted_def conn_blocks_def ac_simps
        intro!: accounted_free split: option.splits)
  then have acc3: "conn_accounted X others c3"
    using tls_release_spill_accounted [of X others c1] by (simp add: c3_def conn_accounted_def conn_blocks_def)
  have same: "tls_wblock c3 = tls_wblock c" "tls_wbig c3 = tls_wbig c" "tls_hs_bufs c3 = tls_hs_bufs c"
    "tls_enc c3 = None" "tls_spill c3 = None" "tls_wbuf_live (srv c3) = tls_wbuf_live (srv c)"
    by (auto simp: c3_def c1_def tls_release_spill_def split: option.splits)
  have ok3: "pools_ok (srv c3)"
    using assms(3) pools_ok_release_spill [of c1] by (auto simp: c3_def c1_def split: option.splits)
  have "conn_accounted X others (tls_release_wbuf c3)"
    using assms(2) same by (intro tls_release_wbuf_accounted acc3) (simp add: chain_ok_def)
  moreover have "conn_blocks (tls_release_wbuf c3) = mset (tls_hs_bufs c)"
    using same by (simp add: tls_release_wbuf_def conn_blocks_def Let_def split: prod.splits)
  ultimately show ?thesis
    using tls_release_wbuf_live [of c3] pools_ok_release_wbuf [OF ok3] same
    by (simp add: f conn_accounted_def conn_blocks_def)
qed

text \<open>A connection torn down with a response of two blocks, its read block and no spill.\<close>

definition sample_chain_conn :: "'p conn" where
  "sample_chain_conn = sample_conn
     \<lparr>srv := sample_server\<lparr>heap_next := 3, tls_wbuf_live := 2\<rparr>, tls_enc := Some 0,
      tls_wblock := [\<lparr>seg_block = 1, seg_buf = \<lparr>pb_base = Block 1, pb_data = [], pb_capacity = 16896, pb_allocated = False\<rparr>\<rparr>,
                     \<lparr>seg_block = 2, seg_buf = \<lparr>pb_base = Picotls, pb_data = [], pb_capacity = 20000, pb_allocated = True\<rparr>\<rparr>]\<rparr>"

theorem tls_conn_free_releases_witness:
  "conn_accounted (sample_ext :: nat ext) {#} (tls_conn_free sample_chain_conn)
    \<and> conn_blocks (tls_conn_free (sample_chain_conn :: nat conn)) = {#}
    \<and> tls_wbuf_live (srv (tls_conn_free (sample_chain_conn :: nat conn))) = 0"
proof -
  have "conn_accounted (sample_ext :: nat ext) {#} sample_chain_conn"
    by (simp add: conn_accounted_def accounted_def sample_ext_def sample_chain_conn_def sample_conn_def
        sample_server_def conn_blocks_def srv_blocks_def mallocked_def numeral_3_eq_3 alloc_ids_0 numeral_2_eq_2)
  moreover have "chain_ok (sample_chain_conn :: nat conn)"
    by (simp add: chain_ok_def big_segs_def sample_chain_conn_def sample_conn_def)
  moreover have "pools_ok (srv (sample_chain_conn :: nat conn))"
    by (simp add: pools_ok_def sample_chain_conn_def sample_conn_def sample_server_def)
  ultimately show ?thesis
    using tls_conn_free_releases [of sample_ext "{#}" "sample_chain_conn :: nat conn"]
    by (simp add: sample_chain_conn_def sample_conn_def sample_server_def)
qed

end
