(* ===== verification/TlsWrite.thy ===== *)
theory TlsWrite
  imports TlsBuf
begin

text \<open>
  Sending a response, \<^verbatim>\<open>freastal/src/server.c\<close>: \<open>write_response\<close>, the encrypted path
  \<open>tls_write_response_impl\<close> with its helpers, and \<open>tls_send_final\<close>, which puts a connection's last
  bytes and the \<open>close_notify\<close> on the wire.

  \<^item> The header and the body are a vector of byte strings; a cursor is the index of a vector and an
    offset into it. \<open>tls_slice\<close> is \<open>None\<close> when it would read past the end of the vector. A slice past the
    end, a slice in more pieces than the array \<open>part\<close> has and a chain longer than \<open>uvbufs\<close> leave the
    mark \<open>OutOfBounds\<close> in the log.
  \<^item> \<open>uv_buf_init\<close> takes its length as an \<open>unsigned int\<close>: \<open>uv_buf\<close> is the part of the data that
    survives the conversion.
  \<^item> picotls is the parameter \<open>ext\<close>. What the properties assume of it is said in \<open>record_layer\<close>.
\<close>

section \<open>Definitions\<close>

definition uv_buf :: "bytes \<Rightarrow> bytes" where
  "uv_buf data = take (length data mod 2 ^ 32) data"

definition tls_encrypted_size :: "nat \<Rightarrow> nat \<Rightarrow> nat" where
  "tls_encrypted_size len rec_overhead = len + (len div TLS_MAX_RECORD_PLAINTEXT + 1) * rec_overhead"

definition tls_record_count :: "nat \<Rightarrow> nat" where
  "tls_record_count len = (len + TLS_MAX_RECORD_PLAINTEXT - 1) div TLS_MAX_RECORD_PLAINTEXT"

function tls_slice :: "bytes list \<Rightarrow> nat \<Rightarrow> nat \<Rightarrow> nat \<Rightarrow> (bytes list \<times> nat \<times> nat) option" where
  "tls_slice vec veci vecoff want =
     (if want = 0 then Some ([], veci, vecoff)
      else if veci \<ge> length vec \<or> vecoff > length (vec ! veci) then None
      else
        let avail = length (vec ! veci) - vecoff;
            taken = (if avail < want then avail else want);
            part = take taken (drop vecoff (vec ! veci));
            cur = (if vecoff + taken = length (vec ! veci) then (veci + 1, 0) else (veci, vecoff + taken))
        in map_option (\<lambda>(parts, cur'). (part # parts, cur'))
             (tls_slice vec (fst cur) (snd cur) (want - taken)))"
  by pat_completeness auto
termination
  by (relation "measure (\<lambda>(vec, veci, vecoff, want). (length vec - veci) + want)") (auto split: if_splits)

declare tls_slice.simps [simp del]

definition tls_wseg_open :: "nat \<Rightarrow> tls_wseg" where
  "tls_wseg_open block =
     \<lparr>seg_block = block,
      seg_buf = \<lparr>pb_base = Block block, pb_data = [], pb_capacity = TLS_WBUF_SIZE, pb_allocated = False\<rparr>\<rparr>"

text \<open>Take a block and link it at the end of the chain.\<close>

definition push_block :: "'p ext \<Rightarrow> 'p conn \<Rightarrow> bool \<times> 'p conn" where
  "push_block X c =
     (case tls_wbuf_get X (srv c) of
        (None, s) \<Rightarrow> (False, c\<lparr>srv := s\<rparr>)
      | (Some b, s) \<Rightarrow> (True, c\<lparr>srv := s, tls_wblock := tls_wblock c @ [tls_wseg_open b]\<rparr>))"

text \<open>The segment being filled is the last one of the chain.\<close>

definition set_seg_buf :: "ptls_buffer \<Rightarrow> 'p conn \<Rightarrow> 'p conn" where
  "set_seg_buf buf c =
     c\<lparr>tls_wblock := butlast (tls_wblock c) @ [(last (tls_wblock c))\<lparr>seg_buf := buf\<rparr>]\<rparr>"

text \<open>
  The loop of \<open>tls_write_response_impl\<close> over the plaintext stream: \<open>WDone\<close> when it ended,
  \<open>WAbandon\<close> for the \<open>goto abandon\<close>, \<open>WOverrun\<close> for a slice past the end of the vectors or of
  \<open>part[2]\<close>.
\<close>

datatype write_end = WDone | WAbandon | WOverrun

definition wants_block :: "bool \<Rightarrow> nat \<Rightarrow> nat \<Rightarrow> 'p conn \<Rightarrow> bool" where
  "wants_block oversized rec_oh chunk c \<longleftrightarrow>
     \<not> oversized \<and> length (pb_data (seg_buf (last (tls_wblock c)))) + chunk + rec_oh > TLS_WBUF_SIZE"

definition next_chunk :: "bool \<Rightarrow> nat \<Rightarrow> nat \<Rightarrow> nat" where
  "next_chunk oversized tot off =
     (let chunk = tot - off
      in if \<not> oversized \<and> chunk > TLS_MAX_RECORD_PLAINTEXT then TLS_MAX_RECORD_PLAINTEXT else chunk)"

function write_loop ::
  "'p ext \<Rightarrow> bool \<Rightarrow> nat \<Rightarrow> bytes list \<Rightarrow> nat \<Rightarrow> nat \<Rightarrow> nat \<Rightarrow> nat \<Rightarrow> 'p conn \<Rightarrow> write_end \<times> 'p conn" where
  "write_loop X oversized rec_oh vec tot off veci vecoff c0 =
     (if off \<ge> tot then (WDone, c0)
      else
        let chunk = next_chunk oversized tot off;
            (opened, c) =
              (if wants_block oversized rec_oh chunk c0
               then if length (tls_wblock c0) = TLS_WSEG_MAX then (False, c0) else push_block X c0
               else (True, c0))
        in if \<not> opened then (WAbandon, c)
           else case tls_slice vec veci vecoff chunk of
               None \<Rightarrow> (WOverrun, c)
             | Some (part, veci', vecoff') \<Rightarrow>
                 if length part > 2 then (WOverrun, c)
                 else
                 let (ret, s', buf') = ptls_send_v X (the (tls c)) (seg_buf (last (tls_wblock c))) part;
                     c' = (set_seg_buf buf' c)\<lparr>tls := Some s'\<rparr>
                 in if ret \<noteq> 0 then (WAbandon, c')
                    else write_loop X oversized rec_oh vec tot (off + chunk) veci' vecoff' c')"
  by pat_completeness auto
termination
  by (relation "measure (\<lambda>(X, oversized, rec_oh, vec, tot, off, rest). tot - off)")
    (auto simp: next_chunk_def TLS_MAX_RECORD_PLAINTEXT_def Let_def)

declare write_loop.simps [simp del]

definition resp_body_bytes :: "'p conn \<Rightarrow> bytes" where
  "resp_body_bytes c = (case resp_body c of None \<Rightarrow> [] | Some body \<Rightarrow> bytes_of body)"

text \<open>The vector pair: a part of length zero gets no vector.\<close>

definition resp_vec :: "'p conn \<Rightarrow> bytes list" where
  "resp_vec c =
     (let hdr = take (nat (resp_hdr_len c)) (resp_hdr c); body = resp_body_bytes c
      in (if hdr \<noteq> [] then [hdr] else []) @ (if body \<noteq> [] then [body] else []))"

definition tls_write_response_impl :: "'p ext \<Rightarrow> 'p conn \<Rightarrow> 'p conn" where
  "tls_write_response_impl X c0 =
     (let vec = resp_vec c0;
          tot = sum_list (map length vec);
          rec_oh = ptls_record_overhead X (the (tls c0));
          nrec = tls_record_count tot;
          oversized = (nrec > TLS_WSEG_MAX)
      in case tls_wbuf_get X (srv c0) of
           (None, s) \<Rightarrow> uv_close (c0\<lparr>srv := s\<rparr>)
         | (Some block, s) \<Rightarrow>
             let c1 = c0\<lparr>srv := s, tls_wblock := [tls_wseg_open block]\<rparr>;
                 (got, c2) =
                   (if oversized then
                      (case tls_bigbuf_get X (tls_encrypted_size tot rec_oh) (srv c1) of
                         ((None, cap), s') \<Rightarrow> (False, c1\<lparr>srv := s'\<rparr>)
                       | ((Some whole, cap), s') \<Rightarrow>
                           (True, set_seg_buf \<lparr>pb_base = Block whole, pb_data = [], pb_capacity = cap,
                                               pb_allocated = False\<rparr>
                                    (c1\<lparr>srv := s', tls_wbig := Some whole\<rparr>)))
                    else (True, c1))
             in if \<not> got then uv_close c2
                else case write_loop X oversized rec_oh vec tot 0 0 0 c2 of
                    (WDone, c3) \<Rightarrow>
                      if length (tls_wblock c3) > TLS_WSEG_MAX then out_of_bounds c3
                      else snd (uv_write X (concat (map (\<lambda>seg. uv_buf (pb_data (seg_buf seg))) (tls_wblock c3)))
                                  OnWrite c3)
                  | (WAbandon, c3) \<Rightarrow> uv_close c3
                  | (WOverrun, c3) \<Rightarrow> out_of_bounds c3)"

definition write_response :: "'p ext \<Rightarrow> 'p conn \<Rightarrow> 'p conn" where
  "write_response X c =
     (if tls c \<noteq> None then tls_write_response_impl X c
      else let hdr = take (nat (resp_hdr_len c)) (resp_hdr c);
               body = resp_body_bytes c
           in snd (uv_write X (uv_buf hdr @ (if body \<noteq> [] then uv_buf body else [])) OnWrite c))"

text \<open>\<open>on_tls_final_write\<close>\<close>

definition on_tls_final_write :: "'p conn \<Rightarrow> 'p conn" where
  "on_tls_final_write c = uv_close (tls_release_wbuf c)"

definition stop_reading :: "'p conn \<Rightarrow> 'p conn" where
  "stop_reading c = (if read_armed c then (uv_read_stop c)\<lparr>read_armed := False\<rparr> else c)"

text \<open>\<open>True\<close> when closing has become the job of \<open>on_tls_final_write\<close>.\<close>

definition tls_send_final :: "'p ext \<Rightarrow> bytes \<Rightarrow> 'p conn \<Rightarrow> bool \<times> 'p conn" where
  "tls_send_final X data c0 =
     (let c1 = stop_reading c0;
          rec_oh = ptls_record_overhead X (the (tls c1))
      in if length data + 2 + 2 * rec_oh > TLS_WBUF_SIZE then (False, c1)
         else case tls_wbuf_get X (srv c1) of
             (None, s) \<Rightarrow> (False, c1\<lparr>srv := s\<rparr>)
           | (Some block, s) \<Rightarrow>
               let c2 = c1\<lparr>srv := s, tls_wblock := [tls_wseg_open block]\<rparr>;
                   (ret, c3) =
                     (if data \<noteq> [] then
                        let (r, s', buf) = ptls_send_v X (the (tls c2)) (seg_buf (last (tls_wblock c2))) [data]
                        in (r, (set_seg_buf buf c2)\<lparr>tls := Some s'\<rparr>)
                      else (0, c2))
               in if ret \<noteq> 0 then (False, c3)
                  else let (r, s', buf) = ptls_send_alert X (the (tls c3)) (seg_buf (last (tls_wblock c3)));
                           c4 = (set_seg_buf buf c3)\<lparr>tls := Some s'\<rparr>
                       in if r \<noteq> 0 then (False, c4)
                          else if pb_data buf = [] then (False, c4)
                          else uv_write X (uv_buf (pb_data buf)) OnTlsFinal c4)"

section \<open>Slices\<close>

definition cur_pos :: "bytes list \<Rightarrow> nat \<Rightarrow> nat \<Rightarrow> nat" where
  "cur_pos vec veci vecoff = length (concat (take veci vec)) + vecoff"

definition cur_ok :: "bytes list \<Rightarrow> nat \<Rightarrow> nat \<Rightarrow> bool" where
  "cur_ok vec veci vecoff \<longleftrightarrow>
     (veci < length vec \<and> vecoff \<le> length (vec ! veci)) \<or> (veci = length vec \<and> vecoff = 0)"

lemma concat_split:
  assumes "i < length vec"
  shows "concat vec = concat (take i vec) @ vec ! i @ concat (drop (Suc i) vec)"
  using assms by (metis append_assoc concat.simps(2) concat_append id_take_nth_drop)

lemma drop_cur_pos:
  assumes "veci < length vec" "vecoff \<le> length (vec ! veci)"
  shows "drop (cur_pos vec veci vecoff) (concat vec) = drop vecoff (vec ! veci) @ concat (drop (Suc veci) vec)"
  using assms by (subst concat_split [OF assms(1)]) (simp add: cur_pos_def)

lemma cur_pos_next:
  "veci < length vec \<Longrightarrow> cur_pos vec (Suc veci) 0 = cur_pos vec veci (length (vec ! veci))"
  by (simp add: cur_pos_def take_Suc_conv_app_nth)

lemma drop_cur_pos_0: "drop (cur_pos vec i 0) (concat vec) = concat (drop i vec)"
  by (metis add.right_neutral append_eq_conv_conj append_take_drop_id concat_append cur_pos_def)

text \<open>
  As long as enough bytes remain, a slice is exactly the next \<open>want\<close> bytes of the stream, in no more
  pieces than there are vectors left, and the cursor stays valid.
\<close>

lemma tls_slice_exact:
  assumes "cur_ok vec veci vecoff" "cur_pos vec veci vecoff + want \<le> length (concat vec)"
  shows "\<exists>parts veci' vecoff'. tls_slice vec veci vecoff want = Some (parts, veci', vecoff')
    \<and> concat parts = take want (drop (cur_pos vec veci vecoff) (concat vec))
    \<and> cur_ok vec veci' vecoff' \<and> cur_pos vec veci' vecoff' = cur_pos vec veci vecoff + want
    \<and> length parts \<le> length vec - veci"
  using assms
proof (induction vec veci vecoff want rule: tls_slice.induct)
  case (1 vec veci vecoff want)
  show ?case
  proof (cases "want = 0")
    case True
    then show ?thesis using 1(2) by (simp add: tls_slice.simps)
  next
    case False
    have i: "veci < length vec" "vecoff \<le> length (vec ! veci)"
      using 1(2,3) False by (auto simp: cur_ok_def cur_pos_def)
    let ?v = "vec ! veci"
    let ?avail = "length ?v - vecoff"
    have d: "drop (cur_pos vec veci vecoff) (concat vec) = drop vecoff ?v @ concat (drop (Suc veci) vec)"
      using i by (rule drop_cur_pos)
    show ?thesis
    proof (cases "?avail < want")
      case True
      have n: "cur_pos vec (Suc veci) 0 = cur_pos vec veci vecoff + ?avail"
        using i cur_pos_next [of veci vec] by (simp add: cur_pos_def)
      have ok: "cur_ok vec (Suc veci) 0" using i by (auto simp: cur_ok_def)
      have "\<exists>parts veci' vecoff'. tls_slice vec (Suc veci) 0 (want - ?avail) = Some (parts, veci', vecoff')
        \<and> concat parts = take (want - ?avail) (drop (cur_pos vec (Suc veci) 0) (concat vec))
        \<and> cur_ok vec veci' vecoff' \<and> cur_pos vec veci' vecoff' = cur_pos vec (Suc veci) 0 + (want - ?avail)
        \<and> length parts \<le> length vec - Suc veci"
        using "1.IH" [of ?avail ?avail _ "(veci + 1, 0)"] False i True ok n 1(3) by simp
      then obtain parts veci' vecoff' where
        r: "tls_slice vec (Suc veci) 0 (want - ?avail) = Some (parts, veci', vecoff')"
        "concat parts = take (want - ?avail) (drop (cur_pos vec (Suc veci) 0) (concat vec))"
        "cur_ok vec veci' vecoff'" "cur_pos vec veci' vecoff' = cur_pos vec (Suc veci) 0 + (want - ?avail)"
        "length parts \<le> length vec - Suc veci" by blast
      have "tls_slice vec veci vecoff want = Some (drop vecoff ?v # parts, veci', vecoff')"
        using False i True r(1) by (simp add: tls_slice.simps [of vec veci vecoff want] Let_def)
      moreover have "concat (drop vecoff ?v # parts) = take want (drop (cur_pos vec veci vecoff) (concat vec))"
        using r(2) True i d by (simp add: drop_cur_pos_0)
      ultimately show ?thesis using r n True i by auto
    next
      case want: False
      have "tls_slice vec veci vecoff want =
        Some ([take want (drop vecoff ?v)],
          if vecoff + want = length ?v then (veci + 1, 0) else (veci, vecoff + want))"
        using False i want by (auto simp: tls_slice.simps [of vec veci vecoff want] tls_slice.simps [of _ _ _ 0] Let_def)
      moreover have "take want (drop vecoff ?v) = take want (drop (cur_pos vec veci vecoff) (concat vec))"
        using want i d by simp
      moreover have "cur_pos vec (Suc veci) 0 = cur_pos vec veci vecoff + want" if "vecoff + want = length ?v"
        using that i cur_pos_next [of veci vec] by (simp add: cur_pos_def)
      ultimately show ?thesis using i want False by (auto simp: cur_ok_def cur_pos_def)
    qed
  qed
qed

section \<open>What picotls promises\<close>

text \<open>
  \<open>opens s ct pt s'\<close>: the ciphertext \<open>ct\<close>, produced as the sender's state went from \<open>s\<close> to \<open>s'\<close>,
  decrypts to \<open>pt\<close>. A successful \<open>ptls_send_v\<close> appends such a ciphertext of the concatenation of its
  vectors to the buffer.
\<close>

definition record_layer :: "'p ext \<Rightarrow> ('p \<Rightarrow> bytes \<Rightarrow> bytes \<Rightarrow> 'p \<Rightarrow> bool) \<Rightarrow> bool" where
  "record_layer X opens \<longleftrightarrow>
     (\<forall>s. opens s [] [] s)
     \<and> (\<forall>s a p s' b q s''. opens s a p s' \<longrightarrow> opens s' b q s'' \<longrightarrow> opens s (a @ b) (p @ q) s'')
     \<and> (\<forall>s buf parts s' buf'. ptls_send_v X s buf parts = (0, s', buf') \<longrightarrow>
          (\<exists>ct. pb_data buf' = pb_data buf @ ct \<and> opens s ct (concat parts) s'))"

text \<open>
  The sizes of its records. \<open>quota s\<close> is the number of records that can still be sent from \<open>s\<close> before a
  KeyUpdate is due (0 when one is): picotls sends one of its own accord after 2^24 records, and when the
  peer or the caller asked for one. As long as none is due, a run of \<open>n\<close> bytes in at most two vectors becomes one record per
  16384 bytes, each \<open>oh\<close> bytes longer than its plaintext; when the buffer has room for them it is not
  replaced, so nothing is allocated and the call succeeds. A call that finds a KeyUpdate due puts its record
  in front, and may fail; of it nothing is said here.
\<close>

definition record_sizes :: "'p ext \<Rightarrow> nat \<Rightarrow> ('p \<Rightarrow> nat) \<Rightarrow> bool" where
  "record_sizes X oh quota \<longleftrightarrow>
     (\<forall>s buf parts. 0 < quota s \<longrightarrow> length parts \<le> 2 \<longrightarrow>
        (let n = length (concat parts); need = n + tls_record_count n * oh
         in length (pb_data buf) + need \<le> pb_capacity buf \<longrightarrow>
             (\<exists>s' data. ptls_send_v X s buf parts = (0, s', buf\<lparr>pb_data := data\<rparr>)
                \<and> length data = length (pb_data buf) + need \<and> quota s \<le> quota s' + tls_record_count n)))"

text \<open>A buffer handed to picotls keeps its base, or picotls owns the replacement.\<close>

definition keeps_base :: "'p ext \<Rightarrow> bool" where
  "keeps_base X \<longleftrightarrow>
     (\<forall>s buf parts ret s' buf'. ptls_send_v X s buf parts = (ret, s', buf') \<longrightarrow>
        pb_base buf' = pb_base buf \<or> pb_base buf' = Picotls)
     \<and> (\<forall>s buf ret s' buf'. ptls_send_alert X s buf = (ret, s', buf') \<longrightarrow>
        pb_base buf' = pb_base buf \<or> pb_base buf' = Picotls)"

section \<open>The write loop\<close>

definition wire :: "'p conn \<Rightarrow> bytes" where
  "wire c = concat (map (\<lambda>seg. pb_data (seg_buf seg)) (tls_wblock c))"

lemma wire_set_seg_buf:
  assumes "tls_wblock c \<noteq> []" "pb_data buf = pb_data (seg_buf (last (tls_wblock c))) @ ct"
  shows "wire (set_seg_buf buf c) = wire c @ ct"
proof -
  obtain xs x where x: "tls_wblock c = xs @ [x]" using assms(1) by (cases "tls_wblock c" rule: rev_cases) auto
  then show ?thesis using assms(2) by (simp add: wire_def set_seg_buf_def)
qed

lemma push_block_cases:
  obtains (failed) s where "push_block X c = (False, c\<lparr>srv := s\<rparr>)" "tls_wbuf_get X (srv c) = (None, s)"
  | (ok) b s where "push_block X c = (True, c\<lparr>srv := s, tls_wblock := tls_wblock c @ [tls_wseg_open b]\<rparr>)"
      "tls_wbuf_get X (srv c) = (Some b, s)"
proof (cases "tls_wbuf_get X (srv c)")
  case (Pair r s)
  show ?thesis
  proof (cases r)
    case None
    then show ?thesis using Pair by (intro failed [of s]) (simp_all add: push_block_def)
  next
    case (Some b)
    then show ?thesis using Pair by (intro ok [of b s]) (simp_all add: push_block_def)
  qed
qed

text \<open>The part of an iteration before the send: the block it writes into.\<close>

definition open_block :: "'p ext \<Rightarrow> bool \<Rightarrow> nat \<Rightarrow> nat \<Rightarrow> 'p conn \<Rightarrow> bool \<times> 'p conn" where
  "open_block X oversized rec_oh chunk c0 =
     (if wants_block oversized rec_oh chunk c0
      then if length (tls_wblock c0) = TLS_WSEG_MAX then (False, c0) else push_block X c0
      else (True, c0))"

lemma write_loop_end:
  "\<not> off < tot \<Longrightarrow> write_loop X oversized rec_oh vec tot off veci vecoff c = (WDone, c)"
  by (subst write_loop.simps) simp

lemma write_loop_step:
  assumes "off < tot"
  shows "write_loop X oversized rec_oh vec tot off veci vecoff c0 =
    (case open_block X oversized rec_oh (next_chunk oversized tot off) c0 of
       (False, c) \<Rightarrow> (WAbandon, c)
     | (True, c) \<Rightarrow>
         (case tls_slice vec veci vecoff (next_chunk oversized tot off) of
            None \<Rightarrow> (WOverrun, c)
          | Some (part, veci', vecoff') \<Rightarrow>
              if length part > 2 then (WOverrun, c) else
              (case ptls_send_v X (the (tls c)) (seg_buf (last (tls_wblock c))) part of
                 (ret, s', buf') \<Rightarrow>
                   if ret \<noteq> 0 then (WAbandon, (set_seg_buf buf' c)\<lparr>tls := Some s'\<rparr>)
                   else write_loop X oversized rec_oh vec tot (off + next_chunk oversized tot off) veci' vecoff'
                          ((set_seg_buf buf' c)\<lparr>tls := Some s'\<rparr>))))"
  using assms unfolding open_block_def
  by (subst write_loop.simps) (auto simp: Let_def split: prod.splits option.splits bool.splits)

lemma next_chunk_pos: "off < tot \<Longrightarrow> 0 < next_chunk oversized tot off \<and> off + next_chunk oversized tot off \<le> tot"
  by (auto simp: next_chunk_def Let_def sizes)

lemma open_block_cases:
  assumes "tls_wblock c0 \<noteq> []"
  obtains (failed) s where "open_block X oversized rec_oh chunk c0 = (False, c0\<lparr>srv := s\<rparr>)"
  | (same) "open_block X oversized rec_oh chunk c0 = (True, c0)" "\<not> wants_block oversized rec_oh chunk c0"
  | (fresh) b s where "open_block X oversized rec_oh chunk c0
        = (True, c0\<lparr>srv := s, tls_wblock := tls_wblock c0 @ [tls_wseg_open b]\<rparr>)"
      "wants_block oversized rec_oh chunk c0" "length (tls_wblock c0) \<noteq> TLS_WSEG_MAX"
      "tls_wbuf_get X (srv c0) = (Some b, s)"
proof (cases "wants_block oversized rec_oh chunk c0 \<and> length (tls_wblock c0) \<noteq> TLS_WSEG_MAX")
  case True
  show ?thesis
  proof (cases rule: push_block_cases [of X c0])
    case (failed s)
    then show ?thesis using True by (intro that(1) [of s]) (simp add: open_block_def)
  next
    case (ok b s)
    then show ?thesis using True by (intro that(3) [of b s]) (simp_all add: open_block_def)
  qed
next
  case False
  show ?thesis
  proof (cases "wants_block oversized rec_oh chunk c0")
    case True
    then show ?thesis using False by (intro failed [of "srv c0"]) (simp add: open_block_def)
  next
    case w: False
    then show ?thesis by (intro same) (simp_all add: open_block_def)
  qed
qed

text \<open>What the two parts of an iteration keep, the loop keeps.\<close>

lemma write_loop_preserves:
  assumes op: "\<And>n c. Q c \<Longrightarrow> Q (snd (open_block X oversized rec_oh n c))"
    and send: "\<And>buf s c. Q c \<Longrightarrow> Q ((set_seg_buf buf c)\<lparr>tls := Some s\<rparr>)"
  shows "Q c \<Longrightarrow> Q (snd (write_loop X oversized rec_oh vec tot off veci vecoff c))"
proof (induction "tot - off" arbitrary: off veci vecoff c rule: less_induct)
  case less
  show ?case
  proof (cases "off < tot")
    case True
    obtain opened d where o: "open_block X oversized rec_oh (next_chunk oversized tot off) c = (opened, d)"
      by (cases "open_block X oversized rec_oh (next_chunk oversized tot off) c")
    have q: "Q d" using op [OF less.prems, of "next_chunk oversized tot off"] o by simp
    have "Q (snd (write_loop X oversized rec_oh vec tot (off + next_chunk oversized tot off) i j
        ((set_seg_buf buf d)\<lparr>tls := Some s\<rparr>)))" for i j buf s
      using next_chunk_pos [OF True, of oversized] True by (intro less.hyps send q) linarith
    then show ?thesis using q send [OF q] o
      by (auto simp: write_loop_step [OF True] split: option.splits prod.splits bool.splits)
  qed (use less.prems in \<open>simp add: write_loop_end\<close>)
qed

lemma push_block_uv [simp]: "uv (snd (push_block X c)) = uv c" "tls_wbig (snd (push_block X c)) = tls_wbig c"
  by (simp_all add: push_block_def split: prod.splits option.splits)

lemma write_loop_uv: "uv (snd (write_loop X oversized rec_oh vec tot off veci vecoff c)) = uv c"
  by (rule write_loop_preserves [where Q = "\<lambda>d. uv d = uv c"]) (auto simp: open_block_def set_seg_buf_def)

text \<open>
  Whatever picotls does, the loop stays within its arrays: the two vectors, the two pieces of a record, and the
  segments that \<open>uvbufs\<close> has room for.
\<close>

lemma slice_two:
  "tls_slice vec i j n = Some (part, i', j') \<Longrightarrow> cur_ok vec i j \<Longrightarrow> cur_pos vec i j + n \<le> length (concat vec) \<Longrightarrow>
   length vec \<le> 2 \<Longrightarrow> length part \<le> 2 \<and> cur_ok vec i' j' \<and> cur_pos vec i' j' = cur_pos vec i j + n"
  using tls_slice_exact [of vec i j n] by auto

lemma write_loop_in_bounds:
  "tls_wblock c \<noteq> [] \<Longrightarrow> length (tls_wblock c) \<le> TLS_WSEG_MAX \<Longrightarrow> cur_ok vec veci vecoff \<Longrightarrow>
    cur_pos vec veci vecoff = off \<Longrightarrow> tot = length (concat vec) \<Longrightarrow> off \<le> tot \<Longrightarrow> length vec \<le> 2 \<Longrightarrow>
    write_loop X oversized rec_oh vec tot off veci vecoff c = (r, c') \<Longrightarrow>
    r \<noteq> WOverrun \<and> length (tls_wblock c') \<le> TLS_WSEG_MAX"
proof (induction "tot - off" arbitrary: off veci vecoff c rule: less_induct)
  case less
  show ?case
  proof (cases "off < tot")
    case False
    then show ?thesis using less.prems by (auto simp: write_loop_end)
  next
    case True
    let ?n = "next_chunk oversized tot off"
    have n: "0 < ?n" "off + ?n \<le> tot" using next_chunk_pos [OF True] by auto
    obtain part i j where sl: "tls_slice vec veci vecoff ?n = Some (part, i, j)"
      using tls_slice_exact [OF less.prems(3), of ?n] n less.prems(4,5) by auto
    have two: "length part \<le> 2" "cur_ok vec i j" "cur_pos vec i j = off + ?n"
      using slice_two [OF sl less.prems(3) _ less.prems(7)] n less.prems(4,5) by auto
    have step: ?thesis if d: "open_block X oversized rec_oh ?n c = (True, d)" "tls_wblock d \<noteq> []"
      "length (tls_wblock d) \<le> TLS_WSEG_MAX" for d
    proof -
      obtain ret s' buf' where sv: "ptls_send_v X (the (tls d)) (seg_buf (last (tls_wblock d))) part = (ret, s', buf')"
        by (metis prod_cases3)
      let ?c' = "(set_seg_buf buf' d)\<lparr>tls := Some s'\<rparr>"
      have len: "tls_wblock ?c' \<noteq> []" "length (tls_wblock ?c') = length (tls_wblock d)"
        using d(2) by (simp_all add: set_seg_buf_def)
      show ?thesis
      proof (cases "ret = 0")
        case False
        then have "write_loop X oversized rec_oh vec tot off veci vecoff c = (WAbandon, ?c')"
          using two(1) by (simp add: write_loop_step [OF True] d(1) sl sv)
        then show ?thesis using less.prems(8) len(2) d(3) by auto
      next
        case ret: True
        have "write_loop X oversized rec_oh vec tot off veci vecoff c
            = write_loop X oversized rec_oh vec tot (off + ?n) i j ?c'"
          using two(1) by (simp add: write_loop_step [OF True] d(1) sl sv ret)
        then have wl: "write_loop X oversized rec_oh vec tot (off + ?n) i j ?c' = (r, c')" using less.prems(8) by simp
        show ?thesis
          by (rule less.hyps [OF _ _ _ _ _ _ _ _ wl]) (use less.prems(5,7) n True two(2,3) len d(3) in simp_all)
      qed
    qed
    show ?thesis
    proof (cases rule: open_block_cases [OF less.prems(1), of X oversized rec_oh ?n])
      case (1 s)
      then have "write_loop X oversized rec_oh vec tot off veci vecoff c = (WAbandon, c\<lparr>srv := s\<rparr>)"
        by (simp add: write_loop_step [OF True])
      then show ?thesis using less.prems(2,8) by auto
    next
      case 2
      then show ?thesis using less.prems(1,2) by (intro step [where d = c])
    next
      case (3 b s)
      then show ?thesis using less.prems(2)
        by (intro step [where d = "c\<lparr>srv := s, tls_wblock := tls_wblock c @ [tls_wseg_open b]\<rparr>"]) simp_all
    qed
  qed
qed

text \<open>
  What every run of the loop does, whatever fails: no slice overruns, only the chain, the pools and
  the TLS state change, and if it ends the ciphertext in the chain opens to the whole stream.
\<close>

lemma write_loop_sound:
  assumes rl: "record_layer X opens"
  shows "tls_wblock c \<noteq> [] \<Longrightarrow> length (tls_wblock c) \<le> TLS_WSEG_MAX \<Longrightarrow> cur_ok vec veci vecoff \<Longrightarrow>
    cur_pos vec veci vecoff = off \<Longrightarrow> tot = length (concat vec) \<Longrightarrow> off \<le> tot \<Longrightarrow> length vec \<le> 2 \<Longrightarrow> tls c \<noteq> None \<Longrightarrow>
    opens s0 (wire c) (take off (concat vec)) (the (tls c)) \<Longrightarrow>
    \<exists>r s w t. write_loop X oversized rec_oh vec tot off veci vecoff c
        = (r, c\<lparr>srv := s, tls_wblock := w, tls := Some t\<rparr>)
      \<and> r \<noteq> WOverrun \<and> w \<noteq> [] \<and> length w \<le> TLS_WSEG_MAX
      \<and> (r = WDone \<longrightarrow> opens s0 (concat (map (\<lambda>seg. pb_data (seg_buf seg)) w)) (concat vec) t)"
proof (induction "tot - off" arbitrary: off veci vecoff c rule: less_induct)
  case less
  note trans = rl [unfolded record_layer_def, THEN conjunct2, THEN conjunct1, rule_format]
  note send = rl [unfolded record_layer_def, THEN conjunct2, THEN conjunct2, rule_format]
  show ?case
  proof (cases "off < tot")
    case False
    then show ?thesis using less.prems
      by (intro exI [of _ WDone] exI [of _ "srv c"] exI [of _ "tls_wblock c"] exI [of _ "the (tls c)"])
        (auto simp: write_loop_end wire_def)
  next
    case True
    let ?n = "next_chunk oversized tot off"
    have n: "0 < ?n" "off + ?n \<le> tot" using next_chunk_pos [OF True] by auto
    obtain part veci' vecoff' where sl: "tls_slice vec veci vecoff ?n = Some (part, veci', vecoff')"
      "concat part = take ?n (drop off (concat vec))" "cur_ok vec veci' vecoff'"
      "cur_pos vec veci' vecoff' = off + ?n"
      using tls_slice_exact [OF less.prems(3), of ?n] n less.prems(4,5) by auto
    have two: "length part \<le> 2"
      using slice_two [OF sl(1) less.prems(3) _ less.prems(7)] n less.prems(4,5) by simp
    have pt: "take off (concat vec) @ concat part = take (off + ?n) (concat vec)"
      using sl(2) by (simp add: take_add)
    have step: ?thesis
      if c1: "open_block X oversized rec_oh ?n c = (True, d)" "d = c\<lparr>srv := sd, tls_wblock := wd\<rparr>"
        "wd \<noteq> []" "length wd \<le> TLS_WSEG_MAX" "wire d = wire c" for d sd wd
    proof -
      obtain ret s' buf' where sv: "ptls_send_v X (the (tls d)) (seg_buf (last (tls_wblock d))) part = (ret, s', buf')"
        by (metis prod_cases3)
      let ?c' = "(set_seg_buf buf' d)\<lparr>tls := Some s'\<rparr>"
      have c': "?c' = c\<lparr>srv := sd, tls_wblock := butlast wd @ [(last wd)\<lparr>seg_buf := buf'\<rparr>], tls := Some s'\<rparr>"
        using c1(2) by (simp add: set_seg_buf_def)
      have len: "length (butlast wd @ [(last wd)\<lparr>seg_buf := buf'\<rparr>]) = length wd" using c1(3) by simp
      show ?thesis
      proof (cases "ret = 0")
        case False
        then have "write_loop X oversized rec_oh vec tot off veci vecoff c = (WAbandon, ?c')"
          using two by (simp add: write_loop_step [OF True] c1(1) sl(1) sv)
        then show ?thesis unfolding c' using c1(4) len by fastforce
      next
        case ret: True
        obtain ct where ct: "pb_data buf' = pb_data (seg_buf (last (tls_wblock d))) @ ct"
          "opens (the (tls d)) ct (concat part) s'" using send sv ret by blast
        have "wire ?c' = wire c @ ct"
          using wire_set_seg_buf [of d buf' ct] ct(1) c1 by (simp add: wire_def)
        moreover have "opens s0 (wire c @ ct) (take off (concat vec) @ concat part) s'"
          using less.prems(9) ct(2) c1(2) by (intro trans) simp_all
        ultimately have op: "opens s0 (wire ?c') (take (off + ?n) (concat vec)) (the (tls ?c'))"
          by (simp add: pt)
        have wb: "tls_wblock ?c' \<noteq> []" "length (tls_wblock ?c') = length wd"
          unfolding c' using len by simp_all
        have "\<exists>r s w t. write_loop X oversized rec_oh vec tot (off + ?n) veci' vecoff' ?c'
            = (r, ?c'\<lparr>srv := s, tls_wblock := w, tls := Some t\<rparr>)
          \<and> r \<noteq> WOverrun \<and> w \<noteq> [] \<and> length w \<le> TLS_WSEG_MAX
          \<and> (r = WDone \<longrightarrow> opens s0 (concat (map (\<lambda>seg. pb_data (seg_buf seg)) w)) (concat vec) t)"
          using n True sl(3,4) c1(3,4) wb op less.prems(5,7) by (intro less.hyps) simp_all
        moreover have "write_loop X oversized rec_oh vec tot off veci vecoff c
            = write_loop X oversized rec_oh vec tot (off + ?n) veci' vecoff' ?c'"
          using two by (simp add: write_loop_step [OF True] c1(1) sl(1) sv ret)
        ultimately show ?thesis unfolding c' by simp
      qed
    qed
    show ?thesis
    proof (cases rule: open_block_cases [OF less.prems(1), of X oversized rec_oh ?n])
      case (1 s)
      then show ?thesis using less.prems(1,2,8)
        by (intro exI [of _ WAbandon] exI [of _ s] exI [of _ "tls_wblock c"] exI [of _ "the (tls c)"])
          (auto simp: write_loop_step [OF True])
    next
      case 2
      then show ?thesis using less.prems by (intro step [where d = c and sd = "srv c" and wd = "tls_wblock c"]) simp_all
    next
      case (3 b s)
      then show ?thesis using less.prems(2)
        by (intro step [where d = "c\<lparr>srv := s, tls_wblock := tls_wblock c @ [tls_wseg_open b]\<rparr>" and sd = s
            and wd = "tls_wblock c @ [tls_wseg_open b]"])
          (simp_all add: wire_def tls_wseg_open_def le_neq_implies_less Suc_leI)
    qed
  qed
qed

section \<open>Sizes of a response\<close>

lemma record_count_qr:
  assumes "r < 16384"
  shows "tls_record_count (q * 16384 + r) = (if r = 0 then q else q + 1)"
proof -
  have "(r + 16383) div 16384 = (if r = 0 then 0 else 1)"
    using assms by (cases "r = 0") (auto intro: div_nat_eqI)
  moreover have "tls_record_count (q * 16384 + r) = (q * 16384 + (r + 16383)) div 16384"
    by (simp add: tls_record_count_def sizes)
  ultimately show ?thesis by (simp only: div_mult_self3) simp
qed

lemma record_count_mult: "tls_record_count (q * 16384) = q"
  using record_count_qr [of 0 q] by simp

lemma record_count_le: "tls_record_count n \<le> n div TLS_MAX_RECORD_PLAINTEXT + 1"
  using record_count_qr [of "n mod 16384" "n div 16384"] by (simp add: sizes)

lemma record_count_step:
  assumes "0 < n" "n \<le> 16384"
  shows "tls_record_count (q * 16384 + n) = q + 1"
proof (cases "n = 16384")
  case True
  then show ?thesis using record_count_mult [of "q + 1"] by (simp add: algebra_simps)
next
  case False
  then show ?thesis using assms record_count_qr [of n q] by simp
qed

lemma record_count_one: "0 < n \<Longrightarrow> n \<le> 16384 \<Longrightarrow> tls_record_count n = 1"
  using record_count_step [of n 0] by simp

lemma record_count_bound: "tls_record_count n \<le> k \<Longrightarrow> n \<le> k * 16384"
  using record_count_qr [of "n mod 16384" "n div 16384"] by (auto split: if_splits)

lemma wbuf_get_succeeds:
  assumes "\<forall>n. malloc_ok X n"
  obtains b s' where "tls_wbuf_get X s = (Some b, s')"
  using assms by (cases "tls_wbuf_pool s") (auto simp: tls_wbuf_get_def malloc_def)

lemma bigbuf_get_succeeds:
  assumes "\<forall>n. malloc_ok X n"
  shows "\<exists>b cap s'. tls_bigbuf_get X need s = ((Some b, cap), s') \<and> need \<le> cap"
  using assms by (cases "tls_bigbuf s") (simp_all add: tls_bigbuf_get_def malloc_def)

definition seg_ok :: "tls_wseg \<Rightarrow> bool" where
  "seg_ok seg \<longleftrightarrow> pb_base (seg_buf seg) = Block (seg_block seg) \<and> pb_capacity (seg_buf seg) = TLS_WBUF_SIZE
     \<and> \<not> pb_allocated (seg_buf seg) \<and> length (pb_data (seg_buf seg)) \<le> TLS_WBUF_SIZE"

lemma seg_ok_open [simp]: "seg_ok (tls_wseg_open b)"
  by (simp add: seg_ok_def tls_wseg_open_def)

lemma data_open [simp]: "pb_data (seg_buf (tls_wseg_open b)) = []"
  by (simp add: tls_wseg_open_def)

text \<open>
  With memory available and records of the documented sizes the loop ends, every record lands in a
  block of freastal's, and there are no more blocks than records.
\<close>

lemma write_loop_fits:
  assumes mem: "\<forall>n. malloc_ok X n" and sz: "record_sizes X oh quota" and oh: "oh \<le> 512"
    and few: "tls_record_count tot \<le> TLS_WSEG_MAX" and tot: "tot = length (concat vec)"
    and two: "length vec \<le> 2"
  shows "tls_wblock c \<noteq> [] \<Longrightarrow> \<forall>seg \<in> set (tls_wblock c). seg_ok seg \<Longrightarrow>
    length (tls_wblock c) \<le> max 1 (tls_record_count off) \<Longrightarrow>
    (off < tot \<longrightarrow> off mod 16384 = 0) \<Longrightarrow> (off = 0 \<longrightarrow> pb_data (seg_buf (last (tls_wblock c))) = []) \<Longrightarrow>
    cur_ok vec veci vecoff \<Longrightarrow> cur_pos vec veci vecoff = off \<Longrightarrow> off \<le> tot \<Longrightarrow>
    tls_record_count tot \<le> quota (the (tls c)) + tls_record_count off \<Longrightarrow>
    \<exists>c'. write_loop X False oh vec tot off veci vecoff c = (WDone, c')
      \<and> (\<forall>seg \<in> set (tls_wblock c'). seg_ok seg) \<and> length (tls_wblock c') \<le> max 1 (tls_record_count tot)"
proof (induction "tot - off" arbitrary: off veci vecoff c rule: less_induct)
  case less
  note send = sz [unfolded record_sizes_def Let_def, rule_format]
  show ?case
  proof (cases "off < tot")
    case False
    then show ?thesis using less.prems by (auto simp: write_loop_end)
  next
    case True
    let ?n = "next_chunk False tot off"
    have n: "0 < ?n" "off + ?n \<le> tot" "?n \<le> 16384" "off + ?n < tot \<longrightarrow> ?n = 16384"
      using True by (auto simp: next_chunk_def Let_def sizes)
    obtain q where q: "off = q * 16384"
      using less.prems(4) True by (metis add.right_neutral div_mult_mod_eq)
    have rc: "tls_record_count off = q" by (simp add: q record_count_mult)
    obtain part veci' vecoff' where sl: "tls_slice vec veci vecoff ?n = Some (part, veci', vecoff')"
      "concat part = take ?n (drop off (concat vec))" "cur_ok vec veci' vecoff'"
      "cur_pos vec veci' vecoff' = off + ?n"
      using tls_slice_exact [OF less.prems(6), of ?n] n less.prems(7) tot by auto
    have len: "length (concat part) = ?n" using sl(2) n tot by simp
    have pieces: "length part \<le> 2"
      using slice_two [OF sl(1) less.prems(6) _ two] n less.prems(7) tot by simp
    have "tls_record_count (off + ?n) \<le> tls_record_count tot"
      using n(2) unfolding tls_record_count_def by (intro div_le_mono) simp
    then have due: "0 < quota (the (tls c))"
      using less.prems(9) record_count_step [OF n(1,3), of q] by (simp add: q [symmetric] rc)
    have step: ?thesis
      if c1: "open_block X False oh ?n c = (True, d)" "tls_wblock d \<noteq> []" "\<forall>seg \<in> set (tls_wblock d). seg_ok seg"
        "length (pb_data (seg_buf (last (tls_wblock d)))) + ?n + oh \<le> TLS_WBUF_SIZE"
        "length (tls_wblock d) \<le> q + 1" "tls d = tls c" for d
    proof -
      let ?seg = "last (tls_wblock d)"
      have ok: "seg_ok ?seg" using c1(2,3) by simp
      have "length (pb_data (seg_buf ?seg)) + (length (concat part) + tls_record_count (length (concat part)) * oh)
          \<le> pb_capacity (seg_buf ?seg)"
        using c1(4) ok n by (simp add: len record_count_one seg_ok_def)
      moreover have "0 < quota (the (tls d))" using due c1(6) by simp
      ultimately obtain s' data where
        sv: "ptls_send_v X (the (tls d)) (seg_buf ?seg) part = (0, s', (seg_buf ?seg)\<lparr>pb_data := data\<rparr>)"
        "length data = length (pb_data (seg_buf ?seg)) + (?n + tls_record_count ?n * oh)"
        "quota (the (tls d)) \<le> quota s' + tls_record_count ?n"
        using send [of "the (tls d)" part "seg_buf ?seg"] pieces unfolding len by blast
      let ?seg' = "?seg\<lparr>seg_buf := (seg_buf ?seg)\<lparr>pb_data := data\<rparr>\<rparr>"
      let ?c' = "(set_seg_buf ((seg_buf ?seg)\<lparr>pb_data := data\<rparr>) d)\<lparr>tls := Some s'\<rparr>"
      have w': "tls_wblock ?c' = butlast (tls_wblock d) @ [?seg']" by (simp add: set_seg_buf_def)
      have ok': "seg_ok ?seg'"
        using ok sv(2) c1(4) n by (simp add: seg_ok_def record_count_one)
      have all': "\<forall>seg \<in> set (tls_wblock ?c'). seg_ok seg"
        using c1(3) ok' by (auto simp: w' dest: in_set_butlastD)
      have len': "length (tls_wblock ?c') \<le> max 1 (tls_record_count (off + ?n))"
        using c1(2,5) record_count_step [OF n(1,3), of q] by (simp add: w' q [symmetric])
      have quota': "tls_record_count tot \<le> quota (the (tls ?c')) + tls_record_count (off + ?n)"
        using less.prems(9) sv(3) c1(6) record_count_step [OF n(1,3), of q] record_count_one [OF n(1,3)]
        by (simp add: q [symmetric] rc)
      have mod': "off + ?n < tot \<longrightarrow> (off + ?n) mod 16384 = 0"
        using n(4) q by auto
      have "write_loop X False oh vec tot off veci vecoff c = write_loop X False oh vec tot (off + ?n) veci' vecoff' ?c'"
        using pieces by (simp add: write_loop_step [OF True] c1(1) sl(1) sv(1))
      moreover have "\<exists>c'. write_loop X False oh vec tot (off + ?n) veci' vecoff' ?c' = (WDone, c')
        \<and> (\<forall>seg \<in> set (tls_wblock c'). seg_ok seg) \<and> length (tls_wblock c') \<le> max 1 (tls_record_count tot)"
        using n True sl all' len' mod' w' quota' by (intro less.hyps) simp_all
      ultimately show ?thesis by simp
    qed
    show ?thesis
    proof (cases "wants_block False oh ?n c")
      case False
      have "length (tls_wblock c) \<le> q + 1"
        using less.prems(3) by (simp add: rc)
      then show ?thesis using False less.prems(1,2)
        by (intro step [where d = c]) (simp_all add: open_block_def wants_block_def)
    next
      case w: True
      have pos: "0 < off"
        using w less.prems(5) n oh by (cases "off = 0") (auto simp: wants_block_def sizes)
      have "0 < q" using pos by (simp add: q)
      then have lc: "length (tls_wblock c) \<le> q" using less.prems(3) by (simp add: rc)
      have "q < TLS_WSEG_MAX"
        using True record_count_bound [OF few] by (simp add: q sizes)
      then have room: "length (tls_wblock c) \<noteq> TLS_WSEG_MAX" using lc by simp
      obtain b s' where g: "tls_wbuf_get X (srv c) = (Some b, s')" using wbuf_get_succeeds [OF mem] by blast
      have "open_block X False oh ?n c = (True, c\<lparr>srv := s', tls_wblock := tls_wblock c @ [tls_wseg_open b]\<rparr>)"
        using w room g by (simp add: open_block_def push_block_def)
      then show ?thesis
        using less.prems(1,2) n(3) oh lc
        by (intro step [where d = "c\<lparr>srv := s', tls_wblock := tls_wblock c @ [tls_wseg_open b]\<rparr>"])
          (auto simp: data_open TLS_WBUF_SIZE_def TLS_MAX_RECORD_PLAINTEXT_def)
    qed
  qed
qed

section \<open>Properties of the encrypted write\<close>

lemma concat_resp_vec: "concat (resp_vec c) = take (nat (resp_hdr_len c)) (resp_hdr c) @ resp_body_bytes c"
  by (simp add: resp_vec_def Let_def)

lemma sum_length_concat: "sum_list (map length vec) = length (concat vec)"
  by (simp add: length_concat)

lemma cur_start: "cur_ok vec 0 0" "cur_pos vec 0 0 = 0"
  by (auto simp: cur_ok_def cur_pos_def)

text \<open>The state in which the loop starts, or the close that replaces it.\<close>

definition response_start :: "'p ext \<Rightarrow> bool \<Rightarrow> nat \<Rightarrow> 'p conn \<Rightarrow> bool \<times> 'p conn" where
  "response_start X oversized need c0 =
     (case tls_wbuf_get X (srv c0) of
        (None, s) \<Rightarrow> (False, c0\<lparr>srv := s\<rparr>)
      | (Some block, s) \<Rightarrow>
          let c1 = c0\<lparr>srv := s, tls_wblock := [tls_wseg_open block]\<rparr>
          in if oversized then
               (case tls_bigbuf_get X need (srv c1) of
                  ((None, cap), s') \<Rightarrow> (False, c1\<lparr>srv := s'\<rparr>)
                | ((Some whole, cap), s') \<Rightarrow>
                    (True, set_seg_buf \<lparr>pb_base = Block whole, pb_data = [], pb_capacity = cap,
                                        pb_allocated = False\<rparr>
                             (c1\<lparr>srv := s', tls_wbig := Some whole\<rparr>)))
             else (True, c1))"

definition send_chain :: "'p ext \<Rightarrow> 'p conn \<Rightarrow> 'p conn" where
  "send_chain X c =
     snd (uv_write X (concat (map (\<lambda>seg. uv_buf (pb_data (seg_buf seg))) (tls_wblock c))) OnWrite c)"

lemma response_start_cases:
  obtains (failed) s w where "response_start X oversized need c = (False, c\<lparr>srv := s, tls_wblock := w\<rparr>)"
      "length w \<le> max 1 (length (tls_wblock c))"
  | (ok) s seg big where "response_start X oversized need c = (True, c\<lparr>srv := s, tls_wblock := [seg], tls_wbig := big\<rparr>)"
      "pb_data (seg_buf seg) = []"
proof (cases "tls_wbuf_get X (srv c)")
  case (Pair r s)
  show ?thesis
  proof (cases r)
    case None
    then show ?thesis using Pair by (intro failed [where s = s and w = "tls_wblock c"]) (simp_all add: response_start_def)
  next
    case (Some b)
    obtain r' cap s' where g: "tls_bigbuf_get X need s = ((r', cap), s')" by (metis surj_pair)
    show ?thesis
    proof (cases "oversized")
      case False
      then show ?thesis using Pair Some
        by (intro ok [where s = s and seg = "tls_wseg_open b" and big = "tls_wbig c"]) (simp_all add: response_start_def)
    next
      case True
      show ?thesis
      proof (cases r')
        case None
        then show ?thesis using Pair Some True g
          by (intro failed [where s = s' and w = "[tls_wseg_open b]"]) (simp_all add: response_start_def)
      next
        case big: (Some whole)
        show ?thesis using Pair Some True g big
          by (intro ok [where s = s' and seg = "(tls_wseg_open b)\<lparr>seg_buf := \<lparr>pb_base = Block whole, pb_data = [], pb_capacity = cap,
              pb_allocated = False\<rparr>\<rparr>" and big = "Some whole"]) (simp_all add: response_start_def set_seg_buf_def)
      qed
    qed
  qed
qed

lemma resp_vec_two: "length (resp_vec c) \<le> 2"
  by (simp add: resp_vec_def Let_def)

text \<open>The code, with the places where it would leave its arrays discharged.\<close>

lemma tls_write_response_impl_eq:
  "tls_write_response_impl X c =
     (let vec = resp_vec c; tot = length (concat vec); oh = ptls_record_overhead X (the (tls c));
          oversized = (tls_record_count tot > TLS_WSEG_MAX)
      in case response_start X oversized (tls_encrypted_size tot oh) c of
           (False, c2) \<Rightarrow> uv_close c2
         | (True, c2) \<Rightarrow>
             (case write_loop X oversized oh vec tot 0 0 0 c2 of
                (WDone, c3) \<Rightarrow> send_chain X c3
              | (_, c3) \<Rightarrow> uv_close c3))"
proof -
  define vec tot oh oversized where d: "vec = resp_vec c" "tot = length (concat vec)"
    "oh = ptls_record_overhead X (the (tls c))" "oversized = (tls_record_count tot > TLS_WSEG_MAX)"
  have raw: "tls_write_response_impl X c =
     (case response_start X oversized (tls_encrypted_size tot oh) c of
           (False, c2) \<Rightarrow> uv_close c2
         | (True, c2) \<Rightarrow>
             (case write_loop X oversized oh vec tot 0 0 0 c2 of
                (WDone, c3) \<Rightarrow> (if length (tls_wblock c3) > TLS_WSEG_MAX then out_of_bounds c3 else send_chain X c3)
              | (WAbandon, c3) \<Rightarrow> uv_close c3
              | (WOverrun, c3) \<Rightarrow> out_of_bounds c3))"
    unfolding tls_write_response_impl_def response_start_def send_chain_def sum_length_concat Let_def d
    by (auto split: prod.splits option.splits write_end.splits bool.splits)
  obtain got c2 where st: "response_start X oversized (tls_encrypted_size tot oh) c = (got, c2)"
    by (cases "response_start X oversized (tls_encrypted_size tot oh) c")
  obtain r c3 where wl: "write_loop X oversized oh vec tot 0 0 0 c2 = (r, c3)"
    by (cases "write_loop X oversized oh vec tot 0 0 0 c2")
  have "r \<noteq> WOverrun \<and> length (tls_wblock c3) \<le> TLS_WSEG_MAX" if got
  proof -
    have "length (tls_wblock c2) = 1"
      using st that by (cases rule: response_start_cases [of X oversized "tls_encrypted_size tot oh" c]) auto
    then have "tls_wblock c2 \<noteq> []" "length (tls_wblock c2) \<le> TLS_WSEG_MAX" by (auto simp: sizes)
    from write_loop_in_bounds [OF this cur_start(1) cur_start(2) d(2) _ _ wl] show ?thesis
      using resp_vec_two [of c] by (simp add: d(1))
  qed
  then show ?thesis unfolding raw Let_def d [symmetric] using st wl
    by (cases got; cases r) (simp_all add: d [symmetric])
qed

lemma uv_buf_id: "length d < 2 ^ 32 \<Longrightarrow> uv_buf d = d"
  by (simp add: uv_buf_def)

lemma write_response_impl_sound:
  assumes rl: "record_layer X opens" and tls: "tls c = Some s0" and free: "tls_wblock c = []"
  shows "\<exists>s w big t call.
      tls_write_response_impl X c
        = c\<lparr>srv := s, tls_wblock := w, tls_wbig := big, tls := Some t, uv := uv c @ [call]\<rparr>
      \<and> length w \<le> TLS_WSEG_MAX
      \<and> (call = UvClose
         \<or> (\<exists>data ok. call = UvWrite data OnWrite ok
              \<and> ((\<forall>seg \<in> set w. length (pb_data (seg_buf seg)) < 2 ^ 32) \<longrightarrow>
                   opens s0 data (take (nat (resp_hdr_len c)) (resp_hdr c) @ resp_body_bytes c) t)))"
proof -
  define vec tot oh oversized where d: "vec = resp_vec c" "tot = length (concat vec)"
    "oh = ptls_record_overhead X (the (tls c))" "oversized = (tls_record_count tot > TLS_WSEG_MAX)"
  note impl = tls_write_response_impl_eq [of X c, folded d(1), folded d(2,3), folded d(4), unfolded Let_def,
      folded d(1), folded d(2,3), folded d(4)]
  show ?thesis
  proof (cases rule: response_start_cases [of X oversized "tls_encrypted_size tot oh" c])
    case (failed s w)
    have "tls_write_response_impl X c = c\<lparr>srv := s, tls_wblock := w, tls_wbig := tls_wbig c, tls := Some s0,
        uv := uv c @ [UvClose]\<rparr>"
      using failed tls by (simp add: impl uv_close_def)
    moreover have "length w \<le> TLS_WSEG_MAX" using failed(2) free by (simp add: sizes)
    ultimately show ?thesis by blast
  next
    case (ok s seg big)
    let ?c2 = "c\<lparr>srv := s, tls_wblock := [seg], tls_wbig := big\<rparr>"
    have op: "opens s0 (wire ?c2) (take 0 (concat vec)) (the (tls ?c2))"
      using rl tls ok(2) by (simp add: record_layer_def wire_def)
    obtain r s' w t where wl: "write_loop X oversized oh vec tot 0 0 0 ?c2 = (r, ?c2\<lparr>srv := s', tls_wblock := w, tls := Some t\<rparr>)"
      "r \<noteq> WOverrun" "length w \<le> TLS_WSEG_MAX"
      "r = WDone \<longrightarrow> opens s0 (concat (map (\<lambda>seg. pb_data (seg_buf seg)) w)) (concat vec) t"
      using write_loop_sound [OF rl _ _ cur_start(1) cur_start(2) d(2) _ _ _ op, of oversized oh] tls resp_vec_two [of c]
      by (auto simp: sizes d(1))
    show ?thesis
    proof (cases r)
      case WDone
      let ?data = "concat (map (\<lambda>seg. uv_buf (pb_data (seg_buf seg))) w)"
      let ?ok = "uv_write_ok X (uv c)"
      have "(\<forall>seg \<in> set w. length (pb_data (seg_buf seg)) < 2 ^ 32) \<longrightarrow>
          opens s0 ?data (take (nat (resp_hdr_len c)) (resp_hdr c) @ resp_body_bytes c) t"
        using wl(4) WDone by (auto simp: uv_buf_id concat_resp_vec [symmetric] d(1) cong: map_cong)
      moreover have "tls_write_response_impl X c = c\<lparr>srv := s', tls_wblock := w, tls_wbig := big, tls := Some t,
          uv := uv c @ [UvWrite ?data OnWrite ?ok]\<rparr>"
        using ok(1) wl(1) WDone by (simp add: impl send_chain_def uv_write_def Let_def)
      ultimately show ?thesis using wl(3) by blast
    next
      case WAbandon
      then have "tls_write_response_impl X c = c\<lparr>srv := s', tls_wblock := w, tls_wbig := big, tls := Some t,
          uv := uv c @ [UvClose]\<rparr>"
        using ok(1) wl(1) by (simp add: impl uv_close_def)
      then show ?thesis using wl(3) by blast
    qed (use wl(2) in simp)
  qed
qed

text \<open>
  C9. The encrypted write is sound whatever fails. On a TLS connection whose previous response has
  been released, \<open>tls_write_response_impl\<close> makes exactly one libuv call: either it closes the
  connection (no block, no oversized buffer, or picotls refused) and writes nothing, or it makes one
  write, completed by \<open>on_write\<close>, of ciphertext that opens to the response header followed by the body,
  all of it and nothing else. It never reads past the two vectors, never cuts a record into more pieces
  than \<open>part\<close> holds and never uses more than \<open>TLS_WSEG_MAX\<close> segments (the size of the \<open>uvbufs\<close> array): the log
  gets no \<open>OutOfBounds\<close>, whatever picotls does. It changes nothing of the connection
  but the chain, the pools, the TLS state and the libuv log. The one limit is that of \<open>uv_buf_init\<close>:
  a segment of 4 GiB or more would be cut.
\<close>

theorem tls_write_response_sound:
  assumes rl: "record_layer X opens" and tls: "tls c = Some s0" and free: "tls_wblock c = []"
  shows "\<exists>s w big t call.
      tls_write_response_impl X c
        = c\<lparr>srv := s, tls_wblock := w, tls_wbig := big, tls := Some t, uv := uv c @ [call]\<rparr>
      \<and> call \<noteq> OutOfBounds \<and> length w \<le> TLS_WSEG_MAX
      \<and> (call = UvClose
         \<or> (\<exists>data ok. call = UvWrite data OnWrite ok
              \<and> ((\<forall>seg \<in> set w. length (pb_data (seg_buf seg)) < 2 ^ 32) \<longrightarrow>
                   opens s0 data (take (nat (resp_hdr_len c)) (resp_hdr c) @ resp_body_bytes c) t)))"
  using write_response_impl_sound [OF assms] by fastforce

text \<open>A record layer that leaves the plaintext as it is and adds no framing, to instantiate the parameter with.\<close>

definition null_ext :: "nat ext" where
  "null_ext = sample_ext
     \<lparr>ptls_send_v := (\<lambda>s buf parts. (0, s, buf\<lparr>pb_data := pb_data buf @ concat parts\<rparr>)),
      ptls_record_overhead := (\<lambda>_. 0)\<rparr>"

lemma null_record_layer: "record_layer null_ext (\<lambda>s ct pt s'. ct = pt)"
  by (simp add: record_layer_def null_ext_def)

definition sample_response :: "nat conn" where
  "sample_response = sample_conn\<lparr>tls := Some 0, resp_hdr_len := 2, resp_body := Some (PyBytes True ''body'')\<rparr>"

theorem tls_write_response_sound_witness:
  "\<exists>s w big t call.
      tls_write_response_impl null_ext sample_response
        = sample_response\<lparr>srv := s, tls_wblock := w, tls_wbig := big, tls := Some t,
            uv := uv sample_response @ [call]\<rparr>
      \<and> call \<noteq> OutOfBounds \<and> length w \<le> TLS_WSEG_MAX
      \<and> (call = UvClose
         \<or> (\<exists>data ok. call = UvWrite data OnWrite ok
              \<and> ((\<forall>seg \<in> set w. length (pb_data (seg_buf seg)) < 2 ^ 32) \<longrightarrow> data = [NUL, NUL] @ ''body'')))"
proof -
  have f: "tls sample_response = Some 0" "tls_wblock sample_response = []"
    "take (nat (resp_hdr_len sample_response)) (resp_hdr sample_response) @ resp_body_bytes sample_response
      = [NUL, NUL] @ ''body''"
    by (simp_all add: sample_response_def sample_conn_def resp_body_bytes_def RESP_HDR_SIZE_def numeral_2_eq_2)
  show ?thesis using tls_write_response_sound [OF null_record_layer f(1,2)] unfolding f(3) .
qed

lemma response_start_ok:
  assumes "\<forall>n. malloc_ok X n"
  shows "\<exists>s seg. response_start X oversized need c
      = (True, c\<lparr>srv := s, tls_wblock := [seg], tls_wbig := (if oversized then tls_wbig (snd (response_start X oversized need c)) else tls_wbig c)\<rparr>)
    \<and> pb_data (seg_buf seg) = [] \<and> \<not> pb_allocated (seg_buf seg)
    \<and> (oversized \<longrightarrow> need \<le> pb_capacity (seg_buf seg)) \<and> (\<not> oversized \<longrightarrow> seg_ok seg)"
proof -
  obtain b s where g: "tls_wbuf_get X (srv c) = (Some b, s)" using wbuf_get_succeeds [OF assms] by blast
  obtain w cap s' where h: "tls_bigbuf_get X need s = ((Some w, cap), s')" "need \<le> cap"
    using bigbuf_get_succeeds [OF assms] by blast
  show ?thesis
  proof (cases oversized)
    case True
    then show ?thesis using g h
      by (intro exI [of _ s'] exI [of _ "(tls_wseg_open b)\<lparr>seg_buf := \<lparr>pb_base = Block w, pb_data = [],
          pb_capacity = cap, pb_allocated = False\<rparr>\<rparr>"])
        (simp add: response_start_def set_seg_buf_def)
  next
    case False
    then show ?thesis using g
      by (intro exI [of _ s] exI [of _ "tls_wseg_open b"])
        (simp add: response_start_def tls_wseg_open_def seg_ok_def)
  qed
qed

text \<open>
  C10. No allocation by picotls in the steady state. When memory is available, records have the sizes of
  \<open>record_sizes\<close> (at most 512 bytes of framing per 16384), and no KeyUpdate falls due within the records of
  this response, the response is written, not dropped; no segment's buffer is replaced by an allocation of
  picotls's; and the number of segments is at most the number of records, each filled within the capacity
  that picotls was offered: a block of \<open>TLS_WBUF_SIZE\<close> bytes, or the oversized buffer, whose size
  \<open>tls_encrypted_size\<close> never under-counts. A KeyUpdate that is due takes room of its own and may make picotls
  replace a buffer or refuse: then C9 and C11 say what is left, a write or a close with every block
  accounted for.
\<close>

theorem tls_write_response_fits:
  assumes mem: "\<forall>n. malloc_ok X n" and sz: "record_sizes X oh quota" and oh: "oh \<le> 512"
    and tls: "tls c = Some s0" and o: "ptls_record_overhead X s0 = oh"
    and quota: "tls_record_count (length (concat (resp_vec c))) \<le> quota s0"
  shows "\<exists>data ok. uv (tls_write_response_impl X c) = uv c @ [UvWrite data OnWrite ok]
    \<and> (\<forall>seg \<in> set (tls_wblock (tls_write_response_impl X c)).
         \<not> pb_allocated (seg_buf seg) \<and> length (pb_data (seg_buf seg)) \<le> pb_capacity (seg_buf seg))
    \<and> length (tls_wblock (tls_write_response_impl X c)) \<le> max 1 (tls_record_count (length (concat (resp_vec c))))"
proof -
  define vec tot oversized where d: "vec = resp_vec c" "tot = length (concat vec)"
    "oversized = (tls_record_count tot > TLS_WSEG_MAX)"
  have oc: "ptls_record_overhead X (the (tls c)) = oh" using tls o by simp
  have two: "length vec \<le> 2" using resp_vec_two [of c] by (simp add: d)
  have qt: "tls_record_count tot \<le> quota s0" using quota by (simp add: d)
  note impl = tls_write_response_impl_eq [of X c, unfolded Let_def oc, folded d(1), folded d(2), folded d(3)]
  obtain s seg big where st: "response_start X oversized (tls_encrypted_size tot oh) c
      = (True, c\<lparr>srv := s, tls_wblock := [seg], tls_wbig := big\<rparr>)"
    "pb_data (seg_buf seg) = []" "\<not> pb_allocated (seg_buf seg)"
    "oversized \<longrightarrow> tls_encrypted_size tot oh \<le> pb_capacity (seg_buf seg)" "\<not> oversized \<longrightarrow> seg_ok seg"
    using response_start_ok [OF mem, of oversized "tls_encrypted_size tot oh" c] by blast
  let ?c2 = "c\<lparr>srv := s, tls_wblock := [seg], tls_wbig := big\<rparr>"
  have "\<exists>c3. write_loop X oversized oh vec tot 0 0 0 ?c2 = (WDone, c3) \<and> uv c3 = uv c
      \<and> (\<forall>seg \<in> set (tls_wblock c3). \<not> pb_allocated (seg_buf seg) \<and> length (pb_data (seg_buf seg)) \<le> pb_capacity (seg_buf seg))
      \<and> length (tls_wblock c3) \<le> max 1 (tls_record_count tot)"
  proof (cases oversized)
    case False
    then have "tls_record_count tot \<le> TLS_WSEG_MAX" by (simp add: d)
    from write_loop_fits [OF mem sz oh this d(2) two, of ?c2 0 0 0]
    obtain c3 where c3: "write_loop X False oh vec tot 0 0 0 ?c2 = (WDone, c3)"
      "\<forall>seg \<in> set (tls_wblock c3). seg_ok seg" "length (tls_wblock c3) \<le> max 1 (tls_record_count tot)"
      using st False tls qt by (auto simp: cur_start)
    have "uv c3 = uv ?c2"
      using write_loop_uv [of X False oh vec tot 0 0 0 ?c2] c3(1) by simp
    then show ?thesis using False c3 by (auto simp: seg_ok_def)
  next
    case True
    then have tot: "0 < tot" by (auto simp: d(3) tls_record_count_def sizes)
    obtain part i j where sl: "tls_slice vec 0 0 tot = Some (part, i, j)" "concat part = concat vec"
      using tls_slice_exact [OF cur_start(1), of vec tot] cur_start(2) [of vec] d(2) by auto
    have pieces: "length part \<le> 2"
      using slice_two [OF sl(1) cur_start(1) _ two] cur_start(2) [of vec] d(2) by simp
    have due: "0 < quota (the (tls ?c2))" using True qt tls by (simp add: d(3))
    have "length (pb_data (seg_buf seg)) + (length (concat part) + tls_record_count (length (concat part)) * oh)
        \<le> pb_capacity (seg_buf seg)"
      using st(2,4) True mult_le_mono1 [OF record_count_le [of tot], of oh]
      by (simp add: sl(2) d(2) tls_encrypted_size_def)
    then have "\<exists>s' data. ptls_send_v X (the (tls ?c2)) (seg_buf seg) part = (0, s', (seg_buf seg)\<lparr>pb_data := data\<rparr>)
        \<and> length data = length (pb_data (seg_buf seg)) + (length (concat part) + tls_record_count (length (concat part)) * oh)"
      using sz due pieces unfolding record_sizes_def Let_def by blast
    then obtain s' data where sv: "ptls_send_v X (the (tls ?c2)) (seg_buf seg) part = (0, s', (seg_buf seg)\<lparr>pb_data := data\<rparr>)"
      "length data = length (concat part) + tls_record_count (length (concat part)) * oh"
      using st(2) by auto
    let ?c3 = "(set_seg_buf ((seg_buf seg)\<lparr>pb_data := data\<rparr>) ?c2)\<lparr>tls := Some s'\<rparr>"
    have "write_loop X True oh vec tot 0 0 0 ?c2 = (WDone, ?c3)"
      using tot sl(1) sv(1) pieces
      by (simp add: write_loop_step next_chunk_def open_block_def wants_block_def write_loop_end)
    moreover have "length data \<le> pb_capacity (seg_buf seg)"
      using st(2) \<open>length (pb_data (seg_buf seg)) + _ \<le> _\<close> sv(2) by simp
    ultimately show ?thesis using True st(3) by (simp add: set_seg_buf_def)
  qed
  then obtain c3 where c3: "write_loop X oversized oh vec tot 0 0 0 ?c2 = (WDone, c3)" "uv c3 = uv c"
    "\<forall>seg \<in> set (tls_wblock c3). \<not> pb_allocated (seg_buf seg) \<and> length (pb_data (seg_buf seg)) \<le> pb_capacity (seg_buf seg)"
    "length (tls_wblock c3) \<le> max 1 (tls_record_count tot)" by blast
  have "tls_write_response_impl X c = send_chain X c3" by (simp add: impl st(1) c3(1))
  then show ?thesis using c3 by (simp add: send_chain_def uv_write_def Let_def d)
qed

text \<open>
  A record layer to instantiate it with: the state is the quota, framing is 22 bytes a record, and a call that
  finds the quota used up puts a KeyUpdate of 27 bytes in front of its records.
\<close>

definition counting_ext :: "nat ext" where
  "counting_ext = sample_ext
     \<lparr>ptls_send_v := (\<lambda>s buf parts.
        let k = tls_record_count (length (concat parts)); recs = concat parts @ replicate (k * 22) NUL
        in if s = 0 then (0, 2 ^ 24 - k, buf\<lparr>pb_data := pb_data buf @ replicate 27 NUL @ recs\<rparr>)
           else (0, s - k, buf\<lparr>pb_data := pb_data buf @ recs\<rparr>))\<rparr>"

lemma counting_sizes: "record_sizes counting_ext 22 (\<lambda>s. s)"
  by (auto simp: record_sizes_def counting_ext_def Let_def)

definition counted_response :: "nat conn" where
  "counted_response = sample_response\<lparr>tls := Some (2 ^ 24)\<rparr>"

theorem tls_write_response_fits_witness:
  "\<exists>data ok. uv (tls_write_response_impl counting_ext counted_response) = [UvWrite data OnWrite ok]
    \<and> (\<forall>seg \<in> set (tls_wblock (tls_write_response_impl counting_ext counted_response)).
         \<not> pb_allocated (seg_buf seg) \<and> length (pb_data (seg_buf seg)) \<le> pb_capacity (seg_buf seg))
    \<and> length (tls_wblock (tls_write_response_impl counting_ext counted_response)) \<le> 1"
proof -
  have c: "\<forall>n. malloc_ok counting_ext n" "tls counted_response = Some (2 ^ 24)" "uv counted_response = []"
    "ptls_record_overhead counting_ext (2 ^ 24) = 22"
    by (simp_all add: counting_ext_def sample_ext_def counted_response_def sample_response_def sample_conn_def)
  have "length (concat (resp_vec counted_response)) = 6"
    by (simp add: concat_resp_vec counted_response_def sample_response_def sample_conn_def resp_body_bytes_def RESP_HDR_SIZE_def)
  then have r: "tls_record_count (length (concat (resp_vec counted_response))) = 1" by (simp add: record_count_one)
  show ?thesis
    using tls_write_response_fits [OF c(1) counting_sizes _ c(2) c(4)] c(3) r by simp
qed

section \<open>The account of the heap across a write\<close>

lemma wbuf_get_effect:
  assumes "conn_accounted X others c" "pools_ok (srv c)" "tls_wbuf_get X (srv c) = (r, s)"
  shows "accounted X (mset (opt_list r) + (conn_blocks c + others)) s \<and> pools_ok s
    \<and> tls_wbuf_live s = tls_wbuf_live (srv c) + int (length (opt_list r))"
  using wbuf.acc_get [of X "conn_blocks c + others" "srv c" r s] pools_ok_ops(3) [of "srv c" X] assms
  by (auto simp: conn_accounted_def ac_simps tls_wbuf_get_def malloc_def split: list.splits if_splits)

text \<open>What a write keeps: the account, the bounds of the pools, the live count against the chain.\<close>

definition write_inv :: "'p ext \<Rightarrow> nat multiset \<Rightarrow> int \<Rightarrow> 'p conn \<Rightarrow> bool" where
  "write_inv X others k c \<longleftrightarrow> conn_accounted X others c \<and> pools_ok (srv c)
     \<and> tls_wbuf_live (srv c) = int (length (tls_wblock c)) + k"

lemma write_inv_push:
  assumes "write_inv X others k c"
  shows "write_inv X others k (snd (push_block X c))"
proof (cases "tls_wbuf_get X (srv c)")
  case (Pair r s)
  show ?thesis
    using wbuf_get_effect [OF _ _ Pair, of others] assms
    by (cases r) (auto simp: push_block_def Pair write_inv_def conn_accounted_def conn_blocks_def tls_wseg_open_def
        ac_simps)
qed

lemma map_seg_block_set_seg_buf:
  "tls_wblock c \<noteq> [] \<Longrightarrow> map seg_block (tls_wblock (set_seg_buf buf c)) = map seg_block (tls_wblock c)"
  by (cases "tls_wblock c" rule: rev_cases) (auto simp: set_seg_buf_def)

lemma write_inv_send:
  assumes "write_inv X others k c" "tls_wblock c \<noteq> []"
  shows "write_inv X others k ((set_seg_buf buf c)\<lparr>tls := t\<rparr>)"
proof -
  have "length (tls_wblock (set_seg_buf buf c)) = length (tls_wblock c)"
    using map_seg_block_set_seg_buf [OF assms(2), of buf] by (metis length_map)
  then show ?thesis
    using assms map_seg_block_set_seg_buf [OF assms(2), of buf]
    by (simp add: write_inv_def conn_accounted_def conn_blocks_def) (simp add: set_seg_buf_def)
qed

lemma write_inv_loop:
  assumes "write_inv X others k c" "tls_wblock c \<noteq> []" "oversized \<longrightarrow> length (tls_wblock c) = 1"
    "\<not> oversized \<longrightarrow> tls_wbig c = None"
  shows "write_inv X others k (snd (write_loop X oversized rec_oh vec tot off veci vecoff c))
    \<and> chain_ok (snd (write_loop X oversized rec_oh vec tot off veci vecoff c))"
proof -
  let ?Q = "\<lambda>d. write_inv X others k d \<and> tls_wblock d \<noteq> [] \<and> (oversized \<longrightarrow> length (tls_wblock d) = 1)
    \<and> (\<not> oversized \<longrightarrow> tls_wbig d = None)"
  have "?Q (snd (write_loop X oversized rec_oh vec tot off veci vecoff c))"
  proof (rule write_loop_preserves [where Q = ?Q])
    fix n d
    assume "?Q d"
    then show "?Q (snd (open_block X oversized rec_oh n d))"
      using write_inv_push [of X others k d]
      by (auto simp: open_block_def wants_block_def push_block_def split: prod.splits option.splits)
  next
    fix buf s d
    assume "?Q d"
    then show "?Q ((set_seg_buf buf d)\<lparr>tls := Some s\<rparr>)"
      using write_inv_send [where X = X and others = others and k = k and c = d and buf = buf and t = "Some s"] by (auto simp: set_seg_buf_def)
  qed (use assms in auto)
  moreover have "chain_ok d" if "?Q d" for d
  proof (cases oversized)
    case True
    have "big_segs (tls_wbig d) (tls_wblock d) \<le> length (tls_wblock d)"
      by (auto simp: big_segs_def split: option.splits)
    then show ?thesis using that True by (simp add: chain_ok_def)
  qed (use that in \<open>simp add: chain_ok_def big_segs_def\<close>)
  ultimately show ?thesis by blast
qed

lemma response_start_inv:
  assumes "write_inv X others k c" "tls_wblock c = []" "tls_wbig c = None"
    and st: "response_start X oversized need c = (got, d)"
  shows "write_inv X others k d \<and> chain_ok d \<and> (got \<longrightarrow> length (tls_wblock d) = 1)
    \<and> (\<not> oversized \<longrightarrow> tls_wbig d = None)"
proof (cases "tls_wbuf_get X (srv c)")
  case (Pair r s)
  have e: "accounted X (mset (opt_list r) + (conn_blocks c + others)) s" "pools_ok s"
    "tls_wbuf_live s = tls_wbuf_live (srv c) + int (length (opt_list r))"
    using wbuf_get_effect [OF _ _ Pair, of others] assms(1) by (auto simp: write_inv_def)
  show ?thesis
  proof (cases r)
    case None
    then show ?thesis using st Pair e assms
      by (auto simp: response_start_def write_inv_def conn_accounted_def conn_blocks_def chain_ok_def big_segs_def)
  next
    case (Some b)
    obtain r' cap s' where g: "tls_bigbuf_get X need s = ((r', cap), s')" by (metis surj_pair)
    have e': "accounted X (mset (opt_list r') + ({#b#} + (conn_blocks c + others))) s'" "pools_ok s'"
      "tls_wbuf_live s' = tls_wbuf_live s"
      using bigbuf_get_accounted [OF e(1), of need] pools_ok_ops(7) [OF e(2), of X need] g Some
      by (auto simp: tls_bigbuf_get_def malloc_def ac_simps split: if_splits)
    show ?thesis
      using st Pair Some g e e' assms
      by (cases oversized; cases r')
        (auto simp: response_start_def write_inv_def conn_accounted_def conn_blocks_def chain_ok_def
          big_segs_def tls_wseg_open_def set_seg_buf_def ac_simps)
  qed
qed

lemma write_inv_uv [simp]:
  "write_inv X others k (uv_close c) = write_inv X others k c"
  "chain_ok (uv_close c) = chain_ok c"
  "write_inv X others k (snd (uv_write X data cb c)) = write_inv X others k c"
  "chain_ok (snd (uv_write X data cb c)) = chain_ok c"
  "write_inv X others k (stop_reading c) = write_inv X others k c"
  by (simp_all add: uv_close_def uv_write_def stop_reading_def uv_read_stop_def write_inv_def conn_accounted_def
      conn_blocks_def chain_ok_def Let_def)

lemma write_response_impl_inv:
  assumes "write_inv X others k c" "tls_wblock c = []" "tls_wbig c = None"
  shows "write_inv X others k (tls_write_response_impl X c) \<and> chain_ok (tls_write_response_impl X c)"
proof -
  define vec tot oh oversized where d: "vec = resp_vec c" "tot = length (concat vec)"
    "oh = ptls_record_overhead X (the (tls c))" "oversized = (tls_record_count tot > TLS_WSEG_MAX)"
  obtain got c2 where st: "response_start X oversized (tls_encrypted_size tot oh) c = (got, c2)"
    by (cases "response_start X oversized (tls_encrypted_size tot oh) c")
  note impl = tls_write_response_impl_eq [of X c, unfolded Let_def, folded d(1), folded d(2,3), folded d(4)]
  have s: "write_inv X others k c2" "chain_ok c2" "got \<longrightarrow> length (tls_wblock c2) = 1"
    "\<not> oversized \<longrightarrow> tls_wbig c2 = None"
    using response_start_inv [OF assms st] by auto
  obtain r c3 where wl: "write_loop X oversized oh vec tot 0 0 0 c2 = (r, c3)"
    by (cases "write_loop X oversized oh vec tot 0 0 0 c2")
  have "write_inv X others k c3 \<and> chain_ok c3" if got
    using write_inv_loop [OF s(1), of oversized oh vec tot 0 0 0] s(3,4) wl that by fastforce
  then show ?thesis using s st wl
    by (cases got; cases r) (simp_all add: impl send_chain_def)
qed

lemma tls_send_final_inv:
  assumes "write_inv X others k c" "tls_wblock c = []" "tls_wbig c = None"
  shows "write_inv X others k (snd (tls_send_final X data c)) \<and> chain_ok (snd (tls_send_final X data c))"
proof -
  let ?c1 = "stop_reading c"
  have "tls_wblock ?c1 = []" "tls_wbig ?c1 = None"
    using assms(2,3) by (simp_all add: stop_reading_def uv_read_stop_def)
  then have c1: "write_inv X others k ?c1" "tls_wblock ?c1 = []" "tls_wbig ?c1 = None"
    using assms(1) by simp_all
  obtain r s where g: "tls_wbuf_get X (srv ?c1) = (r, s)" by (cases "tls_wbuf_get X (srv ?c1)")
  have p: "push_block X ?c1 = (case r of None \<Rightarrow> (False, ?c1\<lparr>srv := s\<rparr>)
      | Some b \<Rightarrow> (True, ?c1\<lparr>srv := s, tls_wblock := [tls_wseg_open b]\<rparr>))"
    using g c1(2) by (simp add: push_block_def split: option.splits)
  have inv: "write_inv X others k (snd (push_block X ?c1))" using c1(1) by (rule write_inv_push)
  have co: "chain_ok d" if "tls_wbig d = None" for d :: "'a conn"
    using that by (simp add: chain_ok_def big_segs_def)
  show ?thesis
  proof (cases r)
    case None
    then show ?thesis using inv p g c1 co by (auto simp: tls_send_final_def Let_def)
  next
    case (Some b)
    let ?c2 = "?c1\<lparr>srv := s, tls_wblock := [tls_wseg_open b]\<rparr>"
    have i2: "write_inv X others k ?c2" using inv p Some by simp
    have step: "write_inv X others k ((set_seg_buf buf d)\<lparr>tls := t\<rparr>)
        \<and> tls_wblock ((set_seg_buf buf d)\<lparr>tls := t\<rparr>) \<noteq> [] \<and> tls_wbig ((set_seg_buf buf d)\<lparr>tls := t\<rparr>) = None"
      if "write_inv X others k d" "tls_wblock d \<noteq> []" "tls_wbig d = None" for buf t and d
      using write_inv_send [OF that(1,2), where buf = buf and t = t] that(3) by (simp add: set_seg_buf_def)
    note step2 = step [OF i2]
    show ?thesis
      using g Some i2 c1 co step2 step [OF step2 [THEN conjunct1]]
      by (auto simp: tls_send_final_def Let_def split: prod.splits if_splits)
  qed
qed

text \<open>
  C11. Blocks are accounted for across a write, on every path. If every block \<open>malloc\<close> returned is in
  exactly one place and the connection holds no chain, then after \<open>tls_write_response_impl\<close> and after
  \<open>tls_send_final\<close>, whether they wrote, ran out of memory half-way or picotls refused, every block is
  still in exactly one place, the live count still equals the blocks held, the free lists are within
  bounds, and the chain is one that \<open>tls_release_wbuf\<close> gives back completely: releasing it leaves the
  connection with none.
\<close>

theorem tls_write_accounted:
  assumes "write_inv X others k c" and "tls_wblock c = []" and "tls_wbig c = None"
  shows "write_inv X others k (tls_release_wbuf (tls_write_response_impl X c))
    \<and> tls_wblock (tls_release_wbuf (tls_write_response_impl X c)) = []
    \<and> write_inv X others k (tls_release_wbuf (snd (tls_send_final X data c)))
    \<and> tls_wblock (tls_release_wbuf (snd (tls_send_final X data c))) = []"
proof -
  have "write_inv X others k (tls_release_wbuf d) \<and> tls_wblock (tls_release_wbuf d) = []"
    if "write_inv X others k d" "chain_ok d" for d :: "'a conn"
    using that tls_release_wbuf_accounted [of X others d] tls_release_wbuf_live [of d] pools_ok_release_wbuf [of d]
    by (simp add: write_inv_def) (simp add: tls_release_wbuf_def Let_def split: prod.splits)
  then show ?thesis
    using write_response_impl_inv [OF assms] tls_send_final_inv [OF assms, of data] by blast
qed

theorem tls_write_accounted_witness:
  "write_inv null_ext {#} 0 (tls_release_wbuf (tls_write_response_impl null_ext sample_response))
    \<and> tls_wblock (tls_release_wbuf (tls_write_response_impl null_ext sample_response)) = []
    \<and> write_inv null_ext {#} 0 (tls_release_wbuf (snd (tls_send_final null_ext [] sample_response)))
    \<and> tls_wblock (tls_release_wbuf (snd (tls_send_final null_ext [] sample_response))) = []"
  by (rule tls_write_accounted)
    (simp_all add: write_inv_def conn_accounted_def accounted_def conn_blocks_def srv_blocks_def mallocked_def
      pools_ok_def sample_response_def sample_conn_def sample_server_def alloc_ids_0)

end
