(* ===== verification/RespFrame.thy ===== *)
theory RespFrame
  imports TlsWrite
begin

text \<open>
  What the response path leaves alone, on plaintext and on encrypted connections: the input of the
  connection, its control flags, and the configuration of the server. A response is exactly one libuv call,
  a write completed by \<open>on_write\<close> or, on an encrypted connection that cannot send it, a close.
\<close>

section \<open>What is written\<close>

text \<open>The bytes \<open>write_response\<close> hands over on a plaintext connection.\<close>

definition response_text :: "'p conn \<Rightarrow> bytes" where
  "response_text c = take (nat (resp_hdr_len c)) (resp_hdr c) @ resp_body_bytes c"

lemma write_response_plain:
  assumes "tls c = None" "length (resp_hdr c) < 2 ^ 32" "length (resp_body_bytes c) < 2 ^ 32"
  shows "write_response X c = c\<lparr>uv := uv c @ [UvWrite (response_text c) OnWrite (uv_write_ok X (uv c))]\<rparr>"
  using assms by (simp add: write_response_def response_text_def uv_write_def uv_buf_id Let_def)

lemma write_response_once:
  "tls c = None \<Longrightarrow> \<exists>data. write_response X c = c\<lparr>uv := uv c @ [UvWrite data OnWrite (uv_write_ok X (uv c))]\<rparr>"
  by (auto simp: write_response_def uv_write_def Let_def)

section \<open>The server's configuration\<close>

text \<open>The fields of the server a start fills in and nothing changes afterwards.\<close>

definition same_conf :: "server \<Rightarrow> server \<Rightarrow> bool" where
  "same_conf s s' \<longleftrightarrow> asgi_mode s' = asgi_mode s \<and> srv_cache s' = srv_cache s
     \<and> environ_template s' = environ_template s \<and> environ_template_https s' = environ_template_https s
     \<and> asgi_scope_template s' = asgi_scope_template s \<and> asgi_scope_template_https s' = asgi_scope_template_https s"

lemma same_conf_refl [simp]: "same_conf s s"
  by (simp add: same_conf_def)

lemma same_conf_trans: "same_conf a b \<Longrightarrow> same_conf b c \<Longrightarrow> same_conf a c"
  by (simp add: same_conf_def)

lemma same_conf_mode: "same_conf s s' \<Longrightarrow> asgi_mode s' = asgi_mode s"
  by (simp add: same_conf_def)

lemma malloc_conf: "malloc X s = (r, s') \<Longrightarrow> same_conf s s'"
  by (auto simp: malloc_def same_conf_def)

lemma free_conf [simp]: "same_conf s (free b s')  \<longleftrightarrow> same_conf s s'"
  by (simp add: free_def same_conf_def)

lemma wbuf_get_conf: "tls_wbuf_get X s = (r, s') \<Longrightarrow> same_conf s s'"
  by (auto simp: tls_wbuf_get_def malloc_def same_conf_def split: list.splits if_splits)

lemma wbuf_put_conf: "same_conf s (tls_wbuf_put b s)"
  by (simp add: tls_wbuf_put_def free_def same_conf_def Let_def)

lemma bigbuf_get_conf: "tls_bigbuf_get X need s = (r, s') \<Longrightarrow> same_conf s s'"
  by (auto simp: tls_bigbuf_get_def malloc_def same_conf_def split: if_splits)

lemma bigbuf_put_conf: "same_conf s (tls_bigbuf_put b cap s)"
  by (simp add: tls_bigbuf_put_def free_def same_conf_def Let_def split: option.split)

lemma spill_get_conf: "tls_spill_get X s = (r, s') \<Longrightarrow> same_conf s s'"
  by (auto simp: tls_spill_get_def malloc_def same_conf_def split: list.splits)

lemma spill_put_conf: "same_conf s (tls_spill_put b s)"
  by (simp add: tls_spill_put_def free_def same_conf_def)

lemma release_chain_conf: "same_conf s (snd (release_chain big segs returned s))"
proof (induction big segs returned s rule: release_chain.induct)
  case (2 big seg segs returned s)
  define s1 where "s1 = (if pb_base (seg_buf seg) \<noteq> Block (seg_block seg)
      \<and> (case big of Some b \<Rightarrow> pb_base (seg_buf seg) = Block b | None \<Rightarrow> False)
    then tls_bigbuf_put (the big) (pb_capacity (seg_buf seg)) s else s)"
  have "same_conf s s1" by (simp add: s1_def bigbuf_put_conf)
  then have "same_conf s (tls_wbuf_put (seg_block seg) s1)" using same_conf_trans wbuf_put_conf by blast
  moreover have "same_conf (tls_wbuf_put (seg_block seg) s1) (snd (release_chain big (seg # segs) returned s))"
    using 2 unfolding release_chain.simps Let_def s1_def by blast
  ultimately show ?case by (rule same_conf_trans)
qed simp

section \<open>The frame of a response\<close>

definition same_rx :: "'p conn \<Rightarrow> 'p conn \<Rightarrow> bool" where
  "same_rx c c' \<longleftrightarrow> read_buf c' = read_buf c \<and> read_off c' = read_off c \<and> read_len c' = read_len c
     \<and> last_len c' = last_len c \<and> headers_end c' = headers_end c \<and> content_length c' = content_length c
     \<and> req c' = req c \<and> in_flight c' = in_flight c \<and> read_armed c' = read_armed c
     \<and> tls_spill c' = tls_spill c \<and> tls_spill_len c' = tls_spill_len c
     \<and> (tls c' = None \<longleftrightarrow> tls c = None) \<and> tls_hs_done c' = tls_hs_done c \<and> tls_broken c' = tls_broken c
     \<and> same_conf (srv c) (srv c')"

lemma same_rx_refl [simp]: "same_rx c c"
  by (simp add: same_rx_def)

lemma same_rx_trans: "same_rx a b \<Longrightarrow> same_rx b c \<Longrightarrow> same_rx a c"
  unfolding same_rx_def using same_conf_trans by metis

text \<open>The fields of the response and of the application's task.\<close>

definition same_resp :: "'p conn \<Rightarrow> 'p conn \<Rightarrow> bool" where
  "same_resp c c' \<longleftrightarrow> asgi_task c' = asgi_task c \<and> resp_hdr c' = resp_hdr c \<and> resp_hdr_len c' = resp_hdr_len c"

text \<open>The one call a response makes.\<close>

definition response_call :: "'p ext \<Rightarrow> 'p conn \<Rightarrow> uv_call \<Rightarrow> bool" where
  "response_call X c w \<longleftrightarrow> (\<exists>d. w = UvWrite d OnWrite (uv_write_ok X (uv c))) \<or> (w = UvClose \<and> tls c \<noteq> None)"

definition loop_frame :: "'p conn \<Rightarrow> 'p conn \<Rightarrow> bool" where
  "loop_frame c d \<longleftrightarrow> same_rx c d \<and> same_resp c d \<and> uv d = uv c \<and> tls c \<noteq> None"

lemma loop_frame_srv:
  "loop_frame c d \<Longrightarrow> same_conf (srv d) s \<Longrightarrow> loop_frame c (d\<lparr>srv := s, tls_wblock := w\<rparr>)"
  "loop_frame c d \<Longrightarrow> same_conf (srv d) s \<Longrightarrow> loop_frame c (d\<lparr>srv := s\<rparr>)"
  unfolding loop_frame_def same_rx_def same_resp_def using same_conf_trans by force+

lemma loop_frame_send: "loop_frame c d \<Longrightarrow> loop_frame c ((set_seg_buf buf d)\<lparr>tls := Some s\<rparr>)"
  by (simp add: loop_frame_def same_rx_def same_resp_def set_seg_buf_def)

lemma open_block_frame:
  assumes "loop_frame c d"
  shows "loop_frame c (snd (open_block X oversized oh n d))"
proof -
  have "loop_frame c (snd (push_block X d))"
  proof (cases rule: push_block_cases [of X d])
    case (failed s)
    then show ?thesis using loop_frame_srv(2) [OF assms wbuf_get_conf [OF failed(2)]] by simp
  next
    case (ok b s)
    then show ?thesis using loop_frame_srv(1) [OF assms wbuf_get_conf [OF ok(2)]] by simp
  qed
  then show ?thesis using assms by (simp add: open_block_def)
qed

lemma response_start_frame:
  assumes "tls c \<noteq> None" "response_start X oversized need c = (got, d)"
  shows "loop_frame c d"
proof -
  obtain r s where g: "tls_wbuf_get X (srv c) = (r, s)" by (cases "tls_wbuf_get X (srv c)")
  note s = wbuf_get_conf [OF g]
  have f: "loop_frame c d'" if "d' = c\<lparr>srv := t, tls_wblock := w, tls_wbig := big\<rparr>" "same_conf (srv c) t" for d' t w big
    using that assms(1) by (simp add: loop_frame_def same_rx_def same_resp_def)
  obtain r' cap s' where g': "tls_bigbuf_get X need s = ((r', cap), s')" by (metis surj_pair)
  have "srv d = s \<or> srv d = s'"
    using assms(2) g g'
    by (auto simp: response_start_def Let_def set_seg_buf_def split: option.splits if_splits)
  then have sc: "same_conf (srv c) (srv d)" using s same_conf_trans [OF s bigbuf_get_conf [OF g']] by auto
  show ?thesis
  proof (cases rule: response_start_cases [of X oversized need c])
    case (failed t w)
    then have "d = c\<lparr>srv := t, tls_wblock := w\<rparr>" using assms(2) by simp
    then show ?thesis using sc by (intro f [where d' = d and t = t and w = w and big = "tls_wbig c"]) simp_all
  next
    case (ok t seg big)
    then have "d = c\<lparr>srv := t, tls_wblock := [seg], tls_wbig := big\<rparr>" using assms(2) by simp
    then show ?thesis using sc by (intro f [where d' = d and t = t and w = "[seg]" and big = big]) simp_all
  qed
qed

lemma response_shape_end:
  assumes "loop_frame c d" "d' = uv_close d \<or> d' = send_chain X d"
  shows "same_rx c d' \<and> same_resp c d' \<and> (\<exists>w. response_call X c w \<and> uv d' = uv c @ [w])"
  using assms(2)
proof
  assume "d' = uv_close d"
  then show ?thesis using assms(1)
    by (auto simp: loop_frame_def same_rx_def same_resp_def response_call_def uv_close_def)
next
  assume "d' = send_chain X d"
  then show ?thesis using assms(1)
    by (auto simp: loop_frame_def same_rx_def same_resp_def response_call_def send_chain_def uv_write_def Let_def)
qed

lemma write_response_shape:
  "same_rx c (write_response X c) \<and> same_resp c (write_response X c)
   \<and> (\<exists>w. response_call X c w \<and> uv (write_response X c) = uv c @ [w])"
proof (cases "tls c = None")
  case True
  then obtain d where "write_response X c = c\<lparr>uv := uv c @ [UvWrite d OnWrite (uv_write_ok X (uv c))]\<rparr>"
    using write_response_once by blast
  then show ?thesis by (auto simp: same_rx_def same_resp_def response_call_def)
next
  case False
  define vec tot oh oversized where d: "vec = resp_vec c" "tot = length (concat vec)"
    "oh = ptls_record_overhead X (the (tls c))" "oversized = (tls_record_count tot > TLS_WSEG_MAX)"
  obtain got c2 where st: "response_start X oversized (tls_encrypted_size tot oh) c = (got, c2)"
    by (cases "response_start X oversized (tls_encrypted_size tot oh) c")
  note impl = tls_write_response_impl_eq [of X c, unfolded Let_def, folded d(1), folded d(2,3), folded d(4)]
  have f2: "loop_frame c c2" using response_start_frame [OF False st] .
  obtain r c3 where wl: "write_loop X oversized oh vec tot 0 0 0 c2 = (r, c3)"
    by (cases "write_loop X oversized oh vec tot 0 0 0 c2")
  have f3: "loop_frame c c3"
    using write_loop_preserves [where Q = "loop_frame c", OF open_block_frame loop_frame_send f2,
        of X oversized oh vec tot 0 0 0] wl by simp
  have "write_response X c = uv_close c2 \<or> write_response X c = uv_close c3 \<or> write_response X c = send_chain X c3"
    using False st wl by (cases got; cases r) (simp_all add: write_response_def impl)
  then show ?thesis using response_shape_end [OF f2] response_shape_end [OF f3] by blast
qed

text \<open>One response was made, and of the rest only response fields and caches changed.\<close>

definition responded :: "'p ext \<Rightarrow> 'p conn \<Rightarrow> 'p conn \<Rightarrow> bool" where
  "responded X c c' \<longleftrightarrow> same_rx c c' \<and> (\<exists>w. response_call X c w \<and> uv c' = uv c @ [w])"

lemma write_response_responded:
  assumes "same_rx c d" "uv d = uv c"
  shows "responded X c (write_response X d)"
proof -
  obtain w where w: "response_call X d w" "uv (write_response X d) = uv d @ [w]" "same_rx d (write_response X d)"
    using write_response_shape [of d X] by blast
  have "response_call X c w" using w(1) assms by (auto simp: response_call_def same_rx_def)
  then show ?thesis using w assms same_rx_trans by (auto simp: responded_def)
qed

lemma response_rx: "same_rx c d \<Longrightarrow> same_rx c (write_response X d)"
  using same_rx_trans write_response_shape by blast

section \<open>Delivery\<close>

text \<open>
  A connection a response can be written on: plaintext, or an encrypted one whose last response has been
  released, over a record layer as documented.
\<close>

definition channel :: "'p ext \<Rightarrow> ('p \<Rightarrow> bytes \<Rightarrow> bytes \<Rightarrow> 'p \<Rightarrow> bool) \<Rightarrow> 'p conn \<Rightarrow> bool" where
  "channel X opens c \<longleftrightarrow> tls c = None \<or> (record_layer X opens \<and> tls_wblock c = [])"

text \<open>
  The text \<open>t\<close> leaves on \<open>c\<close>, as it is or as ciphertext that opens to it; an encrypted connection may be
  closed instead. As in C9, no block reaches 4 GiB.
\<close>

definition delivers :: "'p ext \<Rightarrow> ('p \<Rightarrow> bytes \<Rightarrow> bytes \<Rightarrow> 'p \<Rightarrow> bool) \<Rightarrow> 'p conn \<Rightarrow> bytes \<Rightarrow> 'p conn \<Rightarrow> bool" where
  "delivers X opens c t c' \<longleftrightarrow>
     (case tls c of
        None \<Rightarrow> uv c' = uv c @ [UvWrite t OnWrite (uv_write_ok X (uv c))]
      | Some s \<Rightarrow> uv c' = uv c @ [UvClose]
          \<or> (\<exists>data s'. uv c' = uv c @ [UvWrite data OnWrite (uv_write_ok X (uv c))] \<and> tls c' = Some s'
               \<and> ((\<forall>seg \<in> set (tls_wblock c'). length (pb_data (seg_buf seg)) < 2 ^ 32) \<longrightarrow> opens s data t s')))"

lemma write_response_delivers:
  assumes "channel X opens c" "tls d = tls c" "uv d = uv c" "tls_wblock d = tls_wblock c"
    "length (resp_hdr d) < 2 ^ 32" "length (resp_body_bytes d) < 2 ^ 32"
  shows "delivers X opens c (response_text d) (write_response X d)"
proof (cases "tls c")
  case None
  then show ?thesis using write_response_plain [of d X] assms(2,3,5,6) by (simp add: delivers_def)
next
  case (Some s0)
  then have rl: "record_layer X opens" "tls d = Some s0" "tls_wblock d = []" using assms by (simp_all add: channel_def)
  obtain w where w: "response_call X d w" "uv (write_response X d) = uv d @ [w]" using write_response_shape by blast
  have e: "write_response X d = tls_write_response_impl X d" using rl(2) by (simp add: write_response_def)
  obtain s b big t call where i: "write_response X d
      = d\<lparr>srv := s, tls_wblock := b, tls_wbig := big, tls := Some t, uv := uv d @ [call]\<rparr>"
    "call = UvClose \<or> (\<exists>data ok. call = UvWrite data OnWrite ok
        \<and> ((\<forall>seg \<in> set b. length (pb_data (seg_buf seg)) < 2 ^ 32) \<longrightarrow> opens s0 data (response_text d) t))"
    using write_response_impl_sound [OF rl] unfolding e response_text_def by blast
  have "call = w" using i(1) w(2) by simp
  then show ?thesis using i w Some assms(3) by (auto simp: delivers_def response_call_def)
qed

end
