(* ===== verification/Environ.thy ===== *)
theory Environ
  imports Client
begin

text \<open>
  The WSGI environ, \<^verbatim>\<open>freastal/src/wsgi.c\<close>: the template dictionaries built at start-up
  (\<open>environ_template_new\<close>, \<open>environ_template_build\<close>, \<open>wsgi_init_environ_template\<close>), the interned
  values they hold (\<open>init_wsgi_keys\<close> of \<^verbatim>\<open>server.c\<close>), and \<open>build_environ\<close>, which copies a template
  and fills in one request.

  The allocations of the start-up code are the parameter \<open>ok\<close>, \<open>sys.getsizeof\<close> is a function of the
  number of the call (its answer depends on the history of the dictionary), \<open>None\<close> when it is
  unavailable, and a negative answer is the \<open>-1\<close> of \<open>dict_alloc_size\<close>.
\<close>

section \<open>Definitions\<close>

record wsgi_keys =
  server_name_val :: pyobj
  server_port_val :: pyobj

definition ascii_str :: "string \<Rightarrow> pyobj" where
  "ascii_str s = PyStr (latin1 s)"

text \<open>\<open>snprintf("%d", port)\<close>\<close>

definition fmt_int :: "int \<Rightarrow> bytes" where
  "fmt_int n = (if n < 0 then ''-'' @ dec (nat (- n)) else dec (nat n))"

definition init_wsgi_keys :: "bool \<Rightarrow> bytes \<Rightarrow> int \<Rightarrow> wsgi_keys option" where
  "init_wsgi_keys ok host port =
     (if \<not> ok then None
      else case utf8_decode host of
          None \<Rightarrow> None
        | Some h \<Rightarrow> Some \<lparr>server_name_val = PyStr h, server_port_val = ascii_str (fmt_int port)\<rparr>)"

text \<open>\<open>sys.stderr\<close> when the interpreter has one; the object is opaque.\<close>

definition sys_stderr :: pyobj where
  "sys_stderr = PyObject 2"

text \<open>The entries \<open>TSET\<close> puts in the template, in order.\<close>

definition template_entries :: "wsgi_keys \<Rightarrow> bool \<Rightarrow> pyobj \<Rightarrow> pydict" where
  "template_entries k have_stderr url_scheme =
     [(''wsgi.version'', PyTuple True [PyInt 1, PyInt 0]),
      (''wsgi.url_scheme'', url_scheme),
      (''wsgi.multithread'', PyBool False),
      (''wsgi.multiprocess'', PyBool True),
      (''wsgi.run_once'', PyBool False),
      (''SERVER_NAME'', server_name_val k),
      (''SERVER_PORT'', server_port_val k),
      (''SERVER_SOFTWARE'', ascii_str ''freastal/1.0''),
      (''SCRIPT_NAME'', ascii_str '''')]
     @ (if have_stderr then [(''wsgi.errors'', sys_stderr)] else [])
     @ [(''REQUEST_METHOD'', PyNone),
        (''PATH_INFO'', PyNone),
        (''QUERY_STRING'', PyNone),
        (''SERVER_PROTOCOL'', PyNone),
        (''REMOTE_ADDR'', PyNone),
        (''wsgi.input'', PyNone)]"

definition tset_all :: "pydict \<Rightarrow> pydict \<Rightarrow> pydict" where
  "tset_all entries d = fold (\<lambda>(k, v) d. AList.update k v d) entries d"

definition pad_name :: "nat \<Rightarrow> string" where
  "pad_name i = ''__freastal_pad_'' @ dec i @ ''__''"

definition ENVIRON_TEMPLATE_MAX_PAD :: nat where
  "ENVIRON_TEMPLATE_MAX_PAD = 64"

text \<open>
  \<open>dict_alloc_size\<close>: \<open>r\<close> is what the call of \<open>sys.getsizeof\<close> returned, \<open>None\<close> when it raised; a result that
  is no integer in the range of \<open>Py_ssize_t\<close> is \<open>-1\<close> as well. In the functions below \<open>getsizeof\<close> and \<open>probe\<close>
  are its results.
\<close>

definition dict_alloc_size :: "pyobj option \<Rightarrow> int" where
  "dict_alloc_size r =
     (case r of Some (PyInt n) \<Rightarrow> if - (2 ^ 63) \<le> n \<and> n < 2 ^ 63 then n else - 1 | _ \<Rightarrow> - 1)"

text \<open>
  The padding loop: insert and delete a key until the table has grown. \<open>pad_ok i\<close> says whether the
  object and the two dictionary operations of round \<open>i\<close> succeed; when the deletion fails the key stays.
\<close>

datatype pad_result = PadDone | PadNoObject | PadNotDeleted

function pad_loop :: "(nat \<Rightarrow> pad_result) \<Rightarrow> (nat \<Rightarrow> int) \<Rightarrow> int \<Rightarrow> nat \<Rightarrow> pydict \<Rightarrow> pydict" where
  "pad_loop pad_ok getsizeof base i t =
     (if i \<ge> ENVIRON_TEMPLATE_MAX_PAD then t
      else case pad_ok i of
          PadNoObject \<Rightarrow> t
        | PadNotDeleted \<Rightarrow> AList.update (pad_name i) PyNone t
        | PadDone \<Rightarrow>
            let t' = AList.delete (pad_name i) (AList.update (pad_name i) PyNone t);
                now = getsizeof (Suc i)
            in if now < 0 \<or> now > base then t' else pad_loop pad_ok getsizeof base (Suc i) t')"
  by pat_completeness auto
termination
  by (relation "measure (\<lambda>(pad_ok, getsizeof, base, i, t). ENVIRON_TEMPLATE_MAX_PAD - i)") auto

declare pad_loop.simps [simp del]

definition environ_template_plain :: "bool \<Rightarrow> wsgi_keys \<Rightarrow> bool \<Rightarrow> pyobj \<Rightarrow> pydict option" where
  "environ_template_plain ok k have_stderr url_scheme =
     (if ok then Some (tset_all (template_entries k have_stderr url_scheme) []) else None)"

text \<open>The recursive call of \<open>environ_template_new\<close> is the one with \<open>getsizeof == NULL\<close>.\<close>

definition environ_template_new ::
  "bool \<Rightarrow> (nat \<Rightarrow> pad_result) \<Rightarrow> wsgi_keys \<Rightarrow> bool \<Rightarrow> pyobj \<Rightarrow> (nat \<Rightarrow> int) option \<Rightarrow> pydict option" where
  "environ_template_new ok pad_ok k have_stderr url_scheme getsizeof =
     (case environ_template_plain ok k have_stderr url_scheme of
        None \<Rightarrow> None
      | Some t \<Rightarrow>
          (case getsizeof of
             None \<Rightarrow> Some t
           | Some g \<Rightarrow>
               let nreal = length t; base = g 0
               in if base < 0 then Some t
                  else let t' = pad_loop pad_ok g base 0 t
                       in if length t' \<noteq> nreal then environ_template_plain ok k have_stderr url_scheme
                          else Some t'))"

text \<open>\<open>probe\<close> is the pair of sizes the self-check measures, \<open>None\<close> when the copy failed.\<close>

definition environ_template_build ::
  "bool \<Rightarrow> (nat \<Rightarrow> pad_result) \<Rightarrow> wsgi_keys \<Rightarrow> bool \<Rightarrow> pyobj \<Rightarrow> (nat \<Rightarrow> int) option \<Rightarrow> (int \<times> int) option
    \<Rightarrow> pydict option" where
  "environ_template_build ok pad_ok k have_stderr url_scheme getsizeof probe =
     (case environ_template_new ok pad_ok k have_stderr url_scheme getsizeof of
        None \<Rightarrow> None
      | Some t \<Rightarrow>
          if getsizeof = None then Some t
          else (case probe of
              None \<Rightarrow> Some t
            | Some (a, b) \<Rightarrow>
                if a > 0 \<and> b > 0 \<and> b < a then environ_template_plain ok k have_stderr url_scheme
                else Some t))"

definition wsgi_init_environ_template ::
  "bool \<Rightarrow> (nat \<Rightarrow> pad_result) \<Rightarrow> wsgi_keys \<Rightarrow> bool \<Rightarrow> (nat \<Rightarrow> int) option \<Rightarrow> (int \<times> int) option \<Rightarrow> server
    \<Rightarrow> int \<times> server" where
  "wsgi_init_environ_template ok pad_ok k have_stderr getsizeof probe s =
     (let http = environ_template_build ok pad_ok k have_stderr (ascii_str ''http'') getsizeof probe;
          https = environ_template_build ok pad_ok k have_stderr (ascii_str ''https'') getsizeof probe;
          s' = s\<lparr>environ_template := http, environ_template_https := https\<rparr>
      in (if http = None then -1 else if https = None then -1 else 0, s'))"

text \<open>
  \<open>wsgi_header_key\<close>: the key of a header name that is not in the cache. The width of the string
  object is settled by the bits of the name; its characters are the bytes either way.
\<close>

definition wsgi_header_key :: "bytes \<Rightarrow> string" where
  "wsgi_header_key name = ''HTTP_'' @ map key_char name"

text \<open>The name of a header as a byte string; the null name of a continuation line is empty.\<close>

definition name_bytes :: "phr_header \<Rightarrow> bytes" where
  "name_bytes h = (case hname h of None \<Rightarrow> [] | Some n \<Rightarrow> n)"

definition is_name :: "string \<Rightarrow> bytes \<Rightarrow> bool" where
  "is_name lit n \<longleftrightarrow> length n = length lit \<and> strncasecmp_eq n lit (length lit)"

definition header_key :: "hdr_cache \<Rightarrow> bytes \<Rightarrow> string option" where
  "header_key hc n = (case hdr_cache_lookup hc n of Some e \<Rightarrow> wsgi_key e | None \<Rightarrow> Some (wsgi_header_key n))"

text \<open>
  One round of the header loop of \<open>build_environ\<close>. \<open>PyUnicode_FromFormat("%U%s%U")\<close> on a previous value
  that is no \<open>str\<close> would be an error: \<open>None\<close>.
\<close>

definition header_sep :: "bytes \<Rightarrow> bytes" where
  "header_sep n = (if is_name ''cookie'' n then ''; '' else '', '')"

definition add_header :: "hdr_cache \<Rightarrow> pydict \<Rightarrow> phr_header \<Rightarrow> pydict option" where
  "add_header hc env h =
     (let n = name_bytes h; v = latin1 (hvalue h)
      in if is_name ''content-type'' n then Some (AList.update ''CONTENT_TYPE'' (PyStr v) env)
         else if is_name ''content-length'' n then Some (AList.update ''CONTENT_LENGTH'' (PyStr v) env)
         else case header_key hc n of
             None \<Rightarrow> None
           | Some key \<Rightarrow>
               let env' = dict_setdefault key (PyStr v) env
               in if length env' = length env then
                    (case map_of env' key of
                       Some (PyStr prev) \<Rightarrow>
                         Some (AList.update key (PyStr (prev @ latin1 (header_sep n) @ v)) env')
                     | _ \<Rightarrow> None)
                  else Some env')"

fun add_headers :: "hdr_cache \<Rightarrow> phr_header list \<Rightarrow> pydict \<Rightarrow> pydict option" where
  "add_headers hc [] env = Some env"
| "add_headers hc (h # hs) env =
     (case add_header hc env h of None \<Rightarrow> None | Some env' \<Rightarrow> add_headers hc hs env')"

text \<open>\<open>memchr(path, '?', len)\<close>: the part before the first question mark and the part after it.\<close>

definition qmark :: char where "qmark = CHR ''?''"

definition path_part :: "bytes \<Rightarrow> bytes" where
  "path_part p = takeWhile (\<lambda>c. c \<noteq> qmark) p"

definition query_part :: "bytes \<Rightarrow> bytes option" where
  "query_part p = (case dropWhile (\<lambda>c. c \<noteq> qmark) p of [] \<Rightarrow> None | _ # q \<Rightarrow> Some q)"

text \<open>The body bytes of the request in the buffer, as both dispatchers cut them out.\<close>

definition body_bytes :: "'p conn \<Rightarrow> bytes" where
  "body_bytes c =
     (let blen0 = (read_len c - read_off c) - headers_end c;
          blen1 = (if blen0 < 0 then 0 else blen0);
          blen = (if nat blen1 > content_length c then content_length c else nat blen1)
      in take blen (drop (nat (read_off c + headers_end c)) (read_buf c)))"

definition set_request :: "phr_request \<Rightarrow> pydict \<Rightarrow> pydict" where
  "set_request r env0 =
     (let env1 = AList.update ''REQUEST_METHOD'' (PyStr (latin1 (req_method r))) env0;
          env2 = AList.update ''PATH_INFO'' (PyStr (latin1 (path_part (path r)))) env1;
          env3 = AList.update ''QUERY_STRING''
                   (case query_part (path r) of Some q \<Rightarrow> PyStr (latin1 q) | None \<Rightarrow> ascii_str '''') env2
      in AList.update ''SERVER_PROTOCOL''
           (if minor_version r = 1 then ascii_str ''HTTP/1.1'' else ascii_str ''HTTP/1.0'') env3)"

text \<open>
  \<open>build_environ\<close>. The connection comes back too, because the peer address object is cached in it.
  \<open>environ_alloc\<close> says that the Python allocations succeed; a null template, a peer address that does
  not decode and a failed header are the other errors.
\<close>

definition build_environ :: "'p ext \<Rightarrow> 'p conn \<Rightarrow> pydict option \<times> 'p conn" where
  "build_environ X c =
     (case (if tls c \<noteq> None then environ_template_https (srv c) else environ_template (srv c)) of
        None \<Rightarrow> (None, c)
      | Some tmpl \<Rightarrow>
          if \<not> environ_alloc (py_mem X) then (None, c)
          else
            let r = the (req c);
                env4 = set_request r tmpl;
                addr = (case peer_addr_obj c of Some a \<Rightarrow> Some a
                        | None \<Rightarrow> map_option PyStr (utf8_decode (peer_addr c)))
            in case addr of
                 None \<Rightarrow> (None, c)
               | Some a \<Rightarrow>
                   let c' = c\<lparr>peer_addr_obj := Some a\<rparr>;
                       env5 = AList.update ''REMOTE_ADDR'' a env4;
                       env6 = AList.update ''wsgi.input''
                                (PyBytesIO (if content_length c = 0 then [] else body_bytes c)) env5
                   in (add_headers (srv_cache (srv c)) (headers r) env6, c'))"

section \<open>The template\<close>

lemma tset_all_append:
  "distinct (map fst d @ map fst es) \<Longrightarrow> tset_all es d = d @ es"
proof (induction es arbitrary: d)
  case (Cons e es)
  obtain k v where e: "e = (k, v)" by (cases e)
  have "map_of d k = None" using Cons.prems e by (simp add: map_of_eq_None_iff)
  then have "AList.update k v d = d @ [(k, v)]" by (rule update_append_new)
  then show ?case using Cons.IH [of "d @ [(k, v)]"] Cons.prems by (simp add: tset_all_def e)
qed (simp add: tset_all_def)

lemma distinct_template: "distinct (map fst (template_entries k have_stderr url))"
  by (simp add: template_entries_def)

lemma template_hd: "\<forall>key \<in> fst ` set (template_entries k have_stderr url). hd key \<noteq> CHR ''_''"
  by (simp add: template_entries_def)

lemma delete_update_new: "k \<notin> fst ` set t \<Longrightarrow> AList.delete k (AList.update k v t) = t"
  by (induction t) auto

lemma update_new_length: "k \<notin> fst ` set t \<Longrightarrow> length (AList.update k v t) = Suc (length t)"
  by (induction t) auto

lemma pad_loop_cases:
  assumes "\<forall>i. pad_name i \<notin> fst ` set t"
  shows "pad_loop pad_ok g base i t = t \<or> length (pad_loop pad_ok g base i t) \<noteq> length t"
proof (induction "ENVIRON_TEMPLATE_MAX_PAD - i" arbitrary: i)
  case 0
  then show ?case by (simp add: pad_loop.simps)
next
  case (Suc n)
  have d: "AList.delete (pad_name i) (AList.update (pad_name i) PyNone t) = t"
    "length (AList.update (pad_name i) PyNone t) = Suc (length t)"
    using assms by (simp_all add: delete_update_new update_new_length)
  have "pad_loop pad_ok g base (Suc i) t = t \<or> length (pad_loop pad_ok g base (Suc i) t) \<noteq> length t"
    using Suc.hyps(2) by (intro Suc.hyps(1)) simp
  then show ?case by (subst pad_loop.simps, subst (2) pad_loop.simps) (simp add: d Let_def split: pad_result.splits)
qed

lemma pad_name_fresh: "\<forall>i. pad_name i \<notin> fst ` set (template_entries k have_stderr url)"
proof
  fix i
  have "hd (pad_name i) = CHR ''_''" by (simp add: pad_name_def)
  then show "pad_name i \<notin> fst ` set (template_entries k have_stderr url)"
    using template_hd [of k have_stderr url] by blast
qed

lemma environ_template_plain_eq:
  "environ_template_plain True k have_stderr url = Some (template_entries k have_stderr url)"
  using distinct_template [of k have_stderr url] tset_all_append [of "[]"] by (simp add: environ_template_plain_def)

lemma environ_template_new_eq:
  "environ_template_new True pad_ok k have_stderr url getsizeof = Some (template_entries k have_stderr url)"
  using pad_loop_cases [OF pad_name_fresh, of pad_ok _ _ 0 k have_stderr url]
  by (auto simp: environ_template_new_def environ_template_plain_eq Let_def split: option.splits)

lemma environ_template_build_eq:
  "environ_template_build True pad_ok k have_stderr url getsizeof probe = Some (template_entries k have_stderr url)"
  by (auto simp: environ_template_build_def environ_template_new_eq environ_template_plain_eq split: option.splits)

section \<open>Header keys\<close>

lemma map_of_update [simp]: "map_of (AList.update k v d) k' = (if k' = k then Some v else map_of d k')"
  by (simp add: update_conv')

definition http_key :: "string \<Rightarrow> bool" where
  "http_key K \<longleftrightarrow> take 5 K = ''HTTP_''"

lemma http_key_cached [simp]: "http_key (cached_key n)"
  by (simp add: http_key_def cached_key_def)

definition key_sep :: "string \<Rightarrow> bytes" where
  "key_sep K = (if K = ''HTTP_COOKIE'' then ''; '' else '', '')"

lemma key_char_upper:
  assumes "97 \<le> byte l" "byte l \<le> 122" and u: "byte u = byte l - 32"
  shows "ascii_lower c = l \<longleftrightarrow> key_char c = u"
proof -
  have b: "d = e \<longleftrightarrow> byte d = byte e" for d e :: char by simp
  have k: "byte (key_char c) = (if 97 \<le> byte c \<and> byte c \<le> 122 then byte c - 32 else if byte c = 45 then 95 else byte c)"
    using of_char_eq_iff [of c "CHR ''-''", where 'a = nat] byte_lt_256 [of c]
    by (auto simp: key_char_def of_char_of)
  show ?thesis using assms(1,2) unfolding b [of _ l] b [of _ u] byte_ascii_lower k u
    by (auto simp del: of_char_eq_iff)
qed

lemma is_name_iff: "is_name lit n \<longleftrightarrow> map ascii_lower n = map ascii_lower lit"
proof
  assume "is_name lit n"
  then show "map ascii_lower n = map ascii_lower lit" by (auto simp: is_name_def strncasecmp_eq_def)
next
  assume a: "map ascii_lower n = map ascii_lower lit"
  then have "length n = length lit" by (metis length_map)
  with a show "is_name lit n" by (simp add: is_name_def strncasecmp_eq_def)
qed

lemma is_cookie: "is_name ''cookie'' n \<longleftrightarrow> cached_key n = ''HTTP_COOKIE''"
proof -
  have lower: "map ascii_lower ''cookie'' = ''cookie''" by (simp add: ascii_lower_def)
  have eq: "ascii_lower c = l \<longleftrightarrow> key_char c = u"
    if "(l, u) \<in> {(CHR ''c'', CHR ''C''), (CHR ''o'', CHR ''O''), (CHR ''k'', CHR ''K''), (CHR ''i'', CHR ''I''),
      (CHR ''e'', CHR ''E'')}" for c l u
    using that by (intro key_char_upper) auto
  have "map ascii_lower n = ''cookie'' \<longleftrightarrow> map key_char n = ''COOKIE''"
    by (simp add: map_eq_Cons_conv eq)
  then show ?thesis unfolding is_name_iff lower by (simp add: cached_key_def)
qed

lemma header_sep_key: "header_sep n = key_sep (cached_key n)"
  by (simp add: header_sep_def key_sep_def is_cookie)

lemma wsgi_header_key_cached: "wsgi_header_key n = cached_key n"
  by (simp add: wsgi_header_key_def cached_key_def)

section \<open>The header loop\<close>

text \<open>The headers that become \<open>HTTP_\<close> keys, and the values the request carries for one key.\<close>

definition general_header :: "phr_header \<Rightarrow> bool" where
  "general_header h \<longleftrightarrow> \<not> is_name ''content-type'' (name_bytes h) \<and> \<not> is_name ''content-length'' (name_bytes h)"

definition values_of :: "string \<Rightarrow> phr_header list \<Rightarrow> pystr list" where
  "values_of K hs = [latin1 (hvalue h). h \<leftarrow> hs, general_header h \<and> cached_key (name_bytes h) = K]"

lemma values_of_simps [simp]:
  "values_of K [] = []"
  "values_of K (h # hs) = (if general_header h \<and> cached_key (name_bytes h) = K
     then latin1 (hvalue h) # values_of K hs else values_of K hs)"
  by (simp_all add: values_of_def)

text \<open>What RFC 9110 says repeated field lines mean: their values joined, in order.\<close>

definition join_more :: "bytes \<Rightarrow> pystr list \<Rightarrow> pystr" where
  "join_more sep vs = concat (map (\<lambda>v. latin1 sep @ v) vs)"

definition join_values :: "bytes \<Rightarrow> pystr list \<Rightarrow> pystr option" where
  "join_values sep vs = (case vs of [] \<Rightarrow> None | v # ws \<Rightarrow> Some (v @ join_more sep ws))"

fun str_of :: "pyobj \<Rightarrow> pystr" where
  "str_of (PyStr s) = s"
| "str_of _ = []"

definition str_http :: "pydict \<Rightarrow> bool" where
  "str_http env \<longleftrightarrow> (\<forall>K. http_key K \<longrightarrow> map_of env K = None \<or> (\<exists>s. map_of env K = Some (PyStr s)))"

lemma str_http_cases:
  "str_http env \<Longrightarrow> http_key K \<Longrightarrow> map_of env K = None \<or> (\<exists>s. map_of env K = Some (PyStr s))"
  by (simp add: str_http_def)

definition last_value :: "string \<Rightarrow> phr_header list \<Rightarrow> pyobj option \<Rightarrow> pyobj option" where
  "last_value lit hs d =
     (case filter (\<lambda>h. is_name lit (name_bytes h)) hs of [] \<Rightarrow> d
      | hs' \<Rightarrow> Some (PyStr (latin1 (hvalue (last hs')))))"

lemma last_value_simps [simp]:
  "last_value lit [] d = d"
  "last_value lit (h # hs) d =
     last_value lit hs (if is_name lit (name_bytes h) then Some (PyStr (latin1 (hvalue h))) else d)"
  by (auto simp: last_value_def split: list.splits)

lemma not_http [simp]: "\<not> http_key ''CONTENT_TYPE''" "\<not> http_key ''CONTENT_LENGTH''"
  by (simp_all add: http_key_def)

lemma content_names: "\<not> (is_name ''content-type'' n \<and> is_name ''content-length'' n)"
  by (auto simp: is_name_def)

lemma distinct_update: "distinct (map fst (AList.update k v d)) = distinct (map fst d)"
  by (auto simp: fst_update)

context name_cache
begin

lemma header_key_eq: "header_key hc n = Some (cached_key n)"
  using wsgi_transparent [of n] by (simp add: header_key_def wsgi_header_key_cached split: option.splits)

text \<open>One header: an \<open>HTTP_\<close> key gets the value, or has it joined to what is there.\<close>

lemma add_header_general:
  assumes "general_header h" "str_http env"
  shows "add_header hc env h =
    Some (case map_of env (cached_key (name_bytes h)) of
        None \<Rightarrow> env @ [(cached_key (name_bytes h), PyStr (latin1 (hvalue h)))]
      | Some p \<Rightarrow> AList.update (cached_key (name_bytes h))
          (PyStr (str_of p @ latin1 (key_sep (cached_key (name_bytes h))) @ latin1 (hvalue h))) env)"
proof -
  let ?K = "cached_key (name_bytes h)"
  have len: "length (dict_setdefault ?K v env) = length env \<longleftrightarrow> map_of env ?K \<noteq> None" for v
    by (rule length_dict_setdefault)
  have "map_of env ?K = None \<or> (\<exists>s. map_of env ?K = Some (PyStr s))"
    using assms(2) by (rule str_http_cases) simp
  then show ?thesis using assms(1) len
    by (auto simp: add_header_def general_header_def header_key_eq header_sep_key Let_def dict_setdefault_def)
qed

lemma add_headers_spec:
  "str_http env \<Longrightarrow> distinct (map fst env) \<Longrightarrow>
   \<exists>env'. add_headers hc hs env = Some env' \<and> distinct (map fst env')
     \<and> (\<forall>K. http_key K \<longrightarrow> map_of env' K = (case map_of env K of
          None \<Rightarrow> map_option PyStr (join_values (key_sep K) (values_of K hs))
        | Some p \<Rightarrow> Some (PyStr (str_of p @ join_more (key_sep K) (values_of K hs)))))
     \<and> map_of env' ''CONTENT_TYPE'' = last_value ''content-type'' hs (map_of env ''CONTENT_TYPE'')
     \<and> map_of env' ''CONTENT_LENGTH'' = last_value ''content-length'' hs (map_of env ''CONTENT_LENGTH'')
     \<and> (\<forall>K. \<not> http_key K \<longrightarrow> K \<noteq> ''CONTENT_TYPE'' \<longrightarrow> K \<noteq> ''CONTENT_LENGTH'' \<longrightarrow> map_of env' K = map_of env K)"
proof (induction hs arbitrary: env)
  case Nil
  have "map_of env K = (case map_of env K of
          None \<Rightarrow> map_option PyStr (join_values (key_sep K) (values_of K []))
        | Some p \<Rightarrow> Some (PyStr (str_of p @ join_more (key_sep K) (values_of K []))))"
    if "http_key K" for K
    using str_http_cases [OF Nil.prems(1) that] by (auto simp: join_values_def join_more_def)
  with Nil.prems(2) show ?case by simp
next
  case (Cons h hs)
  let ?n = "name_bytes h" and ?v = "PyStr (latin1 (hvalue h))"
  consider (ct) "is_name ''content-type'' ?n" "\<not> is_name ''content-length'' ?n"
    | (cl) "is_name ''content-length'' ?n" "\<not> is_name ''content-type'' ?n" | (gen) "general_header h"
    using content_names by (auto simp: general_header_def)
  then show ?case
  proof cases
    case ct
    then have "add_header hc env h = Some (AList.update ''CONTENT_TYPE'' ?v env)"
      by (simp add: add_header_def Let_def)
    moreover have str: "str_http (AList.update ''CONTENT_TYPE'' ?v env)"
      using Cons.prems(1) by (auto simp: str_http_def)
    moreover have vs: "values_of K (h # hs) = values_of K hs" for K
      using ct by (simp add: general_header_def)
    moreover have old: "http_key K \<Longrightarrow> map_of (AList.update ''CONTENT_TYPE'' ?v env) K = map_of env K" for K
      by auto
    ultimately show ?thesis
      using Cons.IH [of "AList.update ''CONTENT_TYPE'' ?v env"] Cons.prems(2) ct unfolding vs
      by (simp add: distinct_update old)
  next
    case cl
    then have "add_header hc env h = Some (AList.update ''CONTENT_LENGTH'' ?v env)"
      by (simp add: add_header_def Let_def)
    moreover have str: "str_http (AList.update ''CONTENT_LENGTH'' ?v env)"
      using Cons.prems(1) by (auto simp: str_http_def)
    moreover have vs: "values_of K (h # hs) = values_of K hs" for K
      using cl by (simp add: general_header_def)
    moreover have old: "http_key K \<Longrightarrow> map_of (AList.update ''CONTENT_LENGTH'' ?v env) K = map_of env K" for K
      by auto
    ultimately show ?thesis
      using Cons.IH [of "AList.update ''CONTENT_LENGTH'' ?v env"] Cons.prems(2) cl unfolding vs
      by (simp add: distinct_update old)
  next
    case gen
    let ?K = "cached_key ?n"
    let ?new = "case map_of env ?K of None \<Rightarrow> ?v
      | Some p \<Rightarrow> PyStr (str_of p @ latin1 (key_sep ?K) @ latin1 (hvalue h))"
    obtain env1 where env1: "add_header hc env h = Some env1" "distinct (map fst env1)"
      "\<forall>K. map_of env1 K = (if K = ?K then Some ?new else map_of env K)"
    proof (cases "map_of env ?K")
      case None
      then have "add_header hc env h = Some (env @ [(?K, ?v)])"
        using add_header_general [OF gen Cons.prems(1)] by simp
      moreover have "?K \<notin> set (map fst env)" using None by (simp add: map_of_eq_None_iff)
      ultimately show ?thesis using that [of "env @ [(?K, ?v)]"] None Cons.prems(2)
        by (auto simp: map_add_def split: option.splits)
    next
      case (Some p)
      then show ?thesis
        using that [of "AList.update ?K ?new env"] add_header_general [OF gen Cons.prems(1)] Cons.prems(2)
        by (simp add: distinct_update)
    qed
    have new: "\<exists>s. ?new = PyStr s" by (simp split: option.splits)
    then have "str_http env1" using Cons.prems(1) env1(3) by (auto simp: str_http_def)
    from Cons.IH [OF this env1(2)] obtain env' where
      env': "add_headers hc hs env1 = Some env'" "distinct (map fst env')"
      "\<forall>K. http_key K \<longrightarrow> map_of env' K = (case map_of env1 K of
          None \<Rightarrow> map_option PyStr (join_values (key_sep K) (values_of K hs))
        | Some p \<Rightarrow> Some (PyStr (str_of p @ join_more (key_sep K) (values_of K hs))))"
      "map_of env' ''CONTENT_TYPE'' = last_value ''content-type'' hs (map_of env1 ''CONTENT_TYPE'')"
      "map_of env' ''CONTENT_LENGTH'' = last_value ''content-length'' hs (map_of env1 ''CONTENT_LENGTH'')"
      "\<forall>K. \<not> http_key K \<longrightarrow> K \<noteq> ''CONTENT_TYPE'' \<longrightarrow> K \<noteq> ''CONTENT_LENGTH'' \<longrightarrow> map_of env' K = map_of env1 K"
      by blast
    have k: "?K \<noteq> ''CONTENT_TYPE''" "?K \<noteq> ''CONTENT_LENGTH''" "\<not> http_key K \<Longrightarrow> K \<noteq> ?K" for K
      using http_key_cached [of ?n] not_http by metis+
    have key: "map_of env' K = (case map_of env K of
          None \<Rightarrow> map_option PyStr (join_values (key_sep K) (values_of K (h # hs)))
        | Some p \<Rightarrow> Some (PyStr (str_of p @ join_more (key_sep K) (values_of K (h # hs)))))"
      if "http_key K" for K
    proof (cases "K = ?K")
      case True
      then show ?thesis using that env1(3) env'(3) gen
        by (auto simp: join_values_def join_more_def split: option.splits)
    next
      case False
      then show ?thesis using that env1(3) env'(3) by (simp cong: option.case_cong)
    qed
    have other: "map_of env1 ''CONTENT_TYPE'' = map_of env ''CONTENT_TYPE''"
      "map_of env1 ''CONTENT_LENGTH'' = map_of env ''CONTENT_LENGTH''"
      using env1(3) k(1,2) by metis+
    have rest: "\<not> http_key K \<Longrightarrow> K \<noteq> ''CONTENT_TYPE'' \<Longrightarrow> K \<noteq> ''CONTENT_LENGTH'' \<Longrightarrow> map_of env' K = map_of env K"
      for K using env'(6) env1(3) k(3) by metis
    show ?thesis
      using env1(1) env'(1,2,4,5) key rest other gen [unfolded general_header_def]
      by (intro exI [of _ env']) simp
  qed
qed

end

section \<open>Properties\<close>

text \<open>
  The environ template holds exactly the documented entries, in the documented order, however
  \<open>sys.getsizeof\<close> behaves, whichever padding round fails and whatever the self-check of the copy
  finds: no padding key ever survives into it. When the allocations succeed both templates are built
  and the initialisation reports success.
\<close>

lemma environ_template_exact:
  "wsgi_init_environ_template True pad_ok k have_stderr getsizeof probe s =
     (0, s\<lparr>environ_template := Some (template_entries k have_stderr (ascii_str ''http'')),
           environ_template_https := Some (template_entries k have_stderr (ascii_str ''https''))\<rparr>)"
  by (simp add: wsgi_init_environ_template_def environ_template_build_eq Let_def)

lemma template_no_http: "http_key K \<Longrightarrow> map_of (template_entries k have_stderr url) K = None"
proof -
  have "\<forall>key \<in> fst ` set (template_entries k have_stderr url). \<not> http_key key"
    by (simp add: template_entries_def http_key_def)
  moreover assume "http_key K"
  ultimately show ?thesis unfolding map_of_eq_None_iff by blast
qed

definition request_entries :: "'p conn \<Rightarrow> phr_request \<Rightarrow> pyobj \<Rightarrow> pydict \<Rightarrow> pydict" where
  "request_entries c r a tmpl =
     AList.update ''wsgi.input'' (PyBytesIO (if content_length c = 0 then [] else body_bytes c))
       (AList.update ''REMOTE_ADDR'' a (set_request r tmpl))"

lemma map_of_request_entries:
  "map_of (request_entries c r a tmpl) K =
     (if K = ''wsgi.input'' then Some (PyBytesIO (if content_length c = 0 then [] else body_bytes c))
      else if K = ''REMOTE_ADDR'' then Some a
      else if K = ''SERVER_PROTOCOL'' then
        Some (if minor_version r = 1 then ascii_str ''HTTP/1.1'' else ascii_str ''HTTP/1.0'')
      else if K = ''QUERY_STRING'' then
        Some (case query_part (path r) of Some q \<Rightarrow> PyStr (latin1 q) | None \<Rightarrow> ascii_str [])
      else if K = ''PATH_INFO'' then Some (PyStr (latin1 (path_part (path r))))
      else if K = ''REQUEST_METHOD'' then Some (PyStr (latin1 (req_method r)))
      else map_of tmpl K)"
  unfolding request_entries_def set_request_def Let_def map_of_update by (rule refl)

lemma distinct_request_entries: "distinct (map fst tmpl) \<Longrightarrow> distinct (map fst (request_entries c r a tmpl))"
  by (simp add: request_entries_def set_request_def Let_def distinct_update)

definition request_keys :: "string set" where
  "request_keys = {''wsgi.input'', ''REMOTE_ADDR'', ''SERVER_PROTOCOL'', ''QUERY_STRING'', ''PATH_INFO'', ''REQUEST_METHOD''}"

lemma request_keys_no_http: "K \<in> request_keys \<Longrightarrow> \<not> http_key K"
  unfolding request_keys_def http_key_def by (elim insertE) simp_all

lemma request_entries_other:
  "K \<notin> request_keys \<Longrightarrow> map_of (request_entries c r a tmpl) K = map_of tmpl K"
  unfolding map_of_request_entries request_keys_def by simp

lemma request_entries_value:
  "K \<in> request_keys \<Longrightarrow> a \<noteq> PyNone \<Longrightarrow> map_of (request_entries c r a tmpl) K \<noteq> Some PyNone"
  unfolding request_keys_def map_of_request_entries
  by (elim insertE) (simp_all add: ascii_str_def split: option.splits)

lemma http_request_entries:
  "http_key K \<Longrightarrow> map_of (request_entries c r a (template_entries k have_stderr url)) K = None"
  using request_keys_no_http [of K] template_no_http [of K] request_entries_other [of K] by metis

lemma build_environ_eq:
  assumes "(if tls c \<noteq> None then environ_template_https (srv c) else environ_template (srv c)) = Some tmpl"
    and "environ_alloc (py_mem X)" and "req c = Some r"
    and "peer_addr_obj c = Some a \<or> (peer_addr_obj c = None \<and> utf8_decode (peer_addr c) = Some s \<and> a = PyStr s)"
  shows "build_environ X c =
    (add_headers (srv_cache (srv c)) (headers r) (request_entries c r a tmpl), c\<lparr>peer_addr_obj := Some a\<rparr>)"
  using assms unfolding build_environ_def request_entries_def
  by (auto simp: Let_def split: if_splits)

lemma template_None:
  assumes "server_name_val k \<noteq> PyNone" "server_port_val k \<noteq> PyNone" "url \<noteq> PyNone"
    and "map_of (template_entries k have_stderr url) K = Some PyNone"
  shows "K \<in> request_keys"
  using map_of_SomeD [OF assms(4)] assms(1-3)
  by (auto simp: template_entries_def request_keys_def ascii_str_def sys_stderr_def split: if_splits)

lemma last_value_None: "last_value lit hs None \<noteq> Some PyNone"
  by (simp add: last_value_def split: list.splits)

text \<open>
  C13. The environ of a request holds exactly the values of this request. With the templates and the header
  cache built, \<open>build_environ\<close> succeeds, and in its result: the request line entries are the method,
  the path before the first question mark, the query after it (empty without one) and the protocol,
  each decoded as ISO-8859-1 byte for byte (percent escapes stay as they are); \<open>REMOTE_ADDR\<close> is the address of this connection;
  \<open>wsgi.input\<close> is the body; every \<open>HTTP_\<close> key holds the values of all header lines that map to it,
  joined in order with a comma (a semicolon for cookies), and is absent when there is none;
  \<open>CONTENT_TYPE\<close> and \<open>CONTENT_LENGTH\<close> are the last such lines; no key occurs twice; and no placeholder
  of the template is left.
\<close>

theorem build_environ_exact:
  assumes keys: "init_wsgi_keys True host port = Some k"
    and tmpl: "(if tls c \<noteq> None then environ_template_https (srv c) else environ_template (srv c))
      = Some (template_entries k have_stderr (ascii_str scheme))"
    and mem: "environ_alloc (py_mem X)" and cache: "srv_cache (srv c) = built_cache"
    and req: "req c = Some r" and addr: "utf8_decode (peer_addr c) = Some a"
    and coherent: "peer_addr_obj c = None \<or> peer_addr_obj c = Some (PyStr a)"
  shows "\<exists>env. build_environ X c = (Some env, c\<lparr>peer_addr_obj := Some (PyStr a)\<rparr>)
    \<and> distinct (map fst env)
    \<and> map_of env ''REQUEST_METHOD'' = Some (PyStr (latin1 (req_method r)))
    \<and> map_of env ''PATH_INFO'' = Some (PyStr (latin1 (path_part (path r))))
    \<and> map_of env ''QUERY_STRING'' = Some (PyStr (latin1 (case query_part (path r) of None \<Rightarrow> [] | Some q \<Rightarrow> q)))
    \<and> map_of env ''SERVER_PROTOCOL'' = Some (ascii_str (if minor_version r = 1 then ''HTTP/1.1'' else ''HTTP/1.0''))
    \<and> map_of env ''REMOTE_ADDR'' = Some (PyStr a)
    \<and> map_of env ''wsgi.input'' = Some (PyBytesIO (if content_length c = 0 then [] else body_bytes c))
    \<and> map_of env ''wsgi.url_scheme'' = Some (ascii_str scheme)
    \<and> (\<forall>K. http_key K \<longrightarrow> map_of env K = map_option PyStr (join_values (key_sep K) (values_of K (headers r))))
    \<and> map_of env ''CONTENT_TYPE'' = last_value ''content-type'' (headers r) None
    \<and> map_of env ''CONTENT_LENGTH'' = last_value ''content-length'' (headers r) None
    \<and> (\<forall>K. map_of env K \<noteq> Some PyNone)"
proof -
  let ?t = "template_entries k have_stderr (ascii_str scheme)"
  let ?e = "request_entries c r (PyStr a) ?t"
  have str: "str_http ?e" by (simp add: str_http_def http_request_entries)
  obtain env where env: "add_headers built_cache (headers r) ?e = Some env" "distinct (map fst env)"
    "\<forall>K. http_key K \<longrightarrow> map_of env K = (case map_of ?e K of
          None \<Rightarrow> map_option PyStr (join_values (key_sep K) (values_of K (headers r)))
        | Some p \<Rightarrow> Some (PyStr (str_of p @ join_more (key_sep K) (values_of K (headers r)))))"
    "map_of env ''CONTENT_TYPE'' = last_value ''content-type'' (headers r) (map_of ?e ''CONTENT_TYPE'')"
    "map_of env ''CONTENT_LENGTH'' = last_value ''content-length'' (headers r) (map_of ?e ''CONTENT_LENGTH'')"
    "\<forall>K. \<not> http_key K \<longrightarrow> K \<noteq> ''CONTENT_TYPE'' \<longrightarrow> K \<noteq> ''CONTENT_LENGTH'' \<longrightarrow> map_of env K = map_of ?e K"
    using built.add_headers_spec [OF str distinct_request_entries [OF distinct_template]] by blast
  have be: "build_environ X c = (Some env, c\<lparr>peer_addr_obj := Some (PyStr a)\<rparr>)"
    using build_environ_eq [OF tmpl mem req, of "PyStr a" a] coherent addr env(1) cache by auto
  have plain: "map_of env K = map_of ?e K" if "K \<in> request_keys \<union> {''wsgi.url_scheme''}" for K
    using env(6) that by (auto simp: request_keys_def http_key_def)
  have http: "map_of env K = map_option PyStr (join_values (key_sep K) (values_of K (headers r)))" if "http_key K" for K
    using env(3) that http_request_entries [OF that, of c r "PyStr a" k have_stderr "ascii_str scheme"] by simp
  have content: "map_of env ''CONTENT_TYPE'' = last_value ''content-type'' (headers r) None"
    "map_of env ''CONTENT_LENGTH'' = last_value ''content-length'' (headers r) None"
    using env(4,5) by (simp_all add: map_of_request_entries template_entries_def)
  have none: "map_of env K \<noteq> Some PyNone" for K
  proof -
    have k: "server_name_val k \<noteq> PyNone" "server_port_val k \<noteq> PyNone"
      using keys by (auto simp: init_wsgi_keys_def ascii_str_def split: option.splits)
    have e: "map_of ?e K \<noteq> Some PyNone"
      using template_None [OF k, of "ascii_str scheme" have_stderr K] request_entries_other [of K c r "PyStr a" ?t]
        request_entries_value [of K "PyStr a" c r ?t]
      by (cases "K \<in> request_keys") (auto simp: ascii_str_def)
    consider "http_key K" | "K = ''CONTENT_TYPE''" | "K = ''CONTENT_LENGTH''"
      | "\<not> http_key K \<and> K \<noteq> ''CONTENT_TYPE'' \<and> K \<noteq> ''CONTENT_LENGTH''" by metis
    then show ?thesis
      by cases (use http [of K] content env(6) e last_value_None in \<open>simp_all\<close>)
  qed
  have "map_of ?e ''wsgi.url_scheme'' = Some (ascii_str scheme)"
    by (simp add: map_of_request_entries template_entries_def)
  then show ?thesis
    using be env(2) plain http content none
    by (intro exI [of _ env])
      (simp add: request_keys_def map_of_request_entries ascii_str_def split: option.splits)
qed

definition sample_keys :: wsgi_keys where
  "sample_keys = \<lparr>server_name_val = ascii_str ''localhost'', server_port_val = ascii_str (fmt_int 8000)\<rparr>"

definition sample_wsgi_conn :: "nat conn" where
  "sample_wsgi_conn = sample_conn
     \<lparr>srv := sample_server\<lparr>environ_template := Some (template_entries sample_keys True (ascii_str ''http''))\<rparr>,
      req := Some sample_request\<rparr>"

theorem build_environ_exact_witness:
  "\<exists>env. build_environ sample_ext sample_wsgi_conn
        = (Some env, sample_wsgi_conn\<lparr>peer_addr_obj := Some (PyStr (latin1 ''127.0.0.1''))\<rparr>)
    \<and> map_of env ''REQUEST_METHOD'' = Some (PyStr (latin1 ''GET''))
    \<and> map_of env ''PATH_INFO'' = Some (PyStr (latin1 (path_part ''/a'')))"
proof -
  have k: "init_wsgi_keys True ''localhost'' 8000 = Some sample_keys"
    using utf8_decode_ascii [of "''localhost''"] by (simp add: init_wsgi_keys_def sample_keys_def ascii_str_def)
  have a: "utf8_decode (peer_addr sample_wsgi_conn) = Some (latin1 ''127.0.0.1'')"
    using utf8_decode_ascii [of "''127.0.0.1''"] by (simp add: sample_wsgi_conn_def sample_conn_def)
  have "(if tls sample_wsgi_conn \<noteq> None then environ_template_https (srv sample_wsgi_conn)
      else environ_template (srv sample_wsgi_conn)) = Some (template_entries sample_keys True (ascii_str ''http''))"
    "environ_alloc (py_mem (sample_ext :: nat ext))" "srv_cache (srv sample_wsgi_conn) = built_cache"
    "req sample_wsgi_conn = Some sample_request" "peer_addr_obj sample_wsgi_conn = None"
    by (simp_all add: sample_wsgi_conn_def sample_conn_def sample_server_def sample_ext_def)
  then show ?thesis
    using build_environ_exact [OF k _ _ _ _ a, of True "''http''" sample_ext sample_request]
    by (auto simp: sample_request_def)
qed

end
