(* ===== verification/RespHead.thy ===== *)
theory RespHead
  imports Environ HdrValid HdrBuf
begin

text \<open>
  The header block of a response as a text, independent of the formatter that produced it: the lines
  \<open>response_lines\<close> and the block \<open>response_head\<close> they make. Both formatters (theories \<open>Wsgi\<close> and \<open>Asgi\<close>)
  are shown to write exactly this text, and the safety of the text (no line holds a CR, LF or NUL) is
  shown here once.
\<close>

section \<open>Definitions\<close>

definition field_line :: "bytes \<times> bytes \<Rightarrow> bytes" where
  "field_line f = fst f @ '': '' @ snd f"

definition has_field :: "string \<Rightarrow> (bytes \<times> bytes) list \<Rightarrow> bool" where
  "has_field lit hdrs \<longleftrightarrow> (\<exists>f \<in> set hdrs. is_name lit (fst f))"

text \<open>The lines the server adds.\<close>

definition extra_lines :: "(bytes \<times> bytes) list \<Rightarrow> bool \<Rightarrow> nat \<Rightarrow> bytes list" where
  "extra_lines hdrs ka n =
     (if has_field ''content-length'' hdrs then [] else [''Content-Length: '' @ dec n])
     @ (if has_field ''connection'' hdrs then [] else [if ka then ''Connection: keep-alive'' else ''Connection: close''])"

definition response_lines :: "bytes \<Rightarrow> (bytes \<times> bytes) list \<Rightarrow> bool \<Rightarrow> nat \<Rightarrow> bytes list" where
  "response_lines sline hdrs ka n = sline # map field_line hdrs @ extra_lines hdrs ka n"

definition response_head :: "bytes list \<Rightarrow> bytes" where
  "response_head ls = concat (map (\<lambda>l. l @ CRLF) ls) @ CRLF"

text \<open>The names that switch off an automatic line, as the formatters collect them.\<close>

definition name_flags :: "bytes \<Rightarrow> bool \<times> bool \<Rightarrow> bool \<times> bool" where
  "name_flags name flags =
     (if is_name ''content-length'' name then (True, snd flags)
      else if is_name ''connection'' name then (fst flags, True) else flags)"

section \<open>Lemmas\<close>

lemma andthen_assoc: "andthen (andthen m f) g = andthen m (\<lambda>x. andthen (f x) g)"
  by (cases m) simp_all

lemma puts_append: "puts put (xs @ ys) st = andthen (puts put xs st) (puts put ys)"
  by (induction xs arbitrary: st) (simp_all add: andthen_assoc cong: andthen_cong)

lemma is_name_disjoint: "is_name ''content-length'' n \<Longrightarrow> \<not> is_name ''connection'' n"
  by (auto simp: is_name_def)

lemma fold_name_flags:
  "fold (\<lambda>f. name_flags (fst f)) hdrs flags =
     (fst flags \<or> has_field ''content-length'' hdrs, snd flags \<or> has_field ''connection'' hdrs)"
proof (induction hdrs arbitrary: flags)
  case (Cons f hdrs)
  then show ?case using is_name_disjoint [of "fst f"]
    by (cases flags) (auto simp: name_flags_def has_field_def)
qed (simp add: has_field_def)

lemma auto_lines_extra:
  "concat (map (\<lambda>l. l @ CRLF) (extra_lines hdrs ka n)) @ CRLF =
    auto_lines (has_field ''content-length'' hdrs) (has_field ''connection'' hdrs) ka n"
  by (auto simp: extra_lines_def auto_lines_def)

lemma response_head_lines:
  "response_head (response_lines sline hdrs ka n) =
     sline @ CRLF @ concat (map (\<lambda>f. field_line f @ CRLF) hdrs)
     @ auto_lines (has_field ''content-length'' hdrs) (has_field ''connection'' hdrs) ka n"
  unfolding auto_lines_extra [symmetric] response_head_def response_lines_def
  by (simp add: comp_def)

text \<open>Line text: no control but HTAB, no DEL.\<close>

definition line_text :: "bytes \<Rightarrow> bool" where
  "line_text l \<longleftrightarrow> (\<forall>b \<in> set l. line_char b)"

lemma line_text_append [simp]: "line_text (a @ b) \<longleftrightarrow> line_text a \<and> line_text b"
  by (auto simp: line_text_def)

lemma line_text_no_delim: "line_text l \<Longrightarrow> CR \<notin> set l \<and> LF \<notin> set l \<and> NUL \<notin> set l"
  using line_char_no_delim by (auto simp: line_text_def)

lemma line_text_dec: "line_text (dec n)"
proof (induction n rule: dec.induct)
  case (1 n)
  have d: "line_text [char_of (48 + k)]" if "k < 10" for k :: nat
    using that by (auto simp: line_text_def line_char_def eq_delim)
  show ?case using 1 d [of n] d [of "n mod 10"] by (cases "n < 10") (simp_all add: dec_small dec_big)
qed

lemma line_text_literals:
  "line_text ''Content-Length: ''" "line_text ''Connection: keep-alive''"
  "line_text ''Connection: close''" "line_text '': ''" "line_text ''HTTP/1.1 ''"
  by (simp_all add: line_text_def line_char_def eq_delim)

text \<open>
  Every line of a response whose status line, names and values are line text is line text itself, so
  the block ends at its last two CRLFs and nowhere before.
\<close>

lemma extra_lines_safe: "\<forall>l \<in> set (extra_lines hdrs ka n). line_text l"
proof -
  have "line_text (''Content-Length: '' @ dec n)"
    unfolding line_text_append using line_text_literals(1) line_text_dec by blast
  then show ?thesis using line_text_literals(2,3) unfolding extra_lines_def
    by (simp only: set_append set_simps if_split Un_iff) auto
qed

lemma response_lines_safe:
  assumes "line_text sline" "\<forall>f \<in> set hdrs. line_text (fst f) \<and> line_text (snd f)"
  shows "\<forall>l \<in> set (response_lines sline hdrs ka n). line_text l"
proof -
  have "line_text (field_line f)" if "f \<in> set hdrs" for f
    using that assms(2) line_text_literals(4) unfolding field_line_def line_text_append by blast
  then show ?thesis using assms(1) extra_lines_safe [of hdrs ka n] unfolding response_lines_def by auto
qed

end
