(* ===== verification/WireRead.thy ===== *)
theory WireRead
  imports RespParser RespHead
begin

text \<open>
  The header block a formatter writes, read by the response parser: the text of theory RespHead is taken
  apart by \<open>phr_parse_response\<close> of theory RespParser into exactly the status, the reason and the fields it
  was made of, and reading stops where the body begins. The two sides are independent code (the
  program's own formatters and the vendored parser), so this is what a client understands.
\<close>

section \<open>Definitions\<close>

text \<open>A field as a reader sees it: blanks around the value do not count.\<close>

definition trim :: "bytes \<Rightarrow> bytes" where
  "trim v = strip_value (dropWhile is_ws v)"

definition read_field :: "bytes \<times> bytes \<Rightarrow> phr_header" where
  "read_field f = \<lparr>hname = Some (fst f), hvalue = trim (snd f)\<rparr>"

text \<open>The fields of the lines the server adds.\<close>

definition extra_fields :: "(bytes \<times> bytes) list \<Rightarrow> bool \<Rightarrow> nat \<Rightarrow> (bytes \<times> bytes) list" where
  "extra_fields hdrs ka n =
     (if has_field ''content-length'' hdrs then [] else [(''Content-Length'', dec n)])
     @ (if has_field ''connection'' hdrs then [] else [(''Connection'', if ka then ''keep-alive'' else ''close'')])"

text \<open>The number three digits stand for.\<close>

definition status_code :: "bytes \<Rightarrow> nat" where
  "status_code s = 100 * (byte (s ! 0) - 48) + 10 * (byte (s ! 1) - 48) + (byte (s ! 2) - 48)"

definition read_response :: "bytes \<Rightarrow> (bytes \<times> bytes) list \<Rightarrow> bool \<Rightarrow> nat \<Rightarrow> phr_response" where
  "read_response status hdrs ka n =
     \<lparr>rs_minor = 1, rs_status = status_code status, rs_msg = dropWhile (\<lambda>c. c = SP) (drop 3 status),
      rs_headers = map read_field (hdrs @ extra_fields hdrs ka n)\<rparr>"

section \<open>Lines\<close>

lemma extra_lines_fields: "extra_lines hdrs ka n = map field_line (extra_fields hdrs ka n)"
  by (simp add: extra_lines_def extra_fields_def field_line_def)

definition field_writable :: "bytes \<times> bytes \<Rightarrow> bool" where
  "field_writable f \<longleftrightarrow> freastal_hdr_name_ok (fst f) \<and> freastal_hdr_value_ok (snd f)"

lemma line_char_not_eol: "line_char c \<Longrightarrow> \<not> is_eol_ctl c"
  by (auto simp: line_char_def is_eol_ctl_def eq_delim)

lemma line_text_value: "line_text v \<Longrightarrow> freastal_hdr_value_ok v"
  by (simp add: line_text_def hdr_value_ok_iff)

lemma extra_fields_writable: "\<forall>f \<in> set (extra_fields hdrs ka n). field_writable f"
proof -
  have "freastal_hdr_name_ok ''Content-Length''" by (simp add: hdr_name_ok_iff tchar_def)
  then have l: "field_writable (''Content-Length'', dec n)"
    using line_text_value [OF line_text_dec] unfolding field_writable_def fst_conv snd_conv by blast
  have c: "field_writable (''Connection'', if ka then ''keep-alive'' else ''close'')"
    by (simp add: field_writable_def hdr_name_ok_iff tchar_def hdr_value_ok_iff line_char_def eq_delim)
  show ?thesis
  proof
    fix f
    assume "f \<in> set (extra_fields hdrs ka n)"
    then have "f = (''Content-Length'', dec n) \<or> f = (''Connection'', if ka then ''keep-alive'' else ''close'')"
      unfolding extra_fields_def by (simp only: set_append Un_iff) (auto split: if_splits simp del: dec.simps)
    then show "field_writable f" using l c by blast
  qed
qed

lemma parse_field_line:
  assumes "field_writable f"
  shows "parse_field sse first (field_line f @ CRLF @ r) = Inr (read_field f, r)
    \<and> line_end (field_line f @ CRLF @ r) = None"
proof -
  obtain n v where f: "f = (n, v)" by force
  have n: "n \<noteq> []" "\<forall>c \<in> set n. is_token_char c" and v: "\<forall>c \<in> set v. \<not> is_eol_ctl c"
    using assms line_char_not_eol by (auto simp: f field_writable_def hdr_name_ok_iff hdr_value_ok_iff token_char_iff)
  let ?w = "SP # takeWhile is_ws v" and ?v = "dropWhile is_ws v"
  have eq: "field_line f @ CRLF @ r = n @ COLON # ?w @ ?v @ CRLF @ r"
    by (simp add: f field_line_def COLON_def SP_def)
  have "hd (x @ CRLF @ r) = (if x = [] then CR else hd x)" for x by simp
  then have hv: "?v @ CRLF @ r \<noteq> []" "\<not> is_ws (hd (?v @ CRLF @ r))"
    using hd_dropWhile [of is_ws v] by (auto simp: is_ws_def)
  have h: "parse_header_name sse (field_line f @ CRLF @ r) = Inr (Some n, ?v @ CRLF @ r)"
    unfolding parse_header_name_Inr eq using n hv
    by (intro exI [of _ n] exI [of _ ?w]) (auto simp: is_ws_def dest: set_takeWhileD)
  have "\<forall>c \<in> set ?v. \<not> is_eol_ctl c" using v by (auto dest: set_dropWhileD)
  then have g: "get_token_to_eol sse (?v @ CRLF @ r) = Inr (?v, r)"
    unfolding get_token_to_eol_Inr by (intro exI [of _ CRLF]) (simp add: is_eol_def)
  have hd: "hd (field_line f @ CRLF @ r) = hd n" "is_token_char (hd n)" unfolding eq using n by auto
  then have ws: "\<not> is_ws (hd (field_line f @ CRLF @ r))"
    by (auto simp: is_ws_def token_char_iff tchar_def)
  have "hd (field_line f @ CRLF @ r) \<noteq> CR" "hd (field_line f @ CRLF @ r) \<noteq> LF"
    using hd token_char_not_eol by (metis CR_eol_ctl)+
  then show ?thesis using h g ws by (simp add: parse_field_def line_end_None read_field_def trim_def f)
qed

lemma parse_headers_lines:
  "\<forall>f \<in> set fs. field_writable f \<Longrightarrow> length hs0 + length fs \<le> mx \<Longrightarrow>
   parse_headers sse mx hs0 (concat (map (\<lambda>f. field_line f @ CRLF) fs) @ CRLF @ r)
     = Inr (hs0 @ map read_field fs, r)"
proof (induction fs arbitrary: hs0)
  case Nil
  have "line_end (CRLF @ r) = Some (Inr r)" using line_end_Inr [of "CRLF @ r" r] by (auto simp: is_eol_def)
  then show ?case by (simp add: parse_headers.simps [of sse mx hs0 "CR # LF # r"])
next
  case (Cons f fs)
  let ?r = "concat (map (\<lambda>f. field_line f @ CRLF) fs) @ CRLF @ r"
  have p: "parse_field sse (hs0 = []) (field_line f @ CRLF @ ?r) = Inr (read_field f, ?r)"
    "line_end (field_line f @ CRLF @ ?r) = None"
    using parse_field_line [of f sse "hs0 = []" ?r] Cons.prems(1) by auto
  have "parse_headers sse mx (hs0 @ [read_field f]) ?r = Inr ((hs0 @ [read_field f]) @ map read_field fs, r)"
    using Cons.prems by (intro Cons.IH) auto
  with p Cons.prems(2) show ?case
    by (simp add: parse_headers.simps [of sse mx hs0 "field_line f @ CR # LF # X" for X])
qed

section \<open>The block\<close>

lemma status_code_digits: "n \<le> 999 \<Longrightarrow> status_code (three_digits n @ r) = n"
  using three_digits_le [of n] three_digits_sum [of n] by (simp add: status_code_def three_digits_def)

lemma status_ok_three_digits:
  assumes "n \<le> 999" "r = [] \<or> hd r = SP" "\<forall>c \<in> set r. line_char c"
  shows "freastal_status_ok (three_digits n @ r)"
  unfolding status_ok_iff three_digits_def using three_digits_le [OF assms(1)] assms(2,3)
  by (intro exI conjI) (rule refl, auto)

lemma status_ok_digits:
  assumes "freastal_status_ok s"
  obtains r where "s = three_digits (status_code s) @ r" "status_code s \<le> 999"
    "r = [] \<or> hd r = SP" "\<forall>c \<in> set r. line_char c"
proof -
  from assms obtain a b c r where s: "s = [a, b, c] @ r" and d: "\<forall>d \<in> {a, b, c}. 48 \<le> byte d \<and> byte d \<le> 57"
    and r: "r = [] \<or> hd r = SP" "\<forall>d \<in> set r. line_char d"
    by (auto simp: status_ok_iff)
  define x y z where "x = byte a - 48" and "y = byte b - 48" and "z = byte c - 48"
  have "x \<le> 9" "y \<le> 9" "z \<le> 9" using d by (auto simp: x_def y_def z_def)
  moreover have "a = digit x" "b = digit y" "c = digit z" using d by (simp_all add: x_def y_def z_def digit_byte)
  moreover have "status_code s = 100 * x + 10 * y + z" by (simp add: s status_code_def x_def y_def z_def)
  ultimately have "s = three_digits (status_code s) @ r" "status_code s \<le> 999"
    using three_digits_of [of x y z] s by simp_all
  then show thesis using r by (rule that)
qed

lemma http_1_1: "''HTTP/1.1 '' = http_1_dot @ [digit 1] @ [SP]"
  by (simp add: http_1_dot_def digit_def SP_def char_of_def bit_iff_odd)

text \<open>What is written is what is read.\<close>

lemma head_read:
  assumes "freastal_status_ok status" "\<forall>f \<in> set hdrs. field_writable f" "length (hdrs @ extra_fields hdrs ka n) \<le> mx"
  shows "phr_parse_response sse mx (response_head (response_lines (''HTTP/1.1 '' @ status) hdrs ka n) @ body) 0
    = Inr (read_response status hdrs ka n, length (response_head (response_lines (''HTTP/1.1 '' @ status) hdrs ka n)))"
proof -
  let ?fs = "hdrs @ extra_fields hdrs ka n"
  let ?q = "read_response status hdrs ka n"
  let ?b = "concat (map (\<lambda>f. field_line f @ CRLF) ?fs) @ CRLF @ body"
  obtain r where r: "status = three_digits (status_code status) @ r" "status_code status \<le> 999"
    "r = [] \<or> hd r = SP" "\<forall>c \<in> set r. line_char c"
    using assms(1) by (rule status_ok_digits)
  define s where "s = takeWhile (\<lambda>c. c = SP) r"
  have dr: "drop 3 status = r" by (subst r(1)) simp
  have msg: "rs_msg ?q = dropWhile (\<lambda>c. c = SP) r" by (simp add: read_response_def dr)
  have rs: "r = s @ rs_msg ?q" by (simp add: s_def msg)
  have "resp_line_ok [SP] s ?q"
  proof -
    have "s = [] \<longrightarrow> r = []" using r(3) by (cases r) (auto simp: s_def)
    moreover have "\<forall>c \<in> set (rs_msg ?q). \<not> is_eol_ctl c"
      using r(4) line_char_not_eol by (auto simp: msg dest: set_dropWhileD)
    moreover have "rs_msg ?q \<noteq> [] \<longrightarrow> hd (rs_msg ?q) \<noteq> SP"
      using hd_dropWhile [of "\<lambda>c. c = SP" r] by (simp add: msg)
    moreover have "\<forall>c \<in> set s. c = SP" by (auto simp: s_def dest: set_takeWhileD)
    moreover have "s = [] \<longrightarrow> rs_msg ?q = []" using rs calculation(1) by simp
    ultimately show ?thesis using r(2) by (simp add: resp_line_ok_def read_response_def)
  qed
  moreover have "parse_headers sse mx [] ?b = Inr ([] @ map read_field ?fs, body)"
    using assms(2,3) extra_fields_writable [of hdrs ka n]
    by (intro parse_headers_lines) auto
  moreover have "response_head (response_lines (''HTTP/1.1 '' @ status) hdrs ka n) @ body = resp_line [SP] s ?q @ CRLF @ ?b"
  proof -
    have "''HTTP/1.1 '' @ status = resp_line [SP] s ?q"
      unfolding resp_line_def http_1_1 by (subst r(1), subst rs) (simp add: read_response_def)
    then show ?thesis
      by (simp add: response_head_def response_lines_def extra_lines_fields comp_def)
  qed
  ultimately have "parse_response sse mx (response_head (response_lines (''HTTP/1.1 '' @ status) hdrs ka n) @ body)
      = Inr (?q, body)"
    unfolding parse_response_Inr
    by (intro exI [of _ "[SP]"] exI [of _ s] exI [of _ CRLF] exI [of _ ?b]) (simp add: is_eol_def read_response_def)
  then show ?thesis by (simp add: phr_parse_response_def)
qed

text \<open>
  A text on the wire, read: whatever the build and the room for headers, as long as it holds them, the
  result is \<open>q\<close> and what is left over is the body.
\<close>

definition reads_back :: "bytes \<Rightarrow> phr_response \<Rightarrow> bytes \<Rightarrow> bool" where
  "reads_back t q body \<longleftrightarrow>
     (\<exists>n. drop n t = body \<and> (\<forall>sse mx. length (rs_headers q) \<le> mx \<longrightarrow> phr_parse_response sse mx t 0 = Inr (q, n)))"

lemma reads_backI:
  assumes "freastal_status_ok status" "\<forall>f \<in> set hdrs. freastal_hdr_name_ok (fst f) \<and> freastal_hdr_value_ok (snd f)"
  shows "reads_back (response_head (response_lines (''HTTP/1.1 '' @ status) hdrs ka n) @ body)
    (read_response status hdrs ka n) body"
proof -
  let ?h = "response_head (response_lines (''HTTP/1.1 '' @ status) hdrs ka n)"
  have "\<forall>f \<in> set hdrs. field_writable f" using assms(2) by (simp add: field_writable_def)
  moreover have "length (rs_headers (read_response status hdrs ka n)) = length (hdrs @ extra_fields hdrs ka n)"
    by (simp add: read_response_def)
  ultimately have "\<forall>sse mx. length (rs_headers (read_response status hdrs ka n)) \<le> mx \<longrightarrow>
      phr_parse_response sse mx (?h @ body) 0 = Inr (read_response status hdrs ka n, length ?h)"
    using head_read [OF assms(1)] by metis
  moreover have "drop (length ?h) (?h @ body) = body" by (metis append_eq_conv_conj)
  ultimately show ?thesis unfolding reads_back_def by blast
qed

text \<open>
  A response whose length the application did not set itself says how long it is: one field
  \<open>Content-Length\<close>, with the length of the body in decimal.
\<close>

lemma trim_id: "(v = [] \<or> \<not> is_ws (hd v) \<and> \<not> is_ws (last v)) \<Longrightarrow> trim v = v"
  by (cases v) (auto simp: trim_def strip_value_id)

lemma trim_dec: "trim (dec n) = dec n"
proof (rule trim_id)
  have "\<not> is_ws c" if "c \<in> set (dec n)" for c
    using dec_digits [OF that] by (auto simp: is_ws_def c_isdigit_def)
  then show "dec n = [] \<or> \<not> is_ws (hd (dec n)) \<and> \<not> is_ws (last (dec n))" by (cases "dec n = []") auto
qed

lemma read_length:
  assumes "\<not> has_field ''content-length'' hdrs"
  shows "filter (\<lambda>h. case hname h of Some n \<Rightarrow> is_name ''content-length'' n | None \<Rightarrow> False)
      (rs_headers (read_response status hdrs ka n))
    = [\<lparr>hname = Some ''Content-Length'', hvalue = dec n\<rparr>]"
proof -
  let ?P = "\<lambda>h. case hname h of Some n \<Rightarrow> is_name ''content-length'' n | None \<Rightarrow> False"
  have "filter ?P (map read_field hdrs) = []"
    using assms by (auto simp: filter_empty_conv read_field_def has_field_def)
  moreover have "is_name ''content-length'' ''Content-Length''" "\<not> is_name ''content-length'' ''Connection''"
    by code_simp+
  then have "filter ?P (map read_field (extra_fields hdrs ka n)) = [\<lparr>hname = Some ''Content-Length'', hvalue = dec n\<rparr>]"
    using assms by (simp add: extra_fields_def read_field_def trim_dec)
  ultimately show ?thesis by (simp add: read_response_def)
qed

end
