(* ===== verification/Wsgi.thy ===== *)
theory Wsgi
  imports RespHead RespFrame
begin

text \<open>
  Running a WSGI application, \<^verbatim>\<open>freastal/src/wsgi.c\<close>: the \<open>start_response\<close> callable, the collection of
  the body, the response header block, and \<open>wsgi_call_application\<close>, which turns one request into one
  response.

  The application is \<open>pycode\<close> (theory \<open>PyObj\<close>), applied to the environ. The code that runs while the
  body is iterated is application code too and can still call \<open>start_response\<close>, so the connection is
  threaded through the iteration. Iterables are finite: an application that yields forever never
  returns control, in the model as in the server.
\<close>

section \<open>Definitions\<close>

subsection \<open>start_response\<close>

text \<open>The two items of an exact tuple or list of length two.\<close>

fun pair_items :: "pyobj \<Rightarrow> (pyobj \<times> pyobj) option" where
  "pair_items (PyTuple True [a, b]) = Some (a, b)"
| "pair_items (PyList True [a, b]) = Some (a, b)"
| "pair_items _ = None"

text \<open>\<open>PyUnicode_AsUTF8AndSize\<close>; on an object that is no \<open>str\<close> it fails.\<close>

fun as_utf8 :: "pyobj \<Rightarrow> bytes option" where
  "as_utf8 (PyStr s) = utf8_encode s"
| "as_utf8 _ = None"

definition sr_header_ok :: "pyobj \<Rightarrow> bool" where
  "sr_header_ok pair =
     (case pair_items pair of
        None \<Rightarrow> False
      | Some (no, vo) \<Rightarrow>
          if \<not> PyUnicode_Check no \<or> \<not> PyUnicode_Check vo then False
          else case (as_utf8 no, as_utf8 vo) of
              (Some nm, Some vv) \<Rightarrow> freastal_hdr_name_ok nm \<and> freastal_hdr_value_ok vv
            | _ \<Rightarrow> False)"

text \<open>
  \<open>PyArg_ParseTuple(args, "UO|O")\<close>: a \<open>str\<close>, an object and an optional object (\<open>None\<close> by default).
\<close>

fun parse_sr_args :: "pyobj list \<Rightarrow> (pyobj \<times> pyobj \<times> pyobj) option" where
  "parse_sr_args [PyStr s, h] = Some (PyStr s, h, PyNone)"
| "parse_sr_args [PyStr s, h, e] = Some (PyStr s, h, e)"
| "parse_sr_args _ = None"

text \<open>\<open>True\<close>: the write callable was returned. \<open>False\<close>: an exception was raised.\<close>

definition StartResponse_call :: "pyobj list \<Rightarrow> 'p conn \<Rightarrow> bool \<times> 'p conn" where
  "StartResponse_call args c =
     (case parse_sr_args args of
        None \<Rightarrow> (False, c)
      | Some (status, hdrs, exc_info) \<Rightarrow>
          if exc_info \<noteq> PyNone \<and> resp_status c \<noteq> None then (False, c)
          else case hdrs of
              PyList _ hs \<Rightarrow>
                (case as_utf8 status of
                   None \<Rightarrow> (False, c)
                 | Some sstr \<Rightarrow>
                     if \<not> freastal_status_ok sstr then (False, c)
                     else if \<not> list_all sr_header_ok hs then (False, c)
                     else (True, c\<lparr>resp_status := Some status, resp_pyheaders := Some hdrs\<rparr>))
            | _ \<Rightarrow> (False, c))"

subsection \<open>Application code\<close>

datatype outcome = Returned pyobj | Raised

text \<open>The application changes the list it passed to \<open>start_response\<close>, which the server holds by reference.\<close>

definition mutate_headers :: "pyobj list \<Rightarrow> 'p conn \<Rightarrow> 'p conn" where
  "mutate_headers hs c =
     (case resp_pyheaders c of
        Some (PyList e _) \<Rightarrow> c\<lparr>resp_pyheaders := Some (PyList e hs)\<rparr>
      | _ \<Rightarrow> c)"

text \<open>A call: it runs to a return, an exception, or (for a generator) up to the first yield.\<close>

fun run_call :: "pycode \<Rightarrow> 'p conn \<Rightarrow> outcome \<times> 'p conn" where
  "run_call (CallSR args k1 k2) c =
     (case StartResponse_call args c of (ok, c') \<Rightarrow> if ok then run_call k1 c' else run_call k2 c')"
| "run_call (MutateHeaders hs k) c = run_call k (mutate_headers hs c)"
| "run_call (Yield x k) c = (Returned (PyGen (Yield x k)), c)"
| "run_call (Return v) c = (Returned v, c)"
| "run_call Raise c = (Raised, c)"

text \<open>An iterator: the objects still to come, or code that is still to run.\<close>

datatype pyiter = ItList "pyobj list" | ItCode pycode

datatype iter_res = Item pyobj | Stop | Error

fun bytesio_lines :: "bytes \<Rightarrow> bytes \<Rightarrow> bytes list" where
  "bytesio_lines acc [] = (if acc = [] then [] else [rev acc])"
| "bytesio_lines acc (b # bs) = (if b = LF then rev (b # acc) # bytesio_lines [] bs else bytesio_lines (b # acc) bs)"

fun get_iter :: "pyobj \<Rightarrow> pyiter option" where
  "get_iter (PyList _ xs) = Some (ItList xs)"
| "get_iter (PyTuple _ xs) = Some (ItList xs)"
| "get_iter (PySeq xs) = Some (ItList xs)"
| "get_iter (PyStr s) = Some (ItList (map (\<lambda>ch. PyStr [ch]) s))"
| "get_iter (PyBytes _ b) = Some (ItList (map (\<lambda>ch. PyInt (int (byte ch))) b))"
| "get_iter (PyDict d) = Some (ItList (map (\<lambda>(k, _). PyStr (latin1 k)) d))"
| "get_iter (PyBytesIO b) = Some (ItList (map (PyBytes True) (bytesio_lines [] b)))"
| "get_iter (PyGen k) = Some (ItCode k)"
| "get_iter _ = None"

fun code_next :: "pycode \<Rightarrow> 'p conn \<Rightarrow> iter_res \<times> pyiter \<times> 'p conn" where
  "code_next (CallSR args k1 k2) c =
     (case StartResponse_call args c of (ok, c') \<Rightarrow> if ok then code_next k1 c' else code_next k2 c')"
| "code_next (MutateHeaders hs k) c = code_next k (mutate_headers hs c)"
| "code_next (Yield x k) c = (Item x, ItCode k, c)"
| "code_next (Return _) c = (Stop, ItList [], c)"
| "code_next Raise c = (Error, ItList [], c)"

text \<open>\<open>PyIter_Next\<close>\<close>

fun iter_next :: "pyiter \<Rightarrow> 'p conn \<Rightarrow> iter_res \<times> pyiter \<times> 'p conn" where
  "iter_next (ItList []) c = (Stop, ItList [], c)"
| "iter_next (ItList (x # xs)) c = (Item x, ItList xs, c)"
| "iter_next (ItCode k) c = code_next k c"

text \<open>\<open>while ((item = PyIter_Next(iter)) != NULL)\<close>: the items, and whether an exception ended the loop.\<close>

fun drain_code :: "pycode \<Rightarrow> 'p conn \<Rightarrow> pyobj list \<times> bool \<times> 'p conn" where
  "drain_code (CallSR args k1 k2) c =
     (case StartResponse_call args c of (ok, c') \<Rightarrow> if ok then drain_code k1 c' else drain_code k2 c')"
| "drain_code (MutateHeaders hs k) c = drain_code k (mutate_headers hs c)"
| "drain_code (Yield x k) c = (case drain_code k c of (xs, err, c') \<Rightarrow> (x # xs, err, c'))"
| "drain_code (Return _) c = ([], False, c)"
| "drain_code Raise c = ([], True, c)"

fun drain :: "pyiter \<Rightarrow> 'p conn \<Rightarrow> pyobj list \<times> bool \<times> 'p conn" where
  "drain (ItList xs) c = (xs, False, c)"
| "drain (ItCode k) c = drain_code k c"

subsection \<open>The body\<close>

text \<open>\<open>collect_body\<close> of an iterator: first chunk, second chunk, and only then a list.\<close>

definition collect_iter :: "'p ext \<Rightarrow> pyiter \<Rightarrow> 'p conn \<Rightarrow> pyobj option \<times> 'p conn" where
  "collect_iter X it c =
     (case iter_next it c of
        (Stop, _, c1) \<Rightarrow> (Some (PyBytes True []), c1)
      | (Error, _, c1) \<Rightarrow> (None, c1)
      | (Item first, it1, c1) \<Rightarrow>
          (case iter_next it1 c1 of
             (Stop, _, c2) \<Rightarrow> (if PyBytes_Check first then Some first else None, c2)
           | (r2, it2, c2) \<Rightarrow>
               (case drain it2 c2 of
                  (rest, err, c3) \<Rightarrow>
                    let lst = first # (case r2 of Item second \<Rightarrow> [second] | _ \<Rightarrow> []) @ rest
                    in if r2 = Error \<or> err then (None, c3)
                       else if \<not> list_all PyBytes_Check lst then (None, c3)
                       else if \<not> body_alloc (py_mem X) then (None, c3)
                       else (Some (PyBytes True (concat (map bytes_of lst))), c3))))"

fun single_bytes :: "pyobj \<Rightarrow> bool" where
  "single_bytes (PyList True [PyBytes True _]) = True"
| "single_bytes _ = False"

definition collect_body :: "'p ext \<Rightarrow> pyobj \<Rightarrow> 'p conn \<Rightarrow> pyobj option \<times> 'p conn" where
  "collect_body X obj c =
     (if single_bytes obj then (case obj of PyList _ (only # _) \<Rightarrow> (Some only, c) | _ \<Rightarrow> (None, c))
      else case get_iter obj of None \<Rightarrow> (None, c) | Some it \<Rightarrow> collect_iter X it c)"

subsection \<open>The response header block\<close>

text \<open>
  \<open>PyTuple_CheckExact(pair) ? PyTuple_GET_ITEM(pair, i) : PyList_GET_ITEM(pair, i)\<close>: unchecked macros, so
  an object of another shape is undefined behaviour (\<open>None\<close>).
\<close>

fun raw_pair :: "pyobj \<Rightarrow> (pyobj \<times> pyobj) option" where
  "raw_pair (PyTuple True (a # b # _)) = Some (a, b)"
| "raw_pair (PyList _ (a # b # _)) = Some (a, b)"
| "raw_pair _ = None"

definition format_header :: "pyobj \<Rightarrow> bool \<times> bool \<Rightarrow> hdr_buf \<Rightarrow> hdr_err + (bool \<times> bool) \<times> hdr_buf" where
  "format_header pair flags st =
     (case raw_pair pair of
        None \<Rightarrow> Inl HdrOverrun
      | Some (no, vo) \<Rightarrow>
          (case (as_utf8 no, as_utf8 vo) of
             (Some name, Some val) \<Rightarrow>
               andthen (HDR_APPEND name st) (\<lambda>st1.
               andthen (HDR_APPEND '': '' st1) (\<lambda>st2.
               andthen (HDR_APPEND val st2) (\<lambda>st3.
               andthen (HDR_APPEND CRLF st3) (\<lambda>st4. Inr (name_flags name flags, st4)))))
           | _ \<Rightarrow> Inl HdrFull))"

fun format_headers :: "pyobj list \<Rightarrow> bool \<times> bool \<Rightarrow> hdr_buf \<Rightarrow> hdr_err + (bool \<times> bool) \<times> hdr_buf" where
  "format_headers [] flags st = Inr (flags, st)"
| "format_headers (h # hs) flags st =
     andthen (format_header h flags st) (\<lambda>(flags', st'). format_headers hs flags' st')"

fun list_items :: "pyobj \<Rightarrow> pyobj list" where
  "list_items (PyList _ xs) = xs"
| "list_items _ = []"

text \<open>The result is the array with the number of bytes written.\<close>

definition format_response_headers :: "'p conn \<Rightarrow> int \<Rightarrow> hdr_err + hdr_buf" where
  "format_response_headers c body_len =
     (case as_utf8 (the (resp_status c)) of
        None \<Rightarrow> Inl HdrFull
      | Some status_str \<Rightarrow>
          andthen (HDR_APPEND ''HTTP/1.1 '' (resp_hdr c, 0)) (\<lambda>st1.
          andthen (HDR_APPEND status_str st1) (\<lambda>st2.
          andthen (HDR_APPEND CRLF st2) (\<lambda>st3.
          andthen (format_headers (list_items (the (resp_pyheaders c))) (False, False) st3)
            (\<lambda>((have_cl, have_conn), st4). append_tail have_cl have_conn (keep_alive c) body_len st4)))))"

subsection \<open>Dispatch\<close>

definition response_500 :: bytes where
  "response_500 =
     ''HTTP/1.1 500 Internal Server Error'' @ CRLF @ ''Content-Type: text/plain'' @ CRLF @
     ''Content-Length: 21'' @ CRLF @ ''Connection: close'' @ CRLF @ CRLF @ ''Internal Server Error''"

definition send_500 :: "'p ext \<Rightarrow> 'p conn \<Rightarrow> 'p conn" where
  "send_500 X c =
     write_response X (c\<lparr>keep_alive := False, resp_hdr := blit (resp_hdr c) 0 response_500,
                         resp_hdr_len := int (length response_500), resp_body := None\<rparr>)"

text \<open>\<open>None\<close> is undefined behaviour in the formatter; every other path sends exactly one response.\<close>

definition wsgi_call_application :: "'p ext \<Rightarrow> 'p conn \<Rightarrow> 'p conn option" where
  "wsgi_call_application X c =
     (case build_environ X c of
        (None, c1) \<Rightarrow> Some (send_500 X c1)
      | (Some env, c1) \<Rightarrow>
          if \<not> start_response_alloc (py_mem X) then Some (send_500 X c1)
          else
            (case run_call (wsgi_app X env) c1 of
               (Raised, c2) \<Rightarrow> Some (send_500 X c2)
             | (Returned result, c2) \<Rightarrow>
                 (case collect_body X result c2 of
                    (None, c3) \<Rightarrow> Some (send_500 X c3)
                  | (Some body, c3) \<Rightarrow>
                      if resp_status c3 = None then Some (send_500 X c3)
                      else
                        (case format_response_headers c3 (int (length (bytes_of body))) of
                           Inl HdrOverrun \<Rightarrow> None
                         | Inl HdrFull \<Rightarrow> Some (send_500 X c3)
                         | Inr (hdr, len) \<Rightarrow>
                             Some (write_response X
                               (c3\<lparr>resp_hdr := hdr, resp_hdr_len := len, resp_body := Some body\<rparr>))))))"

section \<open>start_response\<close>

text \<open>
  What \<open>start_response\<close> is to accept, by RFC 9110 and PEP 3333 and not by the code: a status of three digits,
  alone or with a blank and a reason; headers that are exact pairs of strings, the name a token, the value
  without control characters other than HTAB.
\<close>

definition token_name :: "bytes \<Rightarrow> bool" where
  "token_name n \<longleftrightarrow> n \<noteq> [] \<and> (\<forall>c \<in> set n. tchar (byte c))"

definition plain_text :: "bytes \<Rightarrow> bool" where
  "plain_text v \<longleftrightarrow> (\<forall>c \<in> set v. c = TAB \<or> (32 \<le> byte c \<and> byte c \<noteq> 127))"

definition status_text :: "bytes \<Rightarrow> bool" where
  "status_text s \<longleftrightarrow> (\<exists>a b c r. s = [a, b, c] @ r \<and> (\<forall>d \<in> {a, b, c}. 48 \<le> byte d \<and> byte d \<le> 57)
     \<and> (r = [] \<or> hd r = SP) \<and> plain_text r)"

definition clean_pair :: "pyobj \<Rightarrow> bool" where
  "clean_pair p \<longleftrightarrow>
     (\<exists>n v nm vv. (p = PyTuple True [PyStr n, PyStr v] \<or> p = PyList True [PyStr n, PyStr v])
        \<and> utf8_encode n = Some nm \<and> utf8_encode v = Some vv \<and> token_name nm \<and> plain_text vv)"

definition sr_accepts :: "pyobj list \<Rightarrow> 'p conn \<Rightarrow> bool" where
  "sr_accepts args c \<longleftrightarrow>
     (\<exists>s b e hs exc. (args = [PyStr s, PyList e hs] \<and> exc = PyNone \<or> args = [PyStr s, PyList e hs, exc])
        \<and> (exc = PyNone \<or> resp_status c = None)
        \<and> utf8_encode s = Some b \<and> status_text b \<and> (\<forall>p \<in> set hs. clean_pair p))"

lemma line_char_eq: "line_char c \<longleftrightarrow> c = TAB \<or> (32 \<le> byte c \<and> byte c \<noteq> 127)"
  by (simp add: line_char_def eq_delim)

lemma checks_spec:
  "freastal_hdr_name_ok n = token_name n" "freastal_hdr_value_ok v = plain_text v" "freastal_status_ok b = status_text b"
  by (simp_all add: hdr_name_ok_iff hdr_value_ok_iff status_ok_iff token_name_def plain_text_def status_text_def line_char_eq)

lemma pair_items_Some: "pair_items p = Some (a, b) \<longleftrightarrow> p = PyTuple True [a, b] \<or> p = PyList True [a, b]"
  by (cases p rule: pair_items.cases) auto

lemma as_utf8_Some: "as_utf8 x = Some b \<longleftrightarrow> (\<exists>s. x = PyStr s \<and> utf8_encode s = Some b)"
  by (cases x) auto

lemma sr_header_ok_iff: "sr_header_ok p = clean_pair p"
proof (cases "pair_items p")
  case None
  then have "\<not> clean_pair p" by (auto simp: clean_pair_def)
  then show ?thesis using None by (simp add: sr_header_ok_def)
next
  case (Some q)
  obtain a b where q: "q = (a, b)" by (cases q)
  have "clean_pair p \<longleftrightarrow> (\<exists>nm vv. as_utf8 a = Some nm \<and> as_utf8 b = Some vv \<and> token_name nm \<and> plain_text vv)"
    using Some unfolding q pair_items_Some as_utf8_Some clean_pair_def by auto
  moreover have "PyUnicode_Check x" if "as_utf8 x = Some t" for x t using that by (cases x) simp_all
  ultimately show ?thesis
    by (auto simp: sr_header_ok_def Some q checks_spec split: option.splits)
qed

lemma parse_sr_args_Some:
  "parse_sr_args args = Some (st, h, e) \<longleftrightarrow>
     (\<exists>s. st = PyStr s \<and> (args = [PyStr s, h] \<and> e = PyNone \<or> args = [PyStr s, h, e]))"
  by (cases args rule: parse_sr_args.cases) auto

lemma start_response_ok:
  assumes "StartResponse_call args c = (True, c')"
  obtains s b e hs where "c' = c\<lparr>resp_status := Some (PyStr s), resp_pyheaders := Some (PyList e hs)\<rparr>"
    "utf8_encode s = Some b" "freastal_status_ok b" "\<forall>p \<in> set hs. sr_header_ok p"
    "\<exists>rest. args = PyStr s # PyList e hs # rest" "sr_accepts args c"
proof -
  obtain st h x where a: "parse_sr_args args = Some (st, h, x)"
    using assms by (cases "parse_sr_args args") (auto simp: StartResponse_call_def)
  then obtain s where s: "st = PyStr s" "args = [PyStr s, h] \<and> x = PyNone \<or> args = [PyStr s, h, x]"
    by (auto simp: parse_sr_args_Some)
  obtain e hs where h: "h = PyList e hs"
    using assms a by (cases h) (auto simp: StartResponse_call_def split: if_splits)
  obtain b where b: "utf8_encode s = Some b" "freastal_status_ok b" "list_all sr_header_ok hs"
    "c' = c\<lparr>resp_status := Some (PyStr s), resp_pyheaders := Some (PyList e hs)\<rparr>" "x = PyNone \<or> resp_status c = None"
    using assms a s h by (auto simp: StartResponse_call_def split: if_splits option.splits)
  have ok: "\<forall>p \<in> set hs. sr_header_ok p" using b(3) by (simp add: list_all_iff)
  have "sr_accepts args c" unfolding sr_accepts_def
    using s(2) b(1,2,5) ok h
    by (intro exI [of _ s] exI [of _ b] exI [of _ e] exI [of _ hs] exI [of _ x]) (auto simp: sr_header_ok_iff checks_spec)
  moreover have "\<exists>rest. args = PyStr s # PyList e hs # rest" using s(2) h by auto
  ultimately show ?thesis using that [OF b(4,1,2) ok] by blast
qed

lemma start_response_fail: "StartResponse_call args c = (False, c') \<Longrightarrow> c' = c"
proof (cases "parse_sr_args args")
  case (Some t)
  assume r: "StartResponse_call args c = (False, c')"
  obtain st h x where t: "t = (st, h, x)" by (cases t)
  show ?thesis
    using r unfolding StartResponse_call_def Some t option.case prod.case
    by (cases h; cases "as_utf8 st") (simp_all split: if_splits)
qed (simp add: StartResponse_call_def)

lemma sr_accepts_call: "sr_accepts args c \<Longrightarrow> fst (StartResponse_call args c)"
  by (auto simp: sr_accepts_def StartResponse_call_def list_all_iff sr_header_ok_iff checks_spec)

text \<open>
  C14. \<open>start_response\<close> is atomic and exact. It returns precisely when its arguments are a status string
  and a list, the status is three digits alone or followed by a blank and a reason, every header is an exact
  pair of strings whose name is a token and whose value holds no control character but HTAB, and no
  exception information is passed on top of a response already announced; it then stores precisely
  its first two arguments. In every other case it raises and the connection is unchanged, so a rejected
  response never reaches the formatter.
\<close>

theorem start_response_atomic:
  "fst (StartResponse_call args c) = sr_accepts args c
    \<and> (\<not> fst (StartResponse_call args c) \<longrightarrow> snd (StartResponse_call args c) = c)
    \<and> (fst (StartResponse_call args c) \<longrightarrow>
        (\<exists>s e hs rest. args = PyStr s # PyList e hs # rest \<and> (\<forall>p \<in> set hs. clean_pair p)
          \<and> snd (StartResponse_call args c)
            = c\<lparr>resp_status := Some (PyStr s), resp_pyheaders := Some (PyList e hs)\<rparr>))"
proof (cases "StartResponse_call args c")
  case (Pair ok c')
  show ?thesis
  proof (cases ok)
    case True
    then have "StartResponse_call args c = (True, c')" using Pair by simp
    then obtain s b e hs where
      "c' = c\<lparr>resp_status := Some (PyStr s), resp_pyheaders := Some (PyList e hs)\<rparr>"
      "\<forall>p \<in> set hs. sr_header_ok p" "\<exists>rest. args = PyStr s # PyList e hs # rest" "sr_accepts args c"
      by (rule start_response_ok)
    then show ?thesis using True unfolding Pair fst_conv snd_conv sr_header_ok_iff by blast
  next
    case False
    then show ?thesis using Pair start_response_fail [of args c c'] sr_accepts_call [of args c] by auto
  qed
qed

lemma utf8_encode_ascii: "\<forall>c \<in> set b. byte c < 128 \<Longrightarrow> utf8_encode (latin1 b) = Some b"
  by (induction b) (simp_all add: latin1_def utf8_char_def)

text \<open>Accepted; no list; a name with a colon; a value with a line end.\<close>

theorem start_response_atomic_witness:
  "fst (StartResponse_call [PyStr (latin1 ''200 OK''), PyList True []] (sample_conn :: nat conn))
    \<and> snd (StartResponse_call [PyStr (latin1 ''200 OK'')] (sample_conn :: nat conn)) = sample_conn
    \<and> snd (StartResponse_call [PyStr (latin1 ''200 OK''), PyList True [PyTuple True [PyStr [58], PyStr []]]]
        (sample_conn :: nat conn)) = sample_conn
    \<and> snd (StartResponse_call [PyStr (latin1 ''200 OK''), PyList True [PyTuple True [PyStr [65], PyStr [13, 10]]]]
        (sample_conn :: nat conn)) = sample_conn"
proof -
  have "utf8_encode (latin1 ''200 OK'') = Some ''200 OK''" by (rule utf8_encode_ascii) simp
  moreover have "status_text ''200 OK''"
    unfolding status_text_def
    by (rule exI [of _ "CHR ''2''"], rule exI [of _ "CHR ''0''"], rule exI [of _ "CHR ''0''"], rule exI [of _ "'' OK''"])
      (simp add: plain_text_def eq_delim)
  ultimately have "sr_accepts [PyStr (latin1 ''200 OK''), PyList True []] (sample_conn :: nat conn)"
    by (auto simp: sr_accepts_def)
  moreover have "\<not> clean_pair (PyTuple True [PyStr [58], PyStr []])"
    by (simp add: clean_pair_def utf8_char_def token_name_def tchar_def of_char_of)
  moreover have "\<not> clean_pair (PyTuple True [PyStr [65], PyStr [13, 10]])"
    by (simp add: clean_pair_def utf8_char_def plain_text_def eq_delim of_char_of)
  ultimately show ?thesis
    using start_response_atomic [of "[PyStr (latin1 ''200 OK''), PyList True []]" "sample_conn :: nat conn"]
      start_response_atomic [of "[PyStr (latin1 ''200 OK'')]" "sample_conn :: nat conn"]
      start_response_atomic [of "[PyStr (latin1 ''200 OK''), PyList True [PyTuple True [PyStr [58], PyStr []]]]" "sample_conn :: nat conn"]
      start_response_atomic [of "[PyStr (latin1 ''200 OK''), PyList True [PyTuple True [PyStr [65], PyStr [13, 10]]]]" "sample_conn :: nat conn"]
    by auto
qed

section \<open>Collecting the body\<close>

text \<open>The reference: drain the iterator, refuse anything that is not bytes, concatenate.\<close>

definition body_reference :: "pyobj \<Rightarrow> 'p conn \<Rightarrow> bytes option \<times> 'p conn" where
  "body_reference obj c =
     (case get_iter obj of
        None \<Rightarrow> (None, c)
      | Some it \<Rightarrow>
          (case drain it c of
             (xs, err, c') \<Rightarrow>
               (if err \<or> \<not> list_all PyBytes_Check xs then None else Some (concat (map bytes_of xs)), c')))"

lemma drain_next:
  "drain it c = (case iter_next it c of
      (Item x, it', c') \<Rightarrow> (case drain it' c' of (xs, err, c'') \<Rightarrow> (x # xs, err, c''))
    | (Stop, _, c') \<Rightarrow> ([], False, c')
    | (Error, _, c') \<Rightarrow> ([], True, c'))"
proof (cases it)
  case (ItList xs)
  then show ?thesis by (cases xs) auto
next
  case (ItCode k)
  have "drain_code k c = (case code_next k c of
      (Item x, it', c') \<Rightarrow> (case drain it' c' of (xs, err, c'') \<Rightarrow> (x # xs, err, c''))
    | (Stop, _, c') \<Rightarrow> ([], False, c')
    | (Error, _, c') \<Rightarrow> ([], True, c'))"
    by (induction k c rule: drain_code.induct) (auto split: prod.splits)
  then show ?thesis using ItCode by simp
qed

lemma iter_next_end:
  "iter_next it c = (r, it', c') \<Longrightarrow> r = Stop \<or> r = Error \<Longrightarrow> it' = ItList []"
proof (cases it)
  case (ItCode k)
  assume "iter_next it c = (r, it', c')" "r = Stop \<or> r = Error"
  then show ?thesis unfolding ItCode iter_next.simps
    by (induction k c rule: code_next.induct) (auto split: prod.splits if_splits)
next
  case (ItList xs)
  assume "iter_next it c = (r, it', c')" "r = Stop \<or> r = Error"
  then show ?thesis unfolding ItList by (cases xs) auto
qed

lemma collect_iter_reference:
  assumes "body_alloc (py_mem X)"
  shows "map_option bytes_of (fst (collect_iter X it c)) =
      (case drain it c of (xs, err, c') \<Rightarrow>
        if err \<or> \<not> list_all PyBytes_Check xs then None else Some (concat (map bytes_of xs)))
    \<and> snd (collect_iter X it c) = (case drain it c of (xs, err, c') \<Rightarrow> c')"
proof -
  obtain r1 it1 c1 where n1: "iter_next it c = (r1, it1, c1)" by (metis prod_cases3)
  show ?thesis
  proof (cases r1)
    case (Item x)
    obtain r2 it2 c2 where n2: "iter_next it1 c1 = (r2, it2, c2)" by (metis prod_cases3)
    obtain xs err c3 where d: "drain it2 c2 = (xs, err, c3)" by (metis prod_cases3)
    show ?thesis
      using n1 n2 d Item assms iter_next_end [OF n2]
      by (cases r2) (auto simp: collect_iter_def drain_next [of it] drain_next [of it1] Let_def)
  qed (use n1 in \<open>auto simp: collect_iter_def drain_next [of it]\<close>)
qed

text \<open>
  C15. The body is the concatenation of its chunks. The three short cuts of \<open>collect_body\<close> (the list of
  one bytes object that is taken apart directly, the single chunk that is not copied, the empty
  iterable) and its general path all give what draining the iterable and concatenating gives: no body
  when the iterable raises, is no iterable or yields something that is not bytes, and otherwise
  exactly the chunks in order; and application code run by the iteration has the same effect on the
  response either way.
\<close>

theorem collect_body_reference:
  assumes "body_alloc (py_mem X)"
  shows "map_option bytes_of (fst (collect_body X obj c)) = fst (body_reference obj c)
    \<and> snd (collect_body X obj c) = snd (body_reference obj c)"
proof (cases "single_bytes obj")
  case True
  then show ?thesis
    by (cases obj rule: single_bytes.cases) (auto simp: collect_body_def body_reference_def)
next
  case False
  then show ?thesis using collect_iter_reference [OF assms]
    by (auto simp: collect_body_def body_reference_def split: option.splits prod.splits)
qed

theorem collect_body_reference_witness:
  "map_option bytes_of (fst (collect_body sample_ext (PyTuple True [PyBytes True ''a'', PyBytes False ''b''])
      (sample_conn :: nat conn))) = Some ''ab''"
proof -
  have "body_alloc (py_mem (sample_ext :: nat ext))" by (simp add: sample_ext_def)
  from collect_body_reference [OF this, of "PyTuple True [PyBytes True ''a'', PyBytes False ''b'']" sample_conn]
  show ?thesis by (simp add: body_reference_def)
qed

section \<open>The response header block\<close>

text \<open>The texts of a header that \<open>start_response\<close> admitted.\<close>

definition header_text :: "pyobj \<Rightarrow> (bytes \<times> bytes) option" where
  "header_text p =
     (case raw_pair p of
        None \<Rightarrow> None
      | Some (no, vo) \<Rightarrow> (case (as_utf8 no, as_utf8 vo) of (Some n, Some v) \<Rightarrow> Some (n, v) | _ \<Rightarrow> None))"

definition field_copyable :: "bytes \<times> bytes \<Rightarrow> bool" where
  "field_copyable f \<longleftrightarrow> copyable (fst f) \<and> copyable (snd f)"

lemma pair_items_raw: "pair_items p = Some x \<Longrightarrow> raw_pair p = Some x"
  by (cases p rule: pair_items.cases) auto

lemma sr_header_ok_text:
  assumes "sr_header_ok p"
  obtains n v where "header_text p = Some (n, v)" "freastal_hdr_name_ok n" "freastal_hdr_value_ok v"
proof -
  obtain no vo where p: "pair_items p = Some (no, vo)"
    using assms by (cases "pair_items p") (auto simp: sr_header_ok_def)
  obtain n v where "as_utf8 no = Some n" "as_utf8 vo = Some v" "freastal_hdr_name_ok n" "freastal_hdr_value_ok v"
    using assms by (cases "as_utf8 no"; cases "as_utf8 vo") (auto simp: sr_header_ok_def p split: if_splits)
  then show ?thesis using pair_items_raw [OF p] by (intro that [of n v]) (simp_all add: header_text_def)
qed

definition field_chunks :: "bytes \<times> bytes \<Rightarrow> bytes list" where
  "field_chunks f = [fst f, '': '', snd f, CRLF]"

lemma format_header_eq:
  assumes "header_text p = Some f"
  shows "format_header p flags st =
    andthen (puts HDR_APPEND (field_chunks f) st) (\<lambda>st'. Inr (name_flags (fst f) flags, st'))"
proof -
  obtain no vo where r: "raw_pair p = Some (no, vo)"
    using assms by (cases "raw_pair p") (auto simp: header_text_def)
  have "as_utf8 no = Some (fst f)" "as_utf8 vo = Some (snd f)"
    using assms by (auto simp: header_text_def r split: option.splits)
  then show ?thesis
    by (simp add: format_header_def r field_chunks_def andthen_assoc cong: andthen_cong)
qed

lemma format_headers_eq:
  assumes "map header_text hs = map Some hdrs"
  shows "format_headers hs flags st =
    andthen (puts HDR_APPEND (concat (map field_chunks hdrs)) st)
      (\<lambda>st'. Inr (fold (\<lambda>f. name_flags (fst f)) hdrs flags, st'))"
  using assms
proof (induction hs arbitrary: hdrs flags st)
  case (Cons p hs)
  obtain f fs where h: "hdrs = f # fs" using Cons.prems by (cases hdrs) auto
  have p: "header_text p = Some f" "map header_text hs = map Some fs" using Cons.prems h by auto
  show ?case
    by (simp add: h format_header_eq [OF p(1)] Cons.IH [OF p(2)] puts_append andthen_assoc cong: andthen_cong)
qed simp

lemma field_chunks_writes:
  assumes "\<forall>f \<in> set hdrs. field_copyable f"
  shows "writes (puts HDR_APPEND (concat (map field_chunks hdrs))) (concat (map (\<lambda>f. field_line f @ CRLF) hdrs))"
proof (rule writes_eq [OF app.puts_writes])
  have "copyable '': ''" "copyable CRLF" by (simp_all add: copyable_def)
  then show "\<forall>x \<in> set (concat (map field_chunks hdrs)). copyable x"
    using assms unfolding field_chunks_def field_copyable_def by auto
  show "concat (map (\<lambda>b. b) (concat (map field_chunks hdrs))) = concat (map (\<lambda>f. field_line f @ CRLF) hdrs)"
    by (induction hdrs) (simp_all add: field_chunks_def field_line_def)
qed

definition format_ok :: "'p conn \<Rightarrow> bytes \<Rightarrow> (bytes \<times> bytes) list \<Rightarrow> bool" where
  "format_ok c status hdrs \<longleftrightarrow>
     (\<exists>s e hs. resp_status c = Some (PyStr s) \<and> utf8_encode s = Some status
        \<and> resp_pyheaders c = Some (PyList e hs) \<and> map header_text hs = map Some hdrs)
     \<and> copyable status \<and> (\<forall>f \<in> set hdrs. field_copyable f) \<and> length (resp_hdr c) = RESP_HDR_SIZE"

lemma format_response_writes:
  assumes "format_ok c status hdrs" "int n < 2 ^ 63"
  shows "\<exists>f. writes f (response_head (response_lines (''HTTP/1.1 '' @ status) hdrs (keep_alive c) n))
    \<and> format_response_headers c (int n) = f (resp_hdr c, 0)"
proof -
  obtain s e hs where r: "resp_status c = Some (PyStr s)" "utf8_encode s = Some status"
    "resp_pyheaders c = Some (PyList e hs)" "map header_text hs = map Some hdrs"
    using assms(1) by (auto simp: format_ok_def)
  have cp: "copyable status" "\<forall>f \<in> set hdrs. field_copyable f" "copyable ''HTTP/1.1 ''"
    using assms(1) by (simp_all add: format_ok_def copyable_def)
  let ?cl = "has_field ''content-length'' hdrs" and ?cn = "has_field ''connection'' hdrs"
  let ?f = "\<lambda>st. andthen (HDR_APPEND ''HTTP/1.1 '' st) (\<lambda>st1. andthen (HDR_APPEND status st1) (\<lambda>st2.
    andthen (HDR_APPEND CRLF st2) (\<lambda>st3. andthen (puts HDR_APPEND (concat (map field_chunks hdrs)) st3)
      (append_tail ?cl ?cn (keep_alive c) (int n)))))"
  have "writes ?f (''HTTP/1.1 '' @ status @ CRLF @ concat (map (\<lambda>f. field_line f @ CRLF) hdrs)
      @ auto_lines ?cl ?cn (keep_alive c) n)"
    by (intro writes_andthen writes_append cp copyable_literals field_chunks_writes append_tail_writes assms)
  moreover have "format_response_headers c (int n) = ?f (resp_hdr c, 0)"
    by (simp add: format_response_headers_def r format_headers_eq [OF r(4)] andthen_assoc fold_name_flags
        cong: andthen_cong)
  ultimately show ?thesis unfolding response_head_lines append_assoc by blast
qed

lemma format_response_text:
  assumes "format_ok c status hdrs" "int n < 2 ^ 63"
  defines "head \<equiv> response_head (response_lines (''HTTP/1.1 '' @ status) hdrs (keep_alive c) n)"
  shows "if length head \<le> RESP_HDR_SIZE
    then \<exists>hdr. format_response_headers c (int n) = Inr (hdr, int (length head))
           \<and> length hdr = RESP_HDR_SIZE \<and> take (length head) hdr = head
    else format_response_headers c (int n) = Inl HdrFull"
proof -
  obtain f where f: "writes f head" "format_response_headers c (int n) = f (resp_hdr c, 0)"
    using format_response_writes [OF assms(1,2)] unfolding head_def by blast
  have wf: "hdr_wf (resp_hdr c, 0)" "hdr_text (resp_hdr c, 0) = []"
    using assms(1) by (simp_all add: format_ok_def hdr_wf_def hdr_text_def)
  show ?thesis
  proof (cases "length head \<le> RESP_HDR_SIZE")
    case True
    then obtain hdr len where "f (resp_hdr c, 0) = Inr (hdr, len)" "hdr_wf (hdr, len)" "hdr_text (hdr, len) = head"
      using writesD(1) [OF f(1) wf(1)] wf(2) by auto
    then show ?thesis using True f(2) length_hdr_text [of "(hdr, len)"] by (auto simp: hdr_wf_def hdr_text_def)
  next
    case False
    then show ?thesis using writesD(2) [OF f(1) wf(1)] wf(2) f(2) by simp
  qed
qed

text \<open>
  C16. The header block is exactly the text of the response: the status line, a line for each header of
  the application in order, a \<open>Content-Length\<close> line with the length of the body unless the application
  sent one, a \<open>Connection\<close> line likewise, and the empty line. It is written whole when it fits in
  \<open>RESP_HDR_SIZE\<close> and refused, never truncated, when it does not.
\<close>

theorem format_response_exact:
  assumes "format_ok c status hdrs" "int n < 2 ^ 63"
  defines "head \<equiv> response_head (response_lines (''HTTP/1.1 '' @ status) hdrs (keep_alive c) n)"
  shows "if length head \<le> RESP_HDR_SIZE
    then \<exists>hdr. format_response_headers c (int n) = Inr (hdr, int (length head))
           \<and> length hdr = RESP_HDR_SIZE \<and> take (length head) hdr = head
    else format_response_headers c (int n) = Inl HdrFull"
  using format_response_text [OF assms(1,2)] unfolding head_def .

definition sample_accepted :: "nat conn" where
  "sample_accepted = sample_conn\<lparr>resp_status := Some (PyStr (latin1 ''200 OK'')),
     resp_pyheaders := Some (PyList True [PyTuple True [PyStr (latin1 ''ETag''), PyStr (latin1 ''7'')]])\<rparr>"

theorem format_response_exact_witness:
  "\<exists>hdr. format_response_headers sample_accepted 2 = Inr (hdr, 66)
     \<and> take 66 hdr = ''HTTP/1.1 200 OK'' @ CRLF @ ''ETag: 7'' @ CRLF @ ''Content-Length: 2'' @ CRLF
         @ ''Connection: close'' @ CRLF @ CRLF"
proof -
  have f: "format_ok sample_accepted ''200 OK'' [(''ETag'', ''7'')]"
    by (simp add: format_ok_def sample_accepted_def sample_conn_def latin1_def utf8_char_def header_text_def
        field_copyable_def copyable_def char_of_def bit_iff_odd ex_bool_eq)
  have h: "response_head (response_lines (''HTTP/1.1 '' @ ''200 OK'') [(''ETag'', ''7'')] (keep_alive sample_accepted) 2)
    = ''HTTP/1.1 200 OK'' @ CRLF @ ''ETag: 7'' @ CRLF @ ''Content-Length: 2'' @ CRLF @ ''Connection: close'' @ CRLF @ CRLF"
    by (simp add: response_head_def response_lines_def extra_lines_def has_field_def is_name_def field_line_def
        sample_accepted_def sample_conn_def dec.simps char_of_def bit_iff_odd)
  have l: "length (''HTTP/1.1 200 OK'' @ CRLF @ ''ETag: 7'' @ CRLF @ ''Content-Length: 2'' @ CRLF
      @ ''Connection: close'' @ CRLF @ CRLF) = 66" "66 \<le> RESP_HDR_SIZE" "int 2 < 2 ^ 63"
    by (simp_all add: RESP_HDR_SIZE_def)
  from format_response_exact [OF f l(3)] show ?thesis
    unfolding h l(1) if_P [OF l(2)] of_nat_numeral by blast
qed

section \<open>One request, one response\<close>

text \<open>Application code reaches the connection through the two response fields only.\<close>

definition resp_frame :: "'p conn \<Rightarrow> 'p conn \<Rightarrow> bool" where
  "resp_frame c c' \<longleftrightarrow> c' = c\<lparr>resp_status := resp_status c', resp_pyheaders := resp_pyheaders c'\<rparr>"

lemma resp_frame_refl [simp]: "resp_frame c c"
  by (simp add: resp_frame_def)

lemma resp_frame_trans: "resp_frame a b \<Longrightarrow> resp_frame b c \<Longrightarrow> resp_frame a c"
  unfolding resp_frame_def by (metis (no_types, lifting) conn.surjective conn.update_convs(8,9))

lemma resp_frame_call: "resp_frame c (snd (StartResponse_call args c))"
proof (cases "StartResponse_call args c")
  case (Pair ok c')
  show ?thesis
  proof (cases ok)
    case True
    with Pair have "StartResponse_call args c = (True, c')" by simp
    from start_response_ok [OF this] obtain s e hs where
      "c' = c\<lparr>resp_status := Some (PyStr s), resp_pyheaders := Some (PyList e hs)\<rparr>" by metis
    then show ?thesis using Pair by (simp add: resp_frame_def)
  next
    case False
    then show ?thesis using Pair start_response_fail [of args c c'] by simp
  qed
qed

lemma resp_frame_mutate: "resp_frame c (mutate_headers hs c)"
  by (simp add: resp_frame_def mutate_headers_def split: option.split pyobj.split)

text \<open>
  An invariant of application code: whatever each call to \<open>start_response\<close> and each change of the header
  list keeps is kept by running the code.
\<close>

locale app_invariant =
  fixes P :: "'p conn \<Rightarrow> bool"
    and good :: "pycode \<Rightarrow> bool"
  assumes call: "good (CallSR args k1 k2) \<Longrightarrow> P c \<Longrightarrow> P (snd (StartResponse_call args c)) \<and> good k1 \<and> good k2"
    and mutate: "good (MutateHeaders hs k) \<Longrightarrow> P c \<Longrightarrow> P (mutate_headers hs c) \<and> good k"
    and yield: "good (Yield x k) \<Longrightarrow> good k"
begin

lemma run_call_keeps:
  "good k \<Longrightarrow> P c \<Longrightarrow> run_call k c = (r, c') \<Longrightarrow> P c'"
proof (induction k c rule: run_call.induct)
  case (1 args k1 k2 c)
  obtain ok c1 where sr: "StartResponse_call args c = (ok, c1)" by (cases "StartResponse_call args c")
  have "P c1" "good k1" "good k2" using call [OF 1(3,4)] sr by simp_all
  then show ?case using 1(1,2) [OF sr [symmetric]] 1(5) sr by (cases ok) simp_all
next
  case (2 hs k c)
  then show ?case using mutate [OF 2(2,3)] by simp
qed auto

lemma code_next_keeps:
  "good k \<Longrightarrow> P c \<Longrightarrow> code_next k c = (r, it, c') \<Longrightarrow> P c' \<and> (\<forall>k'. it = ItCode k' \<longrightarrow> good k')"
proof (induction k c rule: code_next.induct)
  case (1 args k1 k2 c)
  obtain ok c1 where sr: "StartResponse_call args c = (ok, c1)" by (cases "StartResponse_call args c")
  have "P c1" "good k1" "good k2" using call [OF 1(3,4)] sr by simp_all
  then show ?case using 1(1,2) [OF sr [symmetric]] 1(5) sr by (cases ok) simp_all
next
  case (2 hs k c)
  then show ?case using mutate [OF 2(2,3)] by simp
next
  case (3 x k c)
  then show ?case using yield by auto
qed auto

lemma drain_code_keeps:
  "good k \<Longrightarrow> P c \<Longrightarrow> drain_code k c = (xs, err, c') \<Longrightarrow> P c'"
proof (induction k c arbitrary: xs rule: drain_code.induct)
  case (1 args k1 k2 c)
  obtain ok c1 where sr: "StartResponse_call args c = (ok, c1)" by (cases "StartResponse_call args c")
  have "P c1" "good k1" "good k2" using call [OF 1(3,4)] sr by simp_all
  then show ?case using 1(1,2) [OF sr [symmetric]] 1(5) sr by (cases ok) simp_all
next
  case (2 hs k c)
  then show ?case using mutate [OF 2(2,3)] by simp
next
  case (3 x k c)
  then show ?case using yield [of x k] by (auto split: prod.splits)
qed auto

definition good_iter :: "pyiter \<Rightarrow> bool" where
  "good_iter it \<longleftrightarrow> (\<forall>k. it = ItCode k \<longrightarrow> good k)"

lemma iter_next_keeps:
  "good_iter it \<Longrightarrow> P c \<Longrightarrow> iter_next it c = (r, it', c') \<Longrightarrow> P c' \<and> good_iter it'"
  by (cases "(it, c)" rule: iter_next.cases) (auto simp: good_iter_def dest: code_next_keeps)

lemma drain_keeps: "good_iter it \<Longrightarrow> P c \<Longrightarrow> drain it c = (xs, err, c') \<Longrightarrow> P c'"
  by (cases it) (auto simp: good_iter_def dest: drain_code_keeps)

lemma collect_iter_keeps:
  assumes "good_iter it" "P c"
  shows "P (snd (collect_iter X it c))"
proof -
  obtain r1 it1 c1 where n1: "iter_next it c = (r1, it1, c1)" by (metis prod_cases3)
  obtain r2 it2 c2 where n2: "iter_next it1 c1 = (r2, it2, c2)" by (metis prod_cases3)
  obtain xs err c3 where d: "drain it2 c2 = (xs, err, c3)" by (metis prod_cases3)
  have p1: "P c1" "good_iter it1" using iter_next_keeps [OF assms n1] by auto
  have p2: "P c2" "good_iter it2" using iter_next_keeps [OF p1(2,1) n2] by auto
  have p3: "P c3" using drain_keeps [OF p2(2,1) d] .
  show ?thesis using p1 p2 p3 n1 n2 d
    by (cases r1; cases r2) (simp_all add: collect_iter_def Let_def)
qed

lemma collect_body_keeps:
  assumes "\<forall>k. obj = PyGen k \<longrightarrow> good k" "P c"
  shows "P (snd (collect_body X obj c))"
proof -
  have "good_iter it" if "get_iter obj = Some it" for it
    using that assms(1) by (cases obj) (auto simp: good_iter_def)
  then show ?thesis using assms(2) collect_iter_keeps
    by (auto simp: collect_body_def split: option.split pyobj.split list.split)
qed

end

interpretation frame: app_invariant "resp_frame c0" "\<lambda>_. True" for c0 :: "'p conn"
  by unfold_locales (use resp_frame_trans resp_frame_call resp_frame_mutate in blast)+

text \<open>
  The part of \<open>wsgi_call_application\<close> up to the formatter: the collected body, or \<open>None\<close> where the
  code goes to the 500 page.
\<close>

definition wsgi_run :: "'p ext \<Rightarrow> 'p conn \<Rightarrow> pyobj option \<times> 'p conn" where
  "wsgi_run X c =
     (case build_environ X c of
        (None, c1) \<Rightarrow> (None, c1)
      | (Some env, c1) \<Rightarrow>
          if \<not> start_response_alloc (py_mem X) then (None, c1)
          else
            (case run_call (wsgi_app X env) c1 of
               (Raised, c2) \<Rightarrow> (None, c2)
             | (Returned result, c2) \<Rightarrow>
                 (case collect_body X result c2 of
                    (None, c3) \<Rightarrow> (None, c3)
                  | (Some body, c3) \<Rightarrow> (if resp_status c3 = None then None else Some body, c3))))"

lemma wsgi_call_application_run:
  "wsgi_call_application X c =
     (case wsgi_run X c of
        (None, c3) \<Rightarrow> Some (send_500 X c3)
      | (Some body, c3) \<Rightarrow>
          (case format_response_headers c3 (int (length (bytes_of body))) of
             Inl HdrOverrun \<Rightarrow> None
           | Inl HdrFull \<Rightarrow> Some (send_500 X c3)
           | Inr (hdr, len) \<Rightarrow>
               Some (write_response X (c3\<lparr>resp_hdr := hdr, resp_hdr_len := len, resp_body := Some body\<rparr>))))"
proof -
  obtain eo c1 where b: "build_environ X c = (eo, c1)" by (cases "build_environ X c")
  show ?thesis
  proof (cases eo)
    case (Some env)
    obtain r c2 where rc: "run_call (wsgi_app X env) c1 = (r, c2)" by (cases "run_call (wsgi_app X env) c1")
    show ?thesis
    proof (cases r)
      case (Returned v)
      obtain bo c3 where cb: "collect_body X v c2 = (bo, c3)" by (cases "collect_body X v c2")
      show ?thesis using b Some rc Returned cb
        by (cases bo) (simp_all add: wsgi_call_application_def wsgi_run_def)
    qed (use b Some rc in \<open>simp_all add: wsgi_call_application_def wsgi_run_def\<close>)
  qed (use b in \<open>simp_all add: wsgi_call_application_def wsgi_run_def\<close>)
qed

lemma build_environ_frame:
  assumes "build_environ X c = (r, c1)"
  shows "c1 = c\<lparr>peer_addr_obj := peer_addr_obj c1\<rparr>"
proof (cases "(if tls c \<noteq> None then environ_template_https (srv c) else environ_template (srv c))")
  case None
  then show ?thesis using assms by (simp add: build_environ_def)
next
  case (Some tmpl)
  show ?thesis using assms unfolding build_environ_def Some
    by (cases "environ_alloc (py_mem X)"; cases "peer_addr_obj c"; cases "utf8_decode (peer_addr c)")
      (auto simp: Let_def)
qed

text \<open>What running the application preserves, given that each of its steps does.\<close>

lemma wsgi_run_keeps:
  fixes c :: "'p conn"
  assumes inv: "app_invariant P good" and "wsgi_run X c = (r, c3)"
    and start: "\<And>r c1. build_environ X c = (r, c1) \<Longrightarrow> P c1"
    and app: "\<And>env c0. build_environ X c = (Some env, c0) \<Longrightarrow> good (wsgi_app X env)"
    and ret: "\<And>env c0 (c1 :: 'p conn) v c2 k. build_environ X c = (Some env, c0) \<Longrightarrow>
      run_call (wsgi_app X env) c1 = (Returned v, c2) \<Longrightarrow> v = PyGen k \<Longrightarrow> good k"
  shows "P c3"
proof -
  obtain eo c1 where b: "build_environ X c = (eo, c1)" by (cases "build_environ X c")
  have p1: "P c1" using b by (rule start)
  show ?thesis
  proof (cases "eo = None \<or> \<not> start_response_alloc (py_mem X)")
    case True
    then show ?thesis using assms(2) p1 b by (auto simp: wsgi_run_def split: option.splits)
  next
    case False
    then obtain env where env: "eo = Some env" by auto
    obtain r1 c2 where rc: "run_call (wsgi_app X env) c1 = (r1, c2)" by (cases "run_call (wsgi_app X env) c1")
    have be: "build_environ X c = (Some env, c1)" using b env by simp
    have p2: "P c2" by (rule app_invariant.run_call_keeps [OF inv app [OF be] p1 rc])
    show ?thesis
    proof (cases r1)
      case (Returned v)
      have "\<forall>k. v = PyGen k \<longrightarrow> good k" using ret [OF be, of c1 v c2] rc Returned by auto
      then have "P (snd (collect_body X v c2))"
        using p2 by (rule app_invariant.collect_body_keeps [OF inv])
      moreover have "c3 = snd (collect_body X v c2)"
        using assms(2) False b env rc Returned by (auto simp: wsgi_run_def split: option.splits prod.splits)
      ultimately show ?thesis by simp
    qed (use assms(2) False b env rc p2 in \<open>auto simp: wsgi_run_def\<close>)
  qed
qed

lemma wsgi_run_frame:
  assumes "wsgi_run X c = (r, c3)"
  shows "\<exists>a st hs. c3 = c\<lparr>peer_addr_obj := a, resp_status := st, resp_pyheaders := hs\<rparr>"
proof -
  obtain eo c1 where b: "build_environ X c = (eo, c1)" by (cases "build_environ X c")
  have "resp_frame c1 c3"
    by (rule wsgi_run_keeps [OF frame.app_invariant_axioms assms]) (use b in simp_all)
  then have "c3 = c\<lparr>peer_addr_obj := peer_addr_obj c1, resp_status := resp_status c3, resp_pyheaders := resp_pyheaders c3\<rparr>"
    using build_environ_frame [OF b] unfolding resp_frame_def by (metis (no_types, lifting))
  then show ?thesis by blast
qed

lemma length_response_500: "length response_500 \<le> 8192"
  by (simp add: response_500_def)

lemma send_500_delivers:
  assumes "channel X opens c" "length (resp_hdr c) = RESP_HDR_SIZE"
  shows "delivers X opens c response_500 (send_500 X c)"
proof -
  let ?c = "c\<lparr>keep_alive := False, resp_hdr := blit (resp_hdr c) 0 response_500,
      resp_hdr_len := int (length response_500), resp_body := None\<rparr>"
  have "response_text ?c = response_500"
    using assms(2) length_response_500 take_blit_end [of 0 response_500 "resp_hdr c"]
    by (simp add: response_text_def resp_body_bytes_def RESP_HDR_SIZE_def)
  then show ?thesis using write_response_delivers [OF assms(1), of ?c] assms(2) length_response_500
    by (simp add: send_500_def resp_body_bytes_def RESP_HDR_SIZE_def)
qed

text \<open>Whatever the application did, the call ends in one \<open>write_response\<close>.\<close>

lemma wsgi_response:
  assumes "wsgi_call_application X c = Some c'"
  shows "\<exists>a st hs h n b ka.
    c' = write_response X (c\<lparr>peer_addr_obj := a, resp_status := st, resp_pyheaders := hs, resp_hdr := h,
           resp_hdr_len := n, resp_body := b, keep_alive := ka\<rparr>)
    \<and> (ka \<longrightarrow> keep_alive c)"
proof -
  obtain r c3 where w: "wsgi_run X c = (r, c3)" by (cases "wsgi_run X c")
  obtain a st hs where c3: "c3 = c\<lparr>peer_addr_obj := a, resp_status := st, resp_pyheaders := hs\<rparr>"
    using wsgi_run_frame [OF w] by blast
  have "\<exists>h n b ka. c' = write_response X (c3\<lparr>resp_hdr := h, resp_hdr_len := n, resp_body := b, keep_alive := ka\<rparr>)
      \<and> (ka \<longrightarrow> keep_alive c)"
  proof (cases "\<exists>body hdr len. r = Some body \<and> format_response_headers c3 (int (length (bytes_of body))) = Inr (hdr, len)")
    case True
    then obtain body hdr len where "r = Some body"
      "format_response_headers c3 (int (length (bytes_of body))) = Inr (hdr, len)" by blast
    then have "c' = write_response X (c3\<lparr>resp_hdr := hdr, resp_hdr_len := len, resp_body := Some body, keep_alive := keep_alive c\<rparr>)"
      using assms w c3 by (simp add: wsgi_call_application_run)
    then show ?thesis by blast
  next
    case False
    then have "c' = send_500 X c3"
      using assms w unfolding wsgi_call_application_run
      by (auto split: option.splits sum.splits hdr_err.splits)
    moreover have "c3\<lparr>keep_alive := False, resp_hdr := blit (resp_hdr c3) 0 response_500,
          resp_hdr_len := int (length response_500), resp_body := None\<rparr>
        = c3\<lparr>resp_hdr := blit (resp_hdr c3) 0 response_500, resp_hdr_len := int (length response_500),
            resp_body := None, keep_alive := False\<rparr>" by simp
    ultimately show ?thesis unfolding send_500_def
      by (intro exI [of _ "blit (resp_hdr c3) 0 response_500"] exI [of _ "int (length response_500)"]
          exI [of _ None] exI [of _ False]) simp
  qed
  then show ?thesis unfolding c3 by blast
qed

lemma wsgi_response_once:
  assumes "wsgi_call_application X c = Some c'"
  shows "\<exists>a st hs h n b ka w.
    c' = write_response X (c\<lparr>peer_addr_obj := a, resp_status := st, resp_pyheaders := hs, resp_hdr := h,
           resp_hdr_len := n, resp_body := b, keep_alive := ka\<rparr>)
    \<and> (ka \<longrightarrow> keep_alive c) \<and> same_rx c c' \<and> uv c' = uv c @ [w] \<and> response_call X c w"
proof -
  obtain a st hs h n b ka where
    d: "c' = write_response X (c\<lparr>peer_addr_obj := a, resp_status := st, resp_pyheaders := hs, resp_hdr := h,
           resp_hdr_len := n, resp_body := b, keep_alive := ka\<rparr>)" "ka \<longrightarrow> keep_alive c"
    using wsgi_response [OF assms(1)] by blast
  have "responded X c c'" unfolding d(1) by (rule write_response_responded) (simp_all add: same_rx_def)
  then obtain w where "same_rx c c'" "uv c' = uv c @ [w]" "response_call X c w" by (auto simp: responded_def)
  then show ?thesis using d by blast
qed

text \<open>
  What the formatter cannot print: a header list with an object that is no pair (the unchecked macros then
  read past it), and a string of 2 GiB or more. \<open>start_response\<close> lets none of the former through, but an
  application can put one into the list afterwards.
\<close>

definition unprintable :: "'p conn \<Rightarrow> bool" where
  "unprintable c \<longleftrightarrow>
     (\<exists>b. as_utf8 (the (resp_status c)) = Some b \<and> \<not> copyable b)
     \<or> (\<exists>p \<in> set (list_items (the (resp_pyheaders c))).
          raw_pair p = None \<or> (\<exists>f. header_text p = Some f \<and> \<not> field_copyable f))"

lemma append_no_overrun: "copyable b \<Longrightarrow> HDR_APPEND b st \<noteq> Inl HdrOverrun"
proof -
  assume "copyable b"
  then have "c_int (int (length b)) = int (length b)" by (intro c_int_id) (auto simp: copyable_def)
  then show ?thesis by (auto simp: HDR_APPEND_def Let_def split: prod.splits)
qed

lemma uint_no_overrun: "HDR_UINT n st \<noteq> Inl HdrOverrun"
  by (auto simp: HDR_UINT_def split: prod.splits)

lemma tail_no_overrun: "append_tail cl cn ka n st \<noteq> Inl HdrOverrun"
  using append_no_overrun [OF copyable_literals(1)] append_no_overrun [OF copyable_literals(2)]
    append_no_overrun [OF copyable_literals(3)] append_no_overrun [OF copyable_literals(4)] uint_no_overrun
  by (auto simp: append_tail_def andthen_eq_Inl split: if_splits)

lemma format_header_overrun:
  assumes "format_header p flags st = Inl HdrOverrun"
  shows "raw_pair p = None \<or> (\<exists>f. header_text p = Some f \<and> \<not> field_copyable f)"
proof (rule ccontr)
  assume n: "\<not> ?thesis"
  then obtain no vo where r: "raw_pair p = Some (no, vo)" by auto
  have "copyable '': ''" by (simp add: copyable_def)
  then show False
    using assms n append_no_overrun copyable_literals(1)
    by (auto simp: format_header_def r header_text_def field_copyable_def andthen_eq_Inl split: option.splits)
qed

lemma format_headers_overrun:
  "format_headers hs flags st = Inl HdrOverrun \<Longrightarrow>
   \<exists>p \<in> set hs. raw_pair p = None \<or> (\<exists>f. header_text p = Some f \<and> \<not> field_copyable f)"
proof (induction hs arbitrary: flags st)
  case (Cons h hs)
  from Cons.prems consider "format_header h flags st = Inl HdrOverrun"
    | flags' st' where "format_headers hs flags' st' = Inl HdrOverrun"
    by (auto simp: andthen_eq_Inl)
  then show ?case using format_header_overrun [of h flags st] Cons.IH by cases auto
qed simp

lemma format_response_overrun: "format_response_headers c n = Inl HdrOverrun \<Longrightarrow> unprintable c"
proof -
  assume a: "format_response_headers c n = Inl HdrOverrun"
  have "copyable ''HTTP/1.1 ''" by (simp add: copyable_def)
  then show ?thesis
    using a append_no_overrun copyable_literals(1) tail_no_overrun format_headers_overrun
    by (fastforce simp: format_response_headers_def unprintable_def andthen_eq_Inl split: option.splits)
qed

text \<open>
  C17. One request, one response. Whatever the application does (raise, return garbage, call
  \<open>start_response\<close> late, twice or never, change its headers afterwards), dispatching a request makes
  exactly one call to libuv: a write completed by \<open>on_write\<close>, or, only on an encrypted connection, a close.
  Before that call it touches the response fields, the cached peer address and the keep-alive flag only,
  and the call itself leaves the request, the read buffer with its overflow, the read state and the
  configuration of the server as they are. The one exception is undefined behaviour (\<open>None\<close>): it takes
  an application that answers and whose status or header list, as it stands when the formatter runs, is
  unprintable. Theorem \<open>wsgi_mutation_undefined\<close> shows an application that does this, C18 that none does
  which leaves its list alone and its strings below 2 GiB.
\<close>

theorem wsgi_one_response:
  "case wsgi_call_application X c of
     Some c' \<Rightarrow>
       (\<exists>a st hs h n b ka w.
          c' = write_response X (c\<lparr>peer_addr_obj := a, resp_status := st, resp_pyheaders := hs, resp_hdr := h,
                 resp_hdr_len := n, resp_body := b, keep_alive := ka\<rparr>)
          \<and> (ka \<longrightarrow> keep_alive c) \<and> same_rx c c' \<and> uv c' = uv c @ [w] \<and> response_call X c w)
   | None \<Rightarrow> (\<exists>body c3. wsgi_run X c = (Some body, c3) \<and> unprintable c3)"
proof (cases "wsgi_call_application X c")
  case None
  obtain r c3 where w: "wsgi_run X c = (r, c3)" by (cases "wsgi_run X c")
  obtain body where b: "r = Some body" "format_response_headers c3 (int (length (bytes_of body))) = Inl HdrOverrun"
    using None w by (auto simp: wsgi_call_application_run split: option.splits sum.splits hdr_err.splits)
  then show ?thesis using None w format_response_overrun by auto
next
  case (Some c')
  then show ?thesis using wsgi_response_once [OF Some] by simp
qed

theorem wsgi_one_response_witness:
  "\<exists>c' data. wsgi_call_application sample_ext (sample_conn\<lparr>srv := sample_server\<lparr>environ_template := None\<rparr>\<rparr> :: nat conn) = Some c'
     \<and> uv c' = [UvWrite data OnWrite True]"
proof -
  let ?c = "sample_conn\<lparr>srv := sample_server\<lparr>environ_template := None\<rparr>\<rparr> :: nat conn"
  have "wsgi_call_application sample_ext ?c = Some (send_500 sample_ext ?c)"
    by (simp add: wsgi_call_application_def build_environ_def sample_conn_def)
  moreover from wsgi_one_response [of sample_ext ?c] this
  have "\<exists>data. uv (send_500 sample_ext ?c) = [UvWrite data OnWrite True]"
    by (auto simp: sample_conn_def sample_ext_def response_call_def)
  ultimately show ?thesis by blast
qed

section \<open>No response splitting\<close>

text \<open>
  Application code that leaves the header list alone once it has passed it, and whose strings are
  shorter than 2 GiB.
\<close>

definition args_small :: "pyobj list \<Rightarrow> bool" where
  "args_small args \<longleftrightarrow>
     (\<forall>s b. PyStr s \<in> set args \<longrightarrow> utf8_encode s = Some b \<longrightarrow> copyable b)
     \<and> (\<forall>e hs p f. PyList e hs \<in> set args \<longrightarrow> p \<in> set hs \<longrightarrow> header_text p = Some f \<longrightarrow> field_copyable f)"

fun benign :: "pycode \<Rightarrow> bool" and benign_value :: "pyobj \<Rightarrow> bool" where
  "benign (CallSR args k1 k2) \<longleftrightarrow> args_small args \<and> benign k1 \<and> benign k2"
| "benign (MutateHeaders hs k) \<longleftrightarrow> False"
| "benign (Yield x k) \<longleftrightarrow> benign k"
| "benign (Return v) \<longleftrightarrow> benign_value v"
| "benign Raise \<longleftrightarrow> True"
| "benign_value (PyGen k) \<longleftrightarrow> benign k"
| "benign_value _ \<longleftrightarrow> True"

lemma benign_returned: "benign k \<Longrightarrow> run_call k c = (Returned v, c') \<Longrightarrow> benign_value v"
  by (induction k c rule: run_call.induct) (auto split: prod.splits if_splits)

text \<open>The response fields hold nothing, or what \<open>start_response\<close> let through.\<close>

definition resp_ok :: "'p conn \<Rightarrow> bool" where
  "resp_ok c \<longleftrightarrow> length (resp_hdr c) = RESP_HDR_SIZE
     \<and> (resp_status c \<noteq> None \<longrightarrow>
         (\<exists>status hdrs. format_ok c status hdrs \<and> freastal_status_ok status
            \<and> (\<forall>f \<in> set hdrs. freastal_hdr_name_ok (fst f) \<and> freastal_hdr_value_ok (snd f))))"

lemma headers_texts:
  assumes "\<forall>p \<in> set hs. sr_header_ok p"
  shows "\<exists>hdrs. map header_text hs = map Some hdrs
    \<and> (\<forall>f \<in> set hdrs. (\<exists>p \<in> set hs. header_text p = Some f) \<and> freastal_hdr_name_ok (fst f) \<and> freastal_hdr_value_ok (snd f))"
  using assms
proof (induction hs)
  case (Cons p hs)
  then obtain hdrs where "map header_text hs = map Some hdrs"
    "\<forall>f \<in> set hdrs. (\<exists>p \<in> set hs. header_text p = Some f) \<and> freastal_hdr_name_ok (fst f) \<and> freastal_hdr_value_ok (snd f)"
    by auto
  moreover obtain n v where "header_text p = Some (n, v)" "freastal_hdr_name_ok n" "freastal_hdr_value_ok v"
    using sr_header_ok_text Cons.prems by (metis list.set_intros(1))
  ultimately show ?case by (intro exI [of _ "(n, v) # hdrs"]) auto
qed simp

lemma resp_ok_call:
  assumes "resp_ok c" "args_small args"
  shows "resp_ok (snd (StartResponse_call args c))"
proof (cases "StartResponse_call args c")
  case (Pair ok c')
  show ?thesis
  proof (cases ok)
    case True
    with Pair have "StartResponse_call args c = (True, c')" by simp
    then obtain s b e hs where
      r: "c' = c\<lparr>resp_status := Some (PyStr s), resp_pyheaders := Some (PyList e hs)\<rparr>"
        "utf8_encode s = Some b" "freastal_status_ok b" "\<forall>p \<in> set hs. sr_header_ok p"
        "\<exists>rest. args = PyStr s # PyList e hs # rest"
      by (rule start_response_ok)
    have m: "PyStr s \<in> set args" "PyList e hs \<in> set args" using r(5) by auto
    obtain hdrs where h: "map header_text hs = map Some hdrs"
      "\<forall>f \<in> set hdrs. (\<exists>p \<in> set hs. header_text p = Some f) \<and> freastal_hdr_name_ok (fst f) \<and> freastal_hdr_value_ok (snd f)"
      using headers_texts [OF r(4)] by blast
    have "copyable b" "\<forall>f \<in> set hdrs. field_copyable f"
      using assms(2) r(2) m h(2) unfolding args_small_def by blast+
    then have "format_ok c' b hdrs" using r(1,2) h(1) assms(1) by (auto simp: format_ok_def resp_ok_def)
    moreover have "length (resp_hdr c') = RESP_HDR_SIZE" using r(1) assms(1) by (simp add: resp_ok_def)
    ultimately show ?thesis using r(3) h(2) unfolding resp_ok_def Pair snd_conv by blast
  next
    case False
    then show ?thesis using Pair start_response_fail [of args c c'] assms by simp
  qed
qed

interpretation accepted: app_invariant resp_ok benign
  by unfold_locales (use resp_ok_call in auto)

lemma resp_ok_peer: "resp_ok (c\<lparr>peer_addr_obj := a\<rparr>) = resp_ok c"
  by (simp add: resp_ok_def format_ok_def)

lemma wsgi_run_resp_ok:
  assumes "wsgi_run X c = (r, c3)" "resp_ok c" "\<forall>env. benign (wsgi_app X env)"
  shows "resp_ok c3"
proof (rule wsgi_run_keeps [OF accepted.app_invariant_axioms assms(1)])
  show "resp_ok c1" if "build_environ X c = (r, c1)" for r c1
    using build_environ_frame [OF that] assms(2) resp_ok_peer [where c = c and a = "peer_addr_obj c1"] by simp
  show "benign k" if "run_call (wsgi_app X env) c1 = (Returned v, c2)" "v = PyGen k" for env v k and c1 c2 :: "'a conn"
    using benign_returned [OF _ that(1)] that(2) assms(3) by simp
qed (use assms(3) in blast)

text \<open>
  The calls of \<open>start_response\<close> in a piece of application code, a generator it returns included, and what a
  call announces: the bytes of the status and of the headers.
\<close>

fun calls :: "pycode \<Rightarrow> pyobj list list" and value_calls :: "pyobj \<Rightarrow> pyobj list list" where
  "calls (CallSR args k1 k2) = args # calls k1 @ calls k2"
| "calls (MutateHeaders hs k) = calls k"
| "calls (Yield x k) = calls k"
| "calls (Return v) = value_calls v"
| "calls Raise = []"
| "value_calls (PyGen k) = calls k"
| "value_calls _ = []"

definition announces :: "pyobj list \<Rightarrow> bytes \<Rightarrow> (bytes \<times> bytes) list \<Rightarrow> bool" where
  "announces args status hdrs \<longleftrightarrow>
     (\<exists>s e hs rest. args = PyStr s # PyList e hs # rest \<and> utf8_encode s = Some status
        \<and> map header_text hs = map Some hdrs)"

text \<open>What the response fields hold was the argument of one of these calls.\<close>

definition resp_from :: "pyobj list set \<Rightarrow> 'p conn \<Rightarrow> bool" where
  "resp_from A c \<longleftrightarrow> resp_status c = None \<or>
     (\<exists>s e hs rest. PyStr s # PyList e hs # rest \<in> A \<and> resp_status c = Some (PyStr s) \<and> resp_pyheaders c = Some (PyList e hs))"

lemma resp_from_call:
  assumes "resp_from A c" "args \<in> A"
  shows "resp_from A (snd (StartResponse_call args c))"
proof (cases "StartResponse_call args c")
  case (Pair ok c')
  show ?thesis
  proof (cases ok)
    case True
    with Pair have "StartResponse_call args c = (True, c')" by simp
    then obtain s e hs where "c' = c\<lparr>resp_status := Some (PyStr s), resp_pyheaders := Some (PyList e hs)\<rparr>"
      "\<exists>rest. args = PyStr s # PyList e hs # rest" by (rule start_response_ok)
    then show ?thesis using assms(2) Pair by (auto simp: resp_from_def)
  next
    case False
    then show ?thesis using Pair start_response_fail [of args c c'] assms(1) by simp
  qed
qed

interpretation announcing: app_invariant "resp_from A" "\<lambda>k. set (calls k) \<subseteq> A \<and> benign k" for A
  by unfold_locales (use resp_from_call in auto)

lemma calls_returned:
  "set (calls k) \<subseteq> A \<Longrightarrow> run_call k c = (Returned v, c') \<Longrightarrow> set (value_calls v) \<subseteq> A"
  by (induction k c rule: run_call.induct) (auto split: prod.splits if_splits)

lemma wsgi_run_announced:
  assumes w: "wsgi_run X c = (Some body, c3)" and "resp_status c = None" "\<forall>env. benign (wsgi_app X env)"
    and f: "format_ok c3 status hdrs"
  shows "\<exists>env c1 args. build_environ X c = (Some env, c1) \<and> args \<in> set (calls (wsgi_app X env)) \<and> announces args status hdrs"
proof -
  obtain env c1 where b: "build_environ X c = (Some env, c1)"
    using w by (auto simp: wsgi_run_def split: prod.splits option.splits)
  let ?A = "set (calls (wsgi_app X env))"
  have "resp_from ?A c3"
  proof (rule wsgi_run_keeps [OF announcing.app_invariant_axioms w])
    show "resp_from ?A c1'" if "build_environ X c = (r, c1')" for r c1'
    proof -
      have "resp_status c1' = resp_status c"
        by (subst build_environ_frame [OF that]) simp
      then show ?thesis using assms(2) by (simp add: resp_from_def)
    qed
    show "set (calls k) \<subseteq> ?A \<and> benign k" if "build_environ X c = (Some env', c0)"
      "run_call (wsgi_app X env') c2 = (Returned v, c4)" "v = PyGen k" for env' c0 v k and c2 c4 :: "'a conn"
    proof -
      have "env' = env" using that(1) b by simp
      then show ?thesis
        using calls_returned [OF _ that(2), of ?A] benign_returned [OF _ that(2)] that(3) assms(3) by simp
    qed
  qed (use b assms(3) in auto)
  then show ?thesis using b f unfolding resp_from_def format_ok_def announces_def by fastforce
qed

text \<open>
  The responses the server may send to the request of \<open>c\<close>: the 500 page, or the header block of a call of
  \<open>start_response\<close> that the application makes, every line of it clean, followed by the collected body.
\<close>

definition clean_response :: "'p ext \<Rightarrow> 'p conn \<Rightarrow> bytes \<Rightarrow> bool" where
  "clean_response X c t \<longleftrightarrow> t = response_500 \<or>
     (\<exists>env c1 args status hdrs body c3.
        build_environ X c = (Some env, c1) \<and> args \<in> set (calls (wsgi_app X env)) \<and> announces args status hdrs
        \<and> wsgi_run X c = (Some body, c3)
        \<and> status_text status \<and> (\<forall>f \<in> set hdrs. token_name (fst f) \<and> plain_text (snd f))
        \<and> (\<forall>l \<in> set (response_lines (''HTTP/1.1 '' @ status) hdrs (keep_alive c) (length (bytes_of body))).
             CR \<notin> set l \<and> LF \<notin> set l \<and> NUL \<notin> set l)
        \<and> t = response_head (response_lines (''HTTP/1.1 '' @ status) hdrs (keep_alive c) (length (bytes_of body)))
            @ bytes_of body)"

lemma clean_lines:
  assumes "status_text status" "\<forall>f \<in> set hdrs. token_name (fst f) \<and> plain_text (snd f)"
  shows "\<forall>l \<in> set (response_lines (''HTTP/1.1 '' @ status) hdrs ka n). CR \<notin> set l \<and> LF \<notin> set l \<and> NUL \<notin> set l"
proof -
  have "line_text status" using status_ok_line assms(1) by (simp add: line_text_def checks_spec)
  then have "line_text (''HTTP/1.1 '' @ status)" unfolding line_text_append using line_text_literals(5) by simp
  moreover have "\<forall>f \<in> set hdrs. line_text (fst f) \<and> line_text (snd f)"
    using assms(2) tchar_line_char by (auto simp: line_text_def token_name_def plain_text_def line_char_eq)
  ultimately show ?thesis using response_lines_safe line_text_no_delim by blast
qed

text \<open>What is written when the block fits.\<close>

lemma wsgi_written:
  assumes w: "wsgi_run X c = (Some body, c3)" and f: "format_ok c3 status hdrs" and t: "channel X opens c3"
    and n: "length (bytes_of body) < 2 ^ 32"
    and fits: "length (response_head (response_lines (''HTTP/1.1 '' @ status) hdrs (keep_alive c3) (length (bytes_of body))))
      \<le> RESP_HDR_SIZE"
  shows "\<exists>c'. wsgi_call_application X c = Some c'
    \<and> delivers X opens c3 (response_head (response_lines (''HTTP/1.1 '' @ status) hdrs (keep_alive c3)
        (length (bytes_of body))) @ bytes_of body) c'
    \<and> length (resp_hdr c') = RESP_HDR_SIZE"
proof -
  let ?h = "response_head (response_lines (''HTTP/1.1 '' @ status) hdrs (keep_alive c3) (length (bytes_of body)))"
  have "int (length (bytes_of body)) < 2 ^ 63" using n by simp
  from format_response_text [OF f this] fits obtain hdr where
    h: "format_response_headers c3 (int (length (bytes_of body))) = Inr (hdr, int (length ?h))"
      "length hdr = RESP_HDR_SIZE" "take (length ?h) hdr = ?h" by auto
  let ?c = "c3\<lparr>resp_hdr := hdr, resp_hdr_len := int (length ?h), resp_body := Some body\<rparr>"
  have "delivers X opens c3 (response_text ?c) (write_response X ?c)"
    by (rule write_response_delivers [OF t]) (use h(2) n in \<open>simp_all add: resp_body_bytes_def RESP_HDR_SIZE_def\<close>)
  moreover have "response_text ?c = ?h @ bytes_of body" using h(3) by (simp add: response_text_def resp_body_bytes_def)
  moreover have "resp_hdr (write_response X ?c) = hdr"
    using write_response_shape [of ?c X] by (simp add: same_resp_def)
  ultimately show ?thesis using w h(1,2) by (simp add: wsgi_call_application_run)
qed

lemma send_500_hdr:
  assumes "length (resp_hdr c) = RESP_HDR_SIZE"
  shows "length (resp_hdr (send_500 X c)) = RESP_HDR_SIZE"
proof -
  have "length (blit (resp_hdr c) 0 response_500) = RESP_HDR_SIZE"
    using assms by (simp add: response_500_def RESP_HDR_SIZE_def)
  then show ?thesis
    unfolding send_500_def using write_response_shape [where X = X] by (simp add: same_resp_def)
qed

text \<open>
  How a dispatch ends when the application leaves its header list alone: the 500 page, or what the
  application announced, written by the formatter and followed by the body.
\<close>

lemma wsgi_outcomes:
  assumes "\<forall>env. benign (wsgi_app X env)" "channel X opens c" "resp_status c = None"
    "length (resp_hdr c) = RESP_HDR_SIZE"
    "\<forall>body c3. wsgi_run X c = (Some body, c3) \<longrightarrow> length (bytes_of body) < 2 ^ 32"
  obtains (page) c' where "wsgi_call_application X c = Some c'" "delivers X opens c response_500 c'"
      "length (resp_hdr c') = RESP_HDR_SIZE"
      "fst (wsgi_run X c) = None \<or> (\<exists>body c3 status hdrs. wsgi_run X c = (Some body, c3) \<and> format_ok c3 status hdrs
         \<and> RESP_HDR_SIZE < length (response_head (response_lines (''HTTP/1.1 '' @ status) hdrs (keep_alive c3)
             (length (bytes_of body)))))"
  | (sent) c' body c3 status hdrs where "wsgi_call_application X c = Some c'" "wsgi_run X c = (Some body, c3)"
      "format_ok c3 status hdrs" "freastal_status_ok status"
      "\<forall>f \<in> set hdrs. freastal_hdr_name_ok (fst f) \<and> freastal_hdr_value_ok (snd f)"
      "delivers X opens c (response_head (response_lines (''HTTP/1.1 '' @ status) hdrs (keep_alive c3)
         (length (bytes_of body))) @ bytes_of body) c'" "length (resp_hdr c') = RESP_HDR_SIZE"
proof -
  obtain r c3 where w: "wsgi_run X c = (r, c3)" by (cases "wsgi_run X c")
  have c3: "channel X opens c3" "delivers X opens c3 = delivers X opens c"
    using wsgi_run_frame [OF w] assms(2) by (auto simp: channel_def delivers_def fun_eq_iff split: option.split)
  have ok: "resp_ok c3" using wsgi_run_resp_ok [OF w _ assms(1)] assms(3,4) by (simp add: resp_ok_def)
  then have len: "length (resp_hdr c3) = RESP_HDR_SIZE" by (simp add: resp_ok_def)
  have e500: "delivers X opens c response_500 (send_500 X c3)"
    using send_500_delivers [OF c3(1) len] c3(2) by simp
  note l500 = send_500_hdr [OF len, of X]
  show thesis
  proof (cases r)
    case None
    with w e500 l500 show ?thesis by (intro page) (simp_all add: wsgi_call_application_run)
  next
    case (Some body)
    have st: "resp_status c3 \<noteq> None"
      using w Some by (auto simp: wsgi_run_def split: option.splits prod.splits outcome.splits if_splits)
    then obtain status hdrs where f: "format_ok c3 status hdrs" "freastal_status_ok status"
      "\<forall>f \<in> set hdrs. freastal_hdr_name_ok (fst f) \<and> freastal_hdr_value_ok (snd f)"
      using ok by (auto simp: resp_ok_def)
    have n: "length (bytes_of body) < 2 ^ 32" using assms(5) w Some by blast
    let ?h = "response_head (response_lines (''HTTP/1.1 '' @ status) hdrs (keep_alive c3) (length (bytes_of body)))"
    have n63: "int (length (bytes_of body)) < 2 ^ 63" using n by simp
    show ?thesis
    proof (cases "length ?h \<le> RESP_HDR_SIZE")
      case True
      from wsgi_written [OF w [unfolded Some] f(1) c3(1) n True] obtain c' where
        "wsgi_call_application X c = Some c'" "delivers X opens c (?h @ bytes_of body) c'"
        "length (resp_hdr c') = RESP_HDR_SIZE"
        unfolding c3(2) by blast
      then show ?thesis using w Some f by (intro sent) simp_all
    next
      case False
      with format_response_text [OF f(1) n63]
      have "format_response_headers c3 (int (length (bytes_of body))) = Inl HdrFull" by simp
      then have "wsgi_call_application X c = Some (send_500 X c3)"
        using w Some by (simp add: wsgi_call_application_run)
      moreover have "RESP_HDR_SIZE < length ?h" using False by simp
      ultimately show ?thesis using e500 l500 w Some f(1) by (intro page) blast+
    qed
  qed
qed

text \<open>
  C18. No response splitting. If the application leaves the header list it passed to \<open>start_response\<close>
  alone and its strings stay below 2 GiB, then dispatching a request always ends in a response (the
  formatter never runs into undefined behaviour), and what is delivered, in the clear or as ciphertext that
  opens to it, is the 500 page, or the block of one of the calls of \<open>start_response\<close> the application makes for
  this request, followed by the collected body: its status line, one line for each of its headers in
  order, and at most the two lines of the server. Names are tokens, values hold no control character
  but HTAB, and no line holds a CR, LF or NUL: nothing the application puts into a header can end a line,
  so no line is there that it did not announce as a header.
\<close>

theorem wsgi_no_splitting:
  assumes "\<forall>env. benign (wsgi_app X env)" "channel X opens c" "resp_status c = None"
    "length (resp_hdr c) = RESP_HDR_SIZE"
    "\<forall>body c3. wsgi_run X c = (Some body, c3) \<longrightarrow> length (bytes_of body) < 2 ^ 32"
  shows "\<exists>c' t. wsgi_call_application X c = Some c' \<and> delivers X opens c t c' \<and> clean_response X c t"
proof (cases rule: wsgi_outcomes [OF assms])
  case (1 c')
  then show ?thesis by (auto simp: clean_response_def)
next
  case (2 c' body c3 status hdrs)
  have k: "keep_alive c3 = keep_alive c" using wsgi_run_frame [OF 2(2)] by auto
  have s: "status_text status" "\<forall>f \<in> set hdrs. token_name (fst f) \<and> plain_text (snd f)"
    using 2(4,5) by (simp_all add: checks_spec)
  obtain env c1 args where "build_environ X c = (Some env, c1)" "args \<in> set (calls (wsgi_app X env))" "announces args status hdrs"
    using wsgi_run_announced [OF 2(2) assms(3,1) 2(3)] by blast
  then have "clean_response X c (response_head (response_lines (''HTTP/1.1 '' @ status) hdrs (keep_alive c3)
      (length (bytes_of body))) @ bytes_of body)"
    unfolding clean_response_def k using 2(2) s clean_lines [OF s] by blast
  with 2(1,6) show ?thesis by blast
qed

text \<open>An application that announces a response, and one that changes it afterwards.\<close>

definition ok_app :: pycode where
  "ok_app = CallSR [PyStr (latin1 ''200 OK''), PyList True []] (Return (PyList True [PyBytes True ''hi''])) Raise"

definition mutating_app :: pycode where
  "mutating_app =
     CallSR [PyStr (latin1 ''200 OK''), PyList True []]
       (MutateHeaders [PyTuple True [PyStr (latin1 ''A''), PyStr (latin1 (''b'' @ CRLF @ ''Set-Cookie: c=d''))]]
         (Return (PyList True [PyBytes True ''hi''])))
       Raise"

definition bare_conn :: "nat conn" where
  "bare_conn = sample_conn\<lparr>req := Some \<lparr>req_method = ''GET'', path = ''/'', minor_version = 1, headers = []\<rparr>,
     peer_addr_obj := Some PyNone\<rparr>"

definition ext_running :: "pycode \<Rightarrow> nat ext" where
  "ext_running k = sample_ext\<lparr>wsgi_app := \<lambda>_. k\<rparr>"

lemma bare_environ: "\<exists>env. build_environ (ext_running k) bare_conn = (Some env, bare_conn)"
  by (simp add: build_environ_def bare_conn_def sample_conn_def sample_server_def ext_running_def sample_ext_def
      Let_def)

lemma wsgi_run_bare:
  "wsgi_run (ext_running k) bare_conn =
    (case run_call k bare_conn of
       (Raised, c2) \<Rightarrow> (None, c2)
     | (Returned result, c2) \<Rightarrow>
         (case collect_body (ext_running k) result c2 of
            (None, c3) \<Rightarrow> (None, c3)
          | (Some body, c3) \<Rightarrow> (if resp_status c3 = None then None else Some body, c3)))"
proof -
  obtain env where "build_environ (ext_running k) bare_conn = (Some env, bare_conn)" using bare_environ by blast
  moreover have "start_response_alloc (py_mem (ext_running k))" "wsgi_app (ext_running k) env = k"
    by (simp_all add: ext_running_def sample_ext_def)
  ultimately show ?thesis by (simp add: wsgi_run_def)
qed

lemma status_200: "utf8_encode (latin1 ''200 OK'') = Some ''200 OK''" "freastal_status_ok ''200 OK''"
  by (rule utf8_encode_ascii, simp) (simp add: freastal_status_ok_def upt_rec_numeral upt_conv_Cons eq_delim)

definition announced :: "nat conn" where
  "announced = bare_conn\<lparr>resp_status := Some (PyStr (latin1 ''200 OK'')), resp_pyheaders := Some (PyList True [])\<rparr>"

lemma announce: "StartResponse_call [PyStr (latin1 ''200 OK''), PyList True []] bare_conn = (True, announced)"
  using status_200 by (simp add: StartResponse_call_def announced_def)

lemma ok_app_run: "wsgi_run (ext_running ok_app) bare_conn = (Some (PyBytes True ''hi''), announced)"
  unfolding wsgi_run_bare ok_app_def run_call.simps announce
  by (simp add: collect_body_def announced_def)

definition ok_text :: bytes where
  "ok_text = ''HTTP/1.1 200 OK'' @ CRLF @ ''Content-Length: 2'' @ CRLF @ ''Connection: close'' @ CRLF @ CRLF @ ''hi''"

lemma ok_head:
  "response_head (response_lines (''HTTP/1.1 '' @ ''200 OK'') [] False (length (bytes_of (PyBytes True ''hi''))))
     @ bytes_of (PyBytes True ''hi'') = ok_text"
  by (simp add: ok_text_def response_head_def response_lines_def extra_lines_def has_field_def dec.simps char_of_def bit_iff_odd)

text \<open>Both sample applications make the same call, and for both only one text is clean.\<close>

lemma sample_clean:
  assumes "calls k = [[PyStr (latin1 ''200 OK''), PyList True []]]"
    "wsgi_run (ext_running k) bare_conn = (Some (PyBytes True ''hi''), c3)" "clean_response (ext_running k) bare_conn t"
  shows "t = response_500 \<or> t = ok_text"
proof -
  have "keep_alive bare_conn = False" by (simp add: bare_conn_def sample_conn_def)
  moreover have "status = ''200 OK'' \<and> hdrs = []" if "announces [PyStr (latin1 ''200 OK''), PyList True []] status hdrs" for status hdrs
    using that status_200(1) by (auto simp: announces_def)
  moreover have "wsgi_app (ext_running k) env = k" for env by (simp add: ext_running_def)
  ultimately show ?thesis using assms ok_head unfolding clean_response_def by auto
qed

theorem wsgi_no_splitting_witness:
  "\<exists>c' t. wsgi_call_application (ext_running ok_app) bare_conn = Some c' \<and> uv c' = [UvWrite t OnWrite True]
     \<and> (t = response_500 \<or> t = ok_text)"
proof -
  have b: "\<forall>env. benign (wsgi_app (ext_running ok_app) env)"
    using status_200 by (auto simp: ext_running_def ok_app_def args_small_def copyable_def)
  have s: "channel (ext_running ok_app) (\<lambda>s ct pt s'. ct = pt) bare_conn" "resp_status bare_conn = None" "length (resp_hdr bare_conn) = RESP_HDR_SIZE"
    "uv bare_conn = []" "uv_write_ok (ext_running ok_app) []" "tls bare_conn = None"
    by (simp_all add: bare_conn_def sample_conn_def ext_running_def sample_ext_def channel_def)
  have n: "\<forall>body c3. wsgi_run (ext_running ok_app) bare_conn = (Some body, c3) \<longrightarrow> length (bytes_of body) < 2 ^ 32"
    by (simp add: ok_app_run)
  obtain c' t where "wsgi_call_application (ext_running ok_app) bare_conn = Some c'"
    "delivers (ext_running ok_app) (\<lambda>s ct pt s'. ct = pt) bare_conn t c'" "clean_response (ext_running ok_app) bare_conn t"
    using wsgi_no_splitting [OF b s(1-3) n] by blast
  moreover from this have "t = response_500 \<or> t = ok_text"
    by (intro sample_clean [OF _ ok_app_run]) (simp_all add: ok_app_def)
  ultimately show ?thesis using s(4-6) by (auto simp: delivers_def)
qed

text \<open>
  The restriction of C18 is needed: \<open>start_response\<close> checks the list and then keeps a reference to it,
  and the formatter does not check again, so a value put into the list afterwards reaches the wire as
  it is, in a response that is not clean.
\<close>

definition split_text :: bytes where
  "split_text = ''HTTP/1.1 200 OK'' @ CRLF @ ''A: b'' @ CRLF @ ''Set-Cookie: c=d'' @ CRLF
     @ ''Content-Length: 2'' @ CRLF @ ''Connection: close'' @ CRLF @ CRLF @ ''hi''"

theorem wsgi_mutation_splits:
  "(\<exists>c'. wsgi_call_application (ext_running mutating_app) bare_conn = Some c' \<and> uv c' = [UvWrite split_text OnWrite True])
   \<and> \<not> clean_response (ext_running mutating_app) bare_conn split_text"
proof -
  define hs where "hs = [PyTuple True [PyStr (latin1 ''A''), PyStr (latin1 (''b'' @ CRLF @ ''Set-Cookie: c=d''))]]"
  define c3 where "c3 = announced\<lparr>resp_pyheaders := Some (PyList True hs)\<rparr>"
  define fs where "fs = [(''A'', ''b'' @ CRLF @ ''Set-Cookie: c=d'')]"
  have "mutate_headers hs announced = c3" by (simp add: mutate_headers_def announced_def c3_def)
  then have w: "wsgi_run (ext_running mutating_app) bare_conn = (Some (PyBytes True ''hi''), c3)"
    unfolding wsgi_run_bare mutating_app_def hs_def [symmetric] run_call.simps announce
    by (simp add: collect_body_def c3_def announced_def)
  have c: "tls c3 = None" "uv c3 = []" "keep_alive c3 = False" "uv_write_ok (ext_running mutating_app) []"
    by (simp_all add: c3_def announced_def bare_conn_def sample_conn_def ext_running_def sample_ext_def)
  have t: "map header_text hs = map Some fs"
    using utf8_encode_ascii [of "''A''"] utf8_encode_ascii [of "''b'' @ CRLF @ ''Set-Cookie: c=d''"]
    by (simp add: hs_def fs_def header_text_def)
  have f: "format_ok c3 ''200 OK'' fs"
    using t status_200(1)
    by (simp add: format_ok_def c3_def announced_def bare_conn_def sample_conn_def fs_def field_copyable_def copyable_def
        ex_bool_eq)
  have h: "response_head (response_lines (''HTTP/1.1 '' @ ''200 OK'') fs (keep_alive c3) (length (bytes_of (PyBytes True ''hi''))))
    = ''HTTP/1.1 200 OK'' @ CRLF @ ''A: b'' @ CRLF @ ''Set-Cookie: c=d'' @ CRLF @ ''Content-Length: 2'' @ CRLF
      @ ''Connection: close'' @ CRLF @ CRLF"
    unfolding c(3) by (simp add: response_head_def response_lines_def extra_lines_def has_field_def is_name_def fs_def
        field_line_def dec.simps char_of_def bit_iff_odd)
  have l: "length (''HTTP/1.1 200 OK'' @ CRLF @ ''A: b'' @ CRLF @ ''Set-Cookie: c=d'' @ CRLF @ ''Content-Length: 2'' @ CRLF
      @ ''Connection: close'' @ CRLF @ CRLF) \<le> RESP_HDR_SIZE" "length (bytes_of (PyBytes True ''hi'')) < 2 ^ 32"
    by (simp_all add: RESP_HDR_SIZE_def)
  have ch: "channel (ext_running mutating_app) (\<lambda>s ct pt s'. True) c3" using c(1) by (simp add: channel_def)
  have n: "split_text \<noteq> response_500" "split_text \<noteq> ok_text" by code_simp+
  have "\<not> clean_response (ext_running mutating_app) bare_conn split_text"
    using sample_clean [OF _ w] n by (auto simp: mutating_app_def)
  then show ?thesis using wsgi_written [OF w f ch l(2)] l(1) c unfolding h by (auto simp: delivers_def split_text_def)
qed

text \<open>
  And an object that is no pair, put into the list afterwards, is undefined behaviour: the formatter indexes
  it as a list.
\<close>

definition breaking_app :: pycode where
  "breaking_app =
     CallSR [PyStr (latin1 ''200 OK''), PyList True []]
       (MutateHeaders [PyNone] (Return (PyList True [PyBytes True ''hi''])))
       Raise"

theorem wsgi_mutation_undefined:
  "wsgi_call_application (ext_running breaking_app) bare_conn = None"
proof -
  define c3 where "c3 = announced\<lparr>resp_pyheaders := Some (PyList True [PyNone])\<rparr>"
  have "mutate_headers [PyNone] announced = c3" by (simp add: mutate_headers_def announced_def c3_def)
  then have w: "wsgi_run (ext_running breaking_app) bare_conn = (Some (PyBytes True ''hi''), c3)"
    unfolding wsgi_run_bare breaking_app_def run_call.simps announce
    by (simp add: collect_body_def c3_def announced_def)
  have wr: "writes (\<lambda>st. andthen (HDR_APPEND ''HTTP/1.1 '' st) (\<lambda>st1. andthen (HDR_APPEND ''200 OK'' st1) (HDR_APPEND CRLF)))
      (''HTTP/1.1 '' @ ''200 OK'' @ CRLF)"
    by (intro writes_andthen writes_append) (simp_all add: copyable_def)
  have wf: "hdr_wf (resp_hdr c3, 0)" "hdr_text (resp_hdr c3, 0) = []"
    by (simp_all add: c3_def announced_def bare_conn_def sample_conn_def hdr_wf_def hdr_text_def)
  have "\<exists>st. andthen (HDR_APPEND ''HTTP/1.1 '' (resp_hdr c3, 0)) (\<lambda>st1. andthen (HDR_APPEND ''200 OK'' st1) (HDR_APPEND CRLF)) = Inr st"
    using writesD(1) [OF wr wf(1)] wf(2) by (auto simp: RESP_HDR_SIZE_def)
  then obtain st1 st2 st3 where st: "HDR_APPEND ''HTTP/1.1 '' (resp_hdr c3, 0) = Inr st1" "HDR_APPEND ''200 OK'' st1 = Inr st2"
    "HDR_APPEND CRLF st2 = Inr st3"
    unfolding andthen_eq_Inr by blast
  have "as_utf8 (the (resp_status c3)) = Some ''200 OK''" "the (resp_pyheaders c3) = PyList True [PyNone]"
    using status_200(1) by (simp_all add: c3_def announced_def)
  then have "format_response_headers c3 n = Inl HdrOverrun" for n
    by (simp add: format_response_headers_def st format_header_def)
  then show ?thesis by (simp add: wsgi_call_application_run w)
qed

end
