(* ===== verification/Asgi.thy ===== *)
theory Asgi
  imports Wsgi WireRead
begin

text \<open>
  Running an ASGI application, \<^verbatim>\<open>freastal/src/asgi.c\<close>: the scope of a request and the templates it is
  copied from, the response header block, \<open>asgi_send_response\<close>, and \<open>asgi_dispatch\<close>.

  The application is \<open>asgi_code\<close> (theory \<open>PyObj\<close>), seen through the bridge \<open>run_asgi_request\<close>, which passes
  the capsule of its own connection: \<open>asgi_send_response\<close> is therefore a function of that connection.
  \<open>asgi_coro_step\<close> runs the code up to its next suspension, its return or an exception.

  A formatter that fails leaves the bytes it had written in \<open>resp_hdr\<close>, behind a \<open>resp_hdr_len\<close> it did
  not touch; as they are never sent, the model keeps the array as it was.
\<close>

section \<open>Definitions\<close>

subsection \<open>The scope\<close>

definition asgi_scope_entries :: "pystr \<Rightarrow> int \<Rightarrow> pydict" where
  "asgi_scope_entries host port =
     [(''type'', ascii_str ''http''),
      (''asgi'', PyDict [(''version'', ascii_str ''3.0'')]),
      (''root_path'', ascii_str ''''),
      (''scheme'', ascii_str ''http''),
      (''server'', PyTuple True [PyStr host, PyInt port]),
      (''http_version'', ascii_str ''1.1''),
      (''method'', PyNone),
      (''path'', PyNone),
      (''raw_path'', PyNone),
      (''query_string'', PyBytes True []),
      (''client'', PyNone),
      (''headers'', PyNone)]"

text \<open>
  The templates of \<open>asgi_server_init\<close>, for plaintext and TLS. \<open>ok\<close> says that the allocations succeed; a
  host that is not UTF-8 is the other error.
\<close>

definition asgi_scope_init :: "bool \<Rightarrow> bytes \<Rightarrow> int \<Rightarrow> server \<Rightarrow> server option" where
  "asgi_scope_init ok host port s =
     (case utf8_decode host of
        None \<Rightarrow> None
      | Some h \<Rightarrow>
          if \<not> ok then None
          else let t = tset_all (asgi_scope_entries h port) [];
                   ts = AList.update ''scheme'' (ascii_str ''https'') t
               in Some (s\<lparr>asgi_scope_template := t, asgi_scope_template_https := ts, asgi_mode := True\<rparr>))"

definition asgi_header_name :: "hdr_cache \<Rightarrow> bytes \<Rightarrow> bytes option" where
  "asgi_header_name hc n =
     (case hdr_cache_lookup hc n of Some e \<Rightarrow> asgi_name e | None \<Rightarrow> Some (map ascii_lower n))"

fun asgi_headers :: "hdr_cache \<Rightarrow> phr_header list \<Rightarrow> pyobj list option" where
  "asgi_headers hc [] = Some []"
| "asgi_headers hc (h # hs) =
     (case asgi_header_name hc (name_bytes h) of
        None \<Rightarrow> None
      | Some nb \<Rightarrow>
          map_option (\<lambda>ps. PyTuple True [PyBytes True nb, PyBytes True (hvalue h)] # ps) (asgi_headers hc hs))"

definition asgi_client :: "'p conn \<Rightarrow> pyobj option" where
  "asgi_client c =
     (case asgi_client_obj c of
        Some o' \<Rightarrow> Some o'
      | None \<Rightarrow> map_option (\<lambda>ip. PyTuple True [PyStr ip, PyInt (int (peer_port c))]) (utf8_decode (peer_addr c)))"

definition build_asgi_scope :: "'p ext \<Rightarrow> 'p conn \<Rightarrow> pydict option \<times> 'p conn" where
  "build_asgi_scope X c =
     (let tmpl = (if tls c \<noteq> None then asgi_scope_template_https (srv c) else asgi_scope_template (srv c));
          r = the (req c);
          plen = path_part (path r)
      in if \<not> scope_alloc (py_mem X) then (None, c)
         else
           let s1 = (if minor_version r \<noteq> 1 then AList.update ''http_version'' (ascii_str ''1.0'') tmpl else tmpl)
           in case utf8_decode (req_method r) of
                None \<Rightarrow> (None, c)
              | Some m \<Rightarrow>
                  (case utf8_decode plen of
                     None \<Rightarrow> (None, c)
                   | Some p \<Rightarrow>
                       let s2 = AList.update ''method'' (PyStr m) s1;
                           s3 = AList.update ''path'' (PyStr p) s2;
                           s4 = AList.update ''raw_path'' (PyBytes True plen) s3;
                           s5 = (case query_part (path r) of
                                   None \<Rightarrow> s4
                                 | Some q \<Rightarrow> AList.update ''query_string'' (PyBytes True q) s4)
                       in case asgi_client c of
                            None \<Rightarrow> (None, c)
                          | Some cl \<Rightarrow>
                              let c' = c\<lparr>asgi_client_obj := Some cl\<rparr>;
                                  s6 = AList.update ''client'' cl s5
                              in case asgi_headers (srv_cache (srv c)) (headers r) of
                                   None \<Rightarrow> (None, c')
                                 | Some hl \<Rightarrow> (Some (AList.update ''headers'' (PyList True hl) s6), c')))"

subsection \<open>The response header block\<close>

definition status_line :: "int \<Rightarrow> bytes option" where
  "status_line s =
     (if s = 100 then Some (''HTTP/1.1 100 Continue'' @ CRLF)
      else if s = 200 then Some (''HTTP/1.1 200 OK'' @ CRLF)
      else if s = 201 then Some (''HTTP/1.1 201 Created'' @ CRLF)
      else if s = 202 then Some (''HTTP/1.1 202 Accepted'' @ CRLF)
      else if s = 204 then Some (''HTTP/1.1 204 No Content'' @ CRLF)
      else if s = 206 then Some (''HTTP/1.1 206 Partial Content'' @ CRLF)
      else if s = 301 then Some (''HTTP/1.1 301 Moved Permanently'' @ CRLF)
      else if s = 302 then Some (''HTTP/1.1 302 Found'' @ CRLF)
      else if s = 304 then Some (''HTTP/1.1 304 Not Modified'' @ CRLF)
      else if s = 307 then Some (''HTTP/1.1 307 Temporary Redirect'' @ CRLF)
      else if s = 308 then Some (''HTTP/1.1 308 Permanent Redirect'' @ CRLF)
      else if s = 400 then Some (''HTTP/1.1 400 Bad Request'' @ CRLF)
      else if s = 401 then Some (''HTTP/1.1 401 Unauthorized'' @ CRLF)
      else if s = 403 then Some (''HTTP/1.1 403 Forbidden'' @ CRLF)
      else if s = 404 then Some (''HTTP/1.1 404 Not Found'' @ CRLF)
      else if s = 405 then Some (''HTTP/1.1 405 Method Not Allowed'' @ CRLF)
      else if s = 409 then Some (''HTTP/1.1 409 Conflict'' @ CRLF)
      else if s = 410 then Some (''HTTP/1.1 410 Gone'' @ CRLF)
      else if s = 422 then Some (''HTTP/1.1 422 Unprocessable Entity'' @ CRLF)
      else if s = 429 then Some (''HTTP/1.1 429 Too Many Requests'' @ CRLF)
      else if s = 500 then Some (''HTTP/1.1 500 Internal Server Error'' @ CRLF)
      else if s = 502 then Some (''HTTP/1.1 502 Bad Gateway'' @ CRLF)
      else if s = 503 then Some (''HTTP/1.1 503 Service Unavailable'' @ CRLF)
      else if s = 504 then Some (''HTTP/1.1 504 Gateway Timeout'' @ CRLF)
      else None)"

text \<open>The two fields of a header: exact pairs directly, any other object through the sequence protocol.\<close>

definition asgi_pair :: "pyobj \<Rightarrow> (pyobj \<times> pyobj) option" where
  "asgi_pair pair =
     (case pair_items pair of
        Some p \<Rightarrow> Some p
      | None \<Rightarrow> (case (seq_item pair 0, seq_item pair 1) of (Some no, Some vo) \<Rightarrow> Some (no, vo) | _ \<Rightarrow> None))"

text \<open>Its \<open>-1\<close>, which makes the formatter return \<open>-1\<close>, is \<open>HdrFull\<close>.\<close>

definition append_asgi_header :: "pyobj \<Rightarrow> bool \<times> bool \<Rightarrow> hdr_buf \<Rightarrow> hdr_err + (bool \<times> bool) \<times> hdr_buf" where
  "append_asgi_header pair flags = (\<lambda>(hdr, len).
     case asgi_pair pair of
       None \<Rightarrow> Inl HdrFull
     | Some (no, vo) \<Rightarrow>
         if PyBytes_Check no \<and> PyBytes_Check vo then
           let name = bytes_of no; val = bytes_of vo;
               need = int (length name) + int (length val) + 4
           in if need \<le> int RESP_HDR_SIZE - len
              then Inr (name_flags name flags, blit hdr (nat len) (name @ '': '' @ val @ CRLF), len + c_int need)
              else Inl HdrFull
         else Inl HdrFull)"

fun append_asgi_headers :: "pyobj list \<Rightarrow> bool \<times> bool \<Rightarrow> hdr_buf \<Rightarrow> hdr_err + (bool \<times> bool) \<times> hdr_buf" where
  "append_asgi_headers [] flags st = Inr (flags, st)"
| "append_asgi_headers (h # hs) flags st =
     andthen (append_asgi_header h flags st) (\<lambda>(flags', st'). append_asgi_headers hs flags' st')"

text \<open>\<open>snprintf(hdr, max, "HTTP/1.1 %d Unknown\r\n", status)\<close> writes a terminating NUL behind the text.\<close>

definition unknown_status :: "int \<Rightarrow> bytes" where
  "unknown_status s = ''HTTP/1.1 '' @ fmt_int s @ '' Unknown'' @ CRLF"

definition put_status :: "int \<Rightarrow> hdr_buf \<Rightarrow> hdr_err + hdr_buf" where
  "put_status s st =
     (case status_line s of
        Some sline \<Rightarrow> HDR_APPEND sline st
      | None \<Rightarrow>
          let n = length (unknown_status s)
          in if n \<ge> RESP_HDR_SIZE then Inl HdrFull
             else Inr (blit (fst st) 0 (unknown_status s @ [NUL]), int n))"

definition asgi_body_len :: "pyobj \<Rightarrow> int" where
  "asgi_body_len body = (if PyBytes_Check body then int (length (bytes_of body)) else 0)"

definition format_response_asgi :: "'p conn \<Rightarrow> int \<Rightarrow> pyobj list \<Rightarrow> pyobj \<Rightarrow> hdr_err + hdr_buf" where
  "format_response_asgi c status hs body =
     andthen (put_status status (resp_hdr c, 0)) (\<lambda>st1.
     andthen (append_asgi_headers hs (False, False) st1)
       (\<lambda>((have_cl, have_conn), st2). append_tail have_cl have_conn (keep_alive c) (asgi_body_len body) st2))"

subsection \<open>Sending\<close>

text \<open>\<open>PyArg_ParseTuple\<close> with \<open>i\<close>: an \<open>int\<close> (\<open>bool\<close> included) in the range of a C \<open>int\<close>.\<close>

fun as_c_int :: "pyobj \<Rightarrow> int option" where
  "as_c_int (PyInt n) = (if - (2 ^ 31) \<le> n \<and> n < 2 ^ 31 then Some n else None)"
| "as_c_int (PyBool b) = Some (if b then 1 else 0)"
| "as_c_int _ = None"

definition asgi_header_ok :: "pyobj \<Rightarrow> bool" where
  "asgi_header_ok pair =
     (case pair_items pair of
        None \<Rightarrow> True
      | Some (no, vo) \<Rightarrow>
          if \<not> PyBytes_Check no \<or> \<not> PyBytes_Check vo then True
          else freastal_hdr_name_ok (bytes_of no) \<and> freastal_hdr_value_ok (bytes_of vo))"

text \<open>\<open>True\<close>: \<open>None\<close> was returned. \<open>False\<close>: an exception was raised.\<close>

definition asgi_send_response_c :: "'p ext \<Rightarrow> pyobj \<Rightarrow> pyobj \<Rightarrow> pyobj \<Rightarrow> 'p conn \<Rightarrow> bool \<times> 'p conn" where
  "asgi_send_response_c X status_o hdrs body c =
     (case as_c_int status_o of
        None \<Rightarrow> (False, c)
      | Some status \<Rightarrow>
          (case hdrs of
             PyList _ hs \<Rightarrow>
               if \<not> list_all asgi_header_ok hs then (False, c)
               else (case format_response_asgi c status hs body of
                       Inl _ \<Rightarrow> (False, c)
                     | Inr (hdr, len) \<Rightarrow>
                         let c1 = c\<lparr>resp_hdr := hdr, resp_hdr_len := len\<rparr>;
                             c2 = (if PyBytes_Check body \<and> bytes_of body \<noteq> []
                                   then c1\<lparr>resp_body := Some body\<rparr> else c1)
                         in (True, write_response X c2))
           | _ \<Rightarrow> (False, c)))"

definition response_500_asgi :: bytes where
  "response_500_asgi =
     ''HTTP/1.1 500 Internal Server Error'' @ CRLF @ ''Content-Length: 0'' @ CRLF @ ''Connection: close'' @ CRLF @ CRLF"

definition send_500_asgi :: "'p ext \<Rightarrow> 'p conn \<Rightarrow> 'p conn" where
  "send_500_asgi X c =
     write_response X (c\<lparr>keep_alive := False, resp_hdr := blit (resp_hdr c) 0 response_500_asgi,
                         resp_hdr_len := int (length response_500_asgi), resp_body := None\<rparr>)"

subsection \<open>Dispatch\<close>

datatype coro_result = CoroYield asgi_code | CoroDone | CoroError

fun asgi_coro_step :: "'p ext \<Rightarrow> asgi_code \<Rightarrow> 'p conn \<Rightarrow> coro_result \<times> 'p conn" where
  "asgi_coro_step X (ASend st hs body k1 k2) c =
     (case asgi_send_response_c X st hs body c of
        (ok, c') \<Rightarrow> if ok then asgi_coro_step X k1 c' else asgi_coro_step X k2 c')"
| "asgi_coro_step X (ASuspend k) c = (CoroYield k, c)"
| "asgi_coro_step X AFinish c = (CoroDone, c)"
| "asgi_coro_step X ARaise c = (CoroError, c)"

definition asgi_dispatch :: "'p ext \<Rightarrow> 'p conn \<Rightarrow> 'p conn" where
  "asgi_dispatch X c =
     (case build_asgi_scope X c of
        (None, c1) \<Rightarrow> send_500_asgi X c1
      | (Some scope, c1) \<Rightarrow>
          if \<not> body_alloc (py_mem X) then send_500_asgi X c1
          else if \<not> asgi_capsule c1 \<and> \<not> capsule_alloc (py_mem X) then send_500_asgi X c1
          else
            let c2 = c1\<lparr>asgi_capsule := True\<rparr>
            in case asgi_coro_step X (asgi_app X scope (body_bytes c2)) c2 of
                 (CoroError, c3) \<Rightarrow> if resp_hdr_len c3 = 0 then send_500_asgi X c3 else c3
               | (CoroDone, c3) \<Rightarrow> if resp_hdr_len c3 = 0 then send_500_asgi X c3 else c3
               | (CoroYield k, c3) \<Rightarrow> c3\<lparr>asgi_task := Some k\<rparr>)"

section \<open>The scope\<close>

definition scope_header :: "phr_header \<Rightarrow> pyobj" where
  "scope_header h = PyTuple True [PyBytes True (map ascii_lower (name_bytes h)), PyBytes True (hvalue h)]"

context name_cache
begin

lemma asgi_headers_eq: "asgi_headers hc hs = Some (map scope_header hs)"
proof (induction hs)
  case (Cons h hs)
  have "asgi_header_name hc (name_bytes h) = Some (map ascii_lower (name_bytes h))"
    using asgi_transparent by (simp add: asgi_header_name_def)
  then show ?case using Cons by (simp add: scope_header_def)
qed simp

end

text \<open>The client entry: what the first request of a connection builds and the later ones find.\<close>

definition client_tuple :: "'p conn \<Rightarrow> pyobj option" where
  "client_tuple c = map_option (\<lambda>ip. PyTuple True [PyStr ip, PyInt (int (peer_port c))]) (utf8_decode (peer_addr c))"

definition client_cached :: "'p conn \<Rightarrow> bool" where
  "client_cached c \<longleftrightarrow> asgi_client_obj c = None \<or> asgi_client_obj c = client_tuple c"

lemma asgi_client_eq: "client_cached c \<Longrightarrow> asgi_client c = client_tuple c"
  by (cases "utf8_decode (peer_addr c)") (auto simp: client_cached_def asgi_client_def client_tuple_def)

definition request_scope :: "bool \<Rightarrow> pystr \<Rightarrow> int \<Rightarrow> phr_request \<Rightarrow> pystr \<Rightarrow> pystr \<Rightarrow> pyobj \<Rightarrow> pydict" where
  "request_scope https host port r m p cl =
     [(''type'', ascii_str ''http''),
      (''asgi'', PyDict [(''version'', ascii_str ''3.0'')]),
      (''root_path'', ascii_str ''''),
      (''scheme'', if https then ascii_str ''https'' else ascii_str ''http''),
      (''server'', PyTuple True [PyStr host, PyInt port]),
      (''http_version'', if minor_version r = 1 then ascii_str ''1.1'' else ascii_str ''1.0''),
      (''method'', PyStr m),
      (''path'', PyStr p),
      (''raw_path'', PyBytes True (path_part (path r))),
      (''query_string'', PyBytes True (case query_part (path r) of None \<Rightarrow> [] | Some q \<Rightarrow> q)),
      (''client'', cl),
      (''headers'', PyList True (map scope_header (headers r)))]"

lemma asgi_scope_templates:
  assumes "asgi_scope_init ok host port s0 = Some s" "utf8_decode host = Some h"
  shows "asgi_scope_template s = asgi_scope_entries h port"
    and "asgi_scope_template_https s = AList.update ''scheme'' (ascii_str ''https'') (asgi_scope_entries h port)"
proof -
  have "tset_all (asgi_scope_entries h port) [] = asgi_scope_entries h port"
    by (simp add: tset_all_def asgi_scope_entries_def)
  then show "asgi_scope_template s = asgi_scope_entries h port"
    "asgi_scope_template_https s = AList.update ''scheme'' (ascii_str ''https'') (asgi_scope_entries h port)"
    using assms by (auto simp: asgi_scope_init_def Let_def split: if_splits)
qed

lemma build_asgi_scope_spec:
  assumes t: "asgi_scope_init True host port s0 = Some s" "utf8_decode host = Some h"
    and c: "asgi_scope_template (srv c) = asgi_scope_template s"
      "asgi_scope_template_https (srv c) = asgi_scope_template_https s" "srv_cache (srv c) = built_cache"
      "req c = Some r" "client_cached c"
    and X: "scope_alloc (py_mem X)"
  shows "fst (build_asgi_scope X c) =
      (case (utf8_decode (req_method r), utf8_decode (path_part (path r)), client_tuple c) of
         (Some m, Some p, Some cl) \<Rightarrow> Some (request_scope (tls c \<noteq> None) h port r m p cl)
       | _ \<Rightarrow> None)
    \<and> client_cached (snd (build_asgi_scope X c))
    \<and> snd (build_asgi_scope X c) = c\<lparr>asgi_client_obj := asgi_client_obj (snd (build_asgi_scope X c))\<rparr>"
proof -
  note T = asgi_scope_templates [OF t]
  have ac: "asgi_client c = client_tuple c" using c(5) by (rule asgi_client_eq)
  note d = build_asgi_scope_def c X ac built.asgi_headers_eq
  show ?thesis
  proof (cases "utf8_decode (req_method r)")
    case None
    then show ?thesis by (simp add: d Let_def)
  next
    case m: (Some m)
    show ?thesis
    proof (cases "utf8_decode (path_part (path r))")
      case None
      then show ?thesis using m by (simp add: d Let_def)
    next
      case p: (Some p)
      show ?thesis
      proof (cases "client_tuple c")
        case None
        then show ?thesis using m p c(5) by (simp add: d Let_def)
      next
        case (Some cl)
        have "fst (build_asgi_scope X c) = Some (request_scope (tls c \<noteq> None) h port r m p cl)"
          using m p Some by (cases "query_part (path r)")
            (simp_all add: d T Let_def asgi_scope_entries_def request_scope_def)
        moreover have "snd (build_asgi_scope X c) = c\<lparr>asgi_client_obj := Some cl\<rparr>"
          using m p Some by (simp add: d Let_def)
        moreover have "client_cached (c\<lparr>asgi_client_obj := Some cl\<rparr>)"
          using Some by (auto simp: client_cached_def client_tuple_def)
        ultimately show ?thesis using m p Some by simp
      qed
    qed
  qed
qed

text \<open>
  C19. The scope is exact. It has the twelve entries of the ASGI specification in a fixed order, each
  with the value of this request: the template contributes the constants only, so nothing of an
  earlier request can show; the header names are lower-cased whether or not the cache knows them; the
  query is what follows the first question mark; TLS changes the scheme. It is refused exactly when
  the method, the path or the peer address is not UTF-8, and the connection's cached client entry
  stays right for its next request.
\<close>

theorem build_asgi_scope_exact:
  assumes t: "asgi_scope_init True host port s0 = Some s" "utf8_decode host = Some h"
    and c: "asgi_scope_template (srv c) = asgi_scope_template s"
      "asgi_scope_template_https (srv c) = asgi_scope_template_https s" "srv_cache (srv c) = built_cache"
      "req c = Some r" "client_cached c"
    and X: "scope_alloc (py_mem X)"
  shows "fst (build_asgi_scope X c) =
      (case (utf8_decode (req_method r), utf8_decode (path_part (path r)), client_tuple c) of
         (Some m, Some p, Some cl) \<Rightarrow> Some (request_scope (tls c \<noteq> None) h port r m p cl)
       | _ \<Rightarrow> None)
    \<and> client_cached (snd (build_asgi_scope X c))
    \<and> snd (build_asgi_scope X c) = c\<lparr>asgi_client_obj := asgi_client_obj (snd (build_asgi_scope X c))\<rparr>"
  using build_asgi_scope_spec [OF t c X] .

definition sample_asgi_conn :: "nat conn" where
  "sample_asgi_conn = sample_conn\<lparr>srv := the (asgi_scope_init True ''h'' 80 sample_server),
     req := Some \<lparr>req_method = ''GET'', path = ''/'', minor_version = 0, headers = []\<rparr>\<rparr>"

theorem build_asgi_scope_exact_witness:
  "fst (build_asgi_scope sample_ext sample_asgi_conn) = Some (request_scope False (latin1 ''h'') 80
     \<lparr>req_method = ''GET'', path = ''/'', minor_version = 0, headers = []\<rparr> (latin1 ''GET'') (latin1 ''/'')
     (PyTuple True [PyStr (latin1 ''127.0.0.1''), PyInt 40000]))"
proof -
  let ?r = "\<lparr>req_method = ''GET'', path = ''/'', minor_version = 0, headers = []\<rparr>"
  have u: "utf8_decode ''h'' = Some (latin1 ''h'')" "utf8_decode ''GET'' = Some (latin1 ''GET'')"
    "utf8_decode ''/'' = Some (latin1 ''/'')" "utf8_decode ''127.0.0.1'' = Some (latin1 ''127.0.0.1'')"
    by (rule utf8_decode_ascii, simp)+
  obtain s where s: "asgi_scope_init True ''h'' 80 sample_server = Some s"
    by (simp add: asgi_scope_init_def u Let_def)
  have "srv_cache s = built_cache" using s by (auto simp: asgi_scope_init_def u sample_server_def Let_def)
  moreover have "client_tuple sample_asgi_conn = Some (PyTuple True [PyStr (latin1 ''127.0.0.1''), PyInt 40000])"
    using u(4) by (simp add: client_tuple_def sample_asgi_conn_def sample_conn_def)
  moreover have "path_part ''/'' = ''/''" by (simp add: path_part_def qmark_def)
  ultimately show ?thesis
    using build_asgi_scope_exact [OF s u(1), of sample_asgi_conn ?r sample_ext] s u
    by (simp add: sample_asgi_conn_def sample_conn_def sample_ext_def client_cached_def)
qed

section \<open>The response header block\<close>

text \<open>The status line without its CRLF.\<close>

definition asgi_status :: "int \<Rightarrow> bytes" where
  "asgi_status s = (case status_line s of Some l \<Rightarrow> take (length l - 2) l | None \<Rightarrow> ''HTTP/1.1 '' @ fmt_int s @ '' Unknown'')"

text \<open>Every line of the table is line text of a bounded length followed by CRLF.\<close>

definition table_line :: "bytes \<Rightarrow> bool" where
  "table_line l \<longleftrightarrow> length l \<le> 100 \<and> 2 \<le> length l \<and> drop (length l - 2) l = CRLF \<and> line_text (take (length l - 2) l)"

lemma table_lineI: "line_text t \<Longrightarrow> length t \<le> 98 \<Longrightarrow> table_line (t @ CRLF)"
  by (simp add: table_line_def)

definition in_table :: "bytes option \<Rightarrow> bool" where
  "in_table l \<longleftrightarrow> (\<forall>t. l = Some t \<longrightarrow> table_line t)"

lemma in_table_if: "table_line t \<Longrightarrow> in_table l \<Longrightarrow> in_table (if b then Some t else l)"
  by (simp add: in_table_def)

lemma status_line_table: "in_table (status_line s)"
proof -
  have n: "in_table None" by (simp add: in_table_def)
  show ?thesis unfolding status_line_def
    by (intro in_table_if table_lineI n) (simp_all add: line_text_def line_char_def eq_delim)
qed

lemma length_dec_le: "n < 10 ^ k \<Longrightarrow> 0 < k \<Longrightarrow> length (dec n) \<le> k"
proof (induction k arbitrary: n)
  case (Suc k)
  show ?case
  proof (cases "n < 10")
    case False
    have "0 < k" using False Suc.prems by (cases k) auto
    moreover have "n div 10 < 10 ^ k" using Suc.prems by (intro less_mult_imp_div_less) (simp add: mult.commute)
    ultimately show ?thesis using Suc.IH [of "n div 10"] False by (simp add: dec_big)
  qed (simp add: dec_small)
qed simp

lemma length_fmt_int: "- (2 ^ 31) \<le> s \<Longrightarrow> s < 2 ^ 31 \<Longrightarrow> length (fmt_int s) \<le> 11"
proof (cases "s < 0")
  case True
  assume "- (2 ^ 31) \<le> s"
  then have "nat (- s) < 10 ^ 10" by (simp add: nat_less_iff)
  then show ?thesis using length_dec_le [of "nat (- s)" 10] True by (simp add: fmt_int_def)
next
  case False
  assume "s < 2 ^ 31"
  then have "nat s < 10 ^ 10" by (simp add: nat_less_iff)
  then show ?thesis using length_dec_le [of "nat s" 10] False by (simp add: fmt_int_def)
qed

lemma put_status_start:
  assumes "length hdr = RESP_HDR_SIZE" "- (2 ^ 31) \<le> s" "s < 2 ^ 31"
  shows "\<exists>st. put_status s (hdr, 0) = Inr st \<and> hdr_wf st \<and> hdr_text st = asgi_status s @ CRLF"
proof (cases "status_line s")
  case None
  have l: "length (unknown_status s) \<le> 40" using length_fmt_int [OF assms(2,3)] by (simp add: unknown_status_def)
  let ?st = "(blit hdr 0 (unknown_status s @ [NUL]), int (length (unknown_status s)))"
  have "put_status s (hdr, 0) = Inr ?st" using None l by (simp add: put_status_def Let_def RESP_HDR_SIZE_def)
  moreover have "hdr_wf ?st" using l assms(1) by (simp add: hdr_wf_def RESP_HDR_SIZE_def)
  moreover have "hdr_text ?st = asgi_status s @ CRLF"
  proof -
    have "hdr_text ?st = unknown_status s"
      unfolding hdr_text_def fst_conv snd_conv nat_int blit_def by simp
    then show ?thesis using None by (simp add: asgi_status_def unknown_status_def)
  qed
  ultimately show ?thesis by blast
next
  case (Some l)
  have t: "table_line l" using status_line_table [of s] Some by (simp add: in_table_def)
  have wf: "hdr_wf (hdr, 0)" "hdr_text (hdr, 0) = []" using assms(1) by (simp_all add: hdr_wf_def hdr_text_def)
  have "copyable l" "length l \<le> RESP_HDR_SIZE" using t by (simp_all add: table_line_def copyable_def RESP_HDR_SIZE_def)
  then have "\<exists>st. HDR_APPEND l (hdr, 0) = Inr st \<and> hdr_wf st \<and> hdr_text st = l"
    using writesD(1) [OF writes_append wf(1), of l] wf(2) by simp
  moreover have "l = asgi_status s @ CRLF"
    using t Some append_take_drop_id [of "length l - 2" l] by (simp add: asgi_status_def table_line_def)
  ultimately show ?thesis using Some by (simp add: put_status_def)
qed

text \<open>The texts of a header, and the write of one line of known text.\<close>

definition asgi_text :: "pyobj \<Rightarrow> (bytes \<times> bytes) option" where
  "asgi_text p =
     (case asgi_pair p of
        None \<Rightarrow> None
      | Some (no, vo) \<Rightarrow> if PyBytes_Check no \<and> PyBytes_Check vo then Some (bytes_of no, bytes_of vo) else None)"

definition put_field :: "bytes \<times> bytes \<Rightarrow> hdr_buf \<Rightarrow> hdr_err + hdr_buf" where
  "put_field f st =
     (let need = int (length (fst f)) + int (length (snd f)) + 4
      in if need \<le> int RESP_HDR_SIZE - snd st
         then Inr (blit (fst st) (nat (snd st)) (field_line f @ CRLF), snd st + need) else Inl HdrFull)"

interpretation field: hdr_writer put_field "\<lambda>f. field_line f @ CRLF" "\<lambda>_. True"
proof
  fix st f
  assume wf: "hdr_wf st"
  obtain hdr len where st: "st = (hdr, len)" by (cases st)
  have l: "length (hdr_text st @ field_line f @ CRLF) = nat len + length (fst f) + length (snd f) + 4" "0 \<le> len"
    using wf length_hdr_text [OF wf] by (simp_all add: st hdr_wf_def field_line_def)
  show "\<exists>st'. put_field f st = Inr st' \<and> hdr_wf st' \<and> hdr_text st' = hdr_text st @ field_line f @ CRLF"
    if "length (hdr_text st @ field_line f @ CRLF) \<le> RESP_HDR_SIZE"
    using that l wf hdr_text_blit [of hdr len "field_line f @ CRLF"]
    by (auto simp: st put_field_def Let_def field_line_def algebra_simps)
  show "put_field f st = Inl HdrFull" if "RESP_HDR_SIZE < length (hdr_text st @ field_line f @ CRLF)"
    using that l by (auto simp: st put_field_def Let_def)
qed

lemma append_asgi_header_eq:
  assumes "hdr_wf st"
  shows "append_asgi_header p flags st =
    (case asgi_text p of
       None \<Rightarrow> Inl HdrFull
     | Some f \<Rightarrow> andthen (put_field f st) (\<lambda>st'. Inr (name_flags (fst f) flags, st')))"
proof -
  obtain hdr len where st: "st = (hdr, len)" by (cases st)
  have "c_int n = n" if "0 \<le> n" "n \<le> int RESP_HDR_SIZE - len" for n
    using that assms by (intro c_int_id) (auto simp: st hdr_wf_def RESP_HDR_SIZE_def)
  then show ?thesis
    by (cases "asgi_pair p") (auto simp: st append_asgi_header_def asgi_text_def put_field_def field_line_def Let_def)
qed

lemma append_asgi_headers_eq:
  assumes "hdr_wf st" "map asgi_text hs = map Some fs"
  shows "append_asgi_headers hs flags st =
    andthen (puts put_field fs st) (\<lambda>st'. Inr (fold (\<lambda>f. name_flags (fst f)) fs flags, st'))"
  using assms
proof (induction hs arbitrary: fs flags st)
  case (Cons p hs)
  obtain f fs' where fs: "fs = f # fs'" using Cons.prems by (cases fs) auto
  have p: "asgi_text p = Some f" "map asgi_text hs = map Some fs'" using Cons.prems fs by auto
  show ?case
  proof (cases "put_field f st")
    case (Inr st')
    then have "hdr_wf st'"
      using field.put_fits [OF Cons.prems(1), of f] field.put_full [OF Cons.prems(1), of f] by (cases "length (hdr_text st @ field_line f @ CRLF) \<le> RESP_HDR_SIZE") auto
    from Cons.IH [OF this p(2)] show ?thesis
      using Inr by (simp add: fs append_asgi_header_eq [OF Cons.prems(1)] p(1))
  qed (simp add: fs append_asgi_header_eq [OF Cons.prems(1)] p(1))
qed simp

lemma append_asgi_headers_bad:
  assumes "hdr_wf st" "p \<in> set hs" "asgi_text p = None"
  shows "append_asgi_headers hs flags st = Inl HdrFull"
  using assms
proof (induction hs arbitrary: flags st)
  case (Cons q hs)
  show ?case
  proof (cases "append_asgi_header q flags st")
    case (Inl e)
    then show ?thesis using Cons.prems(1)
      by (auto simp: append_asgi_header_eq put_field_def Let_def split: option.splits if_splits)
  next
    case (Inr r)
    then obtain f st' where f: "asgi_text q = Some f" "put_field f st = Inr st'" "r = (name_flags (fst f) flags, st')"
      using Cons.prems(1) by (auto simp: append_asgi_header_eq split: option.splits)
    have "hdr_wf st'"
      using f(2) field.put_fits [OF Cons.prems(1), of f] field.put_full [OF Cons.prems(1), of f]
      by (cases "length (hdr_text st @ field_line f @ CRLF) \<le> RESP_HDR_SIZE") auto
    moreover have "p \<in> set hs" using Cons.prems f(1) by auto
    ultimately show ?thesis using Cons.IH [OF _ _ Cons.prems(3)] Inr f(3) by simp
  qed
qed simp

definition asgi_head :: "'p conn \<Rightarrow> int \<Rightarrow> (bytes \<times> bytes) list \<Rightarrow> pyobj \<Rightarrow> bytes" where
  "asgi_head c status fs body =
     response_head (response_lines (asgi_status status) fs (keep_alive c) (nat (asgi_body_len body)))"

lemma asgi_body_len_nonneg: "0 \<le> asgi_body_len body"
  by (simp add: asgi_body_len_def)

lemma texts_or_bad: "(\<exists>fs. map asgi_text hs = map Some fs) \<or> (\<exists>p \<in> set hs. asgi_text p = None)"
proof (induction hs)
  case (Cons p hs)
  show ?case
  proof (cases "asgi_text p")
    case (Some f)
    from Cons show ?thesis
    proof
      assume "\<exists>fs. map asgi_text hs = map Some fs"
      then obtain fs where "map asgi_text hs = map Some fs" ..
      then have "map asgi_text (p # hs) = map Some (f # fs)" using Some by simp
      then show ?thesis by blast
    qed auto
  qed auto
qed simp

lemma format_asgi_text:
  assumes "length (resp_hdr c) = RESP_HDR_SIZE" "- (2 ^ 31) \<le> status" "status < 2 ^ 31" "asgi_body_len body < 2 ^ 63"
    "map asgi_text hs = map Some fs"
  shows "if length (asgi_head c status fs body) \<le> RESP_HDR_SIZE
    then \<exists>hdr. format_response_asgi c status hs body = Inr (hdr, int (length (asgi_head c status fs body)))
           \<and> length hdr = RESP_HDR_SIZE \<and> take (length (asgi_head c status fs body)) hdr = asgi_head c status fs body
    else format_response_asgi c status hs body = Inl HdrFull"
proof -
  let ?cl = "has_field ''content-length'' fs" and ?cn = "has_field ''connection'' fs"
  let ?n = "nat (asgi_body_len body)"
  obtain st where st: "put_status status (resp_hdr c, 0) = Inr st" "hdr_wf st" "hdr_text st = asgi_status status @ CRLF"
    using put_status_start [OF assms(1-3)] by blast
  let ?f = "\<lambda>st. andthen (puts put_field fs st) (append_tail ?cl ?cn (keep_alive c) (int ?n))"
  have w: "writes ?f (concat (map (\<lambda>f. field_line f @ CRLF) fs) @ auto_lines ?cl ?cn (keep_alive c) ?n)"
    by (intro writes_andthen field.puts_writes append_tail_writes) (use assms(4) asgi_body_len_nonneg in simp_all)
  have f: "format_response_asgi c status hs body = ?f st"
    using asgi_body_len_nonneg [of body]
    by (simp add: format_response_asgi_def st(1) append_asgi_headers_eq [OF st(2) assms(5)] andthen_assoc
        fold_name_flags cong: andthen_cong)
  have t: "hdr_text st @ concat (map (\<lambda>f. field_line f @ CRLF) fs) @ auto_lines ?cl ?cn (keep_alive c) ?n
      = asgi_head c status fs body"
    by (simp add: asgi_head_def response_head_lines st(3))
  show ?thesis
  proof (cases "length (asgi_head c status fs body) \<le> RESP_HDR_SIZE")
    case True
    then obtain hdr len where "?f st = Inr (hdr, len)" "hdr_wf (hdr, len)" "hdr_text (hdr, len) = asgi_head c status fs body"
      using writesD(1) [OF w st(2)] unfolding t by auto
    then show ?thesis using True f length_hdr_text [of "(hdr, len)"] by (auto simp: hdr_wf_def hdr_text_def)
  next
    case False
    then show ?thesis using writesD(2) [OF w st(2)] f unfolding t by simp
  qed
qed

lemma format_asgi_bad:
  assumes "length (resp_hdr c) = RESP_HDR_SIZE" "- (2 ^ 31) \<le> status" "status < 2 ^ 31" "p \<in> set hs" "asgi_text p = None"
  shows "format_response_asgi c status hs body = Inl HdrFull"
proof -
  obtain st where "put_status status (resp_hdr c, 0) = Inr st" "hdr_wf st"
    using put_status_start [OF assms(1-3)] by blast
  then show ?thesis using append_asgi_headers_bad [OF _ assms(4,5)] by (simp add: format_response_asgi_def)
qed

text \<open>
  C20. The ASGI formatter writes exactly the response's text: the status line (from the table, or with
  the reason \<open>Unknown\<close> for any other C integer, negative ones included), the application's headers in
  order, the automatic lines and the empty line. It does so precisely when every header is a pair of
  bytes objects, read through any sequence, and the text fits; otherwise it reports failure. It never
  truncates and, unlike its WSGI counterpart, has no length for which it overruns the buffer.
\<close>

theorem format_response_asgi_exact:
  assumes "length (resp_hdr c) = RESP_HDR_SIZE" "- (2 ^ 31) \<le> status" "status < 2 ^ 31" "asgi_body_len body < 2 ^ 63"
  shows "(\<exists>fs hdr. map asgi_text hs = map Some fs \<and> length (asgi_head c status fs body) \<le> RESP_HDR_SIZE
        \<and> format_response_asgi c status hs body = Inr (hdr, int (length (asgi_head c status fs body)))
        \<and> length hdr = RESP_HDR_SIZE \<and> take (length (asgi_head c status fs body)) hdr = asgi_head c status fs body)
    \<or> (format_response_asgi c status hs body = Inl HdrFull
        \<and> (\<nexists>fs. map asgi_text hs = map Some fs \<and> length (asgi_head c status fs body) \<le> RESP_HDR_SIZE))"
  using texts_or_bad [of hs]
proof
  assume "\<exists>fs. map asgi_text hs = map Some fs"
  then obtain fs where fs: "map asgi_text hs = map Some fs" ..
  have "fs' = fs" if "map asgi_text hs = map Some fs'" for fs'
    using that fs by (metis list.inj_map_strong option.inject)
  then show ?thesis using format_asgi_text [OF assms fs] fs
    by (cases "length (asgi_head c status fs body) \<le> RESP_HDR_SIZE") auto
next
  assume "\<exists>p \<in> set hs. asgi_text p = None"
  then obtain p where p: "p \<in> set hs" "asgi_text p = None" by blast
  have "map asgi_text hs \<noteq> map Some fs" for fs
  proof
    assume "map asgi_text hs = map Some fs"
    then have "asgi_text p \<in> set (map Some fs)" using p(1) by (metis image_eqI list.set_map)
    then show False using p(2) by auto
  qed
  then show ?thesis using format_asgi_bad [OF assms(1-3) p] by simp
qed

theorem format_response_asgi_exact_witness:
  "format_response_asgi (sample_conn :: nat conn) 200 [PyTuple True [PyBytes True ''a'']] PyNone = Inl HdrFull"
proof -
  have l: "length (resp_hdr (sample_conn :: nat conn)) = RESP_HDR_SIZE" "asgi_body_len PyNone < 2 ^ 63"
    by (simp_all add: sample_conn_def asgi_body_len_def)
  have "\<nexists>fs. map asgi_text [PyTuple True [PyBytes True ''a'']] = map Some fs"
    by (auto simp: asgi_text_def asgi_pair_def)
  then show ?thesis using format_response_asgi_exact [OF l(1), of 200 PyNone "[PyTuple True [PyBytes True ''a'']]"] l(2)
    by auto
qed

section \<open>Sending\<close>

lemma line_text_fmt_int: "line_text (fmt_int s)"
  using line_text_dec by (auto simp: fmt_int_def line_text_def line_char_def eq_delim)

lemma asgi_status_text: "line_text (asgi_status s)"
proof (cases "status_line s")
  case None
  have "line_text '' Unknown''" by (simp add: line_text_def line_char_def eq_delim)
  then have "line_text (''HTTP/1.1 '' @ fmt_int s @ '' Unknown'')"
    unfolding line_text_append using line_text_literals(5) line_text_fmt_int by blast
  then show ?thesis using None by (simp add: asgi_status_def)
next
  case (Some l)
  then show ?thesis using status_line_table [of s] by (simp add: in_table_def asgi_status_def table_line_def)
qed

lemma as_c_int_range: "as_c_int o' = Some s \<Longrightarrow> - (2 ^ 31) \<le> s \<and> s < 2 ^ 31"
  by (cases o' rule: as_c_int.cases) (auto split: if_splits)

lemma asgi_head_pos: "0 < length (asgi_head c status fs body)"
  by (simp add: asgi_head_def response_head_def)

text \<open>
  A call to \<open>asgi_send_response\<close>: refused without a trace, or one \<open>write_response\<close> of the formatted text. \<open>b\<close> is the object \<open>resp_body\<close> points to then.
\<close>

lemma asgi_send_cases:
  assumes "length (resp_hdr c) = RESP_HDR_SIZE" "asgi_body_len body < 2 ^ 63"
  obtains (refused) "asgi_send_response_c X st hdrs body c = (False, c)"
  | (sent) e hs status fs hdr b where "hdrs = PyList e hs" "as_c_int st = Some status" "list_all asgi_header_ok hs"
      "map asgi_text hs = map Some fs" "length hdr = RESP_HDR_SIZE"
      "take (length (asgi_head c status fs body)) hdr = asgi_head c status fs body"
      "b = (if PyBytes_Check body \<and> bytes_of body \<noteq> [] then Some body else resp_body c)"
      "asgi_send_response_c X st hdrs body c =
        (True, write_response X (c\<lparr>resp_hdr := hdr, resp_hdr_len := int (length (asgi_head c status fs body)), resp_body := b\<rparr>))"
proof (cases "as_c_int st")
  case None
  then show ?thesis by (intro refused) (simp add: asgi_send_response_c_def)
next
  case (Some status)
  note r = as_c_int_range [OF Some]
  show ?thesis
  proof (cases "\<exists>e hs. hdrs = PyList e hs \<and> list_all asgi_header_ok hs")
    case False
    then show ?thesis using Some
      by (intro refused; cases hdrs) (simp_all add: asgi_send_response_c_def)
  next
    case True
    then obtain e hs where h: "hdrs = PyList e hs" "list_all asgi_header_ok hs" by blast
    show ?thesis
    proof (cases "format_response_asgi c status hs body")
      case (Inl err)
      then show ?thesis using Some h by (intro refused) (simp add: asgi_send_response_c_def)
    next
      case (Inr p)
      then obtain fs where fs: "map asgi_text hs = map Some fs"
        using texts_or_bad [of hs] format_asgi_bad [OF assms(1) r [THEN conjunct1] r [THEN conjunct2]] by fastforce
      let ?h = "asgi_head c status fs body"
      from format_asgi_text [OF assms(1) r [THEN conjunct1] r [THEN conjunct2] assms(2) fs] Inr
      obtain hdr where hdr: "p = (hdr, int (length ?h))" "length hdr = RESP_HDR_SIZE" "take (length ?h) hdr = ?h"
        by (cases "length ?h \<le> RESP_HDR_SIZE") auto
      show ?thesis
        by (rule sent [OF h(1) Some h(2) fs hdr(2,3) refl])
          (use Some h Inr hdr(1) in \<open>simp add: asgi_send_response_c_def Let_def\<close>)
    qed
  qed
qed

lemma checked_pair:
  assumes "asgi_header_ok p" "pair_items p \<noteq> None" "asgi_text p = Some f"
  shows "freastal_hdr_name_ok (fst f) \<and> freastal_hdr_value_ok (snd f)"
  using assms by (auto simp: asgi_header_ok_def asgi_text_def asgi_pair_def split: if_splits)

lemma checked_fields:
  assumes "list_all asgi_header_ok hs" "\<forall>p \<in> set hs. pair_items p \<noteq> None" "map asgi_text hs = map Some fs"
  shows "\<forall>f \<in> set fs. freastal_hdr_name_ok (fst f) \<and> freastal_hdr_value_ok (snd f)"
proof
  fix f
  assume "f \<in> set fs"
  then have "Some f \<in> set (map asgi_text hs)" using assms(3) by simp
  then obtain p where p: "p \<in> set hs" "asgi_text p = Some f" by auto
  show "freastal_hdr_name_ok (fst f) \<and> freastal_hdr_value_ok (snd f)"
    by (rule checked_pair [OF _ _ p(2)]) (use assms(1,2) p(1) in \<open>auto simp: list_all_iff\<close>)
qed

lemma fields_line_text:
  assumes "\<forall>f \<in> set fs. freastal_hdr_name_ok (fst f) \<and> freastal_hdr_value_ok (snd f)"
  shows "\<forall>f \<in> set fs. line_text (fst f) \<and> line_text (snd f)"
  using assms tchar_line_char by (auto simp: line_text_def hdr_name_ok_iff hdr_value_ok_iff)

text \<open>
  A status code of three digits makes a status line a reader takes apart: the table's lines by
  inspection, the others because \<open>%d\<close> prints three digits then.
\<close>

definition line_reads :: "int \<Rightarrow> bytes \<Rightarrow> bool" where
  "line_reads s l \<longleftrightarrow> (\<exists>t. l = ''HTTP/1.1 '' @ t \<and> freastal_status_ok t \<and> int (status_code t) = s)"

definition table_reads :: "int \<Rightarrow> bytes option \<Rightarrow> bool" where
  "table_reads s l \<longleftrightarrow> (\<forall>t. l = Some t \<longrightarrow> line_reads s (take (length t - 2) t))"

lemma table_reads_if:
  "(s = k \<Longrightarrow> line_reads k t) \<Longrightarrow> table_reads s l \<Longrightarrow> table_reads s (if s = k then Some (t @ CRLF) else l)"
  by (simp add: table_reads_def)

lemma line_readsI:
  "take 9 l = ''HTTP/1.1 '' \<Longrightarrow> freastal_status_ok (drop 9 l) \<Longrightarrow> int (status_code (drop 9 l)) = s \<Longrightarrow> line_reads s l"
  unfolding line_reads_def by (rule exI [of _ "drop 9 l"]) (metis append_take_drop_id)

lemma status_line_reads: "table_reads s (status_line s)"
proof -
  have n: "table_reads s None" by (simp add: table_reads_def)
  show ?thesis unfolding status_line_def
    by (intro table_reads_if line_readsI n)
       (simp_all add: freastal_status_ok_def status_code_def upt_rec_numeral upt_conv_Cons eq_delim)
qed

lemma dec_three_digits:
  assumes "100 \<le> n" "n \<le> 999"
  shows "dec n = three_digits n"
proof -
  have "dec n = dec (n div 10) @ [digit (n mod 10)]" using assms(1) by (simp add: dec_big digit_def)
  moreover have "dec (n div 10) = dec (n div 10 div 10) @ [digit (n div 10 mod 10)]"
    using assms(1) by (simp add: dec_big digit_def)
  moreover have "n div 10 div 10 < 10" using assms(2) by (simp flip: div_mult2_eq)
  then have "dec (n div 10 div 10) = [digit (n div 10 div 10)]" by (simp add: dec_small digit_def)
  ultimately show ?thesis by (simp add: three_digits_def)
qed

lemma asgi_status_reads:
  assumes "100 \<le> s" "s \<le> 999"
  shows "line_reads s (asgi_status s)"
proof (cases "status_line s")
  case None
  have n: "100 \<le> nat s" "nat s \<le> 999" using assms by auto
  have "asgi_status s = ''HTTP/1.1 '' @ three_digits (nat s) @ '' Unknown''"
    using None assms dec_three_digits [OF n] by (simp add: asgi_status_def fmt_int_def)
  moreover have "freastal_status_ok (three_digits (nat s) @ '' Unknown'')"
    using n by (intro status_ok_three_digits) (auto simp: line_char_def eq_delim)
  ultimately show ?thesis unfolding line_reads_def using status_code_digits [OF n(2)] assms by auto
next
  case (Some l)
  then show ?thesis using status_line_reads [of s] by (simp add: table_reads_def asgi_status_def)
qed

lemma asgi_head_reads:
  assumes "\<forall>f \<in> set fs. freastal_hdr_name_ok (fst f) \<and> freastal_hdr_value_ok (snd f)"
  shows "\<exists>q. 100 \<le> status \<and> status \<le> 999 \<longrightarrow>
    reads_back (asgi_head c status fs body @ t) q t \<and> int (rs_status q) = status
    \<and> rs_headers q = map read_field (fs @ extra_fields fs (keep_alive c) (nat (asgi_body_len body)))"
proof (cases "100 \<le> status \<and> status \<le> 999")
  case True
  then obtain s where "asgi_status status = ''HTTP/1.1 '' @ s" "freastal_status_ok s" "int (status_code s) = status"
    using asgi_status_reads [of status] by (auto simp: line_reads_def)
  with reads_backI [OF _ assms, of s] show ?thesis
    by (intro exI [of _ "read_response s fs (keep_alive c) (nat (asgi_body_len body))"] impI conjI)
       (simp_all only: asgi_head_def read_response_def phr_response.simps)
next
  case False
  then show ?thesis by blast
qed

text \<open>
  C21. \<open>asgi_send_response\<close> is atomic and, for headers given as pairs, cannot be made to split a
  response. If it raises, the connection is unchanged. If it returns, one response was delivered, in the
  clear or as ciphertext that opens to it: a block whose lines hold no CR, LF or NUL, with names that are
  tokens and values free of controls, followed by exactly the body. The fields are the ones the call was
  given, in order; and with a status code of three digits the response parser reads the text back as that
  code, these fields and the server's own, and stops where the body begins.
\<close>

theorem asgi_send_safe:
  assumes "channel X opens c" "length (resp_hdr c) = RESP_HDR_SIZE" "resp_body c = None" "length (bytes_of body) < 2 ^ 32"
    and pairs: "\<forall>e hs. hdrs = PyList e hs \<longrightarrow> (\<forall>p \<in> set hs. pair_items p \<noteq> None)"
    and call: "asgi_send_response_c X st hdrs body c = (ok, c')"
  shows "if ok then \<exists>e hs status fs q. as_c_int st = Some status \<and> hdrs = PyList e hs \<and> map asgi_text hs = map Some fs
        \<and> (\<forall>f \<in> set fs. freastal_hdr_name_ok (fst f) \<and> freastal_hdr_value_ok (snd f))
        \<and> (\<forall>l \<in> set (response_lines (asgi_status status) fs (keep_alive c) (length (bytes_of body))).
             CR \<notin> set l \<and> LF \<notin> set l \<and> NUL \<notin> set l)
        \<and> delivers X opens c (response_head (response_lines (asgi_status status) fs (keep_alive c)
             (length (bytes_of body))) @ bytes_of body) c'
        \<and> (100 \<le> status \<and> status \<le> 999 \<longrightarrow>
             reads_back (response_head (response_lines (asgi_status status) fs (keep_alive c)
               (length (bytes_of body))) @ bytes_of body) q (bytes_of body)
             \<and> int (rs_status q) = status
             \<and> rs_headers q = map read_field (fs @ extra_fields fs (keep_alive c) (length (bytes_of body))))
      else c' = c"
proof -
  have n: "asgi_body_len body < 2 ^ 63" using assms(4) by (simp add: asgi_body_len_def)
  show ?thesis
  proof (cases rule: asgi_send_cases [OF assms(2) n, of X st hdrs])
    case 1
    then show ?thesis using call by simp
  next
    case (2 e hs status fs hdr b)
    let ?h = "asgi_head c status fs body"
    let ?c = "c\<lparr>resp_hdr := hdr, resp_hdr_len := int (length ?h), resp_body := b\<rparr>"
    have nb: "\<not> PyBytes_Check body \<Longrightarrow> bytes_of body = []" by (cases body) auto
    have b: "resp_body_bytes ?c = bytes_of body" using 2(7) assms(3) nb by (auto simp: resp_body_bytes_def)
    have len: "nat (asgi_body_len body) = length (bytes_of body)" using nb by (auto simp: asgi_body_len_def)
    have "delivers X opens c (response_text ?c) (write_response X ?c)"
      by (rule write_response_delivers [OF assms(1)]) (use assms(4) 2(5) b in \<open>simp_all add: RESP_HDR_SIZE_def\<close>)
    moreover have "response_text ?c = ?h @ bytes_of body" using 2(6) b by (simp add: response_text_def)
    moreover have "ok" "c' = write_response X ?c" using call 2(8) by simp_all
    ultimately have u: "ok" "delivers X opens c (?h @ bytes_of body) c'" by simp_all
    have f: "\<forall>f \<in> set fs. freastal_hdr_name_ok (fst f) \<and> freastal_hdr_value_ok (snd f)"
      using 2(1,3,4) pairs by (intro checked_fields) auto
    have "\<forall>l \<in> set (response_lines (asgi_status status) fs (keep_alive c) (length (bytes_of body))).
        CR \<notin> set l \<and> LF \<notin> set l \<and> NUL \<notin> set l"
      using response_lines_safe [OF asgi_status_text fields_line_text [OF f]] line_text_no_delim by blast
    moreover obtain q where "100 \<le> status \<and> status \<le> 999 \<longrightarrow>
        reads_back (?h @ bytes_of body) q (bytes_of body) \<and> int (rs_status q) = status
        \<and> rs_headers q = map read_field (fs @ extra_fields fs (keep_alive c) (length (bytes_of body)))"
      using asgi_head_reads [OF f, of status c body "bytes_of body"] unfolding len by blast
    ultimately show ?thesis using u f 2(1,2,4) unfolding asgi_head_def len by auto
  qed
qed

lemma asgi_send_success:
  assumes "tls c = None" "length (resp_hdr c) = RESP_HDR_SIZE" "length b < 2 ^ 32" "b \<noteq> []" "as_c_int st = Some status"
    "list_all asgi_header_ok hs" "map asgi_text hs = map Some fs"
    "length (asgi_head c status fs (PyBytes True b)) \<le> RESP_HDR_SIZE"
  shows "\<exists>c'. asgi_send_response_c X st (PyList e hs) (PyBytes True b) c = (True, c')
    \<and> uv c' = uv c @ [UvWrite (asgi_head c status fs (PyBytes True b) @ b) OnWrite (uv_write_ok X (uv c))]
    \<and> tls c' = None \<and> keep_alive c' = keep_alive c \<and> length (resp_hdr c') = RESP_HDR_SIZE"
proof -
  let ?h = "asgi_head c status fs (PyBytes True b)"
  have n: "asgi_body_len (PyBytes True b) < 2 ^ 63" using assms(3) by (simp add: asgi_body_len_def)
  note r = as_c_int_range [OF assms(5)]
  from format_asgi_text [OF assms(2) r [THEN conjunct1] r [THEN conjunct2] n assms(7)] assms(8)
  obtain hdr where h: "format_response_asgi c status hs (PyBytes True b) = Inr (hdr, int (length ?h))"
    "length hdr = RESP_HDR_SIZE" "take (length ?h) hdr = ?h" by auto
  let ?c = "c\<lparr>resp_hdr := hdr, resp_hdr_len := int (length ?h), resp_body := Some (PyBytes True b)\<rparr>"
  have "write_response X ?c = ?c\<lparr>uv := uv ?c @ [UvWrite (response_text ?c) OnWrite (uv_write_ok X (uv ?c))]\<rparr>"
    by (rule write_response_plain) (use assms(1,3) h(2) in \<open>simp_all add: resp_body_bytes_def RESP_HDR_SIZE_def\<close>)
  moreover have "response_text ?c = ?h @ b" using h(3) by (simp add: response_text_def resp_body_bytes_def)
  ultimately show ?thesis using assms(1,4-6) h(1,2) by (simp add: asgi_send_response_c_def Let_def)
qed

lemma sample_conn_plain: "tls (sample_conn :: nat conn) = None" "length (resp_hdr (sample_conn :: nat conn)) = RESP_HDR_SIZE"
  "resp_body (sample_conn :: nat conn) = None" "uv (sample_conn :: nat conn) = []" "keep_alive (sample_conn :: nat conn) = False"
  "uv_write_ok (sample_ext :: nat ext) l"
  by (simp_all add: sample_conn_def sample_ext_def)

definition head_200 :: bytes where
  "head_200 = ''HTTP/1.1 200 OK'' @ CRLF @ ''Content-Length: 2'' @ CRLF @ ''Connection: close'' @ CRLF @ CRLF"

lemma asgi_head_200: "keep_alive c = False \<Longrightarrow> asgi_head c 200 [] (PyBytes True ''hi'') = head_200"
  by (simp add: asgi_head_def response_head_def response_lines_def extra_lines_def has_field_def asgi_status_def
      status_line_def asgi_body_len_def head_200_def dec.simps char_of_def bit_iff_odd)

lemma hi_200: "length ''hi'' < 2 ^ 32" "''hi'' \<noteq> []" "as_c_int (PyInt 200) = Some 200"
  by simp_all

lemma head_200_fits: "length head_200 \<le> RESP_HDR_SIZE"
  by (simp add: head_200_def RESP_HDR_SIZE_def)

theorem asgi_send_safe_witness:
  "\<exists>c' text. asgi_send_response_c sample_ext (PyInt 200) (PyList True []) (PyBytes True ''hi'') (sample_conn :: nat conn) = (True, c')
     \<and> uv c' = [UvWrite text OnWrite True]"
proof -
  let ?r = "asgi_send_response_c sample_ext (PyInt 200) (PyList True []) (PyBytes True ''hi'') (sample_conn :: nat conn)"
  have "length (asgi_head (sample_conn :: nat conn) 200 [] (PyBytes True ''hi'')) \<le> RESP_HDR_SIZE"
    using asgi_head_200 [OF sample_conn_plain(5)] head_200_fits by simp
  from asgi_send_success [OF sample_conn_plain(1,2) hi_200 _ _ this, of "[]" sample_ext True]
  obtain c' where r: "?r = (True, c')" by auto
  have "channel sample_ext (\<lambda>s ct pt s'. ct = pt) (sample_conn :: nat conn)" using sample_conn_plain(1) by (simp add: channel_def)
  from asgi_send_safe [OF this sample_conn_plain(2,3) _ _ r] show ?thesis
    using r sample_conn_plain(1,4,6) by (auto simp: delivers_def)
qed

definition subclass_pair :: pyobj where
  "subclass_pair = PyTuple False [PyBytes True ''a'', PyBytes True (''b'' @ CRLF @ ''Set-Cookie: c=d'')]"

text \<open>
  The restriction of C21 to exact pairs is needed. The check passes over every other shape, saying
  that the formatter reports its own error; but the formatter reads any sequence, so a pair that is an
  instance of a subclass of \<open>tuple\<close> (a named tuple, say) is written unchecked, and the line break in
  its value starts a header of its own on the wire.
\<close>

theorem asgi_sequence_splits:
  "\<exists>c'. asgi_send_response_c sample_ext (PyInt 200) (PyList True [subclass_pair]) (PyBytes True ''hi'') (sample_conn :: nat conn)
      = (True, c')
    \<and> uv c' = [UvWrite (''HTTP/1.1 200 OK'' @ CRLF @ ''a: b'' @ CRLF @ ''Set-Cookie: c=d'' @ CRLF
        @ ''Content-Length: 2'' @ CRLF @ ''Connection: close'' @ CRLF @ CRLF @ ''hi'') OnWrite True]"
proof -
  let ?fs = "[(''a'', ''b'' @ CRLF @ ''Set-Cookie: c=d'')]"
  have h: "asgi_head (sample_conn :: nat conn) 200 ?fs (PyBytes True ''hi'') =
    ''HTTP/1.1 200 OK'' @ CRLF @ ''a: b'' @ CRLF @ ''Set-Cookie: c=d'' @ CRLF
        @ ''Content-Length: 2'' @ CRLF @ ''Connection: close'' @ CRLF @ CRLF"
    by (simp add: sample_conn_def asgi_head_def response_head_def response_lines_def extra_lines_def has_field_def
        is_name_def asgi_status_def status_line_def asgi_body_len_def field_line_def dec.simps char_of_def bit_iff_odd)
  have t: "list_all asgi_header_ok [subclass_pair]" "map asgi_text [subclass_pair] = map Some ?fs"
    by (simp_all add: asgi_header_ok_def subclass_pair_def asgi_text_def asgi_pair_def)
  have l: "length (asgi_head (sample_conn :: nat conn) 200 ?fs (PyBytes True ''hi'')) \<le> RESP_HDR_SIZE"
    unfolding h by (simp add: RESP_HDR_SIZE_def)
  from asgi_send_success [OF sample_conn_plain(1,2) hi_200 t l, of sample_ext True]
  show ?thesis unfolding h using sample_conn_plain(4,6)
    by (elim exE conjE) (intro exI conjI, assumption, simp)
qed

section \<open>One request, one response\<close>

text \<open>Bodies have lengths that fit in \<open>Py_ssize_t\<close>, and nothing is sent after a response was accepted.\<close>

fun asgi_small :: "asgi_code \<Rightarrow> bool" where
  "asgi_small (ASend st hs body k1 k2) \<longleftrightarrow> asgi_body_len body < 2 ^ 63 \<and> asgi_small k1 \<and> asgi_small k2"
| "asgi_small (ASuspend k) \<longleftrightarrow> asgi_small k"
| "asgi_small _ \<longleftrightarrow> True"

fun no_send :: "asgi_code \<Rightarrow> bool" where
  "no_send (ASend st hs body k1 k2) \<longleftrightarrow> False"
| "no_send (ASuspend k) \<longleftrightarrow> no_send k"
| "no_send _ \<longleftrightarrow> True"

fun sends_once :: "asgi_code \<Rightarrow> bool" where
  "sends_once (ASend st hs body k1 k2) \<longleftrightarrow> no_send k1 \<and> sends_once k2"
| "sends_once (ASuspend k) \<longleftrightarrow> sends_once k"
| "sends_once _ \<longleftrightarrow> True"

text \<open>The call that ends a response: a write, or the close of an encrypted connection that could not send it.\<close>

definition is_response :: "'p conn \<Rightarrow> uv_call \<Rightarrow> bool" where
  "is_response c w \<longleftrightarrow> (\<exists>d ok. w = UvWrite d OnWrite ok) \<or> (w = UvClose \<and> tls c \<noteq> None)"

text \<open>The state of a request: a response has gone out iff \<open>resp_hdr_len\<close> says so.\<close>

definition answering :: "uv_call list \<Rightarrow> 'p conn \<Rightarrow> bool" where
  "answering l c \<longleftrightarrow> length (resp_hdr c) = RESP_HDR_SIZE
     \<and> (\<exists>ws. uv c = l @ ws \<and> (\<forall>w \<in> set ws. is_response c w) \<and> (resp_hdr_len c = 0 \<longleftrightarrow> ws = []))"

lemma answering_write:
  fixes c :: "'p conn" and X :: "'p ext" and b :: "pyobj option"
  assumes "answering l c" "length hdr = RESP_HDR_SIZE" "n \<noteq> 0"
  defines "c' \<equiv> write_response X (c\<lparr>resp_hdr := hdr, resp_hdr_len := n, resp_body := b\<rparr>)"
  shows "\<exists>w. is_response c w \<and> uv c' = uv c @ [w]" and "answering l c'" and "tls c' = None \<longleftrightarrow> tls c = None"
proof -
  let ?c = "c\<lparr>resp_hdr := hdr, resp_hdr_len := n, resp_body := b\<rparr>"
  obtain x where x: "same_rx ?c c'" "same_resp ?c c'" "response_call X ?c x" "uv c' = uv ?c @ [x]"
    unfolding c'_def using write_response_shape by blast
  show t: "tls c' = None \<longleftrightarrow> tls c = None" using x(1) by (simp add: same_rx_def)
  have r: "is_response c x" "is_response c' = is_response c"
    using x(3) t by (auto simp: is_response_def response_call_def fun_eq_iff)
  then show "\<exists>w. is_response c w \<and> uv c' = uv c @ [w]" using x(4) by auto
  obtain ws where "uv c = l @ ws" "\<forall>w \<in> set ws. is_response c w" using assms(1) by (auto simp: answering_def)
  then show "answering l c'" using assms(2,3) x(2,4) r
    by (auto simp: answering_def same_resp_def intro!: exI [of _ "ws @ [x]"])
qed

lemma asgi_send_step:
  assumes "answering l c" "asgi_body_len body < 2 ^ 63" "asgi_send_response_c X st hs body c = (ok, c')"
  shows "answering l c'" and "\<not> ok \<Longrightarrow> c' = c"
    and "ok \<Longrightarrow> \<exists>w. is_response c w \<and> uv c' = uv c @ [w]" and "tls c' = None \<longleftrightarrow> tls c = None"
proof -
  have p: "length (resp_hdr c) = RESP_HDR_SIZE" using assms(1) by (simp add: answering_def)
  have "answering l c' \<and> (\<not> ok \<longrightarrow> c' = c) \<and> (ok \<longrightarrow> (\<exists>w. is_response c w \<and> uv c' = uv c @ [w]))
    \<and> (tls c' = None \<longleftrightarrow> tls c = None)"
  proof (cases rule: asgi_send_cases [OF p assms(2), of X st hs])
    case 1
    then show ?thesis using assms by simp
  next
    case (2 e hl status fs hdr b)
    have "int (length (asgi_head c status fs body)) \<noteq> 0" using asgi_head_pos [of c status fs body] by linarith
    from answering_write [OF assms(1) 2(5) this] show ?thesis using 2(8) assms(3) by simp
  qed
  then show "answering l c'" "\<not> ok \<Longrightarrow> c' = c" "ok \<Longrightarrow> \<exists>w. is_response c w \<and> uv c' = uv c @ [w]"
    "tls c' = None \<longleftrightarrow> tls c = None" by blast+
qed

lemma coro_step_answering:
  assumes "answering l c" "asgi_small k" "asgi_coro_step X k c = (r, c')"
  shows "answering l c' \<and> (tls c' = None \<longleftrightarrow> tls c = None)"
  using assms
proof (induction X k c rule: asgi_coro_step.induct)
  case (1 X st hs body k1 k2 c)
  obtain ok c1 where s: "asgi_send_response_c X st hs body c = (ok, c1)" by (cases "asgi_send_response_c X st hs body c")
  have "answering l c1" "tls c1 = None \<longleftrightarrow> tls c = None" using asgi_send_step(1,4) [OF 1(3) _ s] 1(4) by simp_all
  then show ?case using 1(1,2) [OF s [symmetric]] 1(4,5) s by (cases ok) simp_all
qed simp_all

lemma coro_step_no_send: "no_send k \<Longrightarrow> asgi_coro_step X k c = (r, c') \<Longrightarrow> c' = c"
  by (induction X k c rule: asgi_coro_step.induct) simp_all

lemma coro_step_once:
  assumes "answering l c" "asgi_small k" "sends_once k" "asgi_coro_step X k c = (r, c')"
  shows "length (uv c') \<le> Suc (length (uv c))"
  using assms
proof (induction X k c rule: asgi_coro_step.induct)
  case (1 X st hs body k1 k2 c)
  obtain ok c1 where s: "asgi_send_response_c X st hs body c = (ok, c1)" by (cases "asgi_send_response_c X st hs body c")
  have a: "answering l c1" "\<not> ok \<Longrightarrow> c1 = c" "ok \<Longrightarrow> \<exists>w. uv c1 = uv c @ [w]"
    using asgi_send_step(1-3) [OF 1(3) _ s] 1(4) by auto
  show ?case
  proof (cases ok)
    case True
    then have "c' = c1" using 1(5,6) s coro_step_no_send [of k1 X c1 r c'] by simp
    then show ?thesis using a(3) True by auto
  next
    case False
    then show ?thesis using 1(2) [OF s [symmetric]] 1(4-6) s a(1,2) by simp
  qed
qed simp_all

lemma send_500_asgi_answers:
  assumes "answering l c"
  shows "(\<exists>w. is_response c w \<and> uv (send_500_asgi X c) = uv c @ [w])"
proof -
  let ?n = "int (length response_500_asgi)"
  have n: "?n \<noteq> 0" "length response_500_asgi \<le> 8192" by (simp_all add: response_500_asgi_def)
  have a: "answering l (c\<lparr>keep_alive := False\<rparr>)" using assms by (simp add: answering_def is_response_def)
  have "length (blit (resp_hdr c) 0 response_500_asgi) = RESP_HDR_SIZE"
    using assms n(2) by (simp add: answering_def RESP_HDR_SIZE_def)
  from answering_write(1) [OF a this n(1), of X None] show ?thesis by (simp add: send_500_asgi_def is_response_def)
qed

lemma build_asgi_scope_frame:
  "snd (build_asgi_scope X c) = c\<lparr>asgi_client_obj := asgi_client_obj (snd (build_asgi_scope X c))\<rparr>"
  by (simp add: build_asgi_scope_def Let_def split: option.split)

text \<open>
  C22. Dispatching a request to an ASGI application either leaves a suspended task behind or answers, with
  a write or, on an encrypted connection that cannot send, a close: an application that finished or raised
  without an accepted response gets the 500 page, one that raised after its response does not get a second
  one. An application that sends once is answered exactly once.
\<close>

theorem asgi_dispatch_answers:
  assumes "length (resp_hdr c) = RESP_HDR_SIZE" "resp_hdr_len c = 0"
    and small: "\<forall>scope body. asgi_small (asgi_app X scope body)"
  shows "\<exists>ws. uv (asgi_dispatch X c) = uv c @ ws \<and> (\<forall>w \<in> set ws. is_response c w)
    \<and> (ws = [] \<longrightarrow> asgi_task (asgi_dispatch X c) \<noteq> None)
    \<and> ((\<forall>scope body. sends_once (asgi_app X scope body)) \<longrightarrow> length ws \<le> 1)"
proof -
  let ?post = "\<lambda>c'. \<exists>ws. uv c' = uv c @ ws \<and> (\<forall>w \<in> set ws. is_response c w)
    \<and> (ws = [] \<longrightarrow> asgi_task c' \<noteq> None) \<and> ((\<forall>scope body. sends_once (asgi_app X scope body)) \<longrightarrow> length ws \<le> 1)"
  have s500: "?post (send_500_asgi X c')" if "answering (uv c) c'" "resp_hdr_len c' = 0" "tls c' = None \<longleftrightarrow> tls c = None" for c'
  proof -
    have "uv c' = uv c" "is_response c' = is_response c" using that by (auto simp: answering_def is_response_def fun_eq_iff)
    then show ?thesis using send_500_asgi_answers [OF that(1), of X] by auto
  qed
  obtain so c1 where b: "build_asgi_scope X c = (so, c1)" by (cases "build_asgi_scope X c")
  have c1: "c1 = c\<lparr>asgi_client_obj := asgi_client_obj c1\<rparr>" using build_asgi_scope_frame [of X c] b by simp
  have a0: "answering (uv c) c" using assms(1,2) by (simp add: answering_def)
  have a1: "answering (uv c) c1" "resp_hdr_len c1 = 0" "tls c1 = None \<longleftrightarrow> tls c = None"
    by (subst c1, use a0 assms(2) in \<open>simp add: answering_def is_response_def\<close>)+
  let ?c2 = "c1\<lparr>asgi_capsule := True\<rparr>"
  have a2: "answering (uv c) ?c2" "uv ?c2 = uv c" using a1 by (auto simp: answering_def is_response_def)
  show ?thesis
  proof (cases "so = None \<or> \<not> body_alloc (py_mem X) \<or> \<not> asgi_capsule c1 \<and> \<not> capsule_alloc (py_mem X)")
    case True
    then have "asgi_dispatch X c = send_500_asgi X c1" using b by (cases so) (auto simp: asgi_dispatch_def)
    then show ?thesis using s500 [OF a1] by simp
  next
    case False
    then obtain scope where sc: "so = Some scope" by auto
    let ?k = "asgi_app X scope (body_bytes ?c2)"
    obtain r c3 where r: "asgi_coro_step X ?k ?c2 = (r, c3)" by (cases "asgi_coro_step X ?k ?c2")
    have a3: "answering (uv c) c3" "tls c3 = None \<longleftrightarrow> tls c = None"
      using coro_step_answering [OF a2(1) _ r] small a1(3) by auto
    then have ir: "is_response c3 = is_response c" by (auto simp: is_response_def fun_eq_iff)
    have once: "length (uv c3) \<le> Suc (length (uv c))" if "\<forall>scope body. sends_once (asgi_app X scope body)"
      using coro_step_once [OF a2(1) _ _ r] small that a2(2) by simp
    obtain ws where ws: "uv c3 = uv c @ ws" "\<forall>w \<in> set ws. is_response c w"
      "resp_hdr_len c3 = 0 \<longleftrightarrow> ws = []" using a3(1) ir by (auto simp: answering_def)
    have keep: "?post c3" if "resp_hdr_len c3 \<noteq> 0" using ws that once by auto
    have d: "asgi_dispatch X c = (case r of CoroYield k \<Rightarrow> c3\<lparr>asgi_task := Some k\<rparr>
        | _ \<Rightarrow> if resp_hdr_len c3 = 0 then send_500_asgi X c3 else c3)"
      using b sc False r by (cases r) (auto simp: asgi_dispatch_def Let_def)
    show ?thesis
    proof (cases r)
      case (CoroYield k)
      then show ?thesis using d ws once by (intro exI [of _ ws]) auto
    qed (use d s500 [OF a3(1) _ a3(2)] keep in auto)
  qed
qed

definition no_scope_ext :: "nat ext" where
  "no_scope_ext = sample_ext\<lparr>py_mem := (py_mem (sample_ext :: nat ext))\<lparr>scope_alloc := False\<rparr>\<rparr>"

theorem asgi_dispatch_answers_witness:
  "\<exists>d ok. uv (asgi_dispatch no_scope_ext sample_conn) = [UvWrite d OnWrite ok]"
proof -
  have r: "resp_hdr_len (sample_conn :: nat conn) = 0" by (simp add: sample_conn_def)
  have a: "\<forall>scope body. asgi_small (asgi_app no_scope_ext scope body)" "\<forall>scope body. sends_once (asgi_app no_scope_ext scope body)"
    by (simp_all add: no_scope_ext_def sample_ext_def)
  have "asgi_dispatch no_scope_ext sample_conn = send_500_asgi no_scope_ext sample_conn"
    by (simp add: asgi_dispatch_def build_asgi_scope_def no_scope_ext_def Let_def)
  moreover have "asgi_task (send_500_asgi no_scope_ext sample_conn) = None"
    by (simp add: send_500_asgi_def write_response_def uv_write_def sample_conn_def Let_def)
  ultimately obtain ws where "uv (asgi_dispatch no_scope_ext sample_conn) = ws" "ws \<noteq> []" "length ws \<le> 1"
    "\<forall>w \<in> set ws. is_response (sample_conn :: nat conn) w"
    using asgi_dispatch_answers [OF sample_conn_plain(2) r a(1)] a(2) sample_conn_plain(4) by auto
  then show ?thesis using sample_conn_plain(1) by (cases ws) (auto simp: is_response_def)
qed

text \<open>
  The restriction to one response is needed: nothing marks the connection as answered, so a second
  \<open>http.response.body\<close> event (a streaming application sends several) starts a second complete response
  with the same request structure while the first write is still in progress.
\<close>

definition twice_app :: asgi_code where
  "twice_app = ASend (PyInt 200) (PyList True []) (PyBytes True ''hi'')
     (ASend (PyInt 200) (PyList True []) (PyBytes True ''hi'') AFinish ARaise) ARaise"

theorem asgi_double_write:
  "\<exists>c'. asgi_coro_step sample_ext twice_app (sample_conn :: nat conn) = (CoroDone, c')
    \<and> uv c' = [UvWrite (head_200 @ ''hi'') OnWrite True, UvWrite (head_200 @ ''hi'') OnWrite True]"
proof -
  have send: "\<exists>c'. asgi_send_response_c sample_ext (PyInt 200) (PyList True []) (PyBytes True ''hi'') c = (True, c')
      \<and> uv c' = uv c @ [UvWrite (head_200 @ ''hi'') OnWrite True]
      \<and> tls c' = None \<and> keep_alive c' = False \<and> length (resp_hdr c') = RESP_HDR_SIZE"
    if "tls c = None" "length (resp_hdr c) = RESP_HDR_SIZE" "keep_alive c = False" for c :: "nat conn"
    using asgi_send_success [OF that(1,2) hi_200, of "[]" "[]" sample_ext True] asgi_head_200 [OF that(3)] head_200_fits
      sample_conn_plain(6) that(3) by simp
  obtain c1 :: "nat conn" where c1: "asgi_send_response_c sample_ext (PyInt 200) (PyList True []) (PyBytes True ''hi'') sample_conn = (True, c1)"
    "uv c1 = [UvWrite (head_200 @ ''hi'') OnWrite True]" "tls c1 = None" "keep_alive c1 = False"
    "length (resp_hdr c1) = RESP_HDR_SIZE"
    using send [OF sample_conn_plain(1,2,5)] sample_conn_plain(4) by auto
  obtain c2 where "asgi_send_response_c sample_ext (PyInt 200) (PyList True []) (PyBytes True ''hi'') c1 = (True, c2)"
    "uv c2 = uv c1 @ [UvWrite (head_200 @ ''hi'') OnWrite True]"
    using send [OF c1(3,5,4)] by auto
  then show ?thesis using c1 by (simp add: twice_app_def)
qed

end
