(* ===== verification/AppRead.thy ===== *)
theory AppRead
  imports Asgi
begin

text \<open>
  What a client understands of a response: whatever the WSGI dispatch delivers is read back by the
  response parser as the status and the headers the application announced, or as the 500 page. For ASGI
  the same is part of C21; here are the status codes it does not hold for.
\<close>

section \<open>The 500 page\<close>

definition fields_500 :: "(bytes \<times> bytes) list" where
  "fields_500 = [(''Content-Type'', ''text/plain''), (''Content-Length'', ''21''), (''Connection'', ''close'')]"

definition page_500 :: phr_response where
  "page_500 = \<lparr>rs_minor = 1, rs_status = 500, rs_msg = ''Internal Server Error'',
     rs_headers = map (\<lambda>f. \<lparr>hname = Some (fst f), hvalue = snd f\<rparr>) fields_500\<rparr>"

lemma response_500_lines:
  "response_500 = response_head (response_lines (''HTTP/1.1 '' @ ''500 Internal Server Error'') fields_500 ka n)
     @ ''Internal Server Error''"
proof -
  have "has_field ''content-length'' fields_500" "has_field ''connection'' fields_500" by code_simp+
  then have "extra_lines fields_500 ka n = []" by (simp add: extra_lines_def)
  then show ?thesis
    by (simp add: response_500_def response_head_def response_lines_def fields_500_def field_line_def)
qed

lemma page_500_read: "read_response ''500 Internal Server Error'' fields_500 False 0 = page_500"
  by code_simp

lemma response_500_reads_back: "reads_back response_500 page_500 ''Internal Server Error''"
proof -
  have "freastal_status_ok ''500 Internal Server Error''" by code_simp
  moreover have "\<forall>f \<in> set fields_500. freastal_hdr_name_ok (fst f) \<and> freastal_hdr_value_ok (snd f)" by code_simp
  ultimately show ?thesis
    using reads_backI [of "''500 Internal Server Error''" fields_500 False 0 "''Internal Server Error''"]
    unfolding page_500_read response_500_lines [of False 0] by blast
qed

section \<open>Responses of WSGI applications\<close>

text \<open>The application's header block does not fit.\<close>

definition too_long :: "'p ext \<Rightarrow> 'p conn \<Rightarrow> bool" where
  "too_long X c \<longleftrightarrow>
     (\<exists>body c3 status hdrs. wsgi_run X c = (Some body, c3) \<and> format_ok c3 status hdrs
        \<and> RESP_HDR_SIZE < length (response_head (response_lines (''HTTP/1.1 '' @ status) hdrs (keep_alive c3)
            (length (bytes_of body)))))"

text \<open>
  What the reader of a response to the request of \<open>c\<close> gets: the 500 page, when the application did not
  answer or its block does not fit, or else what it announced.
\<close>

definition wsgi_answer :: "'p ext \<Rightarrow> 'p conn \<Rightarrow> phr_response \<Rightarrow> bytes \<Rightarrow> bool" where
  "wsgi_answer X c q payload \<longleftrightarrow>
     q = page_500 \<and> payload = ''Internal Server Error'' \<and> (fst (wsgi_run X c) = None \<or> too_long X c)
     \<or> (\<exists>body c3 status hdrs. wsgi_run X c = (Some body, c3) \<and> format_ok c3 status hdrs
          \<and> q = read_response status hdrs (keep_alive c3) (length (bytes_of body)) \<and> payload = bytes_of body)"

lemma wsgi_answered:
  assumes "\<forall>env. benign (wsgi_app X env)" "channel X opens c" "resp_status c = None"
    "length (resp_hdr c) = RESP_HDR_SIZE"
    "\<forall>body c3. wsgi_run X c = (Some body, c3) \<longrightarrow> length (bytes_of body) < 2 ^ 32"
  shows "\<exists>c' t q payload. wsgi_call_application X c = Some c' \<and> delivers X opens c t c' \<and> reads_back t q payload
    \<and> wsgi_answer X c q payload \<and> length (resp_hdr c') = RESP_HDR_SIZE"
proof (cases rule: wsgi_outcomes [OF assms])
  case (1 c')
  then have "fst (wsgi_run X c) = None \<or> too_long X c" by (simp add: too_long_def)
  then have "wsgi_answer X c page_500 ''Internal Server Error''" by (simp add: wsgi_answer_def)
  with 1 response_500_reads_back show ?thesis by blast
next
  case (2 c' body c3 status hdrs)
  then have "wsgi_answer X c (read_response status hdrs (keep_alive c3) (length (bytes_of body))) (bytes_of body)"
    unfolding wsgi_answer_def by blast
  with 2 reads_backI [OF 2(4,5)] show ?thesis by blast
qed

text \<open>
  C24. The client is told what the application announced. Under the conditions of C18, what a dispatch
  delivers is taken apart by the response parser, in either build and with any \<open>max_headers\<close> that holds
  the fields, into one response and its body. When the request was not answered (the application raised,
  or returned without announcing a status), or when its header block does not fit, that is the 500 page;
  otherwise it is the status code and reason of the string given to \<open>start_response\<close>, its headers in
  order and unchanged but for blanks around a value, the server's own fields behind them, and as body
  exactly the bytes of the collected iterable. Nothing is added, dropped, merged or reordered on the way.
\<close>

theorem wsgi_response_read_back:
  assumes "\<forall>env. benign (wsgi_app X env)" "channel X opens c" "resp_status c = None"
    "length (resp_hdr c) = RESP_HDR_SIZE"
    "\<forall>body c3. wsgi_run X c = (Some body, c3) \<longrightarrow> length (bytes_of body) < 2 ^ 32"
  shows "\<exists>c' t q payload. wsgi_call_application X c = Some c' \<and> delivers X opens c t c' \<and> reads_back t q payload
    \<and> (q = page_500 \<and> payload = ''Internal Server Error'' \<and> (fst (wsgi_run X c) = None \<or> too_long X c)
       \<or> (\<exists>body c3 status hdrs. wsgi_run X c = (Some body, c3) \<and> format_ok c3 status hdrs
            \<and> q = read_response status hdrs (keep_alive c3) (length (bytes_of body)) \<and> payload = bytes_of body))"
  using wsgi_answered [OF assms] unfolding wsgi_answer_def by blast

text \<open>An application that answers \<open>hi\<close>, read by its client.\<close>

definition hi_response :: phr_response where
  "hi_response = \<lparr>rs_minor = 1, rs_status = 200, rs_msg = ''OK'',
     rs_headers = [\<lparr>hname = Some ''Content-Length'', hvalue = ''2''\<rparr>, \<lparr>hname = Some ''Connection'', hvalue = ''close''\<rparr>]\<rparr>"

theorem wsgi_response_read_back_witness:
  "\<exists>c' t q payload. wsgi_call_application (ext_running ok_app) bare_conn = Some c'
     \<and> uv c' = [UvWrite t OnWrite True] \<and> reads_back t q payload \<and> q = hi_response \<and> payload = ''hi''"
proof -
  have b: "\<forall>env. benign (wsgi_app (ext_running ok_app) env)"
    using status_200 by (auto simp: ext_running_def ok_app_def args_small_def copyable_def)
  have s: "channel (ext_running ok_app) (\<lambda>s ct pt s'. ct = pt) bare_conn" "resp_status bare_conn = None"
    "length (resp_hdr bare_conn) = RESP_HDR_SIZE" "uv bare_conn = []" "uv_write_ok (ext_running ok_app) []"
    "tls bare_conn = None" "keep_alive bare_conn = False"
    by (simp_all add: bare_conn_def sample_conn_def ext_running_def sample_ext_def channel_def)
  have f: "status = ''200 OK'' \<and> hdrs = []" if "format_ok announced status hdrs" for status hdrs
    using that status_200(1) by (auto simp: format_ok_def announced_def)
  have q: "read_response ''200 OK'' [] False 2 = hi_response" by code_simp
  have k: "keep_alive announced = False" using s(7) by (simp add: announced_def)
  have "length (response_head (response_lines (''HTTP/1.1 '' @ ''200 OK'') [] False 2)) \<le> RESP_HDR_SIZE" by code_simp
  then have h: "\<not> RESP_HDR_SIZE < length (response_head (response_lines (''HTTP/1.1 '' @ ''200 OK'') [] (keep_alive announced) 2))"
    using k by simp
  have n: "\<forall>body c3. wsgi_run (ext_running ok_app) bare_conn = (Some body, c3) \<longrightarrow> length (bytes_of body) < 2 ^ 32"
    by (simp add: ok_app_run)
  from wsgi_response_read_back [OF b s(1-3) n] obtain c' t q payload where
    d: "wsgi_call_application (ext_running ok_app) bare_conn = Some c'"
      "delivers (ext_running ok_app) (\<lambda>s ct pt s'. ct = pt) bare_conn t c'" "reads_back t q payload"
    and "q = page_500 \<and> payload = ''Internal Server Error''
        \<and> (fst (wsgi_run (ext_running ok_app) bare_conn) = None \<or> too_long (ext_running ok_app) bare_conn)
      \<or> (\<exists>body c3 status hdrs. wsgi_run (ext_running ok_app) bare_conn = (Some body, c3) \<and> format_ok c3 status hdrs
          \<and> q = read_response status hdrs (keep_alive c3) (length (bytes_of body)) \<and> payload = bytes_of body)"
    by blast
  then have "q = hi_response \<and> payload = ''hi''"
    using f q k h by (auto simp: ok_app_run too_long_def numeral_2_eq_2)
  then show ?thesis using d s(4-6) by (auto simp: delivers_def)
qed

section \<open>Status codes that are no status codes\<close>

text \<open>
  \<open>asgi_send_response\<close> takes any C integer for the status. The text of a code that has not three digits is
  no response: the parser rejects it.
\<close>

lemma asgi_status_unreadable:
  "phr_parse_response False 64 (asgi_status 7 @ CRLF @ CRLF) 0 = Inl Failed
   \<and> phr_parse_response False 64 (asgi_status (- 1) @ CRLF @ CRLF) 0 = Inl Failed
   \<and> phr_parse_response False 64 (asgi_status 1000 @ CRLF @ CRLF) 0 = Inl Failed"
  by code_simp

end
