(* ===== verification/AsgiLoop.thy ===== *)
theory AsgiLoop
  imports Prelude Complex_Main
begin

text \<open>
  Driving asyncio from libuv, \<^verbatim>\<open>freastal/src/asgi.c\<close>: the callbacks \<open>asgi_check_cb\<close>, \<open>asgi_timer_cb\<close> and
  \<open>asgi_poll_cb\<close>, the queue drain \<open>asgi_drain_ready\<close> and the arming of the wakeups \<open>asgi_arm_wakeups\<close>.

  \<^item> The record \<open>aloop\<close> holds what the driver reads of the asyncio loop (\<open>_ready\<close>, \<open>_scheduled\<close>, \<open>time()\<close>),
    the driver's own flags, and the state of the two libuv handles it starts and stops: \<open>uv_idle\<close> says
    that the idle handle is active, \<open>uv_timer\<close> the timeout in milliseconds the timer was started with.
  \<^item> \<open>_cancelled\<close> of a handle is \<open>None\<close> when reading it, or its truth value, raises; likewise a deadline and
    the clock.
  \<^item> Running a handle and \<open>loop._run_once()\<close> are code of asyncio and of the application: the parameters
    \<open>run\<close> and \<open>run_once\<close>. Times are exact numbers; the rounding of a \<open>double\<close> is not modelled.
\<close>

section \<open>Definitions\<close>

record handle =
  hid :: nat
  cancelled :: "bool option"

record aloop =
  ready :: "handle list"
  scheduled :: "rat option list"
  loop_time :: "rat option"
  asgi_idle_active :: bool
  asgi_timer_active :: bool
  asgi_poll_active :: bool
  uv_idle :: bool
  uv_timer :: "nat option"

text \<open>The length of a queue; a missing object or one without a length counts as empty.\<close>

fun asgi_pending :: "'a list option \<Rightarrow> nat" where
  "asgi_pending None = 0"
| "asgi_pending (Some xs) = length xs"

text \<open>The flag \<open>run\<close> returns is whether the call succeeded.\<close>

fun asgi_drain_ready :: "(handle \<Rightarrow> aloop \<Rightarrow> bool \<times> aloop) \<Rightarrow> nat \<Rightarrow> aloop \<Rightarrow> aloop" where
  "asgi_drain_ready run 0 s = s"
| "asgi_drain_ready run (Suc n) s =
     (case ready s of
        [] \<Rightarrow> s
      | h # hs \<Rightarrow>
          let s1 = s\<lparr>ready := hs\<rparr>
          in case cancelled h of
               None \<Rightarrow> s1
             | Some True \<Rightarrow> asgi_drain_ready run n s1
             | Some False \<Rightarrow> (case run h s1 of (ok, s2) \<Rightarrow> if ok then asgi_drain_ready run n s2 else s2))"

text \<open>The timeout for asyncio's earliest deadline, \<open>_scheduled[0]\<close>.\<close>

definition wake_ms :: "aloop \<Rightarrow> nat" where
  "wake_ms s =
     (case (hd (scheduled s), loop_time s) of
        (Some when, Some now) \<Rightarrow> if when - now > 0 then nat \<lfloor>(when - now) * 1000\<rfloor> + 1 else 0
      | _ \<Rightarrow> 0)"

definition asgi_arm_wakeups_n :: "nat \<Rightarrow> aloop \<Rightarrow> aloop" where
  "asgi_arm_wakeups_n nready s =
     (let has_ready = (nready > 0);
          s1 = (if has_ready \<noteq> asgi_idle_active s
                then s\<lparr>uv_idle := has_ready, asgi_idle_active := has_ready\<rparr> else s)
      in if asgi_pending (Some (scheduled s1)) = 0 then
           (if asgi_timer_active s1 then s1\<lparr>uv_timer := None, asgi_timer_active := False\<rparr> else s1)
         else s1\<lparr>uv_timer := Some (wake_ms s1), asgi_timer_active := True\<rparr>)"

definition asgi_arm_wakeups :: "aloop \<Rightarrow> aloop" where
  "asgi_arm_wakeups s = asgi_arm_wakeups_n (asgi_pending (Some (ready s))) s"

text \<open>The timer does not repeat: libuv has stopped it when the callback runs.\<close>

definition asgi_timer_cb :: "(aloop \<Rightarrow> aloop) \<Rightarrow> aloop \<Rightarrow> aloop" where
  "asgi_timer_cb run_once s = asgi_arm_wakeups (run_once (s\<lparr>uv_timer := None, asgi_timer_active := False\<rparr>))"

definition asgi_check_cb :: "(handle \<Rightarrow> aloop \<Rightarrow> bool \<times> aloop) \<Rightarrow> (aloop \<Rightarrow> aloop) \<Rightarrow> aloop \<Rightarrow> aloop" where
  "asgi_check_cb run run_once s =
     (let nready = asgi_pending (Some (ready s))
      in if nready > 0 then
           let s1 = (if asgi_poll_active s then asgi_drain_ready run nready s else run_once s)
           in asgi_arm_wakeups_n (asgi_pending (Some (ready s1))) s1
         else asgi_arm_wakeups_n nready s)"

definition asgi_poll_cb :: "(aloop \<Rightarrow> aloop) \<Rightarrow> int \<Rightarrow> aloop \<Rightarrow> aloop" where
  "asgi_poll_cb run_once status s = (if status < 0 then s else asgi_arm_wakeups (run_once s))"

section \<open>The driver's state\<close>

text \<open>The flags say what libuv does.\<close>

definition flags_ok :: "aloop \<Rightarrow> bool" where
  "flags_ok s \<longleftrightarrow> asgi_idle_active s = uv_idle s \<and> asgi_timer_active s = (uv_timer s \<noteq> None)"

text \<open>asyncio and the application do not touch the driver's fields.\<close>

definition same_driver :: "aloop \<Rightarrow> aloop \<Rightarrow> bool" where
  "same_driver s s' \<longleftrightarrow> asgi_idle_active s' = asgi_idle_active s \<and> asgi_timer_active s' = asgi_timer_active s
     \<and> asgi_poll_active s' = asgi_poll_active s \<and> uv_idle s' = uv_idle s \<and> uv_timer s' = uv_timer s"

lemma same_driver_refl [simp]: "same_driver s s"
  by (simp add: same_driver_def)

lemma same_driver_trans: "same_driver a b \<Longrightarrow> same_driver b c \<Longrightarrow> same_driver a c"
  by (simp add: same_driver_def)

lemma same_driver_flags: "same_driver s s' \<Longrightarrow> flags_ok s' = flags_ok s"
  by (simp add: same_driver_def flags_ok_def)

text \<open>
  libuv is lined up with asyncio: it polls without blocking exactly while callbacks are due, and
  otherwise wakes up no earlier than the first deadline and at most one millisecond after it.
\<close>

definition lined_up :: "aloop \<Rightarrow> bool" where
  "lined_up s \<longleftrightarrow> flags_ok s \<and> uv_idle s = (ready s \<noteq> []) \<and> (uv_timer s = None) = (scheduled s = [])
     \<and> (\<forall>when now ms. scheduled s \<noteq> [] \<longrightarrow> hd (scheduled s) = Some when \<longrightarrow> loop_time s = Some now \<longrightarrow>
          uv_timer s = Some ms \<longrightarrow>
          when \<le> now + of_nat ms / 1000 \<and> of_nat ms / 1000 \<le> (if now < when then when - now + 1 / 1000 else 0))"

lemma wake_ms_bounds:
  assumes "hd (scheduled s) = Some when" "loop_time s = Some now"
  shows "when \<le> now + of_nat (wake_ms s) / 1000"
    and "of_nat (wake_ms s) / 1000 \<le> (if now < when then when - now + 1 / 1000 else 0)"
proof -
  let ?d = "(when - now) * 1000"
  have f: "of_int \<lfloor>?d\<rfloor> \<le> ?d" "?d < of_int \<lfloor>?d\<rfloor> + 1" by linarith+
  have n: "of_nat (nat \<lfloor>?d\<rfloor>) = (of_int \<lfloor>?d\<rfloor> :: rat)" if "now < when"
    using that by (simp add: of_nat_nat)
  have w: "of_nat (wake_ms s) = (if now < when then of_int \<lfloor>?d\<rfloor> + 1 else (0 :: rat))"
    using assms n by (simp add: wake_ms_def)
  show "when \<le> now + of_nat (wake_ms s) / 1000" using f w by (cases "now < when") (auto simp: field_simps)
  show "of_nat (wake_ms s) / 1000 \<le> (if now < when then when - now + 1 / 1000 else 0)"
    using f w by (cases "now < when") (auto simp: field_simps)
qed

lemma arm_lined_up:
  assumes "flags_ok s"
  shows "lined_up (asgi_arm_wakeups_n (length (ready s)) s)"
proof -
  have w: "wake_ms (s\<lparr>uv_idle := a, asgi_idle_active := b\<rparr>) = wake_ms s" for a b by (simp add: wake_ms_def)
  show ?thesis using assms wake_ms_bounds [of s]
    by (auto simp: lined_up_def asgi_arm_wakeups_n_def flags_ok_def Let_def w split: if_splits)
qed

lemma drain_same_driver:
  assumes "\<forall>h s. same_driver s (snd (run h s))"
  shows "same_driver s (asgi_drain_ready run n s)"
proof (induction n arbitrary: s)
  case (Suc n)
  show ?case
  proof (cases "ready s")
    case (Cons h hs)
    let ?s1 = "s\<lparr>ready := hs\<rparr>"
    have s1: "same_driver s ?s1" by (simp add: same_driver_def)
    obtain ok s2 where r: "run h ?s1 = (ok, s2)" by (cases "run h ?s1")
    have s2: "same_driver s s2" using assms [rule_format, of ?s1 h] r s1 same_driver_trans by force
    show ?thesis using Cons s1 s2 r same_driver_trans [OF s1 Suc.IH] same_driver_trans [OF s2 Suc.IH]
      by (auto simp: Let_def split: option.split bool.split)
  qed simp
qed simp

text \<open>
  C23. No wakeup is lost. After every callback of the driver, libuv is lined up with asyncio's
  outstanding work: it does not block while a callback is ready, it stops spinning as soon as none is,
  its timer is armed exactly when something is scheduled, and fires at the earliest deadline or at most
  one millisecond later, never before it (a wakeup before the deadline would make \<open>_run_once\<close>
  block in \<open>select\<close>). Whatever the application does in between can add work but not disarm it.
\<close>

theorem asgi_no_lost_wakeup:
  assumes "flags_ok s" "\<forall>h s. same_driver s (snd (run h s))" "\<forall>s. same_driver s (run_once s)" "0 \<le> status"
  shows "lined_up (asgi_check_cb run run_once s) \<and> lined_up (asgi_timer_cb run_once s)
    \<and> lined_up (asgi_poll_cb run_once status s) \<and> lined_up (asgi_arm_wakeups s)"
proof (intro conjI)
  have o: "flags_ok (run_once t)" if "flags_ok t" for t using same_driver_flags assms(3) that by blast
  have d: "flags_ok (asgi_drain_ready run n s)" for n
    using same_driver_flags [OF drain_same_driver [OF assms(2)]] assms(1) by blast
  show "lined_up (asgi_check_cb run run_once s)"
    using arm_lined_up [OF d] arm_lined_up [OF o [OF assms(1)]] arm_lined_up [OF assms(1)]
    by (auto simp: asgi_check_cb_def Let_def)
  have "flags_ok (s\<lparr>uv_timer := None, asgi_timer_active := False\<rparr>)" using assms(1) by (simp add: flags_ok_def)
  from arm_lined_up [OF o [OF this]] show "lined_up (asgi_timer_cb run_once s)"
    by (simp add: asgi_timer_cb_def asgi_arm_wakeups_def)
  show "lined_up (asgi_poll_cb run_once status s)" "lined_up (asgi_arm_wakeups s)"
    using arm_lined_up [OF o [OF assms(1)]] arm_lined_up [OF assms(1)] assms(4)
    by (simp_all add: asgi_poll_cb_def asgi_arm_wakeups_def)
qed

text \<open>A loop with one callback ready and one scheduled, whose callbacks do nothing.\<close>

definition sample_aloop :: aloop where
  "sample_aloop = \<lparr>ready = [\<lparr>hid = 0, cancelled = Some False\<rparr>, \<lparr>hid = 1, cancelled = Some True\<rparr>],
     scheduled = [Some 3], loop_time = Some 1, asgi_idle_active = True, asgi_timer_active = False,
     asgi_poll_active = True, uv_idle = True, uv_timer = None\<rparr>"

theorem asgi_no_lost_wakeup_witness:
  "lined_up (asgi_check_cb (\<lambda>h s. (True, s)) (\<lambda>s. s) sample_aloop)
    \<and> asgi_check_cb (\<lambda>h s. (True, s)) (\<lambda>s. s) sample_aloop
      = sample_aloop\<lparr>ready := [], asgi_idle_active := False, uv_idle := False, asgi_timer_active := True, uv_timer := Some 2001\<rparr>"
proof -
  have "flags_ok sample_aloop" by (simp add: flags_ok_def sample_aloop_def)
  from asgi_no_lost_wakeup [OF this, of "\<lambda>h s. (True, s)" "\<lambda>s. s" 0] show ?thesis
    by (simp add: asgi_check_cb_def asgi_arm_wakeups_n_def wake_ms_def sample_aloop_def Let_def)
qed

section \<open>A turn of the queue\<close>

text \<open>
  What running a handle may do to the queue: put new callbacks (\<open>P\<close>) behind it and cancel callbacks that
  are in it, but not remove or reorder them.
\<close>

definition behind :: "(nat \<Rightarrow> bool) \<Rightarrow> nat list \<Rightarrow> nat list \<Rightarrow> bool" where
  "behind P old ids \<longleftrightarrow> (\<exists>new. ids = old @ new \<and> (\<forall>i \<in> set new. P i))"

definition appends :: "(nat \<Rightarrow> bool) \<Rightarrow> (handle \<Rightarrow> aloop \<Rightarrow> bool \<times> aloop) \<Rightarrow> bool" where
  "appends P run \<longleftrightarrow> (\<forall>h s. behind P (map hid (ready s)) (map hid (ready (snd (run h s)))))"

text \<open>Neither the callbacks nor the reading of their flags raises.\<close>

definition readable :: "aloop \<Rightarrow> bool" where
  "readable s \<longleftrightarrow> list_all (\<lambda>g. cancelled g \<noteq> None) (ready s)"

definition well_behaved :: "(handle \<Rightarrow> aloop \<Rightarrow> bool \<times> aloop) \<Rightarrow> bool" where
  "well_behaved run \<longleftrightarrow> (\<forall>h s. fst (run h s) \<and> (readable s \<longrightarrow> readable (snd (run h s))))"

lemma behind_refl [simp]: "behind P xs xs"
  by (simp add: behind_def)

lemma behind_drop:
  assumes "behind P (drop k ids) out" "behind P old ids" "k \<le> length old"
  shows "behind P (drop k old) out"
proof -
  obtain new1 where "ids = old @ new1" "\<forall>i \<in> set new1. P i" using assms(2) unfolding behind_def by blast
  moreover obtain new2 where "out = drop k ids @ new2" "\<forall>i \<in> set new2. P i" using assms(1) unfolding behind_def by blast
  ultimately show ?thesis using assms(3) unfolding behind_def by (intro exI [of _ "new1 @ new2"]) auto
qed

lemma behind_length: "behind P old ids \<Longrightarrow> length old \<le> length ids"
  by (auto simp: behind_def)

lemma drain_turn:
  assumes "appends P run" "n \<le> length (ready s)"
  shows "\<exists>k \<le> n. (0 < n \<longrightarrow> 0 < k) \<and> (well_behaved run \<longrightarrow> readable s \<longrightarrow> k = n)
    \<and> behind P (drop k (map hid (ready s))) (map hid (ready (asgi_drain_ready run n s)))"
  using assms(2)
proof (induction n arbitrary: s)
  case (Suc n)
  obtain h hs where r: "ready s = h # hs" using Suc.prems by (cases "ready s") auto
  let ?s1 = "s\<lparr>ready := hs\<rparr>"
  have n: "n \<le> length hs" using Suc.prems r by simp
  let ?post = "\<lambda>t c. \<exists>k \<le> Suc n. (0 < Suc n \<longrightarrow> 0 < k) \<and> (c \<longrightarrow> k = Suc n)
    \<and> behind P (drop k (map hid (ready s))) (map hid (ready t))"
  have step: "?post (asgi_drain_ready run n t) (well_behaved run \<and> readable t)"
    if t: "behind P (map hid hs) (map hid (ready t))" for t
  proof -
    have "n \<le> length (ready t)" using behind_length [OF t] n by simp
    from Suc.IH [OF this] obtain k where k: "k \<le> n" "well_behaved run \<longrightarrow> readable t \<longrightarrow> k = n"
      "behind P (drop k (map hid (ready t))) (map hid (ready (asgi_drain_ready run n t)))" by blast
    have "k \<le> length (map hid hs)" using k(1) n by simp
    from behind_drop [OF k(3) t this] show ?thesis
      using k(1,2) r by (intro exI [of _ "Suc k"]) auto
  qed
  have stop: "?post t False" if "behind P (map hid hs) (map hid (ready t))" for t
    using that r by (intro exI [of _ 1]) simp
  obtain ok s2 where s2: "run h ?s1 = (ok, s2)" by (cases "run h ?s1")
  have b2: "behind P (map hid hs) (map hid (ready s2))"
    using assms(1) [unfolded appends_def, rule_format, of ?s1 h] s2 by simp
  have b1: "behind P (map hid hs) (map hid (ready ?s1))" by simp
  have wb: "ok" "readable ?s1 \<Longrightarrow> readable s2" if "well_behaved run"
    using that s2 unfolding well_behaved_def by (metis fst_conv, metis snd_conv)
  have rd: "readable s \<longleftrightarrow> cancelled h \<noteq> None \<and> readable ?s1" using r by (simp add: readable_def)
  show ?case
  proof (cases "cancelled h")
    case None
    then show ?thesis using stop [OF b1] r rd by simp
  next
    case (Some cn)
    then show ?thesis
      using step [OF b1] step [OF b2] stop [OF b2] r rd s2 wb by (cases cn; cases ok) auto
  qed
qed auto

text \<open>
  A turn of the queue is bounded and makes progress. Draining the callbacks counted at its start
  takes at least one and at most that many off the front, in order, and leaves the ones scheduled
  during the turn for the next: a callback that keeps scheduling itself cannot keep libuv from its
  sockets. When no callback lets an exception escape, the turn takes exactly the callbacks that were
  there, so that only new ones remain.
\<close>

theorem asgi_drain_turn:
  assumes "appends P run" "0 < length (ready s)"
  shows "\<exists>k \<le> length (ready s). 0 < k
    \<and> behind P (drop k (map hid (ready s))) (map hid (ready (asgi_drain_ready run (length (ready s)) s)))
    \<and> (well_behaved run \<and> readable s \<longrightarrow>
        (\<forall>h \<in> set (ready (asgi_drain_ready run (length (ready s)) s)). P (hid h)))"
proof -
  obtain k where k: "k \<le> length (ready s)" "0 < k" "well_behaved run \<longrightarrow> readable s \<longrightarrow> k = length (ready s)"
    "behind P (drop k (map hid (ready s))) (map hid (ready (asgi_drain_ready run (length (ready s)) s)))"
    using drain_turn [OF assms(1) order_refl] assms(2) by blast
  moreover have "\<forall>h \<in> set (ready (asgi_drain_ready run (length (ready s)) s)). P (hid h)"
    if "well_behaved run \<and> readable s"
    using k(3,4) that by (auto simp: behind_def)
  ultimately show ?thesis by blast
qed

text \<open>A callback that schedules a new one.\<close>

definition respawn :: "handle \<Rightarrow> aloop \<Rightarrow> bool \<times> aloop" where
  "respawn h s = (True, s\<lparr>ready := ready s @ [\<lparr>hid = 7, cancelled = Some False\<rparr>]\<rparr>)"

theorem asgi_drain_turn_witness:
  "hid ` set (ready (asgi_drain_ready respawn (length (ready sample_aloop)) sample_aloop)) \<subseteq> {7}"
proof -
  have "appends (\<lambda>i. i = 7) respawn" "well_behaved respawn" "readable sample_aloop" "0 < length (ready sample_aloop)"
    by (simp_all add: appends_def behind_def well_behaved_def readable_def respawn_def sample_aloop_def ex_bool_eq)
  with asgi_drain_turn [of "\<lambda>i. i = 7" respawn sample_aloop] show ?thesis by blast
qed

end
