(* ===== verification/Conn.thy ===== *)
theory Conn
  imports Asgi Prefix
begin

text \<open>
  The life of a connection, \<^verbatim>\<open>freastal/src/server.c\<close>: the read buffer and its overflow block, the request
  dispatcher \<open>http_dispatch\<close>, and the libuv callbacks \<open>alloc_cb\<close>, \<open>on_read\<close>, \<open>on_write\<close>, \<open>on_close\<close> with their
  encrypted counterparts.

  \<^item> A read is the list of bytes the kernel put at the place \<open>alloc_cb\<close> offered. What libuv reports with a
    negative count is \<open>on_read_error\<close>.
  \<^item> Handlers that dispatch return an option: \<open>None\<close> is undefined behaviour in the WSGI formatter (theory
    \<open>Wsgi\<close>).
  \<^item> A parse that does not end in a request leaves the request fields of \<open>client_t\<close> partly filled; they are
    not read before the next parse sets them, and the model drops them (\<open>req = None\<close>).
  \<^item> The block \<open>tls_spill\<close> is an array of \<open>TLS_SPILL_SIZE\<close> bytes of which \<open>tls_spill_len\<close> are in use.
  \<^item> \<open>ptls_receive\<close> writes behind \<open>read_len\<close>; bytes it leaves there as scratch without counting them are
    not modelled, since nothing reads past \<open>read_len\<close>.
\<close>

section \<open>Definitions\<close>

subsection \<open>The read buffer\<close>

definition client_buffered :: "'p conn \<Rightarrow> int" where
  "client_buffered c = read_len c - read_off c"

definition client_compact :: "'p conn \<Rightarrow> 'p conn" where
  "client_compact c =
     (if read_off c = 0 then c
      else let buffered = client_buffered c;
               buf = (if buffered > 0
                      then blit (read_buf c) 0 (take (nat buffered) (drop (nat (read_off c)) (read_buf c)))
                      else read_buf c)
           in c\<lparr>read_buf := buf, read_off := 0, read_len := buffered\<rparr>)"

definition client_reset :: "'p conn \<Rightarrow> 'p conn" where
  "client_reset c =
     (let consumed = headers_end c + c_int (int (content_length c));
          buffered = client_buffered c;
          c1 = (if consumed > 0 \<and> consumed < buffered then c\<lparr>read_off := read_off c + consumed\<rparr>
                else c\<lparr>read_off := 0, read_len := 0\<rparr>)
      in c1\<lparr>last_len := 0, req := None, headers_end := 0, content_length := 0, resp_hdr_len := 0\<rparr>)"

definition client_clear_conn_cache :: "'p conn \<Rightarrow> 'p conn" where
  "client_clear_conn_cache c = c\<lparr>peer_addr_obj := None, asgi_client_obj := None, asgi_capsule := False\<rparr>"

text \<open>The room offered to libuv.\<close>

definition alloc_cb :: "'p conn \<Rightarrow> nat \<times> 'p conn" where
  "alloc_cb c =
     (if tls c \<noteq> None then (TLS_ENC_BUF_SIZE, c)
      else let c1 = (if \<not> in_flight c \<and> read_off c > 0 then client_compact c else c);
               remaining = int READ_BUF_SIZE - read_len c1
           in if remaining \<le> 0 then (0, c1) else (nat remaining, c1))"

subsection \<open>Dispatch\<close>

text \<open>The header loop: \<open>Content-Length\<close> (the last one counts) and \<open>Connection\<close>.\<close>

definition scan_header :: "phr_header \<Rightarrow> nat \<times> bool \<Rightarrow> nat \<times> bool" where
  "scan_header h = (\<lambda>(cl, ka).
     let n = name_bytes h; v = hvalue h
     in if is_name ''content-length'' n then (strtoul (take 31 v), ka)
        else if is_name ''connection'' n then
          (if length v \<ge> 5 \<and> strncasecmp_eq v ''close'' 5 then (cl, False)
           else if length v \<ge> 10 \<and> strncasecmp_eq v ''keep-alive'' 10 then (cl, True)
           else (cl, ka))
        else (cl, ka))"

definition bad_req :: bytes where
  "bad_req = ''HTTP/1.1 400 Bad Request'' @ CRLF @ ''Content-Length: 0'' @ CRLF @ ''Connection: close'' @ CRLF @ CRLF"

definition request_bytes :: "'p conn \<Rightarrow> bytes" where
  "request_bytes c = take (nat (client_buffered c)) (drop (nat (read_off c)) (read_buf c))"

definition http_dispatch :: "'p ext \<Rightarrow> 'p conn \<Rightarrow> (int \<times> 'p conn) option" where
  "http_dispatch X c =
     (case phr_parse_request (sse_build X) MAX_HEADERS (request_bytes c) (nat (last_len c)) of
        Inl Partial \<Rightarrow> Some (0, c\<lparr>req := None, last_len := client_buffered c\<rparr>)
      | Inl Failed \<Rightarrow>
          let c1 = c\<lparr>req := None\<rparr>
          in Some (-1,
               if tls c1 \<noteq> None then
                 (if \<not> tls_hs_done c1 then uv_close c1
                  else case tls_send_final X bad_req c1 of
                      (True, c2) \<Rightarrow> c2 | (False, c2) \<Rightarrow> uv_close c2)
               else uv_close (snd (uv_write X bad_req NoCb c1)))
      | Inr (r, pret) \<Rightarrow>
          let (cl, ka) = fold scan_header (headers r) (0, minor_version r = 1);
              c1 = c\<lparr>req := Some r, headers_end := int pret, content_length := cl, keep_alive := ka\<rparr>
          in if nat (client_buffered c1 - int pret) < cl then Some (0, c1)
             else let c2 = c1\<lparr>in_flight := True\<rparr>
                  in if asgi_mode (srv c2) then Some (1, asgi_dispatch X c2)
                     else map_option (\<lambda>c3. (1, c3)) (wsgi_call_application X c2))"

subsection \<open>Plaintext reads\<close>

definition on_read_error :: "'p conn \<Rightarrow> 'p conn" where
  "on_read_error c =
     (if in_flight c then uv_read_stop (c\<lparr>keep_alive := False, read_armed := False\<rparr>)
      else uv_close (client_clear_conn_cache (c\<lparr>resp_status := None, resp_pyheaders := None, resp_body := None\<rparr>)))"

definition read_tail :: "'p conn \<Rightarrow> 'p conn" where
  "read_tail c =
     (if read_len c \<ge> int READ_BUF_SIZE \<and> in_flight c then (uv_read_stop c)\<lparr>read_armed := False\<rparr> else c)"

definition on_read_plain :: "'p ext \<Rightarrow> bytes \<Rightarrow> 'p conn \<Rightarrow> 'p conn option" where
  "on_read_plain X data c =
     (let c1 = c\<lparr>read_buf := blit (read_buf c) (nat (read_len c)) data, read_len := read_len c + c_int (int (length data))\<rparr>
      in if in_flight c1 then Some (read_tail c1)
         else case http_dispatch X c1 of
             None \<Rightarrow> None
           | Some (r, c2) \<Rightarrow> if r < 0 then Some c2 else Some (read_tail c2))"

subsection \<open>Encrypted reads\<close>

definition tls_hs_send :: "'p ext \<Rightarrow> bytes \<Rightarrow> 'p conn \<Rightarrow> 'p conn" where
  "tls_hs_send X out c =
     (if out = [] then c
      else case malloc X (srv c) of
          (None, s) \<Rightarrow> c\<lparr>srv := s\<rparr>
        | (Some hw, s) \<Rightarrow>
            snd (uv_write X (uv_buf out) OnTlsHs (c\<lparr>srv := s, tls_hs_bufs := tls_hs_bufs c @ [hw]\<rparr>)))"

text \<open>The completion of the handshake write whose block is \<open>hw\<close>.\<close>

definition on_tls_hs_write :: "nat \<Rightarrow> int \<Rightarrow> 'p conn \<Rightarrow> 'p conn" where
  "on_tls_hs_write hw status c =
     (let c1 = c\<lparr>srv := free hw (srv c), tls_hs_bufs := remove1 hw (tls_hs_bufs c)\<rparr>
      in if status < 0 then uv_close c1 else c1)"

definition tls_spill_stash :: "'p ext \<Rightarrow> bytes \<Rightarrow> 'p conn \<Rightarrow> bool \<times> 'p conn" where
  "tls_spill_stash X src c =
     (if nat (tls_spill_len c) + length src > TLS_SPILL_SIZE then (False, c)
      else
        let (got, c1) =
          (case tls_spill c of
             Some _ \<Rightarrow> (True, c)
           | None \<Rightarrow>
               (case tls_spill_get X (srv c) of
                  (None, s) \<Rightarrow> (False, c\<lparr>srv := s\<rparr>)
                | (Some b, s) \<Rightarrow> (True, c\<lparr>srv := s, tls_spill := Some (b, replicate TLS_SPILL_SIZE NUL)\<rparr>)))
        in if \<not> got then (False, c1)
           else let (b, arr) = the (tls_spill c1)
                in (True, c1\<lparr>tls_spill := Some (b, blit arr (nat (tls_spill_len c1)) src),
                             tls_spill_len := tls_spill_len c1 + c_int (int (length src))\<rparr>))"

text \<open>The move of \<open>taken\<close> bytes of the overflow into the buffer.\<close>

definition spill_take :: "nat \<Rightarrow> 'p conn \<Rightarrow> 'p conn" where
  "spill_take taken c =
     (let (b, arr) = the (tls_spill c);
          c1 = c\<lparr>read_buf := blit (read_buf c) (nat (read_len c)) (take taken arr),
                 read_len := read_len c + int taken, tls_spill_len := tls_spill_len c - int taken\<rparr>
      in if tls_spill_len c1 > 0
         then c1\<lparr>tls_spill := Some (b, blit arr 0 (take (nat (tls_spill_len c1)) (drop taken arr)))\<rparr>
         else tls_release_spill c1)"

definition tls_spill_drain :: "'p conn \<Rightarrow> 'p conn" where
  "tls_spill_drain c0 =
     (if tls_spill_len c0 = 0 then c0
      else
        let c = (if read_off c0 > 0 then client_compact c0 else c0);
            room = nat (int READ_BUF_SIZE - read_len c)
        in if room = 0 then c
           else spill_take (if nat (tls_spill_len c) < room then nat (tls_spill_len c) else room) c)"

definition tls_read_failed :: "'p conn \<Rightarrow> 'p conn" where
  "tls_read_failed c0 =
     (let c = c0\<lparr>tls_broken := True\<rparr>
      in if in_flight c then
           (let c1 = c\<lparr>keep_alive := False\<rparr>
            in if read_armed c1 then (uv_read_stop c1)\<lparr>read_armed := False\<rparr> else c1)
         else uv_close c)"

definition tls_read_flow :: "'p conn \<Rightarrow> 'p conn" where
  "tls_read_flow c0 =
     (if uv_is_closing c0 then c0
      else
        let c = (if \<not> in_flight c0 \<and> read_off c0 > 0 then client_compact c0 else c0)
        in if read_len c \<ge> int READ_BUF_SIZE \<and> \<not> in_flight c then
             uv_close (if read_armed c then (uv_read_stop c)\<lparr>read_armed := False\<rparr> else c)
           else
             let want = (read_len c < int READ_BUF_SIZE \<and> tls_spill_len c = 0)
             in if want = read_armed c then c
                else if want then uv_read_start (c\<lparr>read_armed := True\<rparr>)
                else (uv_read_stop c)\<lparr>read_armed := False\<rparr>)"

text \<open>The \<open>ptls_receive\<close> loop: \<open>False\<close> when a call failed. It ends because every round consumes input.\<close>

function receive_loop :: "'p ext \<Rightarrow> 'p \<Rightarrow> ptls_buffer \<Rightarrow> bytes \<Rightarrow> bool \<times> 'p \<times> ptls_buffer" where
  "receive_loop X s plain data =
     (if data = [] then (True, s, plain)
      else case ptls_receive X s plain data of
          (ret, inlen, s', plain') \<Rightarrow>
            if ret \<noteq> 0 then (False, s', plain')
            else if inlen = 0 then (True, s', plain')
            else receive_loop X s' plain' (drop inlen data))"
  by pat_completeness auto
termination
  by (relation "measure (\<lambda>(X, s, plain, data). length data)") auto

declare receive_loop.simps [simp del]

definition read_plain_buf :: "'p conn \<Rightarrow> ptls_buffer" where
  "read_plain_buf c =
     \<lparr>pb_base = Embedded, pb_data = [], pb_capacity = nat (int READ_BUF_ALLOC - read_len c), pb_allocated = False\<rparr>"

definition tls_on_read_app :: "'p ext \<Rightarrow> bytes \<Rightarrow> 'p conn \<Rightarrow> 'p conn option" where
  "tls_on_read_app X data c0 =
     (let c = (if \<not> in_flight c0 \<and> read_off c0 > 0 then client_compact c0 else c0);
          room = nat (int READ_BUF_SIZE - read_len c)
      in case receive_loop X (the (tls c)) (read_plain_buf c) data of
           (False, s', plain) \<Rightarrow> Some (tls_read_failed (c\<lparr>tls := Some s'\<rparr>))
         | (True, s', plain) \<Rightarrow>
             let c1 = c\<lparr>tls := Some s'\<rparr>;
                 produced = length (pb_data plain)
             in if \<not> pb_allocated plain \<and> produced > room then Some (tls_read_failed c1)
                else
                  let (stashed, c2) =
                    (if \<not> pb_allocated plain then
                       (True, c1\<lparr>read_buf := blit (read_buf c1) (nat (read_len c1)) (pb_data plain),
                                 read_len := read_len c1 + int produced\<rparr>)
                     else
                       let taken = (if produced < room then produced else room);
                           s1 = (srv c1)\<lparr>tls_read_grows := tls_read_grows (srv c1) + 1\<rparr>;
                           c3 = c1\<lparr>srv := s1,
                                   read_buf := blit (read_buf c1) (nat (read_len c1)) (take taken (pb_data plain)),
                                   read_len := read_len c1 + int taken\<rparr>
                       in if taken < produced then
                            tls_spill_stash X (drop taken (pb_data plain))
                              (c3\<lparr>srv := s1\<lparr>tls_read_spills := tls_read_spills s1 + 1\<rparr>\<rparr>)
                          else (True, c3))
                  in if produced = 0 then Some c2
                     else if \<not> stashed then Some (tls_read_failed c2)
                     else if in_flight c2 then Some (tls_read_flow c2)
                     else case http_dispatch X c2 of
                         None \<Rightarrow> None
                       | Some (r, c4) \<Rightarrow> if r < 0 then Some c4 else Some (tls_read_flow c4))"

definition PTLS_ERROR_IN_PROGRESS :: int where "PTLS_ERROR_IN_PROGRESS = 0x202"

definition tls_on_read_data :: "'p ext \<Rightarrow> bytes \<Rightarrow> 'p conn \<Rightarrow> 'p conn option" where
  "tls_on_read_data X data c =
     (if \<not> tls_hs_done c then
        (case ptls_handshake X (the (tls c)) data of
           (ret, inlen, s', out) \<Rightarrow>
             let c1 = tls_hs_send X out (c\<lparr>tls := Some s'\<rparr>)
             in if ret = 0 then
                  let c2 = c1\<lparr>tls_hs_done := True\<rparr>
                  in if inlen < length data then tls_on_read_app X (drop inlen data) c2 else Some c2
                else if ret \<noteq> PTLS_ERROR_IN_PROGRESS then Some (tls_read_failed c1)
                else Some c1)
      else tls_on_read_app X data c)"

text \<open>\<open>on_read\<close> with a positive count.\<close>

definition on_read :: "'p ext \<Rightarrow> bytes \<Rightarrow> 'p conn \<Rightarrow> 'p conn option" where
  "on_read X data c =
     (if data = [] then Some c
      else if tls c \<noteq> None then tls_on_read_data X data c
      else on_read_plain X data c)"

subsection \<open>Completions\<close>

definition on_write :: "'p ext \<Rightarrow> int \<Rightarrow> 'p conn \<Rightarrow> 'p conn option" where
  "on_write X status c0 =
     (let c1 = (if tls c0 \<noteq> None then tls_release_wbuf c0 else c0);
          c2 = c1\<lparr>resp_status := None, resp_pyheaders := None, resp_body := None, asgi_task := None\<rparr>
      in if status < 0 \<or> \<not> keep_alive c2 then
           let c3 = client_clear_conn_cache c2
           in if tls c3 \<noteq> None \<and> status \<ge> 0 \<and> \<not> tls_broken c3 \<and> tls_hs_done c3 then
                (case tls_send_final X [] c3 of
                   (True, c4) \<Rightarrow> Some c4 | (False, c4) \<Rightarrow> Some (uv_close c4))
              else Some (uv_close c3)
         else
           let c3 = (client_reset c2)\<lparr>in_flight := False\<rparr>;
               c4 = (if tls c3 \<noteq> None then tls_spill_drain c3 else c3)
           in case (if client_buffered c4 > 0 then http_dispatch X c4 else Some (0, c4)) of
                None \<Rightarrow> None
              | Some (r, c5) \<Rightarrow>
                  if r < 0 then Some c5
                  else if tls c5 \<noteq> None then Some (tls_read_flow c5)
                  else if \<not> read_armed c5 \<and> \<not> in_flight c5
                    then Some (uv_read_start (c5\<lparr>read_armed := True\<rparr>))
                  else Some c5)"

text \<open>\<open>on_close\<close>, up to handing the structure back to its pool (theory \<open>ClientPool\<close>).\<close>

definition on_close :: "'p conn \<Rightarrow> 'p conn" where
  "on_close c =
     tls_conn_free (if peer_addr_obj c \<noteq> None \<or> asgi_client_obj c \<noteq> None \<or> asgi_capsule c
                    then client_clear_conn_cache c else c)"

text \<open>The prefix of \<open>client_t\<close> that \<open>client_alloc\<close> clears; the arrays behind it keep what they held.\<close>

definition client_zero :: "'p conn \<Rightarrow> 'p conn" where
  "client_zero c =
     c\<lparr>read_off := 0, read_len := 0, last_len := 0, req := None, headers_end := 0, content_length := 0,
       resp_status := None, resp_pyheaders := None, resp_body := None, resp_hdr_len := 0, peer_addr := [],
       peer_port := 0, keep_alive := False, in_flight := False, read_armed := False, peer_addr_obj := None,
       asgi_task := None, asgi_client_obj := None, asgi_capsule := False, tls := None, tls_enc := None,
       tls_hs_done := False, tls_wblock := [], tls_wbig := None, tls_broken := False, tls_spill := None,
       tls_spill_len := 0, tls_hs_bufs := [], uv := []\<rparr>"

text \<open>
  \<open>on_new_connection\<close> after \<open>client_alloc\<close> and \<open>uv_accept\<close> succeeded (\<open>accepted\<close>) or the latter failed;
  \<open>peer\<close> is what \<open>uv_tcp_getpeername\<close> reported.
\<close>

definition on_new_connection :: "'p ext \<Rightarrow> bool \<Rightarrow> bool \<Rightarrow> (bytes \<times> nat) option \<Rightarrow> 'p conn \<Rightarrow> 'p conn" where
  "on_new_connection X tls_enabled accepted peer slot =
     (let c = client_zero slot
      in if \<not> accepted then uv_close c
         else
           let c1 = (if tls_enabled then tls_conn_init X c else c);
               c2 = (case peer of
                       Some (addr, port) \<Rightarrow> c1\<lparr>peer_addr := addr, peer_port := port\<rparr>
                     | None \<Rightarrow> c1\<lparr>peer_addr := [], peer_port := 0\<rparr>)
           in uv_read_start (c2\<lparr>read_armed := True\<rparr>))"

section \<open>The read buffer as a queue of bytes\<close>

definition buf_ok :: "'p conn \<Rightarrow> bool" where
  "buf_ok c \<longleftrightarrow> 0 \<le> read_off c \<and> read_off c \<le> read_len c \<and> read_len c \<le> int READ_BUF_SIZE
     \<and> length (read_buf c) = READ_BUF_ALLOC"

definition spill_ok :: "'p conn \<Rightarrow> bool" where
  "spill_ok c \<longleftrightarrow> 0 \<le> tls_spill_len c \<and> tls_spill_len c \<le> int TLS_SPILL_SIZE
     \<and> (case tls_spill c of None \<Rightarrow> tls_spill_len c = 0 | Some (b, arr) \<Rightarrow> length arr = TLS_SPILL_SIZE)"

definition spilled :: "'p conn \<Rightarrow> bytes" where
  "spilled c = (case tls_spill c of None \<Rightarrow> [] | Some (b, arr) \<Rightarrow> take (nat (tls_spill_len c)) arr)"

text \<open>Every byte received and not yet consumed, in order.\<close>

definition stream :: "'p conn \<Rightarrow> bytes" where
  "stream c = request_bytes c @ spilled c"

lemma request_bytes_sub: "buf_ok c \<Longrightarrow> request_bytes c = subbuf (nat (read_off c)) (nat (read_len c)) (read_buf c)"
  by (simp add: buf_ok_def request_bytes_def client_buffered_def subbuf_def drop_take nat_diff_distrib)

lemma length_request_bytes: "buf_ok c \<Longrightarrow> length (request_bytes c) = nat (client_buffered c)"
  by (auto simp: buf_ok_def request_bytes_def client_buffered_def sizes nat_diff_distrib min_def)

lemma compact_off [simp]: "read_off (client_compact c) = 0"
  by (simp add: client_compact_def Let_def)

lemma compact_frame:
  "client_compact c = c\<lparr>read_buf := read_buf (client_compact c), read_off := read_off (client_compact c),
     read_len := read_len (client_compact c)\<rparr>"
  by (simp add: client_compact_def Let_def)

lemma compact_fields [simp]:
  "tls_spill (client_compact c) = tls_spill c" "tls_spill_len (client_compact c) = tls_spill_len c"
  "in_flight (client_compact c) = in_flight c" "tls (client_compact c) = tls c" "uv (client_compact c) = uv c"
  "srv (client_compact c) = srv c" "read_armed (client_compact c) = read_armed c"
  "keep_alive (client_compact c) = keep_alive c" "last_len (client_compact c) = last_len c"
  "resp_hdr (client_compact c) = resp_hdr c" "resp_hdr_len (client_compact c) = resp_hdr_len c"
  "headers_end (client_compact c) = headers_end c" "content_length (client_compact c) = content_length c"
  "resp_status (client_compact c) = resp_status c" "req (client_compact c) = req c"
  "asgi_task (client_compact c) = asgi_task c"
  by (simp_all add: client_compact_def Let_def)

lemma compact_len: "read_len (client_compact c) = client_buffered c"
  by (simp add: client_compact_def client_buffered_def Let_def)

lemma compact_buf_ok: "buf_ok c \<Longrightarrow> buf_ok (client_compact c)"
proof -
  assume b: "buf_ok c"
  have "length (blit (read_buf c) 0 (request_bytes c)) = length (read_buf c)"
    using length_request_bytes [OF b] b by (intro length_blit) (auto simp: buf_ok_def client_buffered_def sizes)
  then show ?thesis using b
    by (auto simp: buf_ok_def client_compact_def client_buffered_def request_bytes_def Let_def)
qed

lemma compact_request: "buf_ok c \<Longrightarrow> request_bytes (client_compact c) = request_bytes c"
proof -
  assume b: "buf_ok c"
  show ?thesis
  proof (cases "read_off c = 0")
    case True
    then show ?thesis by (simp add: client_compact_def)
  next
    case False
    let ?r = "take (nat (client_buffered c)) (drop (nat (read_off c)) (read_buf c))"
    have l: "length ?r = nat (client_buffered c)" using length_request_bytes [OF b] by (simp add: request_bytes_def)
    show ?thesis
    proof (cases "client_buffered c > 0")
      case True
      have t: "take n (blit buf 0 r) = r" if "length r = n" for n and buf r :: bytes using that by (simp add: blit_def)
      have "request_bytes (client_compact c) = take (nat (client_buffered c)) (blit (read_buf c) 0 ?r)"
        using False True by (simp add: client_compact_def request_bytes_def client_buffered_def Let_def)
      also have "\<dots> = ?r" by (rule t [OF l])
      finally show ?thesis by (simp add: request_bytes_def)
    next
      case nb: False
      then show ?thesis using False by (simp add: client_compact_def request_bytes_def client_buffered_def Let_def)
    qed
  qed
qed

lemma compact_spilled [simp]: "spilled (client_compact c) = spilled c" "spill_ok (client_compact c) = spill_ok c"
  by (simp_all add: spilled_def spill_ok_def split: option.split)

text \<open>Bytes put behind the ones that are there.\<close>

definition put_read :: "bytes \<Rightarrow> 'p conn \<Rightarrow> 'p conn" where
  "put_read data c = c\<lparr>read_buf := blit (read_buf c) (nat (read_len c)) data, read_len := read_len c + int (length data)\<rparr>"

lemma put_read_ok:
  assumes "buf_ok c" "int (length data) \<le> int READ_BUF_SIZE - read_len c"
  shows "buf_ok (put_read data c)" "request_bytes (put_read data c) = request_bytes c @ data"
proof -
  have l: "nat (read_len c) + length data \<le> length (read_buf c)" "nat (read_off c) \<le> nat (read_len c)"
    using assms by (auto simp: buf_ok_def sizes)
  show ok: "buf_ok (put_read data c)" using assms l by (auto simp: buf_ok_def put_read_def)
  have "nat (read_len c + int (length data)) = nat (read_len c) + length data" using assms(1) by (simp add: buf_ok_def nat_add_distrib)
  then show "request_bytes (put_read data c) = request_bytes c @ data"
    using request_bytes_sub [OF ok] request_bytes_sub [OF assms(1)] subbuf_blit_end [of "nat (read_off c)" "nat (read_len c)" data "read_buf c"] l
    by (simp add: put_read_def)
qed

lemma put_read_spilled [simp]: "spilled (put_read data c) = spilled c" "spill_ok (put_read data c) = spill_ok c"
  by (simp_all add: put_read_def spilled_def spill_ok_def split: option.split)

lemma reset_request:
  assumes "buf_ok c" "0 < headers_end c" "headers_end c + int (content_length c) \<le> client_buffered c"
  shows "request_bytes (client_reset c) = drop (nat (headers_end c) + content_length c) (request_bytes c)"
    and "buf_ok (client_reset c)"
proof -
  have b: "client_buffered c \<le> 16384" using assms(1) by (simp add: buf_ok_def client_buffered_def sizes)
  have i: "c_int (int (content_length c)) = int (content_length c)"
    using assms(2,3) b by (intro c_int_id) simp_all
  let ?n = "headers_end c + int (content_length c)"
  have n: "nat ?n = nat (headers_end c) + content_length c" using assms(2) by (simp add: nat_add_distrib)
  show "buf_ok (client_reset c)" using assms i by (auto simp: buf_ok_def client_reset_def client_buffered_def Let_def)
  show "request_bytes (client_reset c) = drop (nat (headers_end c) + content_length c) (request_bytes c)"
  proof (cases "?n < client_buffered c")
    case True
    have "nat (read_off c + ?n) = nat (read_off c) + nat ?n"
      "nat (client_buffered c - ?n) = nat (client_buffered c) - nat ?n"
      using assms True by (auto simp: buf_ok_def nat_add_distrib nat_diff_distrib)
    then show ?thesis using True assms(2) i n
      by (simp add: client_reset_def request_bytes_def client_buffered_def Let_def drop_take algebra_simps)
  next
    case False
    then have "length (request_bytes c) \<le> nat ?n" using length_request_bytes [OF assms(1)] assms(3) by simp
    then show ?thesis using False i n
      by (simp add: client_reset_def request_bytes_def [of "client_reset c"] client_buffered_def Let_def)
        (simp add: client_reset_def request_bytes_def client_buffered_def Let_def)
  qed
qed

lemma release_spill_fields [simp]:
  "read_buf (tls_release_spill c) = read_buf c" "read_off (tls_release_spill c) = read_off c"
  "read_len (tls_release_spill c) = read_len c" "spilled (tls_release_spill c) = []"
  "tls_spill_len (tls_release_spill c) = 0" "tls_spill (tls_release_spill c) = None"
  "in_flight (tls_release_spill c) = in_flight c" "tls (tls_release_spill c) = tls c"
  "read_armed (tls_release_spill c) = read_armed c" "uv (tls_release_spill c) = uv c"
  by (simp_all add: tls_release_spill_def spilled_def split: option.split)

text \<open>What a drain does: it moves as much of the overflow as fits behind the buffered bytes.\<close>

lemma drain_stream:
  assumes "buf_ok c" "spill_ok c"
  shows "buf_ok (tls_spill_drain c) \<and> spill_ok (tls_spill_drain c) \<and> stream (tls_spill_drain c) = stream c
    \<and> (tls_spill_len (tls_spill_drain c) > 0 \<longrightarrow> read_len (tls_spill_drain c) = int READ_BUF_SIZE)
    \<and> in_flight (tls_spill_drain c) = in_flight c \<and> tls (tls_spill_drain c) = tls c
    \<and> read_armed (tls_spill_drain c) = read_armed c \<and> uv (tls_spill_drain c) = uv c"
proof (cases "tls_spill_len c = 0")
  case True
  then show ?thesis using assms by (simp add: tls_spill_drain_def)
next
  case False
  obtain b arr where s: "tls_spill c = Some (b, arr)" "length arr = TLS_SPILL_SIZE"
    using False assms(2) by (auto simp: spill_ok_def split: option.splits)
  define d where "d = (if read_off c > 0 then client_compact c else c)"
  have d: "buf_ok d" "request_bytes d = request_bytes c" "tls_spill d = tls_spill c" "tls_spill_len d = tls_spill_len c"
    "in_flight d = in_flight c" "tls d = tls c" "read_armed d = read_armed c" "uv d = uv c" "spill_ok d"
    using assms compact_buf_ok [OF assms(1)] compact_request [OF assms(1)] by (simp_all add: d_def)
  define room where "room = nat (int READ_BUF_SIZE - read_len d)"
  define len where "len = nat (tls_spill_len c)"
  have len: "0 < len" "len \<le> TLS_SPILL_SIZE" "tls_spill_len c = int len"
    using False assms(2) by (auto simp: spill_ok_def len_def)
  have st: "stream c = request_bytes d @ take len arr" by (simp add: stream_def spilled_def s d(2) len_def)
  show ?thesis
  proof (cases "room = 0")
    case True
    then have e: "tls_spill_drain c = d"
      using False by (auto simp: tls_spill_drain_def d_def [symmetric] room_def Let_def)
    have "read_len d = int READ_BUF_SIZE" using True d(1) by (simp add: room_def buf_ok_def)
    moreover have "spilled d = spilled c" unfolding spilled_def d(3,4) ..
    ultimately show ?thesis unfolding e stream_def using d by simp
  next
    case nr: False
    define taken where "taken = (if len < room then len else room)"
    define p where "p = put_read (take taken arr) d"
    have tk: "taken \<le> len" "taken \<le> room" "length (take taken arr) = taken" "0 < taken"
      using s(2) len nr by (simp_all add: taken_def)
    have p: "buf_ok p" "request_bytes p = request_bytes d @ take taken arr"
      using put_read_ok [OF d(1), of "take taken arr"] tk by (simp_all add: p_def room_def)
    have e: "tls_spill_drain c =
      (let c1 = p\<lparr>tls_spill_len := int (len - taken)\<rparr>
       in if len - taken > 0 then c1\<lparr>tls_spill := Some (b, blit arr 0 (take (len - taken) (drop taken arr)))\<rparr>
          else tls_release_spill c1)"
    proof -
      have sp: "the (tls_spill d) = (b, arr)" "tls_spill_len d = int len" using s d(3,4) len(3) by simp_all
      have "tls_spill_drain c = spill_take taken d"
        unfolding tls_spill_drain_def Let_def d_def [symmetric] room_def [symmetric] sp(2) nat_int taken_def
        using False nr by simp
      also have "\<dots> = (let c1 = p\<lparr>tls_spill_len := int len - int taken\<rparr>
          in if int len - int taken > 0
             then c1\<lparr>tls_spill := Some (b, blit arr 0 (take (nat (int len - int taken)) (drop taken arr)))\<rparr>
             else tls_release_spill c1)"
        unfolding spill_take_def sp p_def put_read_def tk(3) by (simp add: Let_def sp(2))
      also have "int len - int taken = int (len - taken)" using tk(1) by (simp add: of_nat_diff)
      finally show ?thesis unfolding nat_int of_nat_0_less_iff .
    qed
    show ?thesis
    proof (cases "taken < len")
      case True
      let ?c1 = "p\<lparr>tls_spill_len := int (len - taken), tls_spill := Some (b, blit arr 0 (take (len - taken) (drop taken arr)))\<rparr>"
      have e1: "tls_spill_drain c = ?c1" using e True by (simp add: Let_def)
      have "taken = room" using True by (simp add: taken_def split: if_splits)
      then have full: "read_len p = int READ_BUF_SIZE"
        using nr tk(3) d(1) by (simp add: p_def put_read_def room_def buf_ok_def)
      have l: "length (take (len - taken) (drop taken arr)) = len - taken" using s(2) len tk by simp
      have sp: "spilled ?c1 = take (len - taken) (drop taken arr)"
        using l by (simp add: spilled_def blit_def)
      have "take len arr = take taken arr @ take (len - taken) (drop taken arr)"
        using tk(1) by (metis le_add_diff_inverse take_add)
      moreover have "request_bytes ?c1 = request_bytes p" by (simp add: request_bytes_def client_buffered_def)
      ultimately have "stream ?c1 = stream c" using sp p(2) st by (simp add: stream_def)
      moreover have "spill_ok ?c1" using l len s(2) by (simp add: spill_ok_def)
      moreover have "buf_ok ?c1" using p(1) by (simp add: buf_ok_def)
      ultimately show ?thesis unfolding e1 using full d by (simp add: p_def put_read_def)
    next
      case False
      then have t: "taken = len" using tk by simp
      let ?c1 = "p\<lparr>tls_spill_len := 0\<rparr>"
      have e1: "tls_spill_drain c = tls_release_spill ?c1" using e t by (simp add: Let_def)
      have "request_bytes (tls_release_spill ?c1) = request_bytes p" by (simp add: request_bytes_def client_buffered_def)
      then have "stream (tls_release_spill ?c1) = stream c" using p(2) st t by (simp add: stream_def)
      moreover have "buf_ok (tls_release_spill ?c1)" using p(1) by (simp add: buf_ok_def)
      moreover have "spill_ok (tls_release_spill ?c1)" by (simp add: spill_ok_def)
      ultimately show ?thesis unfolding e1 using d by (simp add: p_def put_read_def)
    qed
  qed
qed

text \<open>A stash appends to the overflow, or fails and leaves the stream as it is.\<close>

lemma stash_stream:
  assumes "buf_ok c" "spill_ok c" "tls_spill_stash X src c = (ok, c')"
  shows "buf_ok c' \<and> spill_ok c' \<and> request_bytes c' = request_bytes c
    \<and> spilled c' = spilled c @ (if ok then src else [])
    \<and> tls_spill_len c' = tls_spill_len c + (if ok then int (length src) else 0)
    \<and> in_flight c' = in_flight c \<and> tls c' = tls c \<and> read_armed c' = read_armed c \<and> uv c' = uv c
    \<and> read_len c' = read_len c \<and> read_off c' = read_off c"
proof (cases "nat (tls_spill_len c) + length src > TLS_SPILL_SIZE")
  case True
  then show ?thesis using assms by (auto simp: tls_spill_stash_def)
next
  case False
  have nn: "0 \<le> tls_spill_len c" using assms(2) by (simp add: spill_ok_def)
  have small: "length src \<le> TLS_SPILL_SIZE" using False by simp
  then have ci: "c_int (int (length src)) = int (length src)" by (intro c_int_id) (simp_all add: sizes)
  have put: "?thesis" if d: "tls_spill d = Some (b, arr)" "length arr = TLS_SPILL_SIZE" "d = c\<lparr>srv := s, tls_spill := Some (b, arr)\<rparr>"
    "take (nat (tls_spill_len c)) arr = spilled c"
    "(ok, c') = (True, d\<lparr>tls_spill := Some (b, blit arr (nat (tls_spill_len d)) src),
        tls_spill_len := tls_spill_len d + c_int (int (length src))\<rparr>)" for d b arr s
  proof -
    have c': "ok" "c' = c\<lparr>srv := s, tls_spill := Some (b, blit arr (nat (tls_spill_len c)) src),
        tls_spill_len := tls_spill_len c + int (length src)\<rparr>"
      using d(3,5) ci by simp_all
    have l: "nat (tls_spill_len c) + length src \<le> length arr" using False d(2) by simp
    have "nat (tls_spill_len c + int (length src)) = nat (tls_spill_len c) + length src" using nn by (simp add: nat_add_distrib)
    then have "spilled c' = spilled c @ src"
      using take_blit_end [OF l] d(4) by (simp add: c'(2) spilled_def [of "c\<lparr>srv := _, tls_spill := _, tls_spill_len := _\<rparr>"])
    moreover have "spill_ok c'" using l d(2) nn False by (simp add: c'(2) spill_ok_def)
    ultimately show ?thesis using c' assms(1) by (simp add: buf_ok_def request_bytes_def client_buffered_def)
  qed
  show ?thesis
  proof (cases "tls_spill c")
    case (Some p)
    obtain b arr where p: "p = (b, arr)" by (cases p)
    have "length arr = TLS_SPILL_SIZE" using assms(2) Some p by (simp add: spill_ok_def)
    then show ?thesis
      by (intro put [of c b arr "srv c"]) (use Some p assms(3) False in \<open>simp_all add: tls_spill_stash_def spilled_def\<close>)
  next
    case None
    then have z: "tls_spill_len c = 0" using assms(2) by (simp add: spill_ok_def)
    show ?thesis
    proof (cases "tls_spill_get X (srv c)")
      case (Pair r s)
      show ?thesis
      proof (cases r)
        case rn: None
        have e: "tls_spill_stash X src c = (False, c\<lparr>srv := s\<rparr>)"
          using False by (simp add: tls_spill_stash_def None Pair rn)
        show ?thesis using assms e None z
          by (auto simp: buf_ok_def request_bytes_def client_buffered_def spill_ok_def spilled_def)
      next
        case (Some b)
        let ?arr = "replicate TLS_SPILL_SIZE NUL"
        show ?thesis
          by (rule put [of "c\<lparr>srv := s, tls_spill := Some (b, ?arr)\<rparr>" b ?arr s])
            (use None Pair Some assms(3) False z in \<open>simp_all add: tls_spill_stash_def spilled_def\<close>)
      qed
    qed
  qed
qed

section \<open>The contract of the input queue\<close>

text \<open>
  What the request parser relies on: making room never changes what is buffered, and what arrives is
  put behind it.
\<close>

locale input_queue =
  fixes ok :: "'c \<Rightarrow> bool"
    and contents :: "'c \<Rightarrow> bytes"
    and make_room :: "'c \<Rightarrow> 'c"
    and room :: "'c \<Rightarrow> nat"
    and put :: "bytes \<Rightarrow> 'c \<Rightarrow> 'c"
  assumes make_room: "ok c \<Longrightarrow> ok (make_room c) \<and> contents (make_room c) = contents c"
    and put: "ok c \<Longrightarrow> length b \<le> room c \<Longrightarrow> ok (put b c) \<and> contents (put b c) = contents c @ b"
begin

text \<open>A run of arrivals, each after room was made.\<close>

fun arrive :: "bytes list \<Rightarrow> 'c \<Rightarrow> 'c option" where
  "arrive [] c = Some c"
| "arrive (b # bs) c =
     (if length b \<le> room (make_room c) then arrive bs (put b (make_room c)) else None)"

lemma arrive_contents: "ok c \<Longrightarrow> arrive bs c = Some c' \<Longrightarrow> ok c' \<and> contents c' = contents c @ concat bs"
proof (induction bs arbitrary: c)
  case (Cons b bs)
  then show ?case using make_room [of c] put [of "make_room c" b] by (auto split: if_splits)
qed simp

end

interpretation plain_queue: input_queue buf_ok request_bytes client_compact
  "\<lambda>c. nat (int READ_BUF_SIZE - read_len c)" put_read
proof
  fix c :: "'a conn" and b :: bytes
  show "buf_ok c \<Longrightarrow> buf_ok (client_compact c) \<and> request_bytes (client_compact c) = request_bytes c"
    using compact_buf_ok compact_request by blast
  show "buf_ok (put_read b c) \<and> request_bytes (put_read b c) = request_bytes c @ b"
    if "buf_ok c" "length b \<le> nat (int READ_BUF_SIZE - read_len c)"
    using put_read_ok [OF that(1)] that by (auto simp: buf_ok_def)
qed

text \<open>With the overflow block: room is made by draining it, and what does not fit is stashed.\<close>

definition spill_queue_ok :: "'p conn \<Rightarrow> bool" where
  "spill_queue_ok c \<longleftrightarrow> buf_ok c \<and> spill_ok c"

interpretation spill_queue: input_queue spill_queue_ok stream tls_spill_drain
  "\<lambda>c. if tls_spill_len c = 0 then nat (int READ_BUF_SIZE - read_len c) else 0" put_read
proof
  fix c :: "'a conn" and b :: bytes
  show "spill_queue_ok c \<Longrightarrow> spill_queue_ok (tls_spill_drain c) \<and> stream (tls_spill_drain c) = stream c"
    using drain_stream by (auto simp: spill_queue_ok_def)
  assume c: "spill_queue_ok c" and b: "length b \<le> (if tls_spill_len c = 0 then nat (int READ_BUF_SIZE - read_len c) else 0)"
  have "int (length b) \<le> int READ_BUF_SIZE - read_len c" using b c by (auto simp: spill_queue_ok_def buf_ok_def split: if_splits)
  moreover have "b = [] \<or> spilled c = []" using b by (auto simp: spilled_def split: option.splits if_splits)
  ultimately show "spill_queue_ok (put_read b c) \<and> stream (put_read b c) = stream c @ b"
    using put_read_ok [of c b] c by (auto simp: spill_queue_ok_def stream_def)
qed

lemma alloc_cb_stream:
  assumes "buf_ok c" "tls c = None" "alloc_cb c = (n, c')"
  shows "buf_ok c' \<and> request_bytes c' = request_bytes c \<and> int n = int READ_BUF_SIZE - read_len c'
    \<and> (in_flight c \<longrightarrow> c' = c) \<and> (\<not> in_flight c \<longrightarrow> int n = int READ_BUF_SIZE - client_buffered c)"
  using assms compact_buf_ok [of c] compact_request [of c]
  by (auto simp: alloc_cb_def Let_def buf_ok_def compact_len client_buffered_def split: if_splits)

text \<open>
  C25. The input of a connection is a first-in first-out queue, whatever is done to its buffers.
  Compacting, offering room to libuv and draining the overflow block change no byte of the stream of
  unconsumed input; a read appends what arrived, a stash appends what did not fit, and consuming a
  request removes exactly its head and body. The room offered is exactly the free room, and the
  overflow block is non-empty only behind a full buffer.
\<close>

theorem input_stream_fifo:
  assumes "buf_ok c" "spill_ok c"
  shows "stream (client_compact c) = stream c
    \<and> stream (tls_spill_drain c) = stream c
    \<and> (tls_spill_len (tls_spill_drain c) > 0 \<longrightarrow> read_len (tls_spill_drain c) = int READ_BUF_SIZE)
    \<and> (tls c = None \<longrightarrow> stream (snd (alloc_cb c)) = stream c
         \<and> int (fst (alloc_cb c)) = int READ_BUF_SIZE - read_len (snd (alloc_cb c)))
    \<and> (int (length data) \<le> int READ_BUF_SIZE - read_len c \<longrightarrow> spilled c = [] \<longrightarrow>
         stream (put_read data c) = stream c @ data)
    \<and> (fst (tls_spill_stash X data c) \<longrightarrow> stream (snd (tls_spill_stash X data c)) = stream c @ data)
    \<and> (0 < headers_end c \<longrightarrow> headers_end c + int (content_length c) \<le> client_buffered c \<longrightarrow>
         stream (client_reset c) = drop (nat (headers_end c) + content_length c) (stream c))"
proof -
  have 1: "stream (client_compact c) = stream c" using compact_request [OF assms(1)] by (simp add: stream_def)
  have 2: "stream (snd (alloc_cb c)) = stream c \<and> int (fst (alloc_cb c)) = int READ_BUF_SIZE - read_len (snd (alloc_cb c))"
    if "tls c = None"
    using alloc_cb_stream [OF assms(1) that, of "fst (alloc_cb c)" "snd (alloc_cb c)"] that
    by (simp add: stream_def alloc_cb_def Let_def)
  have 3: "stream (put_read data c) = stream c @ data"
    if "int (length data) \<le> int READ_BUF_SIZE - read_len c" "spilled c = []"
    using put_read_ok [OF assms(1) that(1)] that(2) by (simp add: stream_def)
  have 4: "stream (snd (tls_spill_stash X data c)) = stream c @ data" if "fst (tls_spill_stash X data c)"
    using stash_stream [OF assms prod.collapse [symmetric], of X data] that by (simp add: stream_def)
  have 5: "stream (client_reset c) = drop (nat (headers_end c) + content_length c) (stream c)"
    if h: "0 < headers_end c" "headers_end c + int (content_length c) \<le> client_buffered c"
  proof -
    have "nat (headers_end c) + content_length c \<le> length (request_bytes c)"
      using length_request_bytes [OF assms(1)] h by linarith
    moreover have "spilled (client_reset c) = spilled c" by (simp add: client_reset_def spilled_def Let_def split: option.split)
    ultimately show ?thesis using reset_request(1) [OF assms(1) h] by (simp add: stream_def)
  qed
  show ?thesis using 1 2 3 4 5 drain_stream [OF assms] by blast
qed

lemma sample_conn_ok: "buf_ok (sample_conn :: nat conn)" "spill_ok (sample_conn :: nat conn)"
  by (simp_all add: buf_ok_def spill_ok_def sample_conn_def)

theorem input_stream_fifo_witness:
  "stream (put_read ''abc'' (sample_conn :: nat conn)) = ''abc''
    \<and> stream (client_compact (sample_conn :: nat conn)) = stream (sample_conn :: nat conn)"
  using input_stream_fifo [OF sample_conn_ok, of "''abc''" sample_ext]
  by (simp add: sample_conn_def spilled_def sizes stream_def [of "_ :: nat conn"] request_bytes_def client_buffered_def)

section \<open>Dispatch\<close>

text \<open>A complete request at the front of the buffered bytes: the parse, and that its body is all there.\<close>

definition request_head :: "'p ext \<Rightarrow> bytes \<Rightarrow> (phr_request \<times> nat) option" where
  "request_head X b = (case phr_parse_request (sse_build X) MAX_HEADERS b 0 of Inr q \<Rightarrow> Some q | Inl _ \<Rightarrow> None)"

definition request_params :: "phr_request \<Rightarrow> nat \<times> bool" where
  "request_params r = fold scan_header (headers r) (0, minor_version r = 1)"

definition request_end :: "phr_request \<Rightarrow> nat \<Rightarrow> nat" where
  "request_end r n = n + fst (request_params r)"

text \<open>\<open>last_len\<close> is right: there is no complete head in the bytes it counts.\<close>

definition last_len_ok :: "'p ext \<Rightarrow> 'p conn \<Rightarrow> bool" where
  "last_len_ok X c \<longleftrightarrow> 0 \<le> last_len c \<and> nat (last_len c) \<le> length (request_bytes c)
     \<and> (last_len c \<noteq> 0 \<longrightarrow> request_head X (take (nat (last_len c)) (request_bytes c)) = None)"

text \<open>The connection as it is handed to the dispatchers.\<close>

definition dispatched :: "phr_request \<Rightarrow> nat \<Rightarrow> 'p conn \<Rightarrow> 'p conn" where
  "dispatched r n c = c\<lparr>req := Some r, headers_end := int n, content_length := fst (request_params r),
     keep_alive := snd (request_params r), in_flight := True\<rparr>"

definition run_app :: "'p ext \<Rightarrow> 'p conn \<Rightarrow> 'p conn option" where
  "run_app X c = (if asgi_mode (srv c) then Some (asgi_dispatch X c) else wsgi_call_application X c)"

text \<open>
  A connection whose peer is told 400: in the clear that answer is written and the handle closed; encrypted
  it is the connection's last record, or a close where no record can be sent.
\<close>

definition turned_away :: "'p ext \<Rightarrow> 'p conn \<Rightarrow> 'p conn \<Rightarrow> bool" where
  "turned_away X c c' \<longleftrightarrow>
     (if tls c = None
      then c' = c\<lparr>req := None, uv := uv c @ [UvWrite bad_req NoCb (uv_write_ok X (uv c)), UvClose]\<rparr>
      else c' = uv_close (c\<lparr>req := None\<rparr>) \<and> \<not> tls_hs_done c
        \<or> (\<exists>ok d. tls_send_final X bad_req (c\<lparr>req := None\<rparr>) = (ok, d) \<and> c' = (if ok then d else uv_close d)))"

lemma http_dispatch_cases:
  assumes "buf_ok c"
  obtains (partial) "phr_parse_request (sse_build X) MAX_HEADERS (request_bytes c) (nat (last_len c)) = Inl Partial"
      "http_dispatch X c = Some (0, c\<lparr>req := None, last_len := client_buffered c\<rparr>)"
  | (bad) c' where "phr_parse_request (sse_build X) MAX_HEADERS (request_bytes c) (nat (last_len c)) = Inl Failed"
      "http_dispatch X c = Some (-1, c')" "turned_away X c c'"
  | (waiting) r n where "phr_parse_request (sse_build X) MAX_HEADERS (request_bytes c) (nat (last_len c)) = Inr (r, n)"
      "length (request_bytes c) < request_end r n"
      "http_dispatch X c = Some (0, (dispatched r n c)\<lparr>in_flight := in_flight c\<rparr>)"
  | (complete) r n where "phr_parse_request (sse_build X) MAX_HEADERS (request_bytes c) (nat (last_len c)) = Inr (r, n)"
      "request_end r n \<le> length (request_bytes c)"
      "http_dispatch X c = map_option (\<lambda>c'. (1, c')) (run_app X (dispatched r n c))"
proof (cases "phr_parse_request (sse_build X) MAX_HEADERS (request_bytes c) (nat (last_len c))")
  case (Inl e)
  show ?thesis
  proof (cases e)
    case Partial
    then show ?thesis using Inl by (intro partial) (simp_all add: http_dispatch_def)
  next
    case Failed
    then show ?thesis using Inl
      by (intro bad [of "if tls c \<noteq> None then
          (if \<not> tls_hs_done c then uv_close (c\<lparr>req := None\<rparr>)
           else case tls_send_final X bad_req (c\<lparr>req := None\<rparr>) of (True, c2) \<Rightarrow> c2 | (False, c2) \<Rightarrow> uv_close c2)
        else uv_close (snd (uv_write X bad_req NoCb (c\<lparr>req := None\<rparr>)))"])
        (auto simp: http_dispatch_def turned_away_def uv_write_def uv_close_def Let_def split: prod.split bool.split)
  qed
next
  case (Inr q)
  obtain r n where q: "q = (r, n)" by (cases q)
  obtain cl ka where p: "request_params r = (cl, ka)" by (cases "request_params r")
  have pr: "fold scan_header (headers r) (0, minor_version r = 1) = (cl, ka)" using p by (simp add: request_params_def)
  have n: "0 < n" "n \<le> length (request_bytes c)" using phr_accept [OF Inr [unfolded q]] by simp_all
  have b: "nat (client_buffered c - int n) = length (request_bytes c) - n"
    using length_request_bytes [OF assms] n by (simp add: nat_diff_distrib')
  show ?thesis
  proof (cases "length (request_bytes c) < request_end r n")
    case True
    then have "length (request_bytes c) - n < cl" using n p by (simp add: request_end_def)
    then show ?thesis using Inr q pr b True
      by (intro waiting [of r n]) (simp_all add: http_dispatch_def dispatched_def p client_buffered_def Let_def)
  next
    case False
    then have "\<not> length (request_bytes c) - n < cl" using n p by (simp add: request_end_def)
    then show ?thesis using Inr q pr b False
      by (intro complete [of r n]) (auto simp: http_dispatch_def dispatched_def run_app_def p client_buffered_def Let_def)
  qed
qed

lemma phr_zero_Inr: "phr_parse_request sse m buf l = Inr q \<Longrightarrow> phr_parse_request sse m buf 0 = Inr q"
  by (auto simp: phr_parse_request_def split: if_splits)

text \<open>\<open>last_len\<close> changes nothing: what a full parse accepts is what the incremental one accepts.\<close>

lemma last_len_head:
  assumes "last_len_ok X c"
  shows "phr_parse_request (sse_build X) MAX_HEADERS (request_bytes c) (nat (last_len c)) = Inr q
    \<longleftrightarrow> request_head X (request_bytes c) = Some q"
proof (cases "last_len c = 0")
  case True
  then show ?thesis by (auto simp: request_head_def split: sum.splits)
next
  case False
  have "phr_parse_request (sse_build X) MAX_HEADERS (request_bytes c) (nat (last_len c)) = Inr q
      \<longleftrightarrow> phr_parse_request (sse_build X) MAX_HEADERS (request_bytes c) 0 = Inr q"
    by (rule phr_last_len) (use assms False in \<open>auto simp: last_len_ok_def request_head_def split: sum.splits\<close>)
  then show ?thesis by (auto simp: request_head_def split: sum.splits)
qed

text \<open>What is rejected is the beginning of no request.\<close>

lemma rejected_for_good:
  assumes "last_len_ok X c"
    and "phr_parse_request (sse_build X) MAX_HEADERS (request_bytes c) (nat (last_len c)) = Inl Failed"
  shows "request_head X (request_bytes c @ rest) = None"
proof -
  have "phr_parse_request (sse_build X) MAX_HEADERS (request_bytes c @ rest) 0 \<noteq> Inr q" for q
    by (rule phr_rejected_final [OF assms(2)])
      (use assms(1) in \<open>auto simp: last_len_ok_def request_head_def split: sum.splits\<close>)
  then show ?thesis by (simp add: request_head_def split: sum.splits)
qed

lemma body_bytes_dispatched:
  assumes "buf_ok c" "n \<le> length (request_bytes c)" "request_end r n \<le> length (request_bytes c)"
  shows "body_bytes (dispatched r n c) = take (fst (request_params r)) (drop n (request_bytes c))"
proof -
  let ?cl = "fst (request_params r)"
  have b: "nat (client_buffered c) = length (request_bytes c)" using length_request_bytes [OF assms(1)] by simp
  have nn: "0 \<le> read_off c" "0 \<le> client_buffered c" using assms(1) by (auto simp: buf_ok_def client_buffered_def)
  have e: "n + ?cl \<le> nat (client_buffered c)" using assms(3) b by (simp add: request_end_def)
  have "int n \<le> client_buffered c" using e nn by linarith
  then have l: "\<not> client_buffered c - int n < 0" "nat (client_buffered c - int n) = nat (client_buffered c) - n" "nat (read_off c + int n) = nat (read_off c) + n"
    using nn by (simp_all add: nat_diff_distrib nat_add_distrib)
  have "body_bytes (dispatched r n c) = take (if nat (client_buffered c - int n) > ?cl then ?cl else nat (client_buffered c - int n))
      (drop (nat (read_off c) + n) (read_buf c))"
    using l(1,3) by (simp add: body_bytes_def dispatched_def client_buffered_def Let_def)
  also have "(if nat (client_buffered c - int n) > ?cl then ?cl else nat (client_buffered c - int n)) = ?cl" using e l(2) by auto
  also have "take ?cl (drop (nat (read_off c) + n) (read_buf c)) = take ?cl (drop n (request_bytes c))"
    using e by (simp add: request_bytes_def drop_take min_def add.commute)
  finally show ?thesis .
qed


definition sample_arrived :: "nat conn" where
  "sample_arrived = put_read sample_bytes sample_conn"

lemma length_sample_bytes: "length sample_bytes = 28"
  by code_simp

lemma sample_arrived: "buf_ok sample_arrived" "request_bytes sample_arrived = sample_bytes" "last_len_ok sample_ext sample_arrived"
proof -
  have l: "int (length sample_bytes) \<le> int READ_BUF_SIZE - read_len (sample_conn :: nat conn)"
    by (simp add: length_sample_bytes sample_conn_def sizes)
  have z: "request_bytes (sample_conn :: nat conn) = []"
    by (simp add: request_bytes_def sample_conn_def client_buffered_def)
  show "buf_ok sample_arrived" "request_bytes sample_arrived = sample_bytes"
    unfolding sample_arrived_def using put_read_ok [OF sample_conn_ok(1) l] z by simp_all
  show "last_len_ok sample_ext sample_arrived"
    by (simp add: last_len_ok_def sample_arrived_def put_read_def sample_conn_def)
qed

lemma sample_head: "request_head sample_ext sample_bytes = Some (sample_request, 28)"
  using sample_parses by (simp add: request_head_def sample_ext_def MAX_HEADERS_def)

lemma sample_params: "request_params sample_request = (0, True)"
  by (simp add: request_params_def sample_request_def scan_header_def name_bytes_def is_name_def)

text \<open>The same bytes cut off in the middle of the head, and bytes that begin no request.\<close>

definition sample_cut :: "nat conn" where
  "sample_cut = put_read (take 20 sample_bytes) sample_conn"

definition sample_garbage :: "nat conn" where
  "sample_garbage = put_read (''GET'' @ CRLF @ CRLF) sample_conn"

lemma sample_put:
  assumes "length b \<le> 100"
  shows "buf_ok (put_read b sample_conn :: nat conn)" "request_bytes (put_read b sample_conn :: nat conn) = b"
    "last_len_ok sample_ext (put_read b sample_conn :: nat conn)" "last_len (put_read b sample_conn :: nat conn) = 0"
    "tls (put_read b sample_conn :: nat conn) = None"
proof -
  have l: "int (length b) \<le> int READ_BUF_SIZE - read_len (sample_conn :: nat conn)"
    using assms by (simp add: sample_conn_def sizes)
  have z: "request_bytes (sample_conn :: nat conn) = []"
    by (simp add: request_bytes_def sample_conn_def client_buffered_def)
  show "buf_ok (put_read b sample_conn :: nat conn)" "request_bytes (put_read b sample_conn :: nat conn) = b"
    using put_read_ok [OF sample_conn_ok(1) l] z by simp_all
  show "last_len_ok sample_ext (put_read b sample_conn :: nat conn)" "last_len (put_read b sample_conn :: nat conn) = 0"
    "tls (put_read b sample_conn :: nat conn) = None"
    by (simp_all add: last_len_ok_def put_read_def sample_conn_def)
qed

lemma sample_verdicts:
  "phr_parse_request False 64 (take 20 sample_bytes) 0 = Inl Partial"
  "phr_parse_request False 64 (''GET'' @ CRLF @ CRLF) 0 = Inl Failed"
  by code_simp+


section \<open>Pipelining\<close>

lemma request_head_local:
  assumes "request_head X b = Some (r, n)"
  shows "0 < n" "n \<le> length b" "request_head X (take n b @ rest) = Some (r, n)"
proof -
  have "phr_parse_request (sse_build X) MAX_HEADERS b 0 = Inr (r, n)" using assms by (auto simp: request_head_def split: sum.splits)
  from phr_accept [OF this] show "0 < n" "n \<le> length b" "request_head X (take n b @ rest) = Some (r, n)"
    by (auto simp: request_head_def)
qed

text \<open>The request is done with, and the next one can be looked at.\<close>

definition next_turn :: "'p conn \<Rightarrow> 'p conn" where
  "next_turn c = (client_reset (c\<lparr>resp_status := None, resp_pyheaders := None, resp_body := None, asgi_task := None\<rparr>))
     \<lparr>in_flight := False\<rparr>"

lemma next_turn_input:
  assumes "buf_ok c" "0 < headers_end c" "headers_end c + int (content_length c) \<le> client_buffered c"
  shows "buf_ok (next_turn c)" "request_bytes (next_turn c) = drop (nat (headers_end c) + content_length c) (request_bytes c)"
    "last_len (next_turn c) = 0" "\<not> in_flight (next_turn c)"
proof -
  let ?d = "c\<lparr>resp_status := None, resp_pyheaders := None, resp_body := None, asgi_task := None\<rparr>"
  have d: "buf_ok ?d" "0 < headers_end ?d" "headers_end ?d + int (content_length ?d) \<le> client_buffered ?d"
    "request_bytes ?d = request_bytes c"
    using assms by (simp_all add: buf_ok_def client_buffered_def request_bytes_def)
  have e: "buf_ok (next_turn c) = buf_ok (client_reset ?d)" "request_bytes (next_turn c) = request_bytes (client_reset ?d)"
    by (simp_all add: next_turn_def buf_ok_def request_bytes_def client_buffered_def)
  show "buf_ok (next_turn c)" using reset_request(2) [OF d(1-3)] e by simp
  show "request_bytes (next_turn c) = drop (nat (headers_end c) + content_length c) (request_bytes c)"
    using reset_request(1) [OF d(1-3)] e d(4) by simp
  show "last_len (next_turn c) = 0" "\<not> in_flight (next_turn c)"
    by (simp_all add: next_turn_def client_reset_def Let_def)
qed

lemma dispatch_complete:
  assumes "buf_ok c" "last_len_ok X c" "request_head X (request_bytes c) = Some (r, n)"
    "request_end r n \<le> length (request_bytes c)"
  shows "http_dispatch X c = map_option (\<lambda>c'. (1, c')) (run_app X (dispatched r n c))"
proof (cases rule: http_dispatch_cases [OF assms(1), of X])
  case (4 r' n')
  then have "(r', n') = (r, n)" using last_len_head [OF assms(2), of "(r', n')"] assms(3) by simp
  then show ?thesis using 4 by simp
qed (use last_len_head [OF assms(2), of "(r, n)"] assms(3,4) in auto)

lemma wsgi_raise: "(\<And>env. wsgi_app X env = Raise) \<Longrightarrow> \<exists>c'. wsgi_call_application X c = Some c'"
  by (cases "build_environ X c"; cases "fst (build_environ X c)") (auto simp: wsgi_call_application_def)

end
