(* ===== verification/ConnFrame.thy ===== *)
theory ConnFrame
  imports Conn
begin

text \<open>
  The frames of theory \<open>RespFrame\<close> for the applications and for the last write of an encrypted connection.
\<close>

lemma same_rx_buf: "same_rx c c' \<Longrightarrow> buf_ok c' = buf_ok c" "same_rx c c' \<Longrightarrow> request_bytes c' = request_bytes c"
  "same_rx c c' \<Longrightarrow> client_buffered c' = client_buffered c" "same_rx c c' \<Longrightarrow> spill_ok c' = spill_ok c"
  by (auto simp: same_rx_def buf_ok_def request_bytes_def client_buffered_def spill_ok_def split: option.splits)

section \<open>The applications\<close>

lemma wsgi_responded: "wsgi_call_application X c = Some c' \<Longrightarrow> responded X c c'"
proof -
  assume "wsgi_call_application X c = Some c'"
  then obtain a st hs h n b ka where
    "c' = write_response X (c\<lparr>peer_addr_obj := a, resp_status := st, resp_pyheaders := hs, resp_hdr := h,
           resp_hdr_len := n, resp_body := b, keep_alive := ka\<rparr>)"
    using wsgi_response by blast
  then show ?thesis by (simp add: write_response_responded same_rx_def)
qed


text \<open>The same frame for the ASGI side.\<close>

lemma wsgi_rx: "wsgi_call_application X c = Some c' \<Longrightarrow> same_rx c c'"
  using wsgi_responded by (auto simp: responded_def)

lemma send_500_asgi_rx: "same_rx c (send_500_asgi X c)"
  unfolding send_500_asgi_def by (rule response_rx) (simp add: same_rx_def)

lemma asgi_send_rx: "same_rx c (snd (asgi_send_response_c X st hs body c))"
proof -
  have "same_rx c (write_response X (c\<lparr>resp_hdr := h, resp_hdr_len := n\<rparr>))"
    "same_rx c (write_response X (c\<lparr>resp_hdr := h, resp_hdr_len := n, resp_body := b\<rparr>))" for h n b
    by (rule response_rx, simp add: same_rx_def)+
  then show ?thesis
    by (cases "as_c_int st"; cases hs) (auto simp: asgi_send_response_c_def Let_def split: sum.split)
qed

lemma coro_step_rx: "asgi_coro_step X k c = (r, c') \<Longrightarrow> same_rx c c'"
proof (induction X k c rule: asgi_coro_step.induct)
  case (1 X st hs body k1 k2 c)
  obtain ok c1 where s: "asgi_send_response_c X st hs body c = (ok, c1)" by (cases "asgi_send_response_c X st hs body c")
  have i: "same_rx c c1" using asgi_send_rx [of c X st hs body] s by simp
  have "same_rx c1 c'" using 1(1,2) [OF s [symmetric]] 1(3) s by (cases ok) simp_all
  then show ?case using i same_rx_trans by blast
qed simp_all

lemma asgi_rx: "same_rx c (asgi_dispatch X c)"
proof -
  obtain so c1 where b: "build_asgi_scope X c = (so, c1)" by (cases "build_asgi_scope X c")
  have "c1 = c\<lparr>asgi_client_obj := asgi_client_obj c1\<rparr>" using build_asgi_scope_frame [of X c] b by simp
  moreover have "same_rx c (c\<lparr>asgi_client_obj := a\<rparr>)" for a by (simp add: same_rx_def)
  ultimately have i1: "same_rx c c1" by (rule ssubst [where P = "same_rx c"])
  let ?c2 = "c1\<lparr>asgi_capsule := True\<rparr>"
  have i2: "same_rx c ?c2" using i1 by (simp add: same_rx_def)
  have s500: "same_rx c (send_500_asgi X d)" if "same_rx c d" for d
    by (rule same_rx_trans [OF that send_500_asgi_rx])
  show ?thesis
  proof (cases so)
    case None
    then show ?thesis using b s500 [OF i1] by (simp add: asgi_dispatch_def)
  next
    case (Some scope)
    obtain r c3 where r: "asgi_coro_step X (asgi_app X scope (body_bytes ?c2)) ?c2 = (r, c3)"
      by (cases "asgi_coro_step X (asgi_app X scope (body_bytes ?c2)) ?c2")
    have i3: "same_rx c c3" using coro_step_rx [OF r] same_rx_trans [OF i2] by simp
    then have "same_rx c (c3\<lparr>asgi_task := k\<rparr>)" for k by (simp add: same_rx_def)
    then show ?thesis using b Some r i3 s500 [OF i1] s500 [OF i3]
      by (cases r) (simp_all add: asgi_dispatch_def Let_def)
  qed
qed

lemma run_app_rx: "run_app X c = Some c' \<Longrightarrow> same_rx c c'"
  using wsgi_rx asgi_rx by (auto simp: run_app_def split: if_splits)

section \<open>The last write of an encrypted connection\<close>

text \<open>The accepted writes of a log whose completion is due: of responses, and of farewells.\<close>

definition owed :: "uv_call list \<Rightarrow> nat" where
  "owed l = length (filter (\<lambda>w. \<exists>d. w = UvWrite d OnWrite True) l)"

definition finals :: "uv_call list \<Rightarrow> nat" where
  "finals l = length (filter (\<lambda>w. \<exists>d. w = UvWrite d OnTlsFinal True) l)"

lemma owed_append [simp]: "owed (l @ m) = owed l + owed m" "finals (l @ m) = finals l + finals m"
  by (simp_all add: owed_def finals_def)

lemma owed_simps [simp]: "owed [] = 0" "owed (UvClose # l) = owed l" "owed (UvReadStart # l) = owed l"
  "owed (UvReadStop # l) = owed l" "owed (UvWrite d NoCb ok # l) = owed l" "owed (UvWrite d OnTlsHs ok # l) = owed l"
  "owed (UvWrite d OnTlsFinal ok # l) = owed l"
  "owed (UvWrite d OnWrite ok # l) = (if ok then Suc (owed l) else owed l)"
  by (simp_all add: owed_def)

lemma finals_simps [simp]: "finals [] = 0" "finals (UvClose # l) = finals l" "finals (UvReadStart # l) = finals l"
  "finals (UvReadStop # l) = finals l" "finals (UvWrite d NoCb ok # l) = finals l" "finals (UvWrite d OnTlsHs ok # l) = finals l"
  "finals (UvWrite d OnWrite ok # l) = finals l"
  "finals (UvWrite d OnTlsFinal ok # l) = (if ok then Suc (finals l) else finals l)"
  by (simp_all add: finals_def)

text \<open>The calls \<open>l\<close> close nothing and start no response.\<close>

definition quiet :: "uv_call list \<Rightarrow> bool" where
  "quiet l \<longleftrightarrow> UvClose \<notin> set l \<and> owed l = 0"

lemma release_wbuf_frame: "same_rx c (tls_release_wbuf c)" "same_resp c (tls_release_wbuf c)" "uv (tls_release_wbuf c) = uv c"
proof -
  obtain ret s where r: "release_chain (tls_wbig c) (tls_wblock c) False (srv c) = (ret, s)"
    by (cases "release_chain (tls_wbig c) (tls_wblock c) False (srv c)")
  have sc: "same_conf (srv c) s" using release_chain_conf [of "srv c" "tls_wbig c" "tls_wblock c" False] r by simp
  then have "same_conf (srv c) (s\<lparr>tls_bigbuf_live := k\<rparr>)" for k by (simp add: same_conf_def)
  then show "same_rx c (tls_release_wbuf c)" using sc r
    by (auto simp: tls_release_wbuf_def same_rx_def split: option.split)
  show "same_resp c (tls_release_wbuf c)" "uv (tls_release_wbuf c) = uv c"
    using r by (auto simp: tls_release_wbuf_def same_resp_def)
qed

text \<open>\<open>tls_send_final\<close> stops the read and perhaps starts the farewell; nothing else changes.\<close>

lemma send_final_frame:
  assumes "tls c \<noteq> None" "tls_send_final X data c = (ok, c')"
  shows "same_rx (c\<lparr>read_armed := False\<rparr>) c' \<and> same_resp c c'
    \<and> (\<exists>l. uv c' = uv c @ l \<and> quiet l \<and> finals l = (if ok then 1 else 0))"
proof -
  define q where "q = (\<lambda>d. same_rx (c\<lparr>read_armed := False\<rparr>) d \<and> same_resp c d \<and> (\<exists>l. uv d = uv c @ l \<and> quiet l \<and> finals l = 0))"
  let ?c1 = "stop_reading c"
  have q1: "q ?c1"
    by (auto simp: q_def stop_reading_def uv_read_stop_def same_rx_def same_resp_def quiet_def intro: exI [of _ "[]"])
  obtain r s where g: "tls_wbuf_get X (srv ?c1) = (r, s)" by (cases "tls_wbuf_get X (srv ?c1)")
  have sc: "same_conf (srv ?c1) s" using wbuf_get_conf [OF g] .
  have q2: "q (?c1\<lparr>srv := s\<rparr>)" "q (?c1\<lparr>srv := s, tls_wblock := w\<rparr>)" for w
    using q1 same_conf_trans [of "srv c" "srv ?c1" s] sc by (force simp: q_def same_rx_def same_resp_def)+
  have q3: "q ((set_seg_buf buf d)\<lparr>tls := Some t\<rparr>)" if "q d" for buf t d
    using that assms(1) by (auto simp: q_def same_rx_def same_resp_def set_seg_buf_def)
  have q4: "same_rx (c\<lparr>read_armed := False\<rparr>) d' \<and> same_resp c d'
    \<and> (\<exists>l. uv d' = uv c @ l \<and> quiet l \<and> finals l = (if ok then 1 else 0))" if w: "uv_write X b OnTlsFinal d = (ok, d')" "q d" for b d d'
  proof -
    obtain l where l: "uv d = uv c @ l" "quiet l" "finals l = 0" using w(2) by (auto simp: q_def)
    have d': "d' = d\<lparr>uv := uv d @ [UvWrite b OnTlsFinal ok]\<rparr>" using w(1) by (auto simp: uv_write_def Let_def)
    have "quiet (l @ [UvWrite b OnTlsFinal ok])" "finals (l @ [UvWrite b OnTlsFinal ok]) = (if ok then 1 else 0)"
      using l by (simp_all add: quiet_def)
    moreover have "uv d' = uv c @ l @ [UvWrite b OnTlsFinal ok]" using d' l(1) by simp
    moreover have "same_rx (c\<lparr>read_armed := False\<rparr>) d'" "same_resp c d'"
      using w(2) by (simp_all add: d' q_def same_rx_def same_resp_def)
    ultimately show ?thesis by blast
  qed
  have q5: "\<not> ok \<and> q c' \<or> (\<exists>b d. uv_write X b OnTlsFinal d = (ok, c') \<and> q d)"
  proof (cases "length data + 2 + 2 * ptls_record_overhead X (the (tls ?c1)) > TLS_WBUF_SIZE \<or> r = None")
    case True
    then have "tls_send_final X data c = (False, ?c1) \<or> tls_send_final X data c = (False, ?c1\<lparr>srv := s\<rparr>)"
      unfolding tls_send_final_def Let_def g prod.case by (elim disjE) simp_all
    then show ?thesis using assms(2) q1 q2(1) by auto
  next
    case False
    then obtain block where r: "r = Some block" by auto
    let ?c2 = "?c1\<lparr>srv := s, tls_wblock := [tls_wseg_open block]\<rparr>"
    obtain ret c3 where c3: "(if data \<noteq> [] then
          let (r, s', buf) = ptls_send_v X (the (tls ?c2)) (seg_buf (last (tls_wblock ?c2))) [data]
          in (r, (set_seg_buf buf ?c2)\<lparr>tls := Some s'\<rparr>) else (0, ?c2)) = (ret, c3)"
      by (metis surj_pair)
    have i3: "q c3" using c3 q2(2) q3 [OF q2(2)] by (auto split: prod.splits if_splits)
    obtain ra t buf where al: "ptls_send_alert X (the (tls c3)) (seg_buf (last (tls_wblock c3))) = (ra, t, buf)"
      by (cases "ptls_send_alert X (the (tls c3)) (seg_buf (last (tls_wblock c3)))")
    have "tls_send_final X data c = (if ret \<noteq> 0 then (False, c3)
        else if ra \<noteq> 0 \<or> pb_data buf = [] then (False, (set_seg_buf buf c3)\<lparr>tls := Some t\<rparr>)
        else uv_write X (uv_buf (pb_data buf)) OnTlsFinal ((set_seg_buf buf c3)\<lparr>tls := Some t\<rparr>))"
      unfolding tls_send_final_def Let_def using False g r c3 [unfolded Let_def] al by simp
    then show ?thesis using assms(2) i3 q3 [OF i3, where buf = buf and t = t] by (auto split: if_splits)
  qed
  then show ?thesis using q4 by (auto simp: q_def)
qed

end
