(* ===== verification/Pipeline.thy ===== *)
theory Pipeline
  imports ConnFrame
begin

text \<open>
  Pipelined requests, on plaintext and on encrypted connections: the dispatch of a complete request, and how
  \<open>on_write\<close> goes on with the bytes behind it.
\<close>

section \<open>Definitions\<close>

text \<open>The connection \<open>on_write\<close> looks at for the next request, when it stays open.\<close>

definition next_request :: "'p conn \<Rightarrow> 'p conn" where
  "next_request c =
     (let b = (if tls c \<noteq> None then tls_release_wbuf c else c)
      in if tls b \<noteq> None then tls_spill_drain (next_turn b) else next_turn b)"

text \<open>The end of \<open>on_write\<close>: dispatch what is buffered, and read on.\<close>

definition after_turn :: "int \<Rightarrow> 'p conn \<Rightarrow> 'p conn" where
  "after_turn r c = (if r < 0 then c else if tls c \<noteq> None then tls_read_flow c
     else if \<not> read_armed c \<and> \<not> in_flight c then uv_read_start (c\<lparr>read_armed := True\<rparr>) else c)"

definition resume_with :: "'p ext \<Rightarrow> 'p conn \<Rightarrow> 'p conn option" where
  "resume_with X c = map_option (\<lambda>(r, c'). after_turn r c')
     (if client_buffered c > 0 then http_dispatch X c else Some (0, c))"

section \<open>The request that is dispatched\<close>

lemma dispatched_rx:
  assumes "buf_ok c" "request_head X (request_bytes c) = Some (r, n)" "request_end r n \<le> length (request_bytes c)"
    "same_rx (dispatched r n c) c'"
  shows "buf_ok c'" "0 < headers_end c'" "headers_end c' + int (content_length c') \<le> client_buffered c'"
    "nat (headers_end c') + content_length c' = request_end r n" "request_bytes c' = request_bytes c"
    "spilled c' = spilled c" "spill_ok c' = spill_ok c" "in_flight c'"
proof -
  have d: "buf_ok (dispatched r n c) = buf_ok c" "request_bytes (dispatched r n c) = request_bytes c"
    "client_buffered (dispatched r n c) = client_buffered c" "spill_ok (dispatched r n c) = spill_ok c"
    by (simp_all add: dispatched_def buf_ok_def request_bytes_def client_buffered_def spill_ok_def split: option.split)
  note i = same_rx_buf [OF assms(4)]
  show b: "buf_ok c'" "request_bytes c' = request_bytes c" "spill_ok c' = spill_ok c" using i d assms(1) by simp_all
  have h: "headers_end c' = int n" "content_length c' = fst (request_params r)"
    using assms(4) by (simp_all add: same_rx_def dispatched_def)
  show "0 < headers_end c'" using request_head_local(1) [OF assms(2)] h by simp
  have "int (request_end r n) \<le> int (length (request_bytes c))" using assms(3) by simp
  also have "\<dots> = client_buffered c'" using length_request_bytes [OF assms(1)] assms(1) i(3) d(3)
    by (simp add: buf_ok_def client_buffered_def)
  finally show "headers_end c' + int (content_length c') \<le> client_buffered c'" using h by (simp add: request_end_def)
  show "nat (headers_end c') + content_length c' = request_end r n" using h by (simp add: request_end_def)
  have "tls_spill c' = tls_spill c" "tls_spill_len c' = tls_spill_len c"
    using assms(4) by (simp_all add: same_rx_def dispatched_def)
  then show "spilled c' = spilled c" unfolding spilled_def by presburger
  show "in_flight c'" using assms(4) by (simp add: same_rx_def dispatched_def)
qed

section \<open>The next request\<close>

lemma drain_frame:
  "same_resp c (tls_spill_drain c) \<and> last_len (tls_spill_drain c) = last_len c \<and> same_conf (srv c) (srv (tls_spill_drain c))
   \<and> (0 < tls_spill_len (tls_spill_drain c) \<longrightarrow> read_off c \<le> 0 \<longrightarrow> read_off (tls_spill_drain c) = read_off c)
   \<and> (0 < tls_spill_len (tls_spill_drain c) \<longrightarrow> 0 < read_off c \<longrightarrow> read_off (tls_spill_drain c) = 0)"
proof -
  have r: "same_resp d (tls_release_spill d) \<and> last_len (tls_release_spill d) = last_len d \<and> same_conf (srv d) (srv (tls_release_spill d))" for d :: "'a conn"
    by (auto simp: tls_release_spill_def same_resp_def spill_put_conf split: option.split)
  have t: "same_resp d (spill_take k d) \<and> last_len (spill_take k d) = last_len d \<and> same_conf (srv d) (srv (spill_take k d))
    \<and> read_off (spill_take k d) = read_off d" for d :: "'a conn" and k
    using r [of "d\<lparr>read_buf := blit (read_buf d) (nat (read_len d)) (take k (snd (the (tls_spill d)))),
        read_len := read_len d + int k, tls_spill_len := tls_spill_len d - int k\<rparr>"]
    by (auto simp: spill_take_def same_resp_def Let_def split: prod.split)
  show ?thesis using t [where d = "if read_off c > 0 then client_compact c else c"]
    by (auto simp: tls_spill_drain_def same_resp_def Let_def)
qed


lemma on_write_continues:
  assumes "0 \<le> status" "keep_alive c"
  shows "on_write X status c = resume_with X (next_request c)"
proof -
  define b where "b = (if tls c \<noteq> None then tls_release_wbuf c else c)"
  define d where "d = (if tls b \<noteq> None then tls_spill_drain (next_turn b) else next_turn b)"
  have t: "tls (next_turn b) = tls b" by (simp add: next_turn_def client_reset_def Let_def)
  have k: "keep_alive b" using assms(2) by (simp add: b_def tls_release_wbuf_def Let_def split: prod.split)
  have "on_write X status c = (case (if client_buffered d > 0 then http_dispatch X d else Some (0, d)) of
      None \<Rightarrow> None
    | Some (r, c5) \<Rightarrow> if r < 0 then Some c5 else if tls c5 \<noteq> None then Some (tls_read_flow c5)
        else if \<not> read_armed c5 \<and> \<not> in_flight c5 then Some (uv_read_start (c5\<lparr>read_armed := True\<rparr>)) else Some c5)"
    using assms(1) k unfolding on_write_def Let_def b_def [symmetric] d_def next_turn_def [symmetric] t by simp
  also have "\<dots> = resume_with X d"
    by (cases "if client_buffered d > 0 then http_dispatch X d else Some (0, d)")
      (auto simp: resume_with_def after_turn_def)
  also have "d = next_request c" by (simp add: d_def b_def next_request_def Let_def)
  finally show ?thesis .
qed

lemma next_turn_stream:
  assumes "buf_ok c" "spill_ok c" "0 < headers_end c" "headers_end c + int (content_length c) \<le> client_buffered c"
  shows "stream (next_turn c) = drop (nat (headers_end c) + content_length c) (stream c)" "spill_ok (next_turn c)"
proof -
  have s: "tls_spill (next_turn c) = tls_spill c" "tls_spill_len (next_turn c) = tls_spill_len c"
    by (simp_all add: next_turn_def client_reset_def Let_def)
  show "spill_ok (next_turn c)" using assms(2) unfolding spill_ok_def s .
  have "nat (headers_end c) + content_length c \<le> length (request_bytes c)"
    using length_request_bytes [OF assms(1)] assms(3,4) by linarith
  moreover have "spilled (next_turn c) = spilled c" unfolding spilled_def s ..
  ultimately show "stream (next_turn c) = drop (nat (headers_end c) + content_length c) (stream c)"
    using next_turn_input(2) [OF assms(1,3,4)] by (simp add: stream_def)
qed

lemma next_request_stream:
  assumes "buf_ok c" "spill_ok c" "0 < headers_end c" "headers_end c + int (content_length c) \<le> client_buffered c"
  shows "stream (next_request c) = drop (nat (headers_end c) + content_length c) (stream c)"
    "buf_ok (next_request c)" "spill_ok (next_request c)" "last_len_ok X (next_request c)" "\<not> in_flight (next_request c)"
proof -
  define b where "b = (if tls c \<noteq> None then tls_release_wbuf c else c)"
  have rx: "same_rx c b" using release_wbuf_frame(1) [of c] by (simp add: b_def)
  have sp: "tls_spill b = tls_spill c" "tls_spill_len b = tls_spill_len c" "headers_end b = headers_end c"
    "content_length b = content_length c" using rx by (simp_all add: same_rx_def)
  have sd: "spilled b = spilled c" unfolding spilled_def sp ..
  have b: "buf_ok b" "spill_ok b" "0 < headers_end b" "headers_end b + int (content_length b) \<le> client_buffered b"
    "stream b = stream c"
    using assms same_rx_buf [OF rx] sp(3,4) sd by (simp_all add: stream_def)
  note n = next_turn_input [OF b(1,3,4)] and ns = next_turn_stream [OF b(1-4)]
  have e: "next_request c = (if tls b \<noteq> None then tls_spill_drain (next_turn b) else next_turn b)"
    by (simp add: next_request_def b_def Let_def)
  note d = drain_stream [OF n(1) ns(2)] and df = drain_frame [of "next_turn b"]
  have "stream (next_request c) = stream (next_turn b)" "last_len (next_request c) = 0"
    using d df n(3) by (simp_all add: e)
  then show "stream (next_request c) = drop (nat (headers_end c) + content_length c) (stream c)"
    "last_len_ok X (next_request c)"
    using ns(1) b(5) sp by (simp_all add: last_len_ok_def)
  show "buf_ok (next_request c)" "spill_ok (next_request c)" "\<not> in_flight (next_request c)"
    using d n(1,4) ns(2) by (simp_all add: e)
qed

text \<open>
  C27. Pipelined requests are served one after the other, each as if it had come alone, on plaintext and
  encrypted connections alike. When the buffered bytes begin with a complete request, that request is parsed
  from its own bytes only; while its response is under way the unconsumed input stays untouched; and when
  the response has been written on a connection that stays open, \<open>on_write\<close> goes on with a connection whose
  input is exactly the bytes that follow the request, drawn in order from the buffer and its overflow.
\<close>

theorem pipeline_in_order:
  assumes "buf_ok c" "spill_ok c" "last_len_ok X c"
    and head: "request_head X (request_bytes c) = Some (r, n)" "request_end r n \<le> length (request_bytes c)"
    and run: "http_dispatch X c = Some (rc, c')"
  shows "rc = 1 \<and> run_app X (dispatched r n c) = Some c' \<and> in_flight c'
    \<and> request_head X (take (request_end r n) (request_bytes c)) = Some (r, n)
    \<and> stream c' = stream c
    \<and> (0 \<le> status \<longrightarrow> keep_alive c' \<longrightarrow> on_write X status c' = resume_with X (next_request c'))
    \<and> stream (next_request c') = drop (request_end r n) (stream c)
    \<and> last_len_ok X (next_request c') \<and> buf_ok (next_request c') \<and> spill_ok (next_request c') \<and> \<not> in_flight (next_request c')"
proof -
  have "http_dispatch X c = map_option (\<lambda>c'. (1, c')) (run_app X (dispatched r n c))"
    using assms(1,3) head by (rule dispatch_complete)
  then have run': "rc = 1" "run_app X (dispatched r n c) = Some c'" using run
    by (cases "run_app X (dispatched r n c)"; simp)+
  note di = dispatched_rx [OF assms(1) head run_app_rx [OF run'(2)]]
  have sp: "spill_ok c'" using di(7) assms(2) by simp
  note nr = next_request_stream [OF di(1) sp di(2,3)]
  have "take (request_end r n) (request_bytes c) = take n (request_bytes c) @ take (fst (request_params r)) (drop n (request_bytes c))"
    by (simp add: request_end_def take_add)
  moreover have "stream c' = stream c" using di(5,6) by (simp add: stream_def)
  ultimately show ?thesis using run' di(4,8) nr on_write_continues [of status c' X] request_head_local(3) [OF head(1)]
    by simp
qed

theorem pipeline_in_order_witness:
  "\<exists>c'. http_dispatch sample_ext sample_arrived = Some (1, c') \<and> in_flight c' \<and> stream (next_request c') = []"
proof -
  have t: "asgi_mode (srv (dispatched sample_request 28 sample_arrived)) = False" "spill_ok sample_arrived"
      "spilled sample_arrived = []"
    by (simp_all add: sample_arrived_def put_read_def sample_conn_def sample_server_def dispatched_def spill_ok_def spilled_def)
  have h: "request_head sample_ext (request_bytes sample_arrived) = Some (sample_request, 28)"
    "request_end sample_request 28 \<le> length (request_bytes sample_arrived)"
    by (simp_all add: sample_arrived(2) sample_head sample_params request_end_def length_sample_bytes)
  obtain c1 where "wsgi_call_application sample_ext (dispatched sample_request 28 sample_arrived) = Some c1"
    using wsgi_raise [of sample_ext] by (auto simp: sample_ext_def)
  then have "run_app sample_ext (dispatched sample_request 28 sample_arrived) = Some c1"
    using t(1) by (simp add: run_app_def)
  then have "http_dispatch sample_ext sample_arrived = Some (1, c1)"
    using dispatch_complete [OF sample_arrived(1,3) h] by simp
  moreover from pipeline_in_order [OF sample_arrived(1) t(2) sample_arrived(3) h this, of 0]
  have "in_flight c1" "stream (next_request c1) = []"
    using t(3) by (simp_all add: sample_arrived(2) length_sample_bytes sample_params request_end_def stream_def)
  ultimately show ?thesis by blast
qed

end
