(* ===== verification/AsgiLife.thy ===== *)
theory AsgiLife
  imports ConnFrame
begin

text \<open>
  What one step of an ASGI application does to its connection: it leaves the connection alone, or it starts
  the one write of a response. The asyncio tasks that are suspended on behalf of a connection are a list of
  continuations; theory \<open>ConnLife\<close> keeps it next to the connection.
\<close>

section \<open>Definitions\<close>

text \<open>The task a dispatch left suspended. In a WSGI server there are none.\<close>

definition new_tasks :: "'p conn \<Rightarrow> asgi_code list" where
  "new_tasks c = (if asgi_mode (srv c) then (case asgi_task c of None \<Rightarrow> [] | Some k \<Rightarrow> [k]) else [])"

definition tasks_after :: "coro_result \<Rightarrow> asgi_code list" where
  "tasks_after r = (case r of CoroYield k \<Rightarrow> [k] | _ \<Rightarrow> [])"

text \<open>Tasks that may still send.\<close>

definition pending :: "asgi_code list \<Rightarrow> asgi_code list" where
  "pending = filter (\<lambda>k. \<not> no_send k)"

text \<open>Applications that send at most one response per request, with bodies a \<open>Py_ssize_t\<close> can measure.\<close>

definition app_sends_once :: "'p ext \<Rightarrow> bool" where
  "app_sends_once X \<longleftrightarrow> (\<forall>scope body. asgi_small (asgi_app X scope body) \<and> sends_once (asgi_app X scope body))"

text \<open>
  \<open>answers k\<close>: on every path \<open>k\<close> gets a response accepted before it ends. \<open>replies k\<close>: the same of every
  path that suspends; one that ends within its first step is answered by the server.
\<close>

fun answers :: "asgi_code \<Rightarrow> bool" where
  "answers (ASend st hs body k1 k2) = answers k2"
| "answers (ASuspend k) = answers k"
| "answers AFinish = False"
| "answers ARaise = False"

fun replies :: "asgi_code \<Rightarrow> bool" where
  "replies (ASend st hs body k1 k2) = replies k2"
| "replies (ASuspend k) = answers k"
| "replies AFinish = True"
| "replies ARaise = True"

definition app_replies :: "'p ext \<Rightarrow> bool" where
  "app_replies X \<longleftrightarrow> (\<forall>scope body. replies (asgi_app X scope body))"

section \<open>A step of a coroutine\<close>

lemma answers_replies: "answers k \<Longrightarrow> replies k"
  by (induction k) auto

lemma no_send_once: "no_send k \<Longrightarrow> sends_once k"
  by (induction k) auto

text \<open>The state of a request nobody has answered yet.\<close>

definition unanswered :: "'p conn \<Rightarrow> bool" where
  "unanswered c \<longleftrightarrow> length (resp_hdr c) = RESP_HDR_SIZE \<and> resp_hdr_len c = 0"

text \<open>The one call of a response was made, and nothing else of the task changed.\<close>

definition answered :: "'p ext \<Rightarrow> 'p conn \<Rightarrow> 'p conn \<Rightarrow> bool" where
  "answered X c c' \<longleftrightarrow> (\<exists>w. response_call X c w \<and> uv c' = uv c @ [w])
     \<and> resp_hdr_len c' \<noteq> 0 \<and> length (resp_hdr c') = RESP_HDR_SIZE \<and> asgi_task c' = asgi_task c"

lemma response_answered:
  assumes "unanswered c" "length hdr = RESP_HDR_SIZE" "n \<noteq> 0"
  shows "answered X c (write_response X (c\<lparr>resp_hdr := hdr, resp_hdr_len := n, resp_body := b\<rparr>))"
proof -
  let ?c = "c\<lparr>resp_hdr := hdr, resp_hdr_len := n, resp_body := b\<rparr>"
  obtain w where "response_call X ?c w" "uv (write_response X ?c) = uv ?c @ [w]" "same_resp ?c (write_response X ?c)"
    using write_response_shape by blast
  then show ?thesis using assms by (auto simp: answered_def same_resp_def response_call_def)
qed

lemma send_500_answered:
  assumes "unanswered c"
  shows "answered X c (send_500_asgi X c)"
proof -
  let ?n = "int (length response_500_asgi)"
  have n: "?n \<noteq> 0" "length response_500_asgi \<le> RESP_HDR_SIZE"
    by (simp_all add: response_500_asgi_def RESP_HDR_SIZE_def)
  have a: "unanswered (c\<lparr>keep_alive := False\<rparr>)" using assms by (simp add: unanswered_def)
  have "length (blit (resp_hdr c) 0 response_500_asgi) = RESP_HDR_SIZE"
    using assms n(2) by (simp add: unanswered_def)
  from response_answered [OF a this n(1), of X None] show ?thesis by (simp add: send_500_asgi_def answered_def response_call_def)
qed

lemma send_answered:
  assumes "unanswered c" "asgi_body_len body < 2 ^ 63" "asgi_send_response_c X st hs body c = (ok, c')"
  shows "if ok then answered X c c' else c' = c"
proof -
  have p: "length (resp_hdr c) = RESP_HDR_SIZE" using assms(1) by (simp add: unanswered_def)
  show ?thesis
  proof (cases rule: asgi_send_cases [OF p assms(2), of X st hs])
    case 1
    then show ?thesis using assms(3) by simp
  next
    case (2 e hl status fs hdr b)
    have "int (length (asgi_head c status fs body)) \<noteq> 0" using asgi_head_pos [of c status fs body] by linarith
    from response_answered [OF assms(1) 2(5) this] show ?thesis using 2(8) assms(3) by simp
  qed
qed

text \<open>A step of code that sends once: it waits on, or it has answered and will not send again.\<close>

lemma coro_step_outcome:
  assumes "unanswered c" "asgi_small k" "sends_once k" "asgi_coro_step X k c = (r, c')"
  shows "(c' = c \<and> list_all (\<lambda>k'. sends_once k' \<and> asgi_small k') (tasks_after r)
        \<and> (replies k \<longrightarrow> list_all answers (tasks_after r)) \<and> (answers k \<longrightarrow> tasks_after r \<noteq> []))
      \<or> (answered X c c' \<and> list_all (\<lambda>k'. no_send k' \<and> asgi_small k') (tasks_after r))"
  using assms
proof (induction k arbitrary: c)
  case (ASend st hs body k1 k2)
  obtain ok c1 where s: "asgi_send_response_c X st hs body c = (ok, c1)" by (cases "asgi_send_response_c X st hs body c")
  have a: "if ok then answered X c c1 else c1 = c" using send_answered [OF ASend.prems(1) _ s] ASend.prems(2) by simp
  show ?case
  proof (cases ok)
    case True
    then have st: "asgi_coro_step X k1 c1 = (r, c')" using ASend.prems(4) s by simp
    have ns: "no_send k1" "asgi_small k1" using ASend.prems(2,3) by simp_all
    have "c' = c1" using coro_step_no_send [OF ns(1) st] .
    moreover have "list_all (\<lambda>k'. no_send k' \<and> asgi_small k') (tasks_after r)"
      using ns st by (cases k1) (auto simp: tasks_after_def)
    ultimately show ?thesis using a True by simp
  next
    case False
    then show ?thesis using ASend.IH(2) [of c] ASend.prems s a by simp
  qed
qed (auto simp: tasks_after_def)

lemma no_send_step:
  assumes "no_send k" "asgi_small k" "asgi_coro_step X k c = (r, c')"
  shows "c' = c" "list_all (\<lambda>k'. no_send k' \<and> asgi_small k') (tasks_after r)"
proof -
  show "c' = c" using coro_step_no_send [OF assms(1,3)] .
  show "list_all (\<lambda>k'. no_send k' \<and> asgi_small k') (tasks_after r)"
    using assms by (cases k) (auto simp: tasks_after_def)
qed

section \<open>A dispatch\<close>

text \<open>
  A request under way: its response is written (or libuv refused the write), and no task will send; or it
  waits for the task that will.
\<close>

definition sent :: "'p ext \<Rightarrow> nat \<Rightarrow> asgi_code list \<Rightarrow> bool" where
  "sent X n ts \<longleftrightarrow> pending ts = [] \<and> n \<le> 1 \<and> ((\<forall>l. uv_write_ok X l) \<longrightarrow> n = 1)"

definition waiting :: "'p ext \<Rightarrow> 'p conn \<Rightarrow> nat \<Rightarrow> asgi_code list \<Rightarrow> bool" where
  "waiting X c n ts \<longleftrightarrow> asgi_mode (srv c) \<and> n = 0 \<and> unanswered c \<and> length (pending ts) \<le> 1 \<and> list_all sends_once ts
     \<and> (app_replies X \<longrightarrow> list_ex answers ts)"

lemma pending_simps [simp]: "pending [] = []" "pending (k # ts) = (if no_send k then pending ts else k # pending ts)"
  "pending (ts @ us) = pending ts @ pending us"
  by (simp_all add: pending_def)

lemma pending_Nil: "pending ts = [] \<longleftrightarrow> list_all no_send ts"
  by (simp add: pending_def list_all_iff filter_empty_conv)

lemma pending_remove1: "pending (remove1 k ts) = (if no_send k then pending ts else remove1 k (pending ts))"
  by (simp add: pending_def filter_remove1)

text \<open>
  A dispatch, seen from the connection: at most one write, and the task it left; or, on an encrypted
  connection that could not write the response, a close.
\<close>

definition started :: "'p ext \<Rightarrow> 'p conn \<Rightarrow> 'p conn \<Rightarrow> bool" where
  "started X c c' \<longleftrightarrow> list_all asgi_small (new_tasks c')
     \<and> ((uv c' = uv c @ [UvClose] \<and> tls c \<noteq> None \<and> pending (new_tasks c') = [])
       \<or> ((uv c' = uv c \<or> (\<exists>d. uv c' = uv c @ [UvWrite d OnWrite (uv_write_ok X (uv c))]))
           \<and> (sent X (owed (uv c') - owed (uv c)) (new_tasks c') \<or> waiting X c' (owed (uv c') - owed (uv c)) (new_tasks c'))))"

lemma started_response:
  assumes "response_call X c w" "uv c' = uv c @ [w]" "pending (new_tasks c') = []" "list_all asgi_small (new_tasks c')"
  shows "started X c c'"
  using assms by (auto simp: started_def response_call_def sent_def)

lemma asgi_dispatch_started:
  assumes "app_sends_once X" "unanswered c" "asgi_task c = None" "asgi_mode (srv c)"
  shows "started X c (asgi_dispatch X c) \<and> length (resp_hdr (asgi_dispatch X c)) = RESP_HDR_SIZE"
proof -
  have m: "asgi_mode (srv (asgi_dispatch X c))" using asgi_rx [of c X] assms(4) by (simp add: same_rx_def same_conf_def)
  have fin: "started X c c' \<and> length (resp_hdr c') = RESP_HDR_SIZE"
    if h: "answered X c1 c'" "uv c1 = uv c" "tls c1 = tls c" "asgi_task c1 = None" for c1 c'
  proof -
    obtain w where w: "response_call X c w" "uv c' = uv c @ [w]" using h(1-3) by (auto simp: answered_def response_call_def)
    have "new_tasks c' = []" using h(1,4) by (simp add: answered_def new_tasks_def)
    then show ?thesis using started_response [OF w] h(1) by (simp add: answered_def)
  qed
  obtain so c1 where b: "build_asgi_scope X c = (so, c1)" by (cases "build_asgi_scope X c")
  have c1: "c1 = c\<lparr>asgi_client_obj := asgi_client_obj c1\<rparr>" using build_asgi_scope_frame [of X c] b by simp
  have u1: "unanswered c1" "uv c1 = uv c" "tls c1 = tls c" "asgi_task c1 = None" "asgi_mode (srv c1)"
    by (subst c1, use assms(2-4) in \<open>simp add: unanswered_def\<close>)+
  let ?c2 = "c1\<lparr>asgi_capsule := True\<rparr>"
  have u2: "unanswered ?c2" "uv ?c2 = uv c" "tls ?c2 = tls c" "asgi_task ?c2 = None" "asgi_mode (srv ?c2)" using u1 by (simp_all add: unanswered_def)
  show ?thesis
  proof (cases "so = None \<or> \<not> body_alloc (py_mem X) \<or> \<not> asgi_capsule c1 \<and> \<not> capsule_alloc (py_mem X)")
    case True
    then have "asgi_dispatch X c = send_500_asgi X c1" using b by (cases so) (auto simp: asgi_dispatch_def)
    then show ?thesis using fin [OF send_500_answered [OF u1(1)] u1(2-4)] by simp
  next
    case False
    then obtain scope where sc: "so = Some scope" by auto
    let ?k = "asgi_app X scope (body_bytes ?c2)"
    obtain r c3 where r: "asgi_coro_step X ?k ?c2 = (r, c3)" by (cases "asgi_coro_step X ?k ?c2")
    have d: "asgi_dispatch X c = (case r of CoroYield k \<Rightarrow> c3\<lparr>asgi_task := Some k\<rparr>
        | _ \<Rightarrow> if resp_hdr_len c3 = 0 then send_500_asgi X c3 else c3)"
      using b sc False r by (cases r) (auto simp: asgi_dispatch_def Let_def)
    have k: "asgi_small ?k" "sends_once ?k" "app_replies X \<longrightarrow> replies ?k"
      using assms(1) by (simp_all add: app_sends_once_def app_replies_def)
    from coro_step_outcome [OF u2(1) k(1,2) r] show ?thesis
    proof
      assume w: "c3 = ?c2 \<and> list_all (\<lambda>k'. sends_once k' \<and> asgi_small k') (tasks_after r)
        \<and> (replies ?k \<longrightarrow> list_all answers (tasks_after r)) \<and> (answers ?k \<longrightarrow> tasks_after r \<noteq> [])"
      show ?thesis
      proof (cases "\<exists>k'. r = CoroYield k'")
        case False
        then have "asgi_dispatch X c = send_500_asgi X c3" using d w u2(1) by (cases r) (auto simp: unanswered_def)
        then show ?thesis using fin [OF send_500_answered [of c3]] w u2 by simp
      next
        case True
        then obtain k' where y: "r = CoroYield k'" by blast
        then have e: "asgi_dispatch X c = ?c2\<lparr>asgi_task := Some k'\<rparr>" using d w by simp
        show ?thesis unfolding e using w y u2 k(3)
          by (auto simp: started_def waiting_def new_tasks_def tasks_after_def unanswered_def)
      qed
    next
      assume s: "answered X ?c2 c3 \<and> list_all (\<lambda>k'. no_send k' \<and> asgi_small k') (tasks_after r)"
      then have n0: "resp_hdr_len c3 \<noteq> 0" by (simp add: answered_def)
      obtain w where w: "response_call X c w" "uv c3 = uv c @ [w]" "asgi_task c3 = None" "length (resp_hdr c3) = RESP_HDR_SIZE"
        using s u2(2-4) by (auto simp: answered_def response_call_def)
      have e: "asgi_dispatch X c = (case r of CoroYield k \<Rightarrow> c3\<lparr>asgi_task := Some k\<rparr> | _ \<Rightarrow> c3)"
        using d n0 by (cases r) simp_all
      have "new_tasks (asgi_dispatch X c) = tasks_after r"
        using m w(3) unfolding e by (cases r) (simp_all add: new_tasks_def tasks_after_def)
      moreover have "pending (tasks_after r) = []" "list_all asgi_small (tasks_after r)"
        using s by (auto simp: pending_Nil list_all_iff)
      moreover have "uv (asgi_dispatch X c) = uv c @ [w]" "resp_hdr (asgi_dispatch X c) = resp_hdr c3"
        using w(2) unfolding e by (cases r; simp)+
      ultimately show ?thesis using started_response [OF w(1)] w(4) by simp
    qed
  qed
qed

lemma wsgi_started:
  assumes "\<not> asgi_mode (srv c)" "wsgi_call_application X c = Some c'"
  shows "started X c c'"
proof -
  obtain w where w: "response_call X c w" "uv c' = uv c @ [w]" "same_rx c c'"
    using wsgi_responded [OF assms(2)] by (auto simp: responded_def)
  have "new_tasks c' = []" using w(3) assms(1) by (simp add: new_tasks_def same_rx_def same_conf_def)
  then show ?thesis using started_response [OF w(1,2)] by simp
qed

end
