(* ===== verification/EndToEnd.thy ===== *)
theory EndToEnd
  imports Pipeline AppRead
begin

text \<open>
  From the client's bytes to the client's answers: the request parser, the dispatcher, the WSGI protocol,
  the formatter and the response parser composed. A client writes requests, one behind the other, the
  server serves them, and the client reads one response for each.
\<close>

section \<open>The client\<close>

text \<open>A request with its body, and a request a client may send: what it announces is what follows.\<close>

definition wire :: "phr_request \<times> bytes \<Rightarrow> bytes" where
  "wire r = render_request (fst r) @ snd r"

definition sendable :: "phr_request \<times> bytes \<Rightarrow> bool" where
  "sendable r \<longleftrightarrow> request_ok MAX_HEADERS (fst r) \<and> named_headers (headers (fst r))
     \<and> fst (request_params (fst r)) = length (snd r)"

lemma wire_head:
  assumes "sendable r"
  shows "request_head X (wire r @ later) = Some (fst r, length (render_request (fst r)))"
    "request_end (fst r) (length (render_request (fst r))) = length (wire r)"
  using assms phr_render [of MAX_HEADERS "fst r" "sse_build X" "snd r @ later"]
  by (simp_all add: sendable_def request_head_def wire_def request_end_def)

section \<open>The server\<close>

text \<open>
  A plaintext connection of a WSGI server, between two requests. What bytes it holds, and how they
  arrived, is left open.
\<close>

definition ready :: "'p ext \<Rightarrow> 'p conn \<Rightarrow> bool" where
  "ready X c \<longleftrightarrow> buf_ok c \<and> last_len_ok X c \<and> tls c = None \<and> \<not> asgi_mode (srv c)
     \<and> resp_status c = None \<and> length (resp_hdr c) = RESP_HDR_SIZE"

text \<open>A connection is ready when it is accepted, and stays so while bytes come in, in whatever pieces.\<close>

lemma accepted_ready:
  assumes "length (read_buf slot) = READ_BUF_ALLOC" "length (resp_hdr slot) = RESP_HDR_SIZE" "\<not> asgi_mode (srv slot)"
  shows "ready X (on_new_connection X False True peer slot) \<and> request_bytes (on_new_connection X False True peer slot) = []"
  using assms
  by (cases peer)
    (auto simp: ready_def buf_ok_def last_len_ok_def on_new_connection_def client_zero_def uv_read_start_def Let_def
      request_bytes_def client_buffered_def)

lemma ready_put_read:
  assumes "ready X c" "int (length data) \<le> int READ_BUF_SIZE - read_len c"
  shows "ready X (put_read data c) \<and> request_bytes (put_read data c) = request_bytes c @ data"
proof -
  note p = put_read_ok [OF _ assms(2)]
  have "last_len_ok X (put_read data c)"
    using assms(1) p(2) by (auto simp: ready_def last_len_ok_def put_read_def [of data c])
  then show ?thesis using assms(1) p by (simp add: ready_def put_read_def)
qed

text \<open>
  The requests \<open>rs\<close> are served from \<open>c\<close> on, in order: the dispatcher hands the application the first one
  with its body, makes one write, the write reads back as what the application answers to this
  request, and when it has completed the callback goes on with a connection that serves the others;
  unless the response closes the connection. In the end nothing is left over.
\<close>

fun served :: "'p ext \<Rightarrow> 'p conn \<Rightarrow> (phr_request \<times> bytes) list \<Rightarrow> bool" where
  "served X c [] \<longleftrightarrow> request_bytes c = []"
| "served X c (r # rs) \<longleftrightarrow>
     (\<exists>c' t q payload.
        http_dispatch X c = Some (1, c')
        \<and> req (dispatched (fst r) (length (render_request (fst r))) c) = Some (fst r)
        \<and> body_bytes (dispatched (fst r) (length (render_request (fst r))) c) = snd r
        \<and> uv c' = uv c @ [UvWrite t OnWrite (uv_write_ok X (uv c))]
        \<and> reads_back t q payload
        \<and> wsgi_answer X (dispatched (fst r) (length (render_request (fst r))) c) q payload
        \<and> (keep_alive c' \<longrightarrow> on_write X 0 c' = resume_with X (next_request c') \<and> served X (next_request c') rs))"

lemma request_served:
  assumes "ready X c" "sendable r" "request_bytes c = wire r @ later" "\<forall>env. benign (wsgi_app X env)"
    and small: "\<forall>d body c3. wsgi_run X d = (Some body, c3) \<longrightarrow> length (bytes_of body) < 2 ^ 32"
  defines "d \<equiv> dispatched (fst r) (length (render_request (fst r))) c"
  obtains c' t q payload where "http_dispatch X c = Some (1, c')" "body_bytes d = snd r"
    "uv c' = uv c @ [UvWrite t OnWrite (uv_write_ok X (uv c))]" "reads_back t q payload" "wsgi_answer X d q payload"
    "keep_alive c' \<longrightarrow> on_write X 0 c' = resume_with X (next_request c')"
    "ready X (next_request c')" "request_bytes (next_request c') = later"
proof -
  note rd = assms(1) [unfolded ready_def]
  let ?n = "length (render_request (fst r))"
  have head: "request_head X (request_bytes c) = Some (fst r, ?n)"
    "request_end (fst r) ?n \<le> length (request_bytes c)"
    using wire_head [OF assms(2)] assms(3) by simp_all
  have d: "channel X opens d" "resp_status d = None" "length (resp_hdr d) = RESP_HDR_SIZE" "tls d = None" "uv d = uv c"
    "srv d = srv c" for opens
    using rd by (simp_all add: d_def dispatched_def channel_def)
  obtain c' t q payload where a: "wsgi_call_application X d = Some c'" "delivers X (\<lambda>s ct pt s'. True) d t c'"
    "reads_back t q payload" "wsgi_answer X d q payload" "length (resp_hdr c') = RESP_HDR_SIZE"
    using wsgi_answered [OF assms(4) d(1-3), where opens = "\<lambda>s ct pt s'. True"] small by blast
  then have run: "run_app X d = Some c'" using rd d(6) by (simp add: run_app_def)
  have h: "http_dispatch X c = Some (1, c')"
    using dispatch_complete [OF _ _ head] rd run by (simp add: d_def)
  have rx: "same_rx d c'" using run by (rule run_app_rx)
  note di = dispatched_rx [OF _ head rx [unfolded d_def]]
  have b: "buf_ok c'" "0 < headers_end c'" "headers_end c' + int (content_length c') \<le> client_buffered c'"
    "nat (headers_end c') + content_length c' = length (wire r)" "request_bytes c' = request_bytes c"
    using di(1-5) rd wire_head(2) [OF assms(2)] by simp_all
  have t: "tls c' = None" "asgi_mode (srv c') = asgi_mode (srv c)"
    using rx d(4,6) by (simp_all add: same_rx_def same_conf_def)
  then have nx: "next_request c' = next_turn c'" by (simp add: next_request_def Let_def)
  note nt = next_turn_input [OF b(1-3)]
  have "ready X (next_turn c')"
    using nt t a(5) rd by (simp add: ready_def last_len_ok_def) (simp add: next_turn_def client_reset_def Let_def)
  moreover have "request_bytes (next_turn c') = later" using nt(2) b(4,5) assms(3) by simp
  moreover have "body_bytes d = snd r"
    using body_bytes_dispatched [of c ?n "fst r"] head rd assms(2,3)
    by (simp add: d_def sendable_def wire_def)
  ultimately show thesis
    using that [OF h] a on_write_continues [of 0 c' X] d(4,5) nx by (auto simp: delivers_def)
qed

text \<open>
  C3. From request to response. A client sends requests of its own, each with the body it announces, on
  a plaintext connection to a WSGI server, all at once or in any pieces. The server hands the
  application exactly these requests with exactly these bodies, one after the other; for each it makes
  one write, and what is written reads back, by an independent parser, as the status, the headers and
  the body the application gave for that request. No byte of one request or response gets into
  another, and none is left when all have been served.
\<close>

theorem requests_to_responses:
  assumes "ready X c" "\<forall>r \<in> set rs. sendable r" "request_bytes c = concat (map wire rs)"
    and "\<forall>env. benign (wsgi_app X env)"
    and "\<forall>d body c3. wsgi_run X d = (Some body, c3) \<longrightarrow> length (bytes_of body) < 2 ^ 32"
  shows "served X c rs"
  using assms(1-3)
proof (induction rs arbitrary: c)
  case (Cons r rs)
  have "sendable r" "request_bytes c = wire r @ concat (map wire rs)" using Cons.prems by simp_all
  from request_served [OF Cons.prems(1) this assms(4,5)] obtain c' t q payload where
    s: "http_dispatch X c = Some (1, c')" "body_bytes (dispatched (fst r) (length (render_request (fst r))) c) = snd r"
      "uv c' = uv c @ [UvWrite t OnWrite (uv_write_ok X (uv c))]" "reads_back t q payload"
      "wsgi_answer X (dispatched (fst r) (length (render_request (fst r))) c) q payload"
      "keep_alive c' \<longrightarrow> on_write X 0 c' = resume_with X (next_request c')"
      "ready X (next_request c')" "request_bytes (next_request c') = concat (map wire rs)" .
  have "req (dispatched (fst r) (length (render_request (fst r))) c) = Some (fst r)" by (simp add: dispatched_def)
  moreover have "served X (next_request c') rs" using Cons s(7,8) by simp
  ultimately show ?case unfolding served.simps using s(1-6) by blast
qed simp

text \<open>Two pipelined requests, the second with a body, and an application that answers \<open>hi\<close>.\<close>

definition post_request :: phr_request where
  "post_request = \<lparr>req_method = ''POST'', path = ''/b'', minor_version = 1,
     headers = [\<lparr>hname = Some ''Content-Length'', hvalue = ''2''\<rparr>, \<lparr>hname = Some ''Connection'', hvalue = ''close''\<rparr>]\<rparr>"

definition two_requests :: "(phr_request \<times> bytes) list" where
  "two_requests = [(sample_request, []), (post_request, ''xy'')]"

definition two_arrived :: "nat conn" where
  "two_arrived = put_read (concat (map wire two_requests)) sample_conn"

lemma two_sendable: "\<forall>r \<in> set two_requests. sendable r"
proof -
  have "request_ok MAX_HEADERS sample_request" "request_ok MAX_HEADERS post_request" by code_simp+
  moreover have "named_headers (headers sample_request)" "named_headers (headers post_request)" by code_simp+
  moreover have "fst (request_params post_request) = 2"
    by (simp add: request_params_def post_request_def scan_header_def name_bytes_def is_name_def strtoul_def
        c_isspace_def c_isdigit_def size_t_max_def strncasecmp_eq_def ascii_lower_def eq_delim char_of_def bit_iff_odd)
  ultimately show ?thesis using sample_params by (simp add: two_requests_def sendable_def)
qed

lemma two_ready: "ready (ext_running ok_app) two_arrived" "request_bytes two_arrived = concat (map wire two_requests)"
proof -
  have "length (concat (map wire two_requests)) = 88" by code_simp
  then have l: "int (length (concat (map wire two_requests))) \<le> int READ_BUF_SIZE - read_len (sample_conn :: nat conn)"
    by (simp add: sample_conn_def sizes)
  have z: "request_bytes (sample_conn :: nat conn) = []"
    by (simp add: request_bytes_def sample_conn_def client_buffered_def)
  note p = put_read_ok [OF sample_conn_ok(1) l]
  show "request_bytes two_arrived = concat (map wire two_requests)" unfolding two_arrived_def using p(2) z by simp
  have "last_len_ok (ext_running ok_app) two_arrived"
    by (simp add: last_len_ok_def two_arrived_def put_read_def sample_conn_def)
  moreover have "tls two_arrived = None" "\<not> asgi_mode (srv two_arrived)" "resp_status two_arrived = None"
    "length (resp_hdr two_arrived) = RESP_HDR_SIZE"
    by (simp_all add: two_arrived_def put_read_def sample_conn_def sample_server_def)
  ultimately show "ready (ext_running ok_app) two_arrived"
    unfolding ready_def using p(1) by (simp add: two_arrived_def)
qed

lemma ok_app_body:
  assumes "wsgi_run (ext_running ok_app) d = (Some body, c3)"
  shows "body = PyBytes True ''hi''"
proof -
  have "fst (collect_body (ext_running ok_app) (PyList True [PyBytes True ''hi'']) c) = Some (PyBytes True ''hi'')" for c
    by (simp add: collect_body_def)
  with assms show ?thesis
    by (auto simp: wsgi_run_def ext_running_def ok_app_def sample_ext_def split: option.splits prod.splits if_splits)
      (metis fst_conv option.inject)+
qed

theorem requests_to_responses_witness:
  "served (ext_running ok_app) two_arrived two_requests"
proof -
  have "\<forall>env. benign (wsgi_app (ext_running ok_app) env)"
    using status_200 by (auto simp: ext_running_def ok_app_def args_small_def copyable_def)
  moreover have "\<forall>d body c3. wsgi_run (ext_running ok_app) d = (Some body, c3) \<longrightarrow> length (bytes_of body) < 2 ^ 32"
    using ok_app_body by fastforce
  ultimately show ?thesis using two_ready two_sendable by (intro requests_to_responses)
qed

end
