(* ===== verification/ConnTurn.thy ===== *)
theory ConnTurn
  imports AsgiLife Pipeline
begin

text \<open>
  The turns of a connection: what a callback of \<^verbatim>\<open>freastal/src/server.c\<close> does to the invariant of the connection's
  life (theory \<open>ConnLife\<close>). The invariant, and for the dispatcher, the flow control of \<open>read_tail\<close> and
  \<open>tls_read_flow\<close>, the reads of an encrypted connection with its handshake, and the ways a connection ends, a
  lemma each. \<open>turn_ok\<close> is about callbacks that find no request under way, \<open>kept\<close> about those that find one.
\<close>

section \<open>The invariant\<close>

type_synonym 'p life = "'p conn \<times> nat \<times> nat \<times> asgi_code list"

text \<open>The response writes and the farewells a callback started.\<close>

abbreviation owes :: "'p conn \<Rightarrow> 'p conn \<Rightarrow> nat" where
  "owes c c' \<equiv> owed (uv c') - owed (uv c)"

abbreviation ends :: "'p conn \<Rightarrow> 'p conn \<Rightarrow> nat" where
  "ends c c' \<equiv> finals (uv c') - finals (uv c)"

text \<open>What holds in every state: \<open>S\<close> is the server the connection was accepted with.\<close>

definition core_ok :: "'p ext \<Rightarrow> server \<Rightarrow> 'p conn \<Rightarrow> bool" where
  "core_ok X S c \<longleftrightarrow> buf_ok c \<and> spill_ok c \<and> (tls c = None \<longrightarrow> tls_spill_len c = 0) \<and> same_conf S (srv c)
     \<and> (asgi_mode (srv c) \<longrightarrow> app_sends_once X \<and> length (resp_hdr c) = RESP_HDR_SIZE)"

text \<open>No request is under way.\<close>

definition idle_ok :: "'p ext \<Rightarrow> 'p conn \<Rightarrow> bool" where
  "idle_ok X c \<longleftrightarrow> \<not> in_flight c \<and> last_len_ok X c \<and> (asgi_mode (srv c) \<longrightarrow> resp_hdr_len c = 0 \<and> asgi_task c = None)"

text \<open>A request is under way, and its bytes are in the buffer.\<close>

definition busy_ok :: "'p conn \<Rightarrow> bool" where
  "busy_ok c \<longleftrightarrow> in_flight c \<and> 0 < headers_end c \<and> headers_end c + int (content_length c) \<le> client_buffered c"

text \<open>A read that is armed while a request is under way has room, and nothing waits in the overflow.\<close>

definition armed_ok :: "'p conn \<Rightarrow> bool" where
  "armed_ok c \<longleftrightarrow> read_armed c \<longrightarrow> read_len c < int READ_BUF_SIZE \<and> tls_spill_len c = 0"

definition open_inv :: "'p ext \<Rightarrow> 'p conn \<Rightarrow> nat \<Rightarrow> asgi_code list \<Rightarrow> bool" where
  "open_inv X c n ts \<longleftrightarrow>
     (if in_flight c then (sent X n ts \<or> waiting X c n ts) \<and> busy_ok c \<and> armed_ok c
      else n = 0 \<and> pending ts = [] \<and> idle_ok X c \<and> read_armed c \<and> tls_spill_len c = 0)"

definition conn_inv :: "'p ext \<Rightarrow> server \<Rightarrow> 'p life \<Rightarrow> bool" where
  "conn_inv X S s \<longleftrightarrow> (case s of (c, n, f, ts) \<Rightarrow>
     core_ok X S c \<and> list_all asgi_small ts
     \<and> (if UvClose \<in> set (uv c) then n = 0 \<and> f = 0 \<and> pending ts = [] \<and> count_list (uv c) UvClose = 1
        else if f \<noteq> 0 then f = 1 \<and> n = 0 \<and> pending ts = [] \<and> \<not> read_armed c
        else open_inv X c n ts))"

text \<open>A callback that found no request under way, and \<open>u\<close> as the log of calls, ended well.\<close>

definition turn_ok :: "'p ext \<Rightarrow> server \<Rightarrow> uv_call list \<Rightarrow> asgi_code list \<Rightarrow> 'p conn \<Rightarrow> bool" where
  "turn_ok X S u ts c' \<longleftrightarrow> conn_inv X S (c', owed (uv c') - owed u, finals (uv c') - finals u, ts @ new_tasks c')"

section \<open>Updates the invariant does not see\<close>

lemma core_upd [simp]:
  "core_ok X S (c\<lparr>uv := l\<rparr>) = core_ok X S c" "core_ok X S (c\<lparr>read_armed := b\<rparr>) = core_ok X S c"
  "core_ok X S (c\<lparr>keep_alive := b\<rparr>) = core_ok X S c" "core_ok X S (c\<lparr>tls_broken := b\<rparr>) = core_ok X S c"
  "core_ok X S (c\<lparr>tls_hs_done := b\<rparr>) = core_ok X S c" "core_ok X S (c\<lparr>req := q\<rparr>) = core_ok X S c"
  "core_ok X S (c\<lparr>last_len := i\<rparr>) = core_ok X S c" "core_ok X S (client_clear_conn_cache c) = core_ok X S c"
  "core_ok X S (c\<lparr>resp_status := a, resp_pyheaders := h, resp_body := d\<rparr>) = core_ok X S c"
  "core_ok X S (c\<lparr>resp_status := a, resp_pyheaders := h, resp_body := d, asgi_task := t\<rparr>) = core_ok X S c"
  by (simp_all add: core_ok_def buf_ok_def spill_ok_def client_clear_conn_cache_def split: option.split)

lemma core_cong:
  assumes "read_off d = read_off c" "read_len d = read_len c" "read_buf d = read_buf c" "tls_spill d = tls_spill c"
    "tls_spill_len d = tls_spill_len c" "tls d = tls c" "srv d = srv c" "resp_hdr d = resp_hdr c"
  shows "core_ok X S d = core_ok X S c"
  using assms by (simp add: core_ok_def buf_ok_def spill_ok_def split: option.split)

lemma idle_upd [simp]:
  "idle_ok X (c\<lparr>uv := l\<rparr>) = idle_ok X c" "idle_ok X (c\<lparr>read_armed := b\<rparr>) = idle_ok X c"
  "idle_ok X (c\<lparr>tls_hs_done := b\<rparr>) = idle_ok X c"
  by (simp_all add: idle_ok_def last_len_ok_def request_bytes_def client_buffered_def)

lemma busy_upd [simp]:
  "busy_ok (c\<lparr>uv := l\<rparr>) = busy_ok c" "busy_ok (c\<lparr>read_armed := b\<rparr>) = busy_ok c"
  "busy_ok (c\<lparr>keep_alive := b\<rparr>) = busy_ok c" "busy_ok (c\<lparr>tls_broken := b\<rparr>) = busy_ok c"
  "busy_ok (c\<lparr>tls_hs_done := b\<rparr>) = busy_ok c" "armed_ok (c\<lparr>uv := l\<rparr>) = armed_ok c"
  "armed_ok (c\<lparr>tls_hs_done := b\<rparr>) = armed_ok c"
  by (simp_all add: busy_ok_def armed_ok_def client_buffered_def)

lemma tasks_upd [simp]:
  "new_tasks (c\<lparr>uv := l\<rparr>) = new_tasks c" "new_tasks (c\<lparr>req := q\<rparr>) = new_tasks c" "new_tasks (c\<lparr>read_armed := b\<rparr>) = new_tasks c"
  "waiting X (c\<lparr>uv := l\<rparr>) n ts = waiting X c n ts" "waiting X (c\<lparr>read_armed := b\<rparr>) n ts = waiting X c n ts"
  by (simp_all add: new_tasks_def waiting_def unanswered_def)

lemma core_rx: "same_rx c c' \<Longrightarrow> length (resp_hdr c') = length (resp_hdr c) \<Longrightarrow> core_ok X S c \<Longrightarrow> core_ok X S c'"
proof -
  assume a: "same_rx c c'" "length (resp_hdr c') = length (resp_hdr c)" "core_ok X S c"
  have "same_conf (srv c) (srv c')" "tls c' = None \<longleftrightarrow> tls c = None" "tls_spill_len c' = tls_spill_len c"
    using a(1) by (simp_all add: same_rx_def)
  moreover from this have "same_conf S (srv c')" "asgi_mode (srv c') = asgi_mode (srv c)"
    using a(3) same_conf_trans same_conf_mode by (auto simp: core_ok_def)
  ultimately show ?thesis using a(2,3) same_rx_buf(1,4) [OF a(1)] by (simp add: core_ok_def)
qed

lemma rx_keeps:
  assumes "same_rx c c'"
  shows "busy_ok c' = busy_ok c" "armed_ok c' = armed_ok c"
    "same_resp c c' \<Longrightarrow> core_ok X S c \<Longrightarrow> core_ok X S c'" "same_resp c c' \<Longrightarrow> idle_ok X c' = idle_ok X c"
    "same_resp c c' \<Longrightarrow> new_tasks c' = new_tasks c" "same_resp c c' \<Longrightarrow> waiting X c' n ts = waiting X c n ts"
proof -
  have f: "in_flight c' = in_flight c" "headers_end c' = headers_end c" "content_length c' = content_length c"
    "read_armed c' = read_armed c" "read_len c' = read_len c" "tls_spill_len c' = tls_spill_len c" "last_len c' = last_len c"
    "asgi_mode (srv c') = asgi_mode (srv c)"
    using assms by (simp_all add: same_rx_def same_conf_def)
  note b = same_rx_buf(2,3) [OF assms]
  show "busy_ok c' = busy_ok c" "armed_ok c' = armed_ok c" using f b by (simp_all add: busy_ok_def armed_ok_def)
  assume r: "same_resp c c'"
  then show "core_ok X S c \<Longrightarrow> core_ok X S c'" using core_rx [OF assms] by (simp add: same_resp_def)
  show "idle_ok X c' = idle_ok X c" "new_tasks c' = new_tasks c" "waiting X c' n ts = waiting X c n ts"
    using f b r by (simp_all add: idle_ok_def last_len_ok_def new_tasks_def waiting_def unanswered_def same_resp_def)
qed

lemma idle_no_task: "idle_ok X c \<Longrightarrow> new_tasks c = []"
  by (simp add: idle_ok_def new_tasks_def)

section \<open>How a turn ends\<close>

text \<open>It closed the handle, or left that to the completion of the farewell.\<close>

definition ended :: "uv_call list \<Rightarrow> 'p conn \<Rightarrow> bool" where
  "ended u c' \<longleftrightarrow> new_tasks c' = [] \<and> (\<exists>l. quiet l \<and> ((uv c' = u @ l @ [UvClose] \<and> finals l = 0)
     \<or> (uv c' = u @ l \<and> finals l = 1 \<and> \<not> read_armed c')))"

lemma ended_turn:
  assumes "ended u c'" "core_ok X S c'" "UvClose \<notin> set u" "pending ts = []" "list_all asgi_small ts"
  shows "turn_ok X S u ts c'"
  using assms by (auto simp: ended_def turn_ok_def conn_inv_def quiet_def count_list_0_iff)

lemma ended_close: "quiet l \<Longrightarrow> finals l = 0 \<Longrightarrow> new_tasks c = [] \<Longrightarrow> uv c = u @ l \<Longrightarrow> ended u (uv_close c)"
  by (auto simp: ended_def uv_close_def)

lemma ended_final:
  assumes "tls c \<noteq> None" "tls_send_final X data c = (ok, c')" "core_ok X S c" "new_tasks c = []"
  shows "ended (uv c) (if ok then c' else uv_close c') \<and> core_ok X S (if ok then c' else uv_close c')"
proof -
  obtain l where l: "uv c' = uv c @ l" "quiet l" "finals l = (if ok then 1 else 0)"
    and rx: "same_rx (c\<lparr>read_armed := False\<rparr>) c'" "same_resp c c'"
    using send_final_frame [OF assms(1,2)] by blast
  have rs: "same_resp (c\<lparr>read_armed := False\<rparr>) c'" using rx(2) by (simp add: same_resp_def)
  note k = rx_keeps [OF rx(1)]
  have "new_tasks c' = []" "\<not> read_armed c'" using k(5) [OF rs] assms(4) rx(1) by (simp_all add: same_rx_def)
  moreover have "core_ok X S c'" using k(3) [OF rs] assms(3) by simp
  ultimately show ?thesis using l by (auto simp: ended_def uv_close_def)
qed

text \<open>A request was started; its read may have been stopped or started since.\<close>

lemma started_turn:
  assumes "started X c c2" "core_ok X S c2" "busy_ok c2" "UvClose \<notin> set (uv c)" "pending ts = []" "list_all asgi_small ts"
    and c': "c' = c2\<lparr>read_armed := b, uv := uv c2 @ l\<rparr>" "quiet l" "finals l = 0" "UvClose \<notin> set (uv c2) \<Longrightarrow> armed_ok c'"
  shows "turn_ok X S (uv c) ts c'"
proof -
  have c: "core_ok X S c'" "busy_ok c'" "new_tasks c' = new_tasks c2" "list_all asgi_small (ts @ new_tasks c2)"
    using assms by (simp_all add: started_def)
  have so: "sent X n us \<Longrightarrow> sent X n (ts @ us)" for n us using assms(5) by (simp add: sent_def)
  have "list_all sends_once ts" using assms(5) no_send_once by (auto simp: pending_Nil list_all_iff)
  then have wo: "waiting X c2 n us \<Longrightarrow> waiting X c2 n (ts @ us)" for n us using assms(5) by (auto simp: waiting_def)
  have w: "waiting X c' n us = waiting X c2 n us" for n us by (simp add: c'(1))
  have i: "in_flight c'" using c(2) by (simp add: busy_ok_def)
  consider "uv c2 = uv c @ [UvClose]" "pending (new_tasks c2) = []"
    | "uv c2 = uv c \<or> (\<exists>d. uv c2 = uv c @ [UvWrite d OnWrite (uv_write_ok X (uv c))])"
      "sent X (owed (uv c2) - owed (uv c)) (new_tasks c2) \<or> waiting X c2 (owed (uv c2) - owed (uv c)) (new_tasks c2)"
    using assms(1) by (auto simp: started_def)
  then show ?thesis
  proof cases
    case 1
    then show ?thesis using c assms c' by (simp add: turn_ok_def conn_inv_def quiet_def count_list_0_iff)
  next
    case 2
    have "UvClose \<notin> set (uv c2)" using 2(1) assms(4) by auto
    note ao = c'(4) [OF this]
    have u: "UvClose \<notin> set (uv c')" "finals (uv c') = finals (uv c)" "owed (uv c') = owed (uv c2)"
      using 2(1) assms(4) c' by (auto simp: quiet_def)
    then show ?thesis using 2(2) so wo w i c ao by (auto simp: turn_ok_def conn_inv_def open_inv_def)
  qed
qed

lemma idle_turn:
  assumes "core_ok X S c2" "idle_ok X c2" "UvClose \<notin> set (uv c2)" "pending ts = []" "list_all asgi_small ts"
    "tls_spill_len c2 = 0" "quiet l" "finals l = 0"
  shows "turn_ok X S (uv c2) ts (c2\<lparr>read_armed := True, uv := uv c2 @ l\<rparr>)"
  using assms idle_no_task [OF assms(2)]
  by (auto simp: turn_ok_def conn_inv_def open_inv_def quiet_def idle_ok_def [of X c2])


section \<open>Dispatch\<close>

text \<open>The outcomes of a dispatch, or of finding nothing to dispatch.\<close>

definition same_room :: "'p conn \<Rightarrow> 'p conn \<Rightarrow> bool" where
  "same_room c c' \<longleftrightarrow> read_armed c' = read_armed c \<and> read_off c' = read_off c \<and> read_len c' = read_len c
     \<and> tls_spill_len c' = tls_spill_len c \<and> (tls c' = None \<longleftrightarrow> tls c = None)"

definition outcome :: "'p ext \<Rightarrow> server \<Rightarrow> 'p conn \<Rightarrow> int \<Rightarrow> 'p conn \<Rightarrow> bool" where
  "outcome X S c r c' \<longleftrightarrow> core_ok X S c' \<and>
     ((r < 0 \<and> ended (uv c) c') \<or> (r = 0 \<and> same_room c c' \<and> idle_ok X c' \<and> uv c' = uv c)
      \<or> (r = 1 \<and> same_room c c' \<and> busy_ok c' \<and> started X c c'))"

lemma idle_outcome: "core_ok X S c \<Longrightarrow> idle_ok X c \<Longrightarrow> outcome X S c 0 c"
  by (simp add: outcome_def same_room_def)

lemma rx_room: "same_rx c c' \<Longrightarrow> same_room c c'"
  by (simp add: same_rx_def same_room_def)

lemma partial_outcome:
  assumes c: "core_ok X S c" "idle_ok X c" and p: "phr_parse_request (sse_build X) MAX_HEADERS (request_bytes c) (nat (last_len c)) = Inl Partial"
  shows "outcome X S c 0 (c\<lparr>req := None, last_len := client_buffered c\<rparr>)"
proof -
  let ?d = "c\<lparr>req := None, last_len := client_buffered c\<rparr>"
  have b: "buf_ok c" "last_len_ok X c" using c by (simp_all add: core_ok_def idle_ok_def)
  have "request_head X (request_bytes c) = None"
    using p last_len_head [OF b(2)] by (cases "request_head X (request_bytes c)") auto
  moreover have "request_bytes ?d = request_bytes c" by (simp add: request_bytes_def client_buffered_def)
  moreover have "0 \<le> client_buffered c" using b(1) by (simp add: buf_ok_def client_buffered_def)
  ultimately have "last_len_ok X ?d" using length_request_bytes [OF b(1)] by (simp add: last_len_ok_def)
  moreover have "core_ok X S ?d" using c(1) core_cong [of ?d c] by simp
  ultimately show ?thesis using c(2) by (simp add: outcome_def same_room_def idle_ok_def)
qed

lemma bad_outcome:
  assumes c: "core_ok X S c" "idle_ok X c" and p: "phr_parse_request (sse_build X) MAX_HEADERS (request_bytes c) (nat (last_len c)) = Inl Failed"
    and run: "http_dispatch X c = Some (r, c')"
  shows "outcome X S c r c'"
proof -
  let ?d = "c\<lparr>req := None\<rparr>"
  have d: "core_ok X S ?d" "new_tasks ?d = []" using c by (simp_all add: new_tasks_def idle_ok_def)
  obtain ok c2 where f: "tls_send_final X bad_req ?d = (ok, c2)" by (cases "tls_send_final X bad_req ?d")
  have "r = -1" and e: "c' = (if tls c \<noteq> None then
        (if \<not> tls_hs_done c then uv_close ?d else if ok then c2 else uv_close c2)
      else uv_close (snd (uv_write X bad_req NoCb ?d)))"
    using run p f by (auto simp: http_dispatch_def Let_def)
  moreover have "ended (uv c) c' \<and> core_ok X S c'"
  proof (cases "tls c \<noteq> None \<and> tls_hs_done c")
    case True
    then have "tls ?d \<noteq> None" by simp
    from ended_final [OF this f d] show ?thesis using e True by simp
  next
    case False
    have "ended (uv c) (uv_close ?d)" "ended (uv c) (uv_close (snd (uv_write X bad_req NoCb ?d)))"
      using ended_close [of "[]" ?d "uv c"] ended_close [of "[UvWrite bad_req NoCb (uv_write_ok X (uv c))]" "snd (uv_write X bad_req NoCb ?d)" "uv c"]
        d(2) by (simp_all add: quiet_def uv_write_def Let_def)
    then show ?thesis using e False d(1) by (auto simp: uv_close_def uv_write_def Let_def)
  qed
  ultimately show ?thesis by (simp add: outcome_def)
qed

lemma dispatch_outcome:
  assumes c: "core_ok X S c" "idle_ok X c" and run: "http_dispatch X c = Some (r, c')"
  shows "outcome X S c r c'"
proof -
  have b: "buf_ok c" "last_len_ok X c" "\<not> in_flight c" using c by (simp_all add: core_ok_def idle_ok_def)
  show ?thesis
  proof (cases rule: http_dispatch_cases [OF b(1), of X])
    case 1
    then show ?thesis using partial_outcome [OF c] run by simp
  next
    case (2 e)
    then show ?thesis using bad_outcome [OF c _ run] by simp
  next
    case (3 q n)
    then have d: "r = 0" "c' = (dispatched q n c)\<lparr>in_flight := in_flight c\<rparr>" using run by simp_all
    have "request_bytes c' = request_bytes c" by (simp add: d dispatched_def request_bytes_def client_buffered_def)
    then have "last_len_ok X c'" using b(2) by (simp add: last_len_ok_def d dispatched_def)
    moreover have "core_ok X S c'" using c(1) core_cong [of c' c] by (simp add: d dispatched_def)
    moreover have "\<not> in_flight c'" "resp_hdr_len c' = resp_hdr_len c" "asgi_task c' = asgi_task c" "srv c' = srv c"
      using b(3) by (simp_all add: d dispatched_def)
    ultimately have "core_ok X S c'" "idle_ok X c'" using c(2) by (simp_all add: idle_ok_def)
    then show ?thesis using d by (simp add: outcome_def same_room_def dispatched_def)
  next
    case (4 q n)
    let ?c = "dispatched q n c"
    have w: "r = 1" "run_app X ?c = Some c'" using run 4(3) by (cases "run_app X ?c"; simp)+
    have t: "srv ?c = srv c" "uv ?c = uv c" "tls ?c = tls c" "resp_hdr ?c = resp_hdr c" by (simp_all add: dispatched_def)
    have i: "same_rx ?c c'" using run_app_rx [OF w(2)] .
    have k: "core_ok X S ?c" using c(1) core_cong [of ?c c] by (simp add: dispatched_def)
    have "request_head X (request_bytes c) = Some (q, n)" using 4(1) last_len_head [OF b(2)] by blast
    note di = dispatched_rx [OF b(1) this 4(2) i]
    have "in_flight c'" using i by (simp add: same_rx_def dispatched_def)
    then have "busy_ok c'" using di by (simp add: busy_ok_def)
    moreover have "same_room c c'" using i by (simp add: same_room_def same_rx_def dispatched_def)
    moreover have "started X c c' \<and> core_ok X S c'"
    proof (cases "asgi_mode (srv c)")
      case True
      then have u: "unanswered ?c" "asgi_task ?c = None" "app_sends_once X" "length (resp_hdr c) = RESP_HDR_SIZE"
        using c by (simp_all add: unanswered_def dispatched_def idle_ok_def core_ok_def)
      have "c' = asgi_dispatch X ?c" using w(2) True t(1) by (simp add: run_app_def)
      then have s: "started X ?c c'" "length (resp_hdr c') = RESP_HDR_SIZE"
        using asgi_dispatch_started [OF u(3,1,2)] True t(1) by simp_all
      then show ?thesis using core_rx [OF i _ k] t u(4) by (simp add: started_def)
    next
      case False
      then have "started X ?c c'" using wsgi_started [of ?c X c'] w(2) t(1) by (simp add: run_app_def)
      moreover have "core_ok X S c'"
      proof -
        have "core_ok X S (c'\<lparr>resp_hdr := resp_hdr ?c\<rparr>)"
          by (rule core_rx [OF _ _ k]) (use i in \<open>simp_all add: same_rx_def\<close>)
        moreover have "\<not> asgi_mode (srv c')" using i False t(1) by (simp add: same_rx_def same_conf_def)
        ultimately show ?thesis by (simp add: core_ok_def buf_ok_def spill_ok_def split: option.splits prod.splits)
      qed
      ultimately show ?thesis using t by (simp add: started_def)
    qed
    ultimately show ?thesis using w(1) by (simp add: outcome_def)
  qed
qed

section \<open>What follows a dispatch\<close>

lemma tail_shape: "read_tail c = c\<lparr>read_armed := read_armed (read_tail c), uv := uv c @ (if read_len c \<ge> int READ_BUF_SIZE \<and> in_flight c then [UvReadStop] else [])\<rparr>"
  by (simp add: read_tail_def uv_read_stop_def)

lemma tail_armed: "read_armed (read_tail c) \<longleftrightarrow> read_armed c \<and> \<not> (read_len c \<ge> int READ_BUF_SIZE \<and> in_flight c)"
  by (auto simp: read_tail_def uv_read_stop_def)

lemma tail_keeps:
  "core_ok X S (read_tail c) = core_ok X S c" "busy_ok (read_tail c) = busy_ok c" "same_resp d (read_tail c) = same_resp d c"
  "uv (read_tail c) = uv c @ (if read_len c \<ge> int READ_BUF_SIZE \<and> in_flight c then [UvReadStop] else [])"
  "read_len (read_tail c) = read_len c" "tls_spill_len (read_tail c) = tls_spill_len c"
  by (simp_all add: read_tail_def uv_read_stop_def same_resp_def)

lemma quiet_simps [simp]: "quiet []" "quiet [UvReadStop]" "quiet [UvReadStart]"
  by (simp_all add: quiet_def)

text \<open>A turn after which the read of an idle connection stays armed, and one of a busy connection has room.\<close>

lemma outcome_turn:
  assumes o: "outcome X S c r c2" and u: "UvClose \<notin> set (uv c)" "pending ts = []" "list_all asgi_small ts"
    and c': "r < 0 \<Longrightarrow> c' = c2" "0 \<le> r \<Longrightarrow> c' = c2\<lparr>read_armed := b, uv := uv c2 @ l\<rparr>" "quiet l" "finals l = 0"
    and armed: "r = 0 \<Longrightarrow> b \<and> tls_spill_len c2 = 0" "r = 1 \<Longrightarrow> UvClose \<notin> set (uv c2) \<Longrightarrow> armed_ok c'"
  shows "turn_ok X S (uv c) ts c'"
proof -
  have k: "core_ok X S c2" using o by (simp add: outcome_def)
  consider "r < 0" "ended (uv c) c2" | "r = 0" "idle_ok X c2" "uv c2 = uv c" | "r = 1" "busy_ok c2" "started X c c2"
    using o by (auto simp: outcome_def)
  then show ?thesis
  proof cases
    case 1
    then show ?thesis using ended_turn [OF 1(2) k u] c'(1) by simp
  next
    case 2
    then show ?thesis using idle_turn [OF k 2(2) _ u(2,3) _ c'(3,4)] u(1) armed(1) c'(2) by simp
  next
    case 3
    then show ?thesis using started_turn [OF 3(3) k 3(2) u _ c'(3,4)] armed(2) c'(2) by simp
  qed
qed

lemma tail_turn:
  assumes o: "outcome X S c r c2" and u: "UvClose \<notin> set (uv c)" "pending ts = []" "list_all asgi_small ts"
    and t: "tls c = None" "read_armed c"
  shows "turn_ok X S (uv c) ts (if r < 0 then c2 else read_tail c2)"
proof (rule outcome_turn [OF o u])
  show "0 \<le> r \<Longrightarrow> (if r < 0 then c2 else read_tail c2) = c2\<lparr>read_armed := read_armed (read_tail c2),
      uv := uv c2 @ (if read_len c2 \<ge> int READ_BUF_SIZE \<and> in_flight c2 then [UvReadStop] else [])\<rparr>"
    using tail_shape [of c2] by simp
  have z: "0 \<le> r \<Longrightarrow> tls_spill_len c2 = 0 \<and> read_armed c2" using o t by (auto simp: outcome_def same_room_def core_ok_def)
  show "r = 0 \<Longrightarrow> read_armed (read_tail c2) \<and> tls_spill_len c2 = 0"
    using z o by (auto simp: tail_armed outcome_def idle_ok_def)
  assume r: "r = 1"
  then have "in_flight c2" using o by (simp add: outcome_def busy_ok_def)
  then show "armed_ok (if r < 0 then c2 else read_tail c2)"
    using r z by (simp add: armed_ok_def tail_armed) (simp add: read_tail_def uv_read_stop_def)
qed simp_all

lemma rearm_turn:
  assumes o: "outcome X S c r c2" and u: "UvClose \<notin> set (uv c)" "pending ts = []" "list_all asgi_small ts"
    and t: "tls c = None" "read_armed c \<longrightarrow> read_len c < int READ_BUF_SIZE"
  shows "turn_ok X S (uv c) ts (if r < 0 then c2 else if \<not> read_armed c2 \<and> \<not> in_flight c2
    then uv_read_start (c2\<lparr>read_armed := True\<rparr>) else c2)"
    (is "turn_ok X S (uv c) ts ?c'")
proof (rule outcome_turn [OF o u])
  show "0 \<le> r \<Longrightarrow> ?c' = c2\<lparr>read_armed := read_armed c2 \<or> \<not> in_flight c2,
      uv := uv c2 @ (if \<not> read_armed c2 \<and> \<not> in_flight c2 then [UvReadStart] else [])\<rparr>"
    by (auto simp: uv_read_start_def)
  have z: "0 \<le> r \<Longrightarrow> tls_spill_len c2 = 0" using o t by (auto simp: outcome_def same_room_def core_ok_def)
  show "r = 0 \<Longrightarrow> (read_armed c2 \<or> \<not> in_flight c2) \<and> tls_spill_len c2 = 0"
    using z o by (auto simp: outcome_def idle_ok_def)
  assume "r = 1"
  then show "armed_ok ?c'"
    using o t z by (auto simp: armed_ok_def outcome_def busy_ok_def same_room_def)
qed simp_all


section \<open>The reads of an encrypted connection\<close>

lemma core_compact: "core_ok X S c \<Longrightarrow> core_ok X S (client_compact c)"
  using compact_buf_ok [of c] by (simp add: core_ok_def)

lemma compact_task [simp]: "new_tasks (client_compact c) = new_tasks c"
  by (simp add: new_tasks_def)

lemma idle_compact: "buf_ok c \<Longrightarrow> idle_ok X (client_compact c) = idle_ok X c"
  using compact_request [of c] by (simp add: idle_ok_def last_len_ok_def)

lemma flow_idle:
  assumes c: "core_ok X S c" "idle_ok X c" and u: "UvClose \<notin> set (uv c)" "pending ts = []" "list_all asgi_small ts"
    and s: "0 < tls_spill_len c \<longrightarrow> client_buffered c = int READ_BUF_SIZE"
  shows "turn_ok X S (uv c) ts (tls_read_flow c)"
proof -
  have b: "buf_ok c" "spill_ok c" using c(1) by (simp_all add: core_ok_def)
  let ?d = "if read_off c > 0 then client_compact c else c"
  have d: "core_ok X S ?d" "idle_ok X ?d" "uv ?d = uv c" "tls_spill_len ?d = tls_spill_len c" "read_len ?d = client_buffered c"
    "read_armed ?d = read_armed c" "new_tasks ?d = []" "\<not> in_flight ?d"
    using c core_compact [OF c(1)] idle_compact [OF b(1), of X] compact_len [of c] idle_no_task [OF c(2)] b(1)
    by (auto simp: client_buffered_def buf_ok_def idle_ok_def)
  have e: "tls_read_flow c = (if client_buffered c \<ge> int READ_BUF_SIZE
      then uv_close (if read_armed c then (uv_read_stop ?d)\<lparr>read_armed := False\<rparr> else ?d)
      else if (tls_spill_len c = 0) = read_armed c then ?d
      else if tls_spill_len c = 0 then uv_read_start (?d\<lparr>read_armed := True\<rparr>)
      else (uv_read_stop ?d)\<lparr>read_armed := False\<rparr>)"
    using c(2) u(1) d(4-6,8) by (auto simp: tls_read_flow_def uv_is_closing_def idle_ok_def Let_def)
  show ?thesis
  proof (cases "client_buffered c \<ge> int READ_BUF_SIZE")
    case True
    let ?x = "if read_armed c then (uv_read_stop ?d)\<lparr>read_armed := False\<rparr> else ?d"
    have x: "core_ok X S (uv_close ?x)" "new_tasks ?x = []" "uv ?x = uv c @ (if read_armed c then [UvReadStop] else [])"
      using d(1,3,7) by (auto simp: uv_close_def uv_read_stop_def)
    have "ended (uv c) (uv_close ?x)" by (rule ended_close [OF _ _ x(2,3)]) (simp_all add: quiet_def)
    then show ?thesis using ended_turn [OF _ x(1) u] e True by simp
  next
    case False
    then have z: "tls_spill_len c = 0" using s b(2) by (auto simp: spill_ok_def)
    then have "tls_read_flow c = ?d\<lparr>read_armed := True, uv := uv ?d @ (if read_armed c then [] else [UvReadStart])\<rparr>"
      using e False d(6) by (auto simp: uv_read_start_def)
    then show ?thesis using idle_turn [OF d(1,2) _ u(2,3), of "if read_armed c then [] else [UvReadStart]"] u(1) d(3,4) z by simp
  qed
qed

lemma flow_busy:
  assumes "in_flight c" "UvClose \<notin> set (uv c)"
  obtains b l where "tls_read_flow c = c\<lparr>read_armed := b, uv := uv c @ l\<rparr>" "quiet l" "finals l = 0"
    "armed_ok (tls_read_flow c)"
proof -
  define want where "want = (read_len c < int READ_BUF_SIZE \<and> tls_spill_len c = 0)"
  have e: "tls_read_flow c = (if want = read_armed c then c
      else if want then uv_read_start (c\<lparr>read_armed := True\<rparr>) else (uv_read_stop c)\<lparr>read_armed := False\<rparr>)"
    using assms by (simp add: tls_read_flow_def uv_is_closing_def want_def Let_def)
  have "tls_read_flow c = c\<lparr>read_armed := want, uv := uv c @ (if want = read_armed c then [] else if want then [UvReadStart] else [UvReadStop])\<rparr>"
    unfolding e by (auto simp: uv_read_start_def uv_read_stop_def)
  moreover from this have "armed_ok (tls_read_flow c)" by (simp add: armed_ok_def want_def)
  ultimately show ?thesis using that by (auto split: if_splits)
qed

lemma flow_turn:
  assumes o: "outcome X S c r c2" and u: "UvClose \<notin> set (uv c)" "pending ts = []" "list_all asgi_small ts"
    and s: "0 < tls_spill_len c \<longrightarrow> client_buffered c = int READ_BUF_SIZE"
  shows "turn_ok X S (uv c) ts (if r < 0 then c2 else tls_read_flow c2)"
proof -
  have k: "core_ok X S c2" using o by (simp add: outcome_def)
  consider "r < 0" "ended (uv c) c2" | "r = 0" "idle_ok X c2" "uv c2 = uv c" "same_room c c2"
    | "r = 1" "busy_ok c2" "started X c c2"
    using o by (auto simp: outcome_def)
  then show ?thesis
  proof cases
    case 1
    then show ?thesis using ended_turn [OF 1(2) k u] by simp
  next
    case 2
    have "0 < tls_spill_len c2 \<longrightarrow> client_buffered c2 = int READ_BUF_SIZE"
      using s 2(4) by (simp add: same_room_def client_buffered_def)
    then show ?thesis using flow_idle [OF k 2(2) _ u(2,3)] 2 u(1) by simp
  next
    case 3
    show ?thesis
    proof (cases "UvClose \<in> set (uv c2)")
      case True
      then have "tls_read_flow c2 = c2\<lparr>read_armed := read_armed c2, uv := uv c2 @ []\<rparr>"
        by (simp add: tls_read_flow_def uv_is_closing_def)
      moreover have "turn_ok X S (uv c) ts c2"
        by (rule outcome_turn [OF o u, where b = "read_armed c2" and l = "[]"]) (use 3(1) True in auto)
      ultimately show ?thesis using 3(1) by simp
    next
      case False
      have "in_flight c2" using 3(2) by (simp add: busy_ok_def)
      from flow_busy [OF this False] obtain b l where f: "tls_read_flow c2 = c2\<lparr>read_armed := b, uv := uv c2 @ l\<rparr>"
        "quiet l" "finals l = 0" "armed_ok (tls_read_flow c2)" .
      have "turn_ok X S (uv c) ts (tls_read_flow c2)"
        by (rule outcome_turn [OF o u, where b = b and l = l]) (use 3(1) f in auto)
      then show ?thesis using 3(1) by simp
    qed
  qed
qed


text \<open>A failure closes an idle connection, and stops the read of a busy one.\<close>

lemma failed_turn:
  assumes c: "core_ok X S c" "idle_ok X c" and u: "UvClose \<notin> set (uv c)" "pending ts = []" "list_all asgi_small ts"
  shows "turn_ok X S (uv c) ts (tls_read_failed c)"
proof -
  have e: "tls_read_failed c = uv_close (c\<lparr>tls_broken := True\<rparr>)" using c(2) by (simp add: tls_read_failed_def idle_ok_def)
  have "new_tasks (c\<lparr>tls_broken := True\<rparr>) = []" using c(2) by (simp add: idle_ok_def new_tasks_def)
  then have "ended (uv c) (tls_read_failed c)" unfolding e by (intro ended_close [of "[]"]) simp_all
  moreover have "core_ok X S (tls_read_failed c)" unfolding e uv_close_def using c(1) by simp
  ultimately show ?thesis using ended_turn u by blast
qed

lemma failed_busy:
  "in_flight c \<Longrightarrow> tls_read_failed c = c\<lparr>tls_broken := True, keep_alive := False, read_armed := False,
     uv := uv c @ (if read_armed c then [UvReadStop] else [])\<rparr>"
  by (simp add: tls_read_failed_def uv_read_stop_def)

lemma core_put_read:
  assumes "core_ok X S c" "int (length data) \<le> int READ_BUF_SIZE - read_len c"
  shows "core_ok X S (put_read data c)"
proof -
  have "buf_ok (put_read data c)" using put_read_ok(1) assms by (auto simp: core_ok_def)
  moreover have "srv (put_read data c) = srv c" "tls (put_read data c) = tls c" "tls_spill_len (put_read data c) = tls_spill_len c"
    "resp_hdr (put_read data c) = resp_hdr c"
    by (simp_all add: put_read_def)
  ultimately show ?thesis using assms(1) by (simp add: core_ok_def)
qed

lemma stash_frame:
  assumes "tls_spill_stash X src c = (ok, c')"
  shows "same_conf (srv c) (srv c')" "same_resp c c'" "headers_end c' = headers_end c" "content_length c' = content_length c"
    "last_len c' = last_len c" "resp_hdr c' = resp_hdr c"
proof -
  obtain r s where g: "tls_spill_get X (srv c) = (r, s)" by (cases "tls_spill_get X (srv c)")
  note sc = spill_get_conf [OF g]
  have "same_conf (srv c) (srv c') \<and> same_resp c c' \<and> headers_end c' = headers_end c \<and> content_length c' = content_length c
    \<and> last_len c' = last_len c \<and> resp_hdr c' = resp_hdr c"
    using assms g sc
    by (auto simp: tls_spill_stash_def same_resp_def Let_def split: option.splits if_splits)
  then show "same_conf (srv c) (srv c')" "same_resp c c'" "headers_end c' = headers_end c"
    "content_length c' = content_length c" "last_len c' = last_len c" "resp_hdr c' = resp_hdr c" by blast+
qed

text \<open>Plaintext \<open>e\<close> arrived: \<open>d\<close> is \<open>c\<close> with the bytes behind what was there, in the buffer or in the overflow.\<close>

definition arrived :: "'p ext \<Rightarrow> server \<Rightarrow> 'p conn \<Rightarrow> bytes \<Rightarrow> 'p conn \<Rightarrow> bool" where
  "arrived X S c e d \<longleftrightarrow> core_ok X S d \<and> same_resp c d \<and> uv d = uv c \<and> in_flight d = in_flight c
     \<and> read_armed d = read_armed c \<and> headers_end d = headers_end c \<and> content_length d = content_length c
     \<and> last_len d = last_len c \<and> tls d \<noteq> None \<and> read_off d = read_off c \<and> read_len c \<le> read_len d
     \<and> (tls_spill_len d = tls_spill_len c \<or> read_len d = int READ_BUF_SIZE)
     \<and> (\<exists>k. request_bytes d = request_bytes c @ take k e)"

lemma arrived_keeps:
  assumes "arrived X S c e d"
  shows "idle_ok X c \<Longrightarrow> core_ok X S c \<Longrightarrow> idle_ok X d" "busy_ok c \<Longrightarrow> busy_ok d"
proof -
  have a: "core_ok X S d" "asgi_task d = asgi_task c" "resp_hdr_len d = resp_hdr_len c" "in_flight d = in_flight c"
    "last_len d = last_len c" "headers_end d = headers_end c" "content_length d = content_length c"
    "read_off d = read_off c" "read_len c \<le> read_len d"
    using assms by (simp_all add: arrived_def same_resp_def)
  show "busy_ok c \<Longrightarrow> busy_ok d" using a by (simp add: busy_ok_def client_buffered_def)
  assume c: "idle_ok X c" "core_ok X S c"
  obtain k where "request_bytes d = request_bytes c @ take k e" using assms by (auto simp: arrived_def)
  then have "last_len_ok X d" using c(1) a(5) by (auto simp: idle_ok_def last_len_ok_def)
  moreover have "asgi_mode (srv d) = asgi_mode (srv c)"
    using c(2) a(1) by (auto simp: core_ok_def same_conf_def)
  ultimately show "idle_ok X d" using c(1) a(2-4) by (simp add: idle_ok_def)
qed

lemma read_app_cases:
  assumes c0: "core_ok X S c" "tls c \<noteq> None" "c = (if \<not> in_flight c0 \<and> read_off c0 > 0 then client_compact c0 else c0)"
  obtains (failed) e d where "arrived X S c e d" "tls_on_read_app X data c0 = Some (tls_read_failed d)"
  | (empty) d where "arrived X S c [] d" "read_len d = read_len c" "tls_spill_len d = tls_spill_len c"
      "tls_on_read_app X data c0 = Some d"
  | (fed) e d where "arrived X S c e d"
      "tls_on_read_app X data c0 = (if in_flight d then Some (tls_read_flow d)
        else case http_dispatch X d of
            None \<Rightarrow> None | Some (r, c4) \<Rightarrow> if r < 0 then Some c4 else Some (tls_read_flow c4))"
proof -
  have b: "buf_ok c" "spill_ok c" using c0(1) by (simp_all add: core_ok_def)
  define room where "room = nat (int READ_BUF_SIZE - read_len c)"
  have rm: "int room = int READ_BUF_SIZE - read_len c" using b(1) by (simp add: room_def buf_ok_def)
  obtain ok s' plain where rl: "receive_loop X (the (tls c)) (read_plain_buf c) data = (ok, s', plain)"
    by (cases "receive_loop X (the (tls c)) (read_plain_buf c) data")
  let ?c1 = "c\<lparr>tls := Some s'\<rparr>"
  have c1: "core_ok X S ?c1" using c0(1,2) by (simp add: core_ok_def buf_ok_def spill_ok_def split: option.splits prod.splits)
  have a1: "arrived X S c e ?c1" for e
    using c1 by (simp add: arrived_def same_resp_def request_bytes_def client_buffered_def)
  note app = tls_on_read_app_def [of X data c0, unfolded Let_def, folded c0(3), unfolded rl room_def [symmetric]]
  show ?thesis
  proof (cases "\<not> ok \<or> (\<not> pb_allocated plain \<and> length (pb_data plain) > room)")
    case True
    then have "tls_on_read_app X data c0 = Some (tls_read_failed ?c1)" using app by (cases ok) simp_all
    then show ?thesis using failed [OF a1] by blast
  next
    case False
    define taken where "taken = (if length (pb_data plain) < room then length (pb_data plain) else room)"
    define c3 where "c3 = put_read (take taken (pb_data plain)) ?c1"
    have tk: "taken \<le> length (pb_data plain)" "taken \<le> room" "length (take taken (pb_data plain)) = taken"
      by (simp_all add: taken_def)
    have i3: "int (length (take taken (pb_data plain))) \<le> int READ_BUF_SIZE - read_len ?c1" using tk rm by simp
    have b1: "buf_ok ?c1" using c1 by (simp add: core_ok_def)
    note p = put_read_ok [OF b1 i3, folded c3_def]
    have k3: "core_ok X S c3" using core_put_read [OF c1 i3] by (simp add: c3_def)
    have f3: "srv c3 = srv c" "uv c3 = uv c" "in_flight c3 = in_flight c" "read_armed c3 = read_armed c"
      "headers_end c3 = headers_end c" "content_length c3 = content_length c" "last_len c3 = last_len c" "tls c3 \<noteq> None"
      "read_off c3 = read_off c" "read_len c3 = read_len c + int taken" "tls_spill_len c3 = tls_spill_len c"
      "same_resp c c3" "request_bytes c3 = request_bytes c @ take taken (pb_data plain)" "resp_hdr c3 = resp_hdr c"
      using p(2) tk(3) by (simp_all add: c3_def put_read_def same_resp_def request_bytes_def client_buffered_def)
    have a3: "arrived X S c (pb_data plain) (c3\<lparr>srv := s\<rparr>)" if "same_conf (srv c) s" for s
    proof -
      have "core_ok X S (c3\<lparr>srv := s\<rparr>)"
        by (rule core_rx [OF _ _ k3]) (use that f3(1) in \<open>simp_all add: same_rx_def\<close>)
      moreover have "request_bytes (c3\<lparr>srv := s\<rparr>) = request_bytes c3" by (simp add: request_bytes_def client_buffered_def)
      ultimately show ?thesis using f3 by (auto simp: arrived_def same_resp_def)
    qed
    show ?thesis
    proof (cases "pb_allocated plain")
      case na: False
      then have t: "taken = length (pb_data plain)" using False by (auto simp: taken_def)
      have e3: "tls_on_read_app X data c0 = (if pb_data plain = [] then Some c3
          else if in_flight c3 then Some (tls_read_flow c3)
          else case http_dispatch X c3 of
              None \<Rightarrow> None | Some (r, c4) \<Rightarrow> if r < 0 then Some c4 else Some (tls_read_flow c4))"
        using app False na by (simp add: c3_def put_read_def t)
      have "same_conf (srv c) (srv c3)" using f3(1) by simp
      from a3 [OF this] have "arrived X S c (pb_data plain) c3" by simp
      note r = this
      show ?thesis
      proof (cases "pb_data plain = []")
        case True
        show ?thesis by (rule empty [of c3]) (use r e3 f3(10,11) t True in simp_all)
      next
        case False
        show ?thesis by (rule fed [of "pb_data plain" c3]) (use r e3 False in simp_all)
      qed
    next
      case al: True
      define s1 where "s1 = (srv c)\<lparr>tls_read_grows := tls_read_grows (srv c) + 1\<rparr>"
      define s2 where "s2 = s1\<lparr>tls_read_spills := tls_read_spills s1 + 1\<rparr>"
      have sc: "same_conf (srv c) s1" "same_conf (srv c) s2" by (simp_all add: s1_def s2_def same_conf_def)
      obtain st c2 where c2: "(if taken < length (pb_data plain)
          then tls_spill_stash X (drop taken (pb_data plain)) (c3\<lparr>srv := s2\<rparr>) else (True, c3\<lparr>srv := s1\<rparr>)) = (st, c2)"
        by (cases "if taken < length (pb_data plain)
          then tls_spill_stash X (drop taken (pb_data plain)) (c3\<lparr>srv := s2\<rparr>) else (True, c3\<lparr>srv := s1\<rparr>)")
      have e: "tls_on_read_app X data c0 = (if pb_data plain = [] then Some c2
          else if \<not> st then Some (tls_read_failed c2)
          else if in_flight c2 then Some (tls_read_flow c2)
          else case http_dispatch X c2 of
              None \<Rightarrow> None | Some (r, c4) \<Rightarrow> if r < 0 then Some c4 else Some (tls_read_flow c4))"
      proof -
        have r: "c3\<lparr>srv := s1\<rparr> = ?c1\<lparr>srv := s1, read_buf := blit (read_buf ?c1) (nat (read_len ?c1)) (take taken (pb_data plain)),
            read_len := read_len ?c1 + int taken\<rparr>"
          "c3\<lparr>srv := s2\<rparr> = ?c1\<lparr>read_buf := blit (read_buf ?c1) (nat (read_len ?c1)) (take taken (pb_data plain)),
            read_len := read_len ?c1 + int taken, srv := s2\<rparr>"
          unfolding c3_def put_read_def tk(3) by simp_all
        note c2' = c2 [unfolded r]
        have "tls_on_read_app X data c0 = (case (if taken < length (pb_data plain)
            then tls_spill_stash X (drop taken (pb_data plain)) (?c1\<lparr>
              read_buf := blit (read_buf ?c1) (nat (read_len ?c1)) (take taken (pb_data plain)),
              read_len := read_len ?c1 + int taken, srv := s2\<rparr>)
            else (True, ?c1\<lparr>srv := s1,
              read_buf := blit (read_buf ?c1) (nat (read_len ?c1)) (take taken (pb_data plain)), read_len := read_len ?c1 + int taken\<rparr>))
          of (st, c2) \<Rightarrow> if length (pb_data plain) = 0 then Some c2
            else if \<not> st then Some (tls_read_failed c2)
            else if in_flight c2 then Some (tls_read_flow c2)
            else case http_dispatch X c2 of
                None \<Rightarrow> None | Some (r, c4) \<Rightarrow> if r < 0 then Some c4 else Some (tls_read_flow c4))"
          using app False al unfolding taken_def s1_def s2_def by simp
        then show ?thesis unfolding c2' by simp
      qed
      have a2: "arrived X S c (pb_data plain) c2"
      proof (cases "taken < length (pb_data plain)")
        case False
        then show ?thesis using c2 a3 [OF sc(1)] by simp
      next
        case True
        then have full: "read_len c3 = int READ_BUF_SIZE" using f3(10) rm by (simp add: taken_def split: if_splits)
        have sx: "tls_spill_stash X (drop taken (pb_data plain)) (c3\<lparr>srv := s2\<rparr>) = (st, c2)" using c2 True by simp
        have k: "core_ok X S (c3\<lparr>srv := s2\<rparr>)" using a3 [OF sc(2)] by (simp add: arrived_def)
        then have bs: "buf_ok (c3\<lparr>srv := s2\<rparr>)" "spill_ok (c3\<lparr>srv := s2\<rparr>)" by (simp_all add: core_ok_def)
        note ss = stash_stream [OF bs sx]
        note sf = stash_frame [OF sx]
        have "same_conf S (srv c2)" using k sf(1) same_conf_trans by (auto simp: core_ok_def)
        moreover have "asgi_mode (srv c2) = asgi_mode s2" using same_conf_mode [OF sf(1)] by simp
        ultimately have "core_ok X S c2" using k ss sf(6) f3(8) by (auto simp: core_ok_def)
        moreover have "request_bytes c2 = request_bytes c @ take taken (pb_data plain)"
        proof -
          have "request_bytes (c3\<lparr>srv := s2\<rparr>) = request_bytes c3" by (simp add: request_bytes_def client_buffered_def)
          then show ?thesis using ss f3(13) by simp
        qed
        ultimately show ?thesis using ss sf f3 full by (auto simp: arrived_def same_resp_def)
      qed
      show ?thesis
      proof (cases "pb_data plain = []")
        case True
        then have t0: "taken = 0" "c2 = c3\<lparr>srv := s1\<rparr>" using c2 by (simp_all add: taken_def)
        have "arrived X S c [] c2" "tls_on_read_app X data c0 = Some c2" using a2 e True by simp_all
        moreover have "read_len c2 = read_len c" "tls_spill_len c2 = tls_spill_len c" using f3(10,11) t0 by simp_all
        ultimately show ?thesis using empty by blast
      next
        case False
        then show ?thesis using e failed [OF a2] fed [OF a2] by (cases st) simp_all
      qed
    qed
  qed
qed


text \<open>What a callback does that finds a request under way and starts nothing.\<close>

definition kept :: "'p ext \<Rightarrow> server \<Rightarrow> 'p conn \<Rightarrow> 'p conn \<Rightarrow> bool" where
  "kept X S c c' \<longleftrightarrow> core_ok X S c' \<and> busy_ok c' \<and> armed_ok c' \<and> same_resp c c'
     \<and> (\<exists>l. uv c' = uv c @ l \<and> quiet l \<and> finals l = 0)"

lemma kept_after: "same_resp c d \<Longrightarrow> uv d = uv c @ l \<Longrightarrow> quiet l \<Longrightarrow> finals l = 0 \<Longrightarrow> kept X S d c' \<Longrightarrow> kept X S c c'"
  by (auto simp: kept_def same_resp_def quiet_def)

lemma kept_inv:
  assumes inv: "conn_inv X S (c, n, 0, ts)" and u: "UvClose \<notin> set (uv c)" "in_flight c" and k: "kept X S c c'"
  shows "conn_inv X S (c', n + owes c c', ends c c', ts)"
proof -
  obtain l where l: "uv c' = uv c @ l" "quiet l" "finals l = 0" using k by (auto simp: kept_def)
  have c: "core_ok X S c" "sent X n ts \<or> waiting X c n ts" "list_all asgi_small ts" using inv u by (simp_all add: conn_inv_def open_inv_def)
  have k': "core_ok X S c'" "busy_ok c'" "armed_ok c'" "same_resp c c'" using k by (simp_all add: kept_def)
  have "asgi_mode (srv c') = asgi_mode (srv c)" using c(1) k'(1) by (simp add: core_ok_def same_conf_def)
  then have "sent X n ts \<or> waiting X c' n ts" using c(2) k'(4) by (auto simp: waiting_def unanswered_def same_resp_def)
  moreover have "in_flight c'" using k'(2) by (simp add: busy_ok_def)
  ultimately show ?thesis using k' c l u by (simp add: conn_inv_def open_inv_def quiet_def)
qed

lemma flow_kept:
  assumes "core_ok X S c" "busy_ok c" "UvClose \<notin> set (uv c)"
  shows "kept X S c (tls_read_flow c)"
proof -
  have "in_flight c" using assms(2) by (simp add: busy_ok_def)
  from flow_busy [OF this assms(3)] obtain b l where f: "tls_read_flow c = c\<lparr>read_armed := b, uv := uv c @ l\<rparr>"
    "quiet l" "finals l = 0" "armed_ok (tls_read_flow c)" .
  have "core_ok X S (tls_read_flow c)" "busy_ok (tls_read_flow c)" "same_resp c (tls_read_flow c)"
    "uv (tls_read_flow c) = uv c @ l"
    using assms by (simp_all add: f(1) same_resp_def)
  then show ?thesis using f(2-4) by (auto simp: kept_def)
qed

lemma failed_kept:
  assumes "core_ok X S c" "busy_ok c"
  shows "kept X S c (tls_read_failed c)"
proof -
  have "in_flight c" using assms(2) by (simp add: busy_ok_def)
  from failed_busy [OF this] show ?thesis
    using assms by (auto simp: kept_def armed_ok_def same_resp_def intro: exI [of _ "[UvReadStop]"] exI [of _ "[]"])
qed

lemma read_app_kept:
  assumes c: "core_ok X S c" "busy_ok c" "armed_ok c" "tls c \<noteq> None" "UvClose \<notin> set (uv c)"
    and run: "tls_on_read_app X data c = Some c'"
  shows "kept X S c c'"
proof -
  have i: "in_flight c" using c(2) by (simp add: busy_ok_def)
  have ar: "kept X S d c' \<Longrightarrow> kept X S c c'" if "arrived X S c e d" for e d
    using that by (auto simp: arrived_def intro: kept_after [of c d "[]"])
  have e: "c = (if \<not> in_flight c \<and> 0 < read_off c then client_compact c else c)" using i by simp
  show ?thesis
  proof (cases rule: read_app_cases [OF c(1,4) e, of data])
    case (1 e d)
    have "core_ok X S d" "busy_ok d" using 1(1) arrived_keeps(2) [OF 1(1)] c(2) by (simp_all add: arrived_def)
    then show ?thesis using failed_kept ar [OF 1(1)] 1(2) run by fastforce
  next
    case (2 d)
    have k: "core_ok X S d" "busy_ok d" using 2(1) arrived_keeps(2) [OF 2(1)] c(2) by (simp_all add: arrived_def)
    have "armed_ok d" "same_resp c d" "uv d = uv c" using 2(1-3) c(3) by (simp_all add: arrived_def armed_ok_def)
    then show ?thesis using k 2(4) run by (auto simp: kept_def intro: exI [of _ "[]"])
  next
    case (3 e d)
    have k: "core_ok X S d" "busy_ok d" "in_flight d" "UvClose \<notin> set (uv d)"
      using 3(1) arrived_keeps(2) [OF 3(1)] c(2,5) i by (simp_all add: arrived_def)
    then show ?thesis using flow_kept [OF k(1,2,4)] ar [OF 3(1)] 3(2) run by fastforce
  qed
qed

lemma read_app_turn:
  assumes c: "core_ok X S c" "idle_ok X c" "read_armed c" "tls_spill_len c = 0" "tls c \<noteq> None" "UvClose \<notin> set (uv c)"
    and ts: "pending ts = []" "list_all asgi_small ts"
    and run: "tls_on_read_app X data c = Some c'"
  shows "turn_ok X S (uv c) ts c'"
proof -
  define b where "b = (if \<not> in_flight c \<and> 0 < read_off c then client_compact c else c)"
  have b: "core_ok X S b" "idle_ok X b" "read_armed b" "tls_spill_len b = 0" "tls b \<noteq> None" "uv b = uv c" "read_off b = 0"
    using c core_compact [OF c(1)] idle_compact [of c X] unfolding b_def by (auto simp: core_ok_def buf_ok_def idle_ok_def)
  have ar: "core_ok X S d" "idle_ok X d" "uv d = uv c" if "arrived X S b e d" for e d
    using that arrived_keeps(1) [OF that b(2,1)] b(6) by (simp_all add: arrived_def)
  have u: "UvClose \<notin> set (uv d)" if "uv d = uv c" for d :: "'a conn" using that c(6) by simp
  show ?thesis
  proof (cases rule: read_app_cases [OF b(1,5) b_def, of data])
    case (1 e d)
    then show ?thesis using failed_turn [OF ar(1,2) [OF 1(1)] u [OF ar(3)] ts] ar(3) [OF 1(1)] run by simp
  next
    case (2 d)
    have "c' = d\<lparr>read_armed := True, uv := uv d @ []\<rparr>" using 2 b(3) run by (simp add: arrived_def)
    moreover have "tls_spill_len d = 0" using 2(3) b(4) by simp
    ultimately show ?thesis using idle_turn [OF ar(1,2) [OF 2(1)] u [OF ar(3)] ts, where l = "[]"] 2(1) ar(3) [OF 2(1)] by simp
  next
    case (3 e d)
    note k = ar [OF 3(1)]
    have "\<not> in_flight d" using k(2) by (simp add: idle_ok_def)
    then obtain r c4 where h: "http_dispatch X d = Some (r, c4)" "c' = (if r < 0 then c4 else tls_read_flow c4)"
      using 3(2) run by (auto split: option.splits if_splits)
    have "0 < tls_spill_len d \<longrightarrow> client_buffered d = int READ_BUF_SIZE"
      using 3(1) b(4,7) by (auto simp: arrived_def client_buffered_def)
    from flow_turn [OF dispatch_outcome [OF k(1,2) h(1)] u [OF k(3)] ts this] show ?thesis using h(2) k(3) by simp
  qed
qed


text \<open>The handshake in front of it.\<close>

lemma hs_send_frame:
  "same_rx c (tls_hs_send X out c) \<and> same_resp c (tls_hs_send X out c)
   \<and> (\<exists>l. uv (tls_hs_send X out c) = uv c @ l \<and> quiet l \<and> finals l = 0)"
proof -
  obtain r s where m: "malloc X (srv c) = (r, s)" by (cases "malloc X (srv c)")
  have q: "quiet [UvWrite d OnTlsHs ok]" "finals [UvWrite d OnTlsHs ok] = 0" for d ok by (simp_all add: quiet_def)
  show ?thesis using malloc_conf [OF m] m q
    by (cases r) (auto simp: tls_hs_send_def same_rx_def same_resp_def uv_write_def Let_def)
qed

text \<open>The state after a handshake step, before what follows it.\<close>

lemma hs_step:
  fixes s' :: 'p and out :: bytes
  assumes c: "core_ok X S c" "tls c \<noteq> None"
  defines "d \<equiv> tls_hs_send X out (c\<lparr>tls := Some s'\<rparr>)"
  shows "core_ok X S d" "idle_ok X d = idle_ok X c" "busy_ok d = busy_ok c" "armed_ok d = armed_ok c" "same_room c d"
    "same_resp c d" "\<exists>l. uv d = uv c @ l \<and> quiet l \<and> finals l = 0"
proof -
  let ?b = "c\<lparr>tls := Some s'\<rparr>"
  have b: "same_rx c ?b" "same_resp c ?b" using c(2) by (simp_all add: same_rx_def same_resp_def)
  have f: "same_rx ?b d" "same_resp ?b d" "\<exists>l. uv d = uv ?b @ l \<and> quiet l \<and> finals l = 0"
    unfolding d_def using hs_send_frame by blast+
  have rx: "same_rx c d" "same_resp c d" using same_rx_trans [OF b(1) f(1)] b(2) f(2) by (simp_all add: same_resp_def)
  note k = rx_keeps [OF rx(1)]
  show "core_ok X S d" "idle_ok X d = idle_ok X c" "busy_ok d = busy_ok c" "armed_ok d = armed_ok c"
    using k(1,2) k(3) [OF rx(2) c(1)] k(4) [OF rx(2)] by simp_all
  show "same_room c d" "same_resp c d" "\<exists>l. uv d = uv c @ l \<and> quiet l \<and> finals l = 0"
    using rx_room [OF rx(1)] rx(2) f(3) by simp_all
qed

lemma turn_shift: "uv d = uv c @ l \<Longrightarrow> quiet l \<Longrightarrow> finals l = 0 \<Longrightarrow> turn_ok X S (uv d) ts c' \<Longrightarrow> turn_ok X S (uv c) ts c'"
  by (simp add: turn_ok_def quiet_def)

lemma tls_read_kept:
  assumes c: "core_ok X S c" "busy_ok c" "armed_ok c" "tls c \<noteq> None" "UvClose \<notin> set (uv c)"
    and run: "tls_on_read_data X data c = Some c'"
  shows "kept X S c c'"
proof (cases "tls_hs_done c")
  case True
  then show ?thesis using read_app_kept [OF c] run by (simp add: tls_on_read_data_def)
next
  case False
  obtain ret inlen s' out where h: "ptls_handshake X (the (tls c)) data = (ret, inlen, s', out)"
    by (cases "ptls_handshake X (the (tls c)) data")
  define d where "d = tls_hs_send X out (c\<lparr>tls := Some s'\<rparr>)"
  note f = hs_step [OF c(1,4), where out = out and s' = s', folded d_def]
  obtain l where l: "uv d = uv c @ l" "quiet l" "finals l = 0" using f(7) by blast
  let ?e = "d\<lparr>tls_hs_done := True\<rparr>"
  have d: "core_ok X S d" "busy_ok d" "armed_ok d" "tls d \<noteq> None" "UvClose \<notin> set (uv d)"
    using f(1,3,4,5) c l by (simp_all add: same_room_def quiet_def)
  have e: "core_ok X S ?e" "busy_ok ?e" "armed_ok ?e" "tls ?e \<noteq> None" "UvClose \<notin> set (uv ?e)" "same_resp d ?e"
    using d by (simp_all add: same_resp_def)
  have er: "same_resp c ?e" "uv ?e = uv c @ l" using f(6) l(1) by (simp_all add: same_resp_def)
  have kd: "kept X S c d" "kept X S c ?e" using d e f(6) er l by (auto simp: kept_def)
  have "c' = tls_read_failed d \<or> c' = d \<or> c' = ?e \<or> tls_on_read_app X (drop inlen data) ?e = Some c'"
    using run False h by (auto simp: tls_on_read_data_def d_def [symmetric] Let_def split: if_splits)
  then show ?thesis
    using kd kept_after [OF f(6) l failed_kept [OF d(1,2)]] kept_after [OF er l(2,3) read_app_kept [OF e(1-5)]] by blast
qed

lemma tls_read_turn:
  assumes c: "core_ok X S c" "idle_ok X c" "read_armed c" "tls_spill_len c = 0" "tls c \<noteq> None" "UvClose \<notin> set (uv c)"
    and ts: "pending ts = []" "list_all asgi_small ts"
    and run: "tls_on_read_data X data c = Some c'"
  shows "turn_ok X S (uv c) ts c'"
proof (cases "tls_hs_done c")
  case True
  then show ?thesis using read_app_turn [OF c ts] run by (simp add: tls_on_read_data_def)
next
  case False
  obtain ret inlen s' out where h: "ptls_handshake X (the (tls c)) data = (ret, inlen, s', out)"
    by (cases "ptls_handshake X (the (tls c)) data")
  define d where "d = tls_hs_send X out (c\<lparr>tls := Some s'\<rparr>)"
  note f = hs_step [OF c(1,5), where out = out and s' = s', folded d_def]
  obtain l where l: "uv d = uv c @ l" "quiet l" "finals l = 0" using f(7) by blast
  let ?e = "d\<lparr>tls_hs_done := True\<rparr>"
  have d: "core_ok X S d" "idle_ok X d" "read_armed d" "tls_spill_len d = 0" "tls d \<noteq> None" "UvClose \<notin> set (uv d)"
    using f(1,2,5) c l by (simp_all add: same_room_def quiet_def)
  have e: "core_ok X S ?e" "idle_ok X ?e" "read_armed ?e" "tls_spill_len ?e = 0" "tls ?e \<noteq> None" "UvClose \<notin> set (uv ?e)"
    using d by simp_all
  have le: "uv ?e = uv c @ l" using l(1) by simp
  have "d = d\<lparr>read_armed := True, uv := uv d @ []\<rparr>" "?e = ?e\<lparr>read_armed := True, uv := uv ?e @ []\<rparr>" using d(3) by simp_all
  then have t: "turn_ok X S (uv d) ts d" "turn_ok X S (uv ?e) ts ?e"
    using idle_turn [OF d(1,2,6) ts d(4), where l = "[]"] idle_turn [OF e(1,2,6) ts e(4), where l = "[]"] by simp_all
  have "c' = tls_read_failed d \<or> c' = d \<or> c' = ?e \<or> tls_on_read_app X (drop inlen data) ?e = Some c'"
    using run False h by (auto simp: tls_on_read_data_def d_def [symmetric] Let_def split: if_splits)
  then show ?thesis
    using turn_shift [OF l t(1)] turn_shift [OF le l(2,3) t(2)] turn_shift [OF l failed_turn [OF d(1,2,6) ts]]
      turn_shift [OF le l(2,3) read_app_turn [OF e ts]] by blast
qed

end
