(* ===== verification/ConnLife.thy ===== *)
theory ConnLife
  imports ConnTurn
begin

text \<open>
  The callbacks of a connection as a state machine. A state is the connection with the number of response
  writes libuv has accepted and not completed, the number of farewells of an encrypted connection under way
  (\<open>tls_send_final\<close>), and the asyncio tasks suspended on its behalf; the steps are what can happen next: libuv
  delivers data where \<open>alloc_cb\<close> offered room, reports the end of the stream or an error, completes a write;
  asyncio resumes a task. The machine is that of a plaintext or an encrypted connection of a WSGI or an ASGI
  server, with any data in any pieces, any order of the steps, any outcome of every write, any allocation
  failing, and any behaviour of picotls; a WSGI application is arbitrary, an ASGI application sends at most
  one response per request. \<open>hs_late\<close> names the steps at which the code itself is at fault: the write of a
  handshake message completes with an error when the handle is closing already, or will be closed by another
  completion or used by a task. Until the first of them the connection is safe, and theorem
  \<open>late_failure_closes_twice\<close> shows what it leads to.
\<close>

section \<open>Definitions\<close>

text \<open>A completion reports any status, also on a handle that is closing by then.\<close>

inductive conn_step :: "'p ext \<Rightarrow> 'p life \<Rightarrow> 'p life \<Rightarrow> bool" for X where
  read: "\<not> uv_is_closing c \<Longrightarrow> read_armed c \<Longrightarrow> alloc_cb c = (room, c1) \<Longrightarrow> data \<noteq> [] \<Longrightarrow> length data \<le> room \<Longrightarrow>
    on_read X data c1 = Some c' \<Longrightarrow>
    conn_step X (c, n, f, ts) (c', n + owes c c', f + ends c c', ts @ (if in_flight c then [] else new_tasks c'))"
| read_error: "\<not> uv_is_closing c \<Longrightarrow> read_armed c \<Longrightarrow> alloc_cb c = (room, c1) \<Longrightarrow>
    conn_step X (c, n, f, ts) (on_read_error c1, n, f, ts)"
| written: "0 < n \<Longrightarrow> on_write X status c = Some c' \<Longrightarrow>
    conn_step X (c, n, f, ts) (c', n - 1 + owes c c', f + ends c c', ts @ new_tasks c')"
| final: "0 < f \<Longrightarrow> conn_step X (c, n, f, ts) (on_tls_final_write c, n, f - 1, ts)"
| hs_written: "hw \<in> set (tls_hs_bufs c) \<Longrightarrow>
    conn_step X (c, n, f, ts) (on_tls_hs_write hw status c, n, f, ts)"
| resumed: "k \<in> set ts \<Longrightarrow> asgi_coro_step X k c = (r, c') \<Longrightarrow>
    conn_step X (c, n, f, ts) (c', n + owes c c', f + ends c c', remove1 k ts @ tasks_after r)"

text \<open>
  \<open>on_tls_hs_write\<close> (server.c:785) closes the handle on an error, whatever else is going on. These are the
  steps in which that is too late: the handle is closing, or a request or a farewell is under way.
\<close>

definition hs_late :: "'p life \<Rightarrow> 'p life \<Rightarrow> bool" where
  "hs_late s s' \<longleftrightarrow> (case s of (c, n, f, ts) \<Rightarrow>
     (\<exists>hw \<in> set (tls_hs_bufs c). \<exists>status < 0. s' = (on_tls_hs_write hw status c, n, f, ts))
     \<and> (uv_is_closing c \<or> in_flight c \<or> 0 < f))"

definition timely_step :: "'p ext \<Rightarrow> 'p life \<Rightarrow> 'p life \<Rightarrow> bool" where
  "timely_step X s s' \<longleftrightarrow> conn_step X s s' \<and> \<not> hs_late s s'"

text \<open>A connection just after \<open>on_new_connection\<close>, plaintext or encrypted.\<close>

definition fresh_conn :: "'p life \<Rightarrow> bool" where
  "fresh_conn s \<longleftrightarrow> (case s of (c, n, f, ts) \<Rightarrow>
     n = 0 \<and> f = 0 \<and> ts = [] \<and> uv c = [UvReadStart] \<and> read_armed c \<and> \<not> in_flight c
     \<and> read_off c = 0 \<and> read_len c = 0 \<and> last_len c = 0 \<and> length (read_buf c) = READ_BUF_ALLOC
     \<and> tls_spill c = None \<and> tls_spill_len c = 0
     \<and> asgi_task c = None \<and> resp_hdr_len c = 0 \<and> length (resp_hdr c) = RESP_HDR_SIZE)"

section \<open>Invariants of a step relation\<close>

locale step_invariant =
  fixes step :: "'s \<Rightarrow> 's \<Rightarrow> bool"
    and inv :: "'s \<Rightarrow> bool"
  assumes preserved: "inv s \<Longrightarrow> step s s' \<Longrightarrow> inv s'"
begin

lemma reachable: "step\<^sup>*\<^sup>* s s' \<Longrightarrow> inv s \<Longrightarrow> inv s'"
  by (induction rule: rtranclp_induct) (use preserved in auto)

end

section \<open>The steps\<close>

lemma conn_inv_open:
  assumes "conn_inv X S (c, n, f, ts)" "UvClose \<notin> set (uv c)" "read_armed c \<or> n \<noteq> 0 \<or> pending ts \<noteq> []"
  shows "f = 0 \<and> core_ok X S c \<and> list_all asgi_small ts \<and> open_inv X c n ts"
  using assms by (auto simp: conn_inv_def split: if_splits)

lemma alloc_cb_fields:
  assumes "alloc_cb c = (room, c1)"
  shows "tls c1 = tls c" "srv c1 = srv c" "uv c1 = uv c" "in_flight c1 = in_flight c" "read_armed c1 = read_armed c"
    "last_len c1 = last_len c" "tls_spill c1 = tls_spill c" "tls_spill_len c1 = tls_spill_len c"
    "resp_hdr c1 = resp_hdr c" "asgi_task c1 = asgi_task c" "resp_hdr_len c1 = resp_hdr_len c"
    "tls c \<noteq> None \<Longrightarrow> c1 = c"
  using assms by (auto simp: alloc_cb_def client_compact_def Let_def split: if_splits)

lemma alloc_cb_keeps:
  assumes c: "core_ok X S c" and a: "alloc_cb c = (room, c1)"
  shows "core_ok X S c1" "idle_ok X c \<Longrightarrow> idle_ok X c1" "in_flight c \<Longrightarrow> c1 = c"
    "tls c = None \<Longrightarrow> int room = int READ_BUF_SIZE - read_len c1"
proof -
  have b: "buf_ok c" using c by (simp add: core_ok_def)
  note f = alloc_cb_fields [OF a]
  have q: "buf_ok c1" "request_bytes c1 = request_bytes c" "in_flight c \<Longrightarrow> c1 = c"
    "tls c = None \<Longrightarrow> int room = int READ_BUF_SIZE - read_len c1"
    using alloc_cb_stream [OF b _ a] f(12) b by (cases "tls c = None"; simp)+
  then show "in_flight c \<Longrightarrow> c1 = c" "tls c = None \<Longrightarrow> int room = int READ_BUF_SIZE - read_len c1" by blast+
  have "spill_ok c1 = spill_ok c" unfolding spill_ok_def f(7,8) ..
  then show "core_ok X S c1" using c q(1) f by (simp add: core_ok_def)
  show "idle_ok X c \<Longrightarrow> idle_ok X c1" using q(2) f by (simp add: idle_ok_def last_len_ok_def)
qed

lemma on_read_put:
  assumes "tls c = None" "buf_ok c" "data \<noteq> []" "int (length data) \<le> int READ_BUF_SIZE - read_len c"
  shows "on_read X data c = (if in_flight c then Some (read_tail (put_read data c))
    else case http_dispatch X (put_read data c) of
        None \<Rightarrow> None | Some (r, c2) \<Rightarrow> if r < 0 then Some c2 else Some (read_tail c2))"
proof -
  have "length data \<le> READ_BUF_SIZE" using assms(2,4) by (simp add: buf_ok_def)
  then have "c_int (int (length data)) = int (length data)" by (intro c_int_id) (simp_all add: sizes)
  then show ?thesis using assms(1,3) by (simp add: on_read_def on_read_plain_def put_read_def Let_def)
qed


lemma inv_read:
  assumes inv: "conn_inv X S (c, n, f, ts)" and st: "\<not> uv_is_closing c" "read_armed c" "alloc_cb c = (room, c1)" "data \<noteq> []"
    "length data \<le> room" "on_read X data c1 = Some c'"
  shows "conn_inv X S (c', n + owes c c', f + ends c c', ts @ (if in_flight c then [] else new_tasks c'))"
proof -
  have u: "UvClose \<notin> set (uv c)" using st(1) by (simp add: uv_is_closing_def)
  have c: "f = 0" "core_ok X S c" "list_all asgi_small ts" "open_inv X c n ts"
    using conn_inv_open [OF inv u disjI1 [OF st(2)]] by auto
  note a = alloc_cb_keeps [OF c(2) st(3)]
  note fl = alloc_cb_fields [OF st(3)]
  have b1: "buf_ok c1" using a(1) by (simp add: core_ok_def)
  have rm: "int (length data) \<le> int READ_BUF_SIZE - read_len c1" if "tls c = None" using a(4) [OF that] st(5) by linarith
  have put: "core_ok X S (put_read data c1)" if "tls c = None" using core_put_read [OF a(1) rm [OF that]] .
  show ?thesis
  proof (cases "in_flight c")
    case True
    have e: "c1 = c" using a(3) True by simp
    have bz: "busy_ok c" "armed_ok c" using c(4) True by (simp_all add: open_inv_def)
    have "kept X S c c'"
    proof (cases "tls c = None")
      case False
      then have "tls_on_read_data X data c = Some c'" using st(4,6) e by (simp add: on_read_def)
      from tls_read_kept [OF c(2) bz False u this] show ?thesis .
    next
      case p: True
      let ?d = "put_read data c"
      have c': "c' = read_tail ?d" using on_read_put [OF p _ st(4)] rm [OF p] b1 st(6) e True by simp
      have d: "core_ok X S ?d" "busy_ok ?d" "in_flight ?d" using put [OF p] e bz(1) True
        by (simp_all add: busy_ok_def put_read_def client_buffered_def)
      have "tls_spill_len ?d = 0" using c(2) p by (simp add: core_ok_def put_read_def)
      then have "armed_ok (read_tail ?d)" using d(3) by (simp add: armed_ok_def tail_armed tail_keeps)
      moreover have "same_resp c ?d" "uv ?d = uv c" by (simp_all add: same_resp_def put_read_def)
      ultimately show ?thesis using d unfolding c' kept_def tail_keeps by (auto simp: quiet_def)
    qed
    from kept_inv [OF _ u True this, of n ts] show ?thesis using inv c(1) True by simp
  next
    case False
    then have i: "idle_ok X c" "n = 0" "pending ts = []" "tls_spill_len c = 0" using c(4) by (simp_all add: open_inv_def)
    have "turn_ok X S (uv c) ts c'"
    proof (cases "tls c = None")
      case t: False
      then have "tls_on_read_data X data c = Some c'" using st(4,6) fl(12) by (simp add: on_read_def)
      from tls_read_turn [OF c(2) i(1) st(2) i(4) t u i(3) c(3) this] show ?thesis .
    next
      case p: True
      let ?d = "put_read data c1"
      have d: "tls ?d = None" "uv ?d = uv c" "read_armed ?d" "in_flight ?d = in_flight c" "last_len ?d = last_len c1"
        "srv ?d = srv c1" "resp_hdr_len ?d = resp_hdr_len c1" "asgi_task ?d = asgi_task c1"
        using fl p st(2) by (simp_all add: put_read_def)
      have "request_bytes ?d = request_bytes c1 @ data" using put_read_ok(2) [OF b1 rm [OF p]] .
      then have "idle_ok X ?d" using a(2) [OF i(1)] d(4-8) False by (auto simp: idle_ok_def last_len_ok_def)
      moreover obtain r c2 where h: "http_dispatch X ?d = Some (r, c2)" "c' = (if r < 0 then c2 else read_tail c2)"
        using on_read_put [OF _ b1 st(4) rm [OF p]] p fl(1,4) st(6) False by (auto split: option.splits if_splits)
      ultimately have "outcome X S ?d r c2" using dispatch_outcome [OF put [OF p]] by blast
      from tail_turn [OF this _ i(3) c(3) d(1,3)] show ?thesis using h(2) d(2) u by simp
    qed
    then show ?thesis using i(2) c(1) False by (simp add: turn_ok_def)
  qed
qed

lemma inv_read_error:
  assumes inv: "conn_inv X S (c, n, f, ts)" and st: "\<not> uv_is_closing c" "read_armed c" "alloc_cb c = (room, c1)"
  shows "conn_inv X S (on_read_error c1, n, f, ts)"
proof -
  have u: "UvClose \<notin> set (uv c)" using st(1) by (simp add: uv_is_closing_def)
  have c: "f = 0" "core_ok X S c" "list_all asgi_small ts" "open_inv X c n ts"
    using conn_inv_open [OF inv u disjI1 [OF st(2)]] by auto
  note a = alloc_cb_keeps [OF c(2) st(3)]
  note fl = alloc_cb_fields [OF st(3)]
  show ?thesis
  proof (cases "in_flight c")
    case True
    then have e: "on_read_error c1 = c\<lparr>keep_alive := False, read_armed := False, uv := uv c @ [UvReadStop]\<rparr>"
      using a(3) by (simp add: on_read_error_def uv_read_stop_def)
    have "kept X S c (on_read_error c1)" unfolding e using c(2,4) True
      by (auto simp: kept_def open_inv_def armed_ok_def same_resp_def intro: exI [of _ "[UvReadStop]"])
    from kept_inv [OF _ u True this, of n ts] show ?thesis using inv c(1) by (simp add: e)
  next
    case False
    then have i: "idle_ok X c" "n = 0" "pending ts = []" using c(4) by (simp_all add: open_inv_def)
    let ?d = "client_clear_conn_cache (c1\<lparr>resp_status := None, resp_pyheaders := None, resp_body := None\<rparr>)"
    have e: "on_read_error c1 = uv_close ?d" using False fl(4) by (simp add: on_read_error_def)
    have d: "core_ok X S ?d" "new_tasks ?d = []" "uv ?d = uv c @ []"
      using a(1) a(2) [OF i(1)] fl(3) by simp_all (simp_all add: client_clear_conn_cache_def new_tasks_def idle_ok_def)
    have "core_ok X S (uv_close ?d)" unfolding uv_close_def using d(1) by simp
    from ended_turn [OF ended_close [OF _ _ d(2,3)] this u i(3) c(3)] have "turn_ok X S (uv c) ts (on_read_error c1)" by (simp add: e)
    moreover have "new_tasks (on_read_error c1) = []" "uv (on_read_error c1) = uv c @ [UvClose]"
      using d(2,3) by (simp_all add: e uv_close_def)
    ultimately show ?thesis using i(2) c(1) by (simp add: turn_ok_def)
  qed
qed

text \<open>Completions.\<close>

lemma core_drain:
  assumes "core_ok X S c"
  shows "core_ok X S (tls_spill_drain c)"
proof -
  have b: "buf_ok c" "spill_ok c" using assms by (simp_all add: core_ok_def)
  note d = drain_stream [OF b] and f = drain_frame [of c]
  have "tls_spill_len (tls_spill_drain c) = 0" if "tls c = None"
    using that assms by (simp add: core_ok_def tls_spill_drain_def)
  moreover have "same_conf S (srv (tls_spill_drain c))" using assms f same_conf_trans by (auto simp: core_ok_def)
  moreover have "asgi_mode (srv (tls_spill_drain c)) = asgi_mode (srv c)" using f same_conf_mode by blast
  ultimately show ?thesis using assms d f by (simp add: core_ok_def same_resp_def)
qed

text \<open>The next turn on a connection that stays open: its requests, seen from the log of calls \<open>uv c\<close>.\<close>

lemma next_idle:
  assumes c: "core_ok X S c" "busy_ok c"
  shows "core_ok X S (next_turn c)" "idle_ok X (next_turn c)" "uv (next_turn c) = uv c"
    "read_armed (next_turn c) = read_armed c" "read_len (next_turn c) \<le> read_len c" "tls (next_turn c) = tls c"
proof -
  have b: "buf_ok c" "0 < headers_end c" "headers_end c + int (content_length c) \<le> client_buffered c"
    using c by (simp_all add: core_ok_def busy_ok_def)
  note n = next_turn_input [OF b]
  show f: "uv (next_turn c) = uv c" "read_armed (next_turn c) = read_armed c" "read_len (next_turn c) \<le> read_len c"
    "tls (next_turn c) = tls c"
    using b(1) by (auto simp: next_turn_def client_reset_def Let_def buf_ok_def)
  have g: "srv (next_turn c) = srv c" "tls_spill (next_turn c) = tls_spill c" "tls_spill_len (next_turn c) = tls_spill_len c"
    "resp_hdr (next_turn c) = resp_hdr c" "asgi_task (next_turn c) = None" "resp_hdr_len (next_turn c) = 0"
    by (simp_all add: next_turn_def client_reset_def Let_def)
  have "spill_ok (next_turn c) = spill_ok c" unfolding spill_ok_def g(2,3) ..
  then show "core_ok X S (next_turn c)" using c(1) n(1) f g by (simp add: core_ok_def)
  show "idle_ok X (next_turn c)" using n g by (simp add: idle_ok_def last_len_ok_def)
qed

lemma next_turn_ok:
  assumes c: "core_ok X S c" "busy_ok c" "armed_ok c" "UvClose \<notin> set (uv c)" and ts: "pending ts = []" "list_all asgi_small ts"
    and d: "d = (if tls c \<noteq> None then tls_spill_drain (next_turn c) else next_turn c)"
    and h: "(if client_buffered d > 0 then http_dispatch X d else Some (0, d)) = Some (r, c5)"
  shows "turn_ok X S (uv c) ts (after_turn r c5)"
proof -
  note n = next_idle [OF c(1,2)]
  have bs: "buf_ok (next_turn c)" "spill_ok (next_turn c)" using n(1) by (simp_all add: core_ok_def)
  note ds = drain_stream [OF bs] and df = drain_frame [of "next_turn c"]
  have "idle_ok X (tls_spill_drain (next_turn c))"
  proof -
    have "last_len (next_turn c) = 0" by (simp add: next_turn_def client_reset_def Let_def)
    moreover have "asgi_mode (srv (tls_spill_drain (next_turn c))) = asgi_mode (srv (next_turn c))" using df same_conf_mode by blast
    ultimately show ?thesis using n(2) ds df by (simp add: idle_ok_def last_len_ok_def same_resp_def)
  qed
  then have i: "core_ok X S d" "idle_ok X d" "uv d = uv c" "tls d = tls c"
    using n core_drain [OF n(1)] ds d by simp_all
  have o: "outcome X S d r c5"
    using h dispatch_outcome [OF i(1,2)] idle_outcome [OF i(1,2)] by (auto split: if_splits)
  have t5: "0 \<le> r \<Longrightarrow> tls c5 = None \<longleftrightarrow> tls c = None" using o i(4) by (auto simp: outcome_def same_room_def)
  have u: "UvClose \<notin> set (uv d)" using c(4) i(3) by simp
  show ?thesis
  proof (cases "tls c = None")
    case True
    have "read_armed d \<longrightarrow> read_len d < int READ_BUF_SIZE" using d True n(4,5) c(3) by (auto simp: armed_ok_def)
    from rearm_turn [OF o u ts _ this] show ?thesis using True i(3,4) t5 by (cases "r < 0") (simp_all add: after_turn_def)
  next
    case False
    then have e: "d = tls_spill_drain (next_turn c)" using d by simp
    have "0 \<le> read_off (next_turn c)" using bs(1) by (simp add: buf_ok_def)
    then have "0 < tls_spill_len d \<longrightarrow> read_len d = int READ_BUF_SIZE \<and> read_off d = 0"
      using ds df unfolding e by auto
    then have "0 < tls_spill_len d \<longrightarrow> client_buffered d = int READ_BUF_SIZE" by (simp add: client_buffered_def)
    from flow_turn [OF o u ts this] show ?thesis using False i(3) t5 by (cases "r < 0") (simp_all add: after_turn_def)
  qed
qed

text \<open>\<open>on_write\<close> on a connection that ends.\<close>

lemma on_write_end:
  fixes c :: "'p conn"
  defines "b \<equiv> if tls c \<noteq> None then tls_release_wbuf c else c"
  defines "e \<equiv> client_clear_conn_cache (b\<lparr>resp_status := None, resp_pyheaders := None, resp_body := None, asgi_task := None\<rparr>)"
  assumes "status < 0 \<or> \<not> keep_alive b" "tls_send_final X [] e = (ok, c4)"
  shows "on_write X status c = Some (if tls b \<noteq> None \<and> status \<ge> 0 \<and> \<not> tls_broken b \<and> tls_hs_done b
    then (if ok then c4 else uv_close c4) else uv_close e)"
proof -
  have f: "tls e = tls b" "tls_broken e = tls_broken b" "tls_hs_done e = tls_hs_done b"
    by (simp_all add: e_def client_clear_conn_cache_def)
  have "on_write X status c = (if tls e \<noteq> None \<and> status \<ge> 0 \<and> \<not> tls_broken e \<and> tls_hs_done e
      then (case tls_send_final X [] e of (True, c4) \<Rightarrow> Some c4 | (False, c4) \<Rightarrow> Some (uv_close c4)) else Some (uv_close e))"
    using assms(3) unfolding on_write_def Let_def b_def [symmetric] e_def by simp
  then show ?thesis using assms(4) f by (cases ok) auto
qed

lemma inv_written:
  assumes inv: "conn_inv X S (c, n, f, ts)" and st: "0 < n" "on_write X status c = Some c'"
  shows "conn_inv X S (c', n - 1 + owes c c', f + ends c c', ts @ new_tasks c')"
proof -
  have u: "UvClose \<notin> set (uv c)" using inv st(1) by (auto simp: conn_inv_def split: if_splits)
  have c: "f = 0" "core_ok X S c" "list_all asgi_small ts" "open_inv X c n ts"
    using conn_inv_open [OF inv u] st(1) by auto
  have b: "busy_ok c" "armed_ok c" "sent X n ts"
    using c(4) st(1) by (auto simp: open_inv_def waiting_def split: if_splits)
  have n: "n = 1" "pending ts = []" using b(3) st(1) by (auto simp: sent_def)
  define d where "d = (if tls c \<noteq> None then tls_release_wbuf c else c)"
  have rx: "same_rx c d" "same_resp c d" "uv d = uv c" unfolding d_def using release_wbuf_frame [of c]
    by (simp_all add: same_resp_def)
  note k = rx_keeps [OF rx(1)]
  have d: "core_ok X S d" "busy_ok d" "armed_ok d" "UvClose \<notin> set (uv d)" using k(1-3) rx c(2) b u by simp_all
  let ?e = "client_clear_conn_cache (d\<lparr>resp_status := None, resp_pyheaders := None, resp_body := None, asgi_task := None\<rparr>)"
  have e: "core_ok X S ?e" "new_tasks ?e = []" "uv ?e = uv c @ []" "tls ?e = tls d"
    using d(1) rx(3) by simp_all (simp_all add: client_clear_conn_cache_def new_tasks_def)
  have "turn_ok X S (uv c) ts c'"
  proof (cases "status < 0 \<or> \<not> keep_alive d")
    case True
    obtain ok c4 where f: "tls_send_final X [] ?e = (ok, c4)" by (cases "tls_send_final X [] ?e")
    have "c' = (if tls d \<noteq> None \<and> status \<ge> 0 \<and> \<not> tls_broken d \<and> tls_hs_done d then (if ok then c4 else uv_close c4) else uv_close ?e)"
      using st(2) on_write_end [where c = c and status = status and X = X, folded d_def, OF True f] by simp
    moreover have "ended (uv c) (uv_close ?e)" "core_ok X S (uv_close ?e)"
      using ended_close [OF _ _ e(2,3)] e(1) by (simp_all add: uv_close_def)
    moreover have "ended (uv c) (if ok then c4 else uv_close c4)" "core_ok X S (if ok then c4 else uv_close c4)" if "tls d \<noteq> None"
      using ended_final [OF _ f e(1,2)] that e(3,4) by simp_all
    ultimately have "ended (uv c) c'" "core_ok X S c'" by (auto split: if_splits)
    then show ?thesis using ended_turn u n(2) c(3) by blast
  next
    case False
    define q where "q = (if tls d \<noteq> None then tls_spill_drain (next_turn d) else next_turn d)"
    have kd: "keep_alive d = keep_alive c" by (simp add: d_def tls_release_wbuf_def Let_def split: prod.split)
    have "resume_with X q = Some c'"
      using on_write_continues [of status c X] st(2) False kd by (simp add: next_request_def q_def d_def Let_def)
    then obtain r c5 where h: "(if client_buffered q > 0 then http_dispatch X q else Some (0, q)) = Some (r, c5)"
      "c' = after_turn r c5"
      by (auto simp: resume_with_def split: if_splits)
    from next_turn_ok [OF d n(2) c(3) q_def h(1)] show ?thesis using h(2) rx(3) by simp
  qed
  then show ?thesis using n(1) c(1) by (simp add: turn_ok_def)
qed


section \<open>The log of calls grows\<close>

text \<open>
  Whatever state a completion or a task finds the connection in, it adds to the log of calls and leaves the
  configuration of the server alone: a handle that is closing stays so.
\<close>

definition grows :: "'p conn \<Rightarrow> 'p conn \<Rightarrow> bool" where
  "grows c c' \<longleftrightarrow> (\<exists>l. uv c' = uv c @ l) \<and> same_conf (srv c) (srv c')"

lemma growsI: "uv c' = uv c @ l \<Longrightarrow> same_conf (srv c) (srv c') \<Longrightarrow> grows c c'"
  by (auto simp: grows_def)

lemma grows_same: "uv c' = uv c \<Longrightarrow> srv c' = srv c \<Longrightarrow> grows c c'"
  by (simp add: grows_def)

lemma grows_trans: "grows a b \<Longrightarrow> grows b c \<Longrightarrow> grows a c"
  using same_conf_trans by (fastforce simp: grows_def)

lemma grows_refl [simp]: "grows c c"
  by (simp add: grows_def)

lemma grows_calls [simp]:
  "grows c (uv_close d) = grows c (d\<lparr>uv := uv d @ [UvClose]\<rparr>)" "grows c d \<Longrightarrow> grows c (d\<lparr>uv := uv d @ l\<rparr>)"
  by (auto simp: grows_def uv_close_def)

lemma rx_grows: "same_rx c c' \<Longrightarrow> uv c' = uv c @ l \<Longrightarrow> grows c c'"
  by (rule growsI) (simp_all add: same_rx_def)

lemma responded_grows: "responded X c c' \<Longrightarrow> grows c c'"
  using rx_grows by (auto simp: responded_def)

lemma asgi_send_grows: "grows c (snd (asgi_send_response_c X st hs body c))"
proof -
  have "grows c (write_response X (c\<lparr>resp_hdr := h, resp_hdr_len := n, resp_body := b\<rparr>))" for h n b
    by (rule responded_grows, rule write_response_responded) (simp_all add: same_rx_def)
  moreover have "grows c (write_response X (c\<lparr>resp_hdr := h, resp_hdr_len := n\<rparr>))" for h n
    by (rule responded_grows, rule write_response_responded) (simp_all add: same_rx_def)
  ultimately show ?thesis
    by (cases "as_c_int st"; cases hs) (auto simp: asgi_send_response_c_def Let_def split: sum.split)
qed

lemma coro_step_grows: "asgi_coro_step X k c = (r, c') \<Longrightarrow> grows c c'"
proof (induction X k c rule: asgi_coro_step.induct)
  case (1 X st hs body k1 k2 c)
  obtain ok c1 where s: "asgi_send_response_c X st hs body c = (ok, c1)" by (cases "asgi_send_response_c X st hs body c")
  have i: "grows c c1" using asgi_send_grows [of c X st hs body] s by simp
  have "grows c1 c'" using 1(1,2) [OF s [symmetric]] 1(3) s by (cases ok) simp_all
  then show ?case using i grows_trans by blast
qed simp_all

lemma asgi_dispatch_grows: "grows c (asgi_dispatch X c)"
proof -
  obtain so c1 where b: "build_asgi_scope X c = (so, c1)" by (cases "build_asgi_scope X c")
  have "c1 = c\<lparr>asgi_client_obj := asgi_client_obj c1\<rparr>" using build_asgi_scope_frame [of X c] b by simp
  then have i1: "grows c c1" by (rule ssubst [where P = "grows c"]) (simp add: grows_def)
  let ?c2 = "c1\<lparr>asgi_capsule := True\<rparr>"
  have i2: "grows c ?c2" using i1 by (simp add: grows_def)
  have s500: "grows c (send_500_asgi X d)" if "grows c d" for d
    unfolding send_500_asgi_def
    by (rule grows_trans [OF that], rule responded_grows, rule write_response_responded) (simp_all add: same_rx_def)
  show ?thesis
  proof (cases so)
    case None
    then show ?thesis using b s500 [OF i1] by (simp add: asgi_dispatch_def)
  next
    case (Some scope)
    obtain r c3 where r: "asgi_coro_step X (asgi_app X scope (body_bytes ?c2)) ?c2 = (r, c3)"
      by (cases "asgi_coro_step X (asgi_app X scope (body_bytes ?c2)) ?c2")
    have i3: "grows c c3" using grows_trans [OF i2 coro_step_grows [OF r]] .
    then have "grows c (c3\<lparr>asgi_task := k\<rparr>)" for k by (simp add: grows_def)
    then show ?thesis using b Some r i3 s500 [OF i1] s500 [OF i3]
      by (cases r) (simp_all add: asgi_dispatch_def Let_def)
  qed
qed

lemma send_final_grows: "tls c \<noteq> None \<Longrightarrow> tls_send_final X data c = (ok, c') \<Longrightarrow> grows c c'"
  using send_final_frame [of c X data ok c'] rx_grows [of "c\<lparr>read_armed := False\<rparr>" c'] by (auto simp: grows_def)

lemma http_dispatch_grows:
  assumes "http_dispatch X c = Some (r, c')"
  shows "grows c c'"
proof (cases "phr_parse_request (sse_build X) MAX_HEADERS (request_bytes c) (nat (last_len c))")
  case (Inl e)
  let ?d = "c\<lparr>req := None\<rparr>"
  obtain ok d where f: "tls_send_final X bad_req ?d = (ok, d)" by (cases "tls_send_final X bad_req ?d")
  have "grows ?d d" if "tls c \<noteq> None" using send_final_grows [OF _ f] that by simp
  then have "grows c d" if "tls c \<noteq> None" using that by (simp add: grows_def)
  then show ?thesis using assms Inl f
    by (cases e; cases ok) (auto simp: http_dispatch_def Let_def uv_write_def grows_def uv_close_def split: if_splits)
next
  case (Inr q)
  obtain h n where q: "q = (h, n)" by (cases q)
  obtain cl ka where p: "fold scan_header (headers h) (0, minor_version h = 1) = (cl, ka)"
    by (cases "fold scan_header (headers h) (0, minor_version h = 1)")
  let ?d = "\<lambda>b. c\<lparr>req := Some h, headers_end := int n, content_length := cl, keep_alive := ka, in_flight := b\<rparr>"
  have g: "grows c (?d b)" for b by (simp add: grows_def)
  have w: "grows (?d True) d" if "wsgi_call_application X (?d True) = Some d" for d
    using responded_grows [OF wsgi_responded [OF that]] .
  have "c' = ?d (in_flight c) \<or> c' = asgi_dispatch X (?d True) \<or> wsgi_call_application X (?d True) = Some c'"
    using assms Inr q p by (auto simp: http_dispatch_def Let_def split: if_splits)
  then show ?thesis
  proof (elim disjE)
    assume "c' = asgi_dispatch X (?d True)"
    then show ?thesis using grows_trans [OF g asgi_dispatch_grows] by simp
  next
    assume "wsgi_call_application X (?d True) = Some c'"
    from grows_trans [OF g w [OF this]] show ?thesis .
  qed (simp add: grows_def)
qed

lemma drain_grows: "grows c (tls_spill_drain c)"
proof (rule growsI [of _ _ "[]"])
  show "uv (tls_spill_drain c) = uv c @ []"
    by (auto simp: tls_spill_drain_def spill_take_def client_compact_def tls_release_spill_def Let_def split: option.split prod.split)
qed (use drain_frame [of c] in simp)

lemma after_turn_grows: "grows c (after_turn r c)"
  by (auto simp: after_turn_def tls_read_flow_def client_compact_def uv_read_start_def uv_read_stop_def uv_close_def
      grows_def Let_def)

lemma on_write_grows:
  assumes "on_write X status c = Some c'"
  shows "grows c c'"
proof -
  define b where "b = (if tls c \<noteq> None then tls_release_wbuf c else c)"
  have g: "grows c b" using release_wbuf_frame [of c] rx_grows [of c "tls_release_wbuf c" "[]"] by (simp add: b_def)
  have ka: "keep_alive b = keep_alive c" by (simp add: b_def tls_release_wbuf_def Let_def split: prod.split)
  show ?thesis
  proof (cases "status < 0 \<or> \<not> keep_alive b")
    case True
    define e where "e = client_clear_conn_cache (b\<lparr>resp_status := None, resp_pyheaders := None, resp_body := None, asgi_task := None\<rparr>)"
    obtain ok c4 where f: "tls_send_final X [] e = (ok, c4)" by (cases "tls_send_final X [] e")
    have e: "grows c e" "tls e = tls b" using g by (simp_all add: e_def client_clear_conn_cache_def grows_def)
    have "c' = (if tls b \<noteq> None \<and> status \<ge> 0 \<and> \<not> tls_broken b \<and> tls_hs_done b then (if ok then c4 else uv_close c4) else uv_close e)"
      using assms on_write_end [of status c X ok c4, folded b_def, folded e_def, OF True f] by simp
    moreover have "grows c c4" if "tls b \<noteq> None" using send_final_grows [OF _ f] e grows_trans that by metis
    ultimately show ?thesis using e(1) by (auto split: if_splits)
  next
    case False
    define q where "q = (if tls b \<noteq> None then tls_spill_drain (next_turn b) else next_turn b)"
    have "grows c (next_turn b)" using g by (simp add: grows_def next_turn_def client_reset_def Let_def)
    then have gq: "grows c q" using drain_grows grows_trans by (auto simp: q_def)
    have "resume_with X q = Some c'"
      using on_write_continues [of status c X] assms False ka by (simp add: next_request_def q_def b_def Let_def)
    then obtain r c5 where h: "(if client_buffered q > 0 then http_dispatch X q else Some (0, q)) = Some (r, c5)"
      "c' = after_turn r c5"
      by (auto simp: resume_with_def split: if_splits)
    have "grows q c5" using h(1) http_dispatch_grows by (auto split: if_splits)
    then show ?thesis using gq after_turn_grows grows_trans h(2) by metis
  qed
qed

lemma inv_final:
  assumes inv: "conn_inv X S (c, n, f, ts)" and st: "0 < f"
  shows "conn_inv X S (on_tls_final_write c, n, f - 1, ts)"
proof -
  have c: "UvClose \<notin> set (uv c)" "f = 1" "n = 0" "pending ts = []" "core_ok X S c" "list_all asgi_small ts"
    using inv st by (auto simp: conn_inv_def split: if_splits)
  have "core_ok X S (tls_release_wbuf c)" using rx_keeps(3) [OF release_wbuf_frame(1,2)] c(5) .
  then show ?thesis using c release_wbuf_frame(3) [of c]
    by (simp add: on_tls_final_write_def uv_close_def conn_inv_def count_list_0_iff)
qed

text \<open>A handshake write completes: nothing changes, or an idle connection ends.\<close>

lemma inv_hs_written:
  assumes inv: "conn_inv X S (c, n, f, ts)" and hw: "hw \<in> set (tls_hs_bufs c)"
    and nl: "\<not> hs_late (c, n, f, ts) (on_tls_hs_write hw status c, n, f, ts)"
  shows "conn_inv X S (on_tls_hs_write hw status c, n, f, ts)"
proof -
  define d where "d = c\<lparr>srv := free hw (srv c), tls_hs_bufs := remove1 hw (tls_hs_bufs c)\<rparr>"
  have d: "same_rx c d" "same_resp c d" "uv d = uv c" "in_flight d = in_flight c" "read_armed d = read_armed c"
    "tls_spill_len d = tls_spill_len c"
    by (simp_all add: d_def same_rx_def same_resp_def)
  note k = rx_keeps [OF d(1)]
  have i: "conn_inv X S (d, n, f, ts)" using inv k(1,2) k(3,4,6) [OF d(2)] d(3-6)
    by (auto simp: conn_inv_def open_inv_def split: if_splits)
  show ?thesis
  proof (cases "status < 0")
    case False
    then show ?thesis using i by (simp add: on_tls_hs_write_def d_def)
  next
    case True
    then have q: "UvClose \<notin> set (uv d)" "\<not> in_flight d" "f = 0"
      using nl hw d(3,4) by (auto simp: hs_late_def uv_is_closing_def)
    have e: "on_tls_hs_write hw status c = d\<lparr>uv := uv d @ [UvClose]\<rparr>"
      using True by (simp add: on_tls_hs_write_def d_def uv_close_def Let_def)
    show ?thesis unfolding e using i q by (simp add: conn_inv_def open_inv_def count_list_0_iff)
  qed
qed

text \<open>asyncio resumes a task: only the task of the request under way does anything to the connection.\<close>

lemma list_all_remove1: "list_all P ts \<Longrightarrow> list_all P (remove1 k ts)"
  by (auto simp: list_all_iff dest: notin_set_remove1)

lemma only_pending: "k \<in> set ts \<Longrightarrow> \<not> no_send k \<Longrightarrow> length (pending ts) \<le> 1 \<Longrightarrow> pending ts = [k]"
proof -
  assume "k \<in> set ts" "\<not> no_send k" "length (pending ts) \<le> 1"
  then have "k \<in> set (pending ts)" by (simp add: pending_def)
  then show "pending ts = [k]" using \<open>length (pending ts) \<le> 1\<close> by (cases "pending ts") auto
qed

lemma answers_sends: "answers k \<Longrightarrow> \<not> no_send k"
  by (induction k) auto

lemma inv_resumed_idle:
  assumes inv: "conn_inv X S (c, n, f, ts)" and k: "k \<in> set ts" "no_send k" and st: "asgi_coro_step X k c = (r, c')"
  shows "conn_inv X S (c', n + owes c c', f + ends c c', remove1 k ts @ tasks_after r)"
proof -
  have sk: "asgi_small k" using inv k(1) by (auto simp: conn_inv_def list_all_iff)
  note ns = no_send_step [OF k(2) sk st]
  have p: "pending (remove1 k ts @ tasks_after r) = pending ts"
    using ns(2) k(2) by (simp add: pending_remove1 pending_Nil list_all_iff)
  have "list_all sends_once ts \<Longrightarrow> list_all sends_once (remove1 k ts @ tasks_after r)"
    using ns(2) no_send_once by (auto simp: list_all_remove1) (auto simp: list_all_iff)
  moreover have "list_ex answers ts \<Longrightarrow> list_ex answers (remove1 k ts)"
    using k(2) answers_sends by (auto simp: list_ex_iff) (metis in_set_remove1)
  moreover have "list_all asgi_small (remove1 k ts @ tasks_after r)"
    using inv ns(2) by (auto simp: conn_inv_def list_all_remove1) (auto simp: list_all_iff)
  ultimately show ?thesis using inv p ns(1)
    by (auto simp: conn_inv_def open_inv_def sent_def waiting_def split: if_splits)
qed

lemma inv_resumed_sender:
  assumes inv: "conn_inv X S (c, n, f, ts)" and k: "k \<in> set ts" "\<not> no_send k" and st: "asgi_coro_step X k c = (r, c')"
  shows "conn_inv X S (c', n + owes c c', f + ends c c', remove1 k ts @ tasks_after r)"
proof -
  have pk: "pending ts \<noteq> []" using k by (auto simp: pending_Nil list_all_iff)
  have u: "UvClose \<notin> set (uv c)" using inv pk by (auto simp: conn_inv_def split: if_splits)
  have c: "f = 0" "core_ok X S c" "list_all asgi_small ts" "open_inv X c n ts" using conn_inv_open [OF inv u] pk by auto
  have w: "in_flight c" "waiting X c n ts" "busy_ok c" "armed_ok c"
    using c(4) pk by (auto simp: open_inv_def sent_def split: if_splits)
  have wt: "asgi_mode (srv c)" "n = 0" "unanswered c" "pending ts = [k]" "list_all sends_once ts"
    "app_replies X \<longrightarrow> list_ex answers ts"
    using w(2) only_pending [OF k] by (auto simp: waiting_def)
  have sk: "asgi_small k" "sends_once k" using c(3) wt(5) k(1) by (auto simp: list_all_iff)
  have rest: "pending (remove1 k ts) = []" using wt(4) k(2) by (simp add: pending_remove1)
  have ak: "answers k" if b: "app_replies X"
  proof -
    obtain k' where k': "k' \<in> set ts" "answers k'" using wt(6) b by (auto simp: list_ex_iff)
    then have "k' \<in> set (pending ts)" using answers_sends by (simp add: pending_def)
    then show ?thesis using wt(4) k'(2) by simp
  qed
  have small: "list_all asgi_small (remove1 k ts)" "list_all sends_once (remove1 k ts)"
    using c(3) wt(5) by (simp_all add: list_all_remove1)
  have i: "same_rx c c'" using coro_step_rx [OF st] .
  have ic: "in_flight c'" "busy_ok c'" "armed_ok c'" using rx_keeps(1,2) [OF i] w i by (simp_all add: same_rx_def)
  from coro_step_outcome [OF wt(3) sk st] show ?thesis
  proof
    assume o: "c' = c \<and> list_all (\<lambda>k'. sends_once k' \<and> asgi_small k') (tasks_after r)
      \<and> (replies k \<longrightarrow> list_all answers (tasks_after r)) \<and> (answers k \<longrightarrow> tasks_after r \<noteq> [])"
    have "length (tasks_after r) \<le> 1" by (cases r) (simp_all add: tasks_after_def)
    then have "length (pending (remove1 k ts @ tasks_after r)) \<le> 1"
      using rest by (auto simp: pending_def intro: le_trans [OF length_filter_le])
    moreover have "list_all sends_once (remove1 k ts @ tasks_after r)" "list_all asgi_small (remove1 k ts @ tasks_after r)"
      using o small by (auto simp: list_all_iff)
    moreover have "list_ex answers (tasks_after r)" if "app_replies X"
      using o ak [OF that] answers_replies by (cases "tasks_after r") auto
    ultimately have "waiting X c 0 (remove1 k ts @ tasks_after r)" "list_all asgi_small (remove1 k ts @ tasks_after r)"
      using wt by (auto simp: waiting_def)
    then show ?thesis using o wt(2) w u c(1,2) by (simp add: conn_inv_def open_inv_def)
  next
    assume o: "answered X c c' \<and> list_all (\<lambda>k'. no_send k' \<and> asgi_small k') (tasks_after r)"
    then obtain x where x: "response_call X c x" "uv c' = uv c @ [x]" "length (resp_hdr c') = length (resp_hdr c)"
      using wt(3) by (auto simp: answered_def unanswered_def)
    have p: "pending (remove1 k ts @ tasks_after r) = []" using rest o by (auto simp: pending_Nil list_all_iff)
    have l: "list_all asgi_small (remove1 k ts @ tasks_after r)" using o small by (auto simp: list_all_iff)
    have core: "core_ok X S c'" using core_rx [OF i x(3) c(2)] .
    show ?thesis using x(1) unfolding response_call_def
    proof
      assume "\<exists>d. x = UvWrite d OnWrite (uv_write_ok X (uv c))"
      then have "sent X (owes c c') (remove1 k ts @ tasks_after r)" "UvClose \<notin> set (uv c')" "ends c c' = 0"
        using p x(2) u by (auto simp: sent_def)
      then show ?thesis using core l ic wt(2) c(1) by (simp add: conn_inv_def open_inv_def)
    next
      assume "x = UvClose \<and> tls c \<noteq> None"
      then show ?thesis using core l p wt(2) c(1) u x(2) by (simp add: conn_inv_def count_list_0_iff)
    qed
  qed
qed

lemma inv_step:
  assumes "conn_inv X S s" "timely_step X s s'"
  shows "conn_inv X S s'"
proof -
  have "conn_step X s s'" "\<not> hs_late s s'" using assms(2) by (simp_all add: timely_step_def)
  then show ?thesis
  proof (cases rule: conn_step.cases)
    case (read c room c1 data c' n f ts)
    then show ?thesis using inv_read [of X S c n f ts room c1 data c'] assms(1) by simp
  next
    case (written n status c c' f ts)
    then show ?thesis using inv_written [of X S c n f ts status c'] assms(1) by (simp only:)
  next
    case (resumed k ts c r c' n f)
    then show ?thesis
      using inv_resumed_idle [of X S c n f ts k r c'] inv_resumed_sender [of X S c n f ts k r c'] assms(1) by blast
  next
    case (final f c n ts)
    then show ?thesis using inv_final [of X S c n f ts] assms(1) by (simp only:)
  next
    case (hs_written hw c n f ts status)
    then show ?thesis using inv_hs_written [of X S c n f ts hw status] assms(1) \<open>\<not> hs_late s s'\<close> by simp
  qed (use assms(1) in \<open>auto intro: inv_read_error\<close>)
qed

interpretation life: step_invariant "timely_step X" "conn_inv X S" for X :: "'p ext" and S
  by unfold_locales (rule inv_step)

text \<open>After a late failure the handle is closing, and stays so, with the configuration of the server as it was.\<close>

definition shut_inv :: "server \<Rightarrow> 'p life \<Rightarrow> bool" where
  "shut_inv S s \<longleftrightarrow> UvClose \<in> set (uv (fst s)) \<and> same_conf S (srv (fst s))"

lemma shut_grows: "shut_inv S (c, n, f, ts) \<Longrightarrow> grows c c' \<Longrightarrow> shut_inv S (c', n', f', ts')"
  using same_conf_trans by (fastforce simp: shut_inv_def grows_def)

lemma hs_write_grows: "grows c (on_tls_hs_write hw status c)"
  by (simp add: on_tls_hs_write_def Let_def grows_def uv_close_def same_conf_def free_def)

lemma final_write_grows: "grows c (on_tls_final_write c)"
proof -
  have "grows c (tls_release_wbuf c)" using release_wbuf_frame [of c] rx_grows [of c "tls_release_wbuf c" "[]"] by simp
  then show ?thesis by (simp add: on_tls_final_write_def)
qed

lemma shut_step:
  assumes "shut_inv S s" "conn_step X s s'"
  shows "shut_inv S s'"
  using assms(2)
proof (cases rule: conn_step.cases)
  case (written n status c c' f ts)
  then show ?thesis using shut_grows [OF _ on_write_grows] assms(1) by blast
next
  case (resumed k ts c r c' n f)
  then show ?thesis using shut_grows [OF _ coro_step_grows] assms(1) by blast
next
  case (final f c n ts)
  then show ?thesis using shut_grows [OF _ final_write_grows] assms(1) by blast
next
  case (hs_written hw c n f ts status)
  then show ?thesis using shut_grows [OF _ hs_write_grows] assms(1) by blast
qed (use assms(1) in \<open>auto simp: shut_inv_def uv_is_closing_def\<close>)

interpretation shut: step_invariant "conn_step X" "shut_inv S" for X :: "'p ext" and S
  by unfold_locales (rule shut_step)

lemma late_shuts: "conn_inv X S s \<Longrightarrow> hs_late s s' \<Longrightarrow> shut_inv S s'"
  by (auto simp: hs_late_def conn_inv_def core_ok_def shut_inv_def on_tls_hs_write_def uv_close_def same_conf_def free_def Let_def)

text \<open>Any run, up to its first late failure and from there on.\<close>

lemma run_splits:
  assumes "(conn_step X)\<^sup>*\<^sup>* s u"
  shows "(timely_step X)\<^sup>*\<^sup>* s u \<or> (\<exists>t t'. (timely_step X)\<^sup>*\<^sup>* s t \<and> hs_late t t' \<and> (conn_step X)\<^sup>*\<^sup>* t' u)"
  using assms
proof (induction rule: rtranclp_induct)
  case (step t u)
  show ?case
  proof (cases "(timely_step X)\<^sup>*\<^sup>* s t")
    case True
    show ?thesis
    proof (cases "hs_late t u")
      case True
      then show ?thesis using \<open>(timely_step X)\<^sup>*\<^sup>* s t\<close> by blast
    next
      case False
      then have "timely_step X t u" using step(2) by (simp add: timely_step_def)
      then show ?thesis using True by (meson rtranclp.rtrancl_into_rtrancl)
    qed
  next
    case False
    then show ?thesis using step(2,3) by (meson rtranclp.rtrancl_into_rtrancl)
  qed
qed simp

text \<open>What an ASGI server assumes of its application.\<close>

definition app_ok :: "'p ext \<Rightarrow> 'p life \<Rightarrow> bool" where
  "app_ok X s \<longleftrightarrow> asgi_mode (srv (fst s)) \<longrightarrow> app_sends_once X"

lemma fresh_inv: "fresh_conn s \<Longrightarrow> app_ok X s \<Longrightarrow> conn_inv X (srv (fst s)) s"
  by (auto simp: fresh_conn_def app_ok_def conn_inv_def open_inv_def core_ok_def idle_ok_def buf_ok_def spill_ok_def last_len_ok_def)

lemmas timely_inv = life.reachable [OF _ fresh_inv]

lemma reachable_inv:
  assumes "(conn_step X)\<^sup>*\<^sup>* s u" "fresh_conn s" "app_ok X s"
  shows "conn_inv X (srv (fst s)) u
    \<or> (\<exists>t t'. (timely_step X)\<^sup>*\<^sup>* s t \<and> hs_late t t' \<and> (conn_step X)\<^sup>*\<^sup>* t' u) \<and> shut_inv (srv (fst s)) u"
  using run_splits [OF assms(1)]
proof
  assume "(timely_step X)\<^sup>*\<^sup>* s u"
  then show ?thesis using timely_inv [OF _ assms(2,3)] by blast
next
  assume r: "\<exists>t t'. (timely_step X)\<^sup>*\<^sup>* s t \<and> hs_late t t' \<and> (conn_step X)\<^sup>*\<^sup>* t' u"
  then obtain t t' where t: "(timely_step X)\<^sup>*\<^sup>* s t" "hs_late t t'" "(conn_step X)\<^sup>*\<^sup>* t' u" by blast
  from shut.reachable [OF t(3) late_shuts [OF timely_inv [OF t(1) assms(2,3)] t(2)]] show ?thesis using r by blast
qed

text \<open>The configuration of the server is what it was when the connection was accepted.\<close>

lemma reachable_conf:
  "(conn_step X)\<^sup>*\<^sup>* s (c, n, f, ts) \<Longrightarrow> fresh_conn s \<Longrightarrow> app_ok X s \<Longrightarrow> same_conf (srv (fst s)) (srv c)"
  using reachable_inv [of X s "(c, n, f, ts)"] by (auto simp: conn_inv_def core_ok_def shut_inv_def)


text \<open>A fresh connection, and the first bytes of a request arriving on it.\<close>

definition sample_life :: "nat life" where
  "sample_life = (sample_conn\<lparr>uv := [UvReadStart]\<rparr>, 0, 0, [])"

lemma sample_life_fresh: "fresh_conn sample_life" "app_ok X sample_life"
  by (simp_all add: fresh_conn_def app_ok_def sample_life_def sample_conn_def sample_server_def)

definition sample_reading :: "nat conn" where
  "sample_reading = (put_read (take 20 sample_bytes) (sample_conn\<lparr>uv := [UvReadStart]\<rparr>))\<lparr>req := None, last_len := 20\<rparr>"

lemma sample_life_step: "conn_step sample_ext sample_life (sample_reading, 0, 0, [])"
proof -
  let ?c = "sample_conn\<lparr>uv := [UvReadStart]\<rparr> :: nat conn" and ?b = "take 20 sample_bytes"
  let ?d = "put_read ?b ?c"
  have l: "length ?b = 20" by (simp add: length_sample_bytes)
  have b: "buf_ok ?c" "request_bytes ?c = []" "tls ?c = None" "\<not> in_flight ?c"
    by (simp_all add: buf_ok_def request_bytes_def client_buffered_def sample_conn_def sizes)
  have fit: "int (length ?b) \<le> int READ_BUF_SIZE - read_len ?c" by (simp add: l sample_conn_def sizes)
  have d: "request_bytes ?d = ?b" "last_len ?d = 0" "read_len ?d = 20" "client_buffered ?d = 20"
    using put_read_ok(2) [OF b(1) fit] b(2) l by (simp_all add: put_read_def client_buffered_def sample_conn_def)
  have h: "http_dispatch sample_ext ?d = Some (0, sample_reading)"
    using d sample_verdicts(1)
    by (simp add: http_dispatch_def sample_ext_def MAX_HEADERS_def sample_reading_def)
  have "read_tail sample_reading = sample_reading" using d(3) by (simp add: read_tail_def sample_reading_def sizes)
  then have r: "on_read sample_ext ?b ?c = Some sample_reading"
    using on_read_put [OF b(3,1) _ fit, of sample_ext] h b(4) l by (cases "?b = []") auto
  have a: "alloc_cb ?c = (READ_BUF_SIZE, ?c)"
    by (simp add: alloc_cb_def client_compact_def client_buffered_def sample_conn_def Let_def)
  have u: "uv sample_reading = uv ?c" "new_tasks sample_reading = []"
    by (simp_all add: sample_reading_def put_read_def new_tasks_def sample_conn_def sample_server_def)
  have "conn_step sample_ext (?c, 0, 0, []) (sample_reading, 0 + owes ?c sample_reading, 0 + ends ?c sample_reading,
      [] @ (if in_flight ?c then [] else new_tasks sample_reading))"
    by (rule conn_step.read [OF _ _ a _ _ r]) (use l in \<open>auto simp: uv_is_closing_def sample_conn_def sizes\<close>)
  then show ?thesis using u b(4) by (simp add: sample_life_def)
qed

lemma sample_run: "(conn_step sample_ext)\<^sup>*\<^sup>* sample_life (sample_reading, 0, 0, [])"
  using sample_life_step by blast

lemma sample_reading: "uv sample_reading = [UvReadStart]" "\<not> in_flight sample_reading" "read_len sample_reading = 20"
  by (simp_all add: sample_reading_def put_read_def sample_conn_def length_sample_bytes)


text \<open>
  What the exception leads to. A handshake that fails sends its alert and closes the handle; libuv then
  completes that write as cancelled, and the completion closes the handle again. And where it finds the
  connection at work, it closes the handle first, and the completion of the response or of the farewell is
  the second to close it. libuv aborts the process on a second close.
\<close>

theorem late_failure_closes_twice:
  fixes hw :: nat
  assumes "fresh_conn s" "app_ok X s" "(timely_step X)\<^sup>*\<^sup>* s (c, n, f, ts)" "status < 0"
  defines "d \<equiv> on_tls_hs_write hw status c"
  shows "UvClose \<in> set (uv c) \<Longrightarrow> count_list (uv d) UvClose = 2"
    and "0 < n \<Longrightarrow> \<exists>c'. on_write X (- 125) d = Some c' \<and> count_list (uv c') UvClose = 2"
    and "0 < f \<Longrightarrow> count_list (uv (on_tls_final_write d)) UvClose = 2"
    and "UvClose \<notin> set (uv c) \<Longrightarrow> count_list (uv d) UvClose = 1"
proof -
  have i: "conn_inv X (srv (fst s)) (c, n, f, ts)" by (rule timely_inv [OF assms(3,1,2)])
  have d: "uv d = uv c @ [UvClose]" using assms(4) by (simp add: d_def on_tls_hs_write_def uv_close_def Let_def)
  show one: "UvClose \<notin> set (uv c) \<Longrightarrow> count_list (uv d) UvClose = 1"
    by (simp add: d count_list_0_iff)
  show "UvClose \<in> set (uv c) \<Longrightarrow> count_list (uv d) UvClose = 2"
    using i by (simp add: d conn_inv_def)
  show "0 < f \<Longrightarrow> count_list (uv (on_tls_final_write d)) UvClose = 2"
  proof -
    assume "0 < f"
    then have "UvClose \<notin> set (uv c)" using i by (auto simp: conn_inv_def split: if_splits)
    then show ?thesis using one release_wbuf_frame(3) [of d] by (simp add: on_tls_final_write_def uv_close_def)
  qed
  show "0 < n \<Longrightarrow> \<exists>c'. on_write X (- 125) d = Some c' \<and> count_list (uv c') UvClose = 2"
  proof -
    assume "0 < n"
    then have u: "UvClose \<notin> set (uv c)" using i by (auto simp: conn_inv_def split: if_splits)
    let ?b = "if tls d \<noteq> None then tls_release_wbuf d else d"
    obtain ok c4 where f: "tls_send_final X [] (client_clear_conn_cache
        (?b\<lparr>resp_status := None, resp_pyheaders := None, resp_body := None, asgi_task := None\<rparr>)) = (ok, c4)"
      by (metis surj_pair)
    have "on_write X (- 125) d = Some (uv_close (client_clear_conn_cache
        (?b\<lparr>resp_status := None, resp_pyheaders := None, resp_body := None, asgi_task := None\<rparr>)))"
      using on_write_end [OF _ f] by simp
    then show ?thesis using one [OF u] release_wbuf_frame(3) [of d] by (simp add: uv_close_def client_clear_conn_cache_def)
  qed
qed



text \<open>The shortest way to a second close: the handshake fails, and its alert is cancelled by the close.\<close>

theorem tls_alert_double_close:
  assumes "out \<noteq> []" "fst (malloc X (srv c)) = Some hw" "\<not> in_flight c" "UvClose \<notin> set (uv c)"
  shows "count_list (uv (on_tls_hs_write hw (- 125) (tls_read_failed (tls_hs_send X out c)))) UvClose = 2"
  using assms
  by (cases "malloc X (srv c)")
    (auto simp: on_tls_hs_write_def tls_read_failed_def tls_hs_send_def uv_write_def uv_close_def Let_def
      count_list_0_iff split: if_splits)

end
