(* ===== verification/ClientPool.thy ===== *)
theory ClientPool
  imports Prelude
begin

text \<open>
  The pool of connection structures, \<^verbatim>\<open>freastal/src/server.c\<close>: \<open>pool_init\<close>, \<open>client_alloc\<close> and
  \<open>client_free\<close>. Structures come from a slab, first by a bump pointer and then from a free list that is
  linked through the structures' own \<open>next_free\<close> fields; when the slab is used up they come from \<open>malloc\<close>.

  \<^item> An address is a natural number, 0 is \<open>NULL\<close>. The field \<open>next_free\<close> of every structure is the memory
    \<open>next_free\<close>, a function of the address; the rest of a structure is theory \<open>Client\<close>.
  \<^item> \<open>sz\<close> is \<open>sizeof(client_t)\<close>. What \<open>calloc\<close> and \<open>malloc\<close> return is an argument.
\<close>

section \<open>Definitions\<close>

record pool =
  slab :: nat
  pool_cap :: nat
  pool_used :: nat
  free_list :: nat
  next_free :: "nat \<Rightarrow> nat"

text \<open>\<open>None\<close> is the return value -1; \<open>base\<close> is what \<open>calloc\<close> returned.\<close>

definition pool_init :: "nat \<Rightarrow> nat \<Rightarrow> pool \<Rightarrow> pool option" where
  "pool_init cap base p =
     (if base = 0 then None
      else Some (p\<lparr>slab := base, pool_cap := cap, pool_used := 0, free_list := 0\<rparr>))"

text \<open>
  \<open>m\<close> is what \<open>malloc\<close> returns if it is called. The \<open>memset\<close> of the prefix clears \<open>next_free\<close>, which lies
  in it.
\<close>

definition client_alloc :: "nat \<Rightarrow> nat \<Rightarrow> pool \<Rightarrow> nat \<times> pool" where
  "client_alloc sz m p =
     (if free_list p \<noteq> 0 then
        let c = free_list p
        in (c, p\<lparr>free_list := next_free p c, next_free := (next_free p)(c := 0)\<rparr>)
      else if pool_used p < pool_cap p then
        let c = slab p + pool_used p * sz
        in (c, p\<lparr>pool_used := pool_used p + 1, next_free := (next_free p)(c := 0)\<rparr>)
      else if m = 0 then (0, p)
      else (m, p\<lparr>next_free := (next_free p)(m := 0)\<rparr>))"

definition client_free :: "nat \<Rightarrow> nat \<Rightarrow> pool \<Rightarrow> pool" where
  "client_free sz c p =
     (if slab p \<le> c \<and> c < slab p + pool_cap p * sz
      then p\<lparr>next_free := (next_free p)(c := free_list p), free_list := c\<rparr>
      else p)"

section \<open>The free list\<close>

fun chain :: "(nat \<Rightarrow> nat) \<Rightarrow> nat \<Rightarrow> nat list \<Rightarrow> bool" where
  "chain nf a [] \<longleftrightarrow> a = 0"
| "chain nf a (x # xs) \<longleftrightarrow> a = x \<and> x \<noteq> 0 \<and> chain nf (nf x) xs"

lemma chain_update: "c \<notin> set xs \<Longrightarrow> chain (nf(c := v)) a xs = chain nf a xs"
  by (induction xs arbitrary: a) auto

lemma chain_Nil: "chain nf 0 xs \<longleftrightarrow> xs = []"
  by (cases xs) auto

text \<open>The structures of the slab that were handed out at least once.\<close>

definition slots :: "nat \<Rightarrow> pool \<Rightarrow> nat set" where
  "slots sz p = (\<lambda>i. slab p + i * sz) ` {..<pool_used p}"

text \<open>
  The account of the structures, given the set \<open>live\<close> of those that connections hold: the free list is
  a proper list, and every slot is either on it or live, never both.
\<close>

definition pool_ok :: "nat \<Rightarrow> pool \<Rightarrow> nat set \<Rightarrow> bool" where
  "pool_ok sz p live \<longleftrightarrow> slab p \<noteq> 0 \<and> pool_used p \<le> pool_cap p
     \<and> (\<exists>xs. chain (next_free p) (free_list p) xs \<and> distinct xs \<and> set xs \<inter> live = {}
          \<and> set xs \<union> (live \<inter> {slab p ..< slab p + pool_cap p * sz}) = slots sz p)"

lemma slots_range:
  assumes "pool_used p \<le> pool_cap p" "0 < sz"
  shows "slots sz p \<subseteq> {slab p ..< slab p + pool_cap p * sz}"
  using assms by (auto simp: slots_def)

text \<open>What \<open>malloc\<close> promises: memory that is neither in the slab nor in use.\<close>

definition fresh_from :: "nat \<Rightarrow> nat \<Rightarrow> pool \<Rightarrow> nat set \<Rightarrow> bool" where
  "fresh_from m sz p live \<longleftrightarrow> m \<notin> live \<and> m \<notin> {slab p ..< slab p + pool_cap p * sz}"

lemma pool_ok_alloc:
  assumes "pool_ok sz p live" "0 < sz" "fresh_from m sz p live" "client_alloc sz m p = (c, p')"
  shows "if c = 0 then p' = p \<and> m = 0 \<and> pool_used p = pool_cap p \<and> free_list p = 0
    else c \<notin> live \<and> pool_ok sz p' (insert c live)"
proof -
  obtain xs where xs: "chain (next_free p) (free_list p) xs" "distinct xs" "set xs \<inter> live = {}"
    "set xs \<union> (live \<inter> {slab p ..< slab p + pool_cap p * sz}) = slots sz p"
    and p: "slab p \<noteq> 0" "pool_used p \<le> pool_cap p"
    using assms(1) by (auto simp: pool_ok_def)
  note range = slots_range [OF p(2) assms(2)]
  consider (free) "free_list p \<noteq> 0" | (bump) "free_list p = 0" "pool_used p < pool_cap p"
    | (malloc) "free_list p = 0" "\<not> pool_used p < pool_cap p"
    by blast
  then show ?thesis
  proof cases
    case free
    then have c: "free_list p = c" and p': "p' = p\<lparr>free_list := next_free p c, next_free := (next_free p)(c := 0)\<rparr>"
      using assms(4) by (auto simp: client_alloc_def Let_def)
    obtain ys where ys: "xs = c # ys"
      using xs(1) free c by (cases xs) simp_all
    have "c \<in> slots sz p"
      using xs(4) ys by auto
    then have "c \<in> {slab p ..< slab p + pool_cap p * sz}"
      using range by blast
    then have "pool_ok sz p' (insert c live)"
      unfolding pool_ok_def using xs ys p
      by (intro conjI exI [of _ ys]) (auto simp: p' chain_update slots_def)
    then show ?thesis
      using xs(3) ys free c by auto
  next
    case bump
    then have c: "c = slab p + pool_used p * sz"
      and p': "p' = p\<lparr>pool_used := pool_used p + 1, next_free := (next_free p)(c := 0)\<rparr>"
      using assms(4) by (auto simp: client_alloc_def Let_def)
    have "xs = []"
      using xs(1) bump by (simp add: chain_Nil)
    moreover have "c \<in> {slab p ..< slab p + pool_cap p * sz}" "c \<notin> slots sz p"
      using bump c assms(2) by (auto simp: slots_def)
    moreover have "slots sz p' = insert c (slots sz p)"
      by (auto simp: slots_def p' c lessThan_Suc)
    ultimately have "c \<notin> live" "pool_ok sz p' (insert c live)"
      unfolding pool_ok_def using xs p bump by (auto simp: p' chain_Nil)
    then show ?thesis
      using c p(1) by simp
  next
    case malloc
    then have "xs = []" "pool_used p = pool_cap p"
      using xs(1) p(2) by (simp_all add: chain_Nil)
    then show ?thesis
      using malloc assms(1,3,4) xs p
      by (auto simp: client_alloc_def fresh_from_def pool_ok_def slots_def chain_Nil split: if_splits)
  qed
qed

lemma pool_ok_free:
  assumes "pool_ok sz p live" "0 < sz" "c \<in> live" "0 \<notin> live"
  shows "pool_ok sz (client_free sz c p) (live - {c})"
proof -
  obtain xs where xs: "chain (next_free p) (free_list p) xs" "distinct xs" "set xs \<inter> live = {}"
    "set xs \<union> (live \<inter> {slab p ..< slab p + pool_cap p * sz}) = slots sz p"
    and p: "slab p \<noteq> 0" "pool_used p \<le> pool_cap p"
    using assms(1) by (auto simp: pool_ok_def)
  have "c \<notin> set xs" "c \<noteq> 0"
    using xs(3) assms(3,4) by auto
  show ?thesis
  proof (cases "slab p \<le> c \<and> c < slab p + pool_cap p * sz")
    case True
    have "slots sz (client_free sz c p) = slots sz p"
      by (simp add: slots_def client_free_def)
    then show ?thesis
      unfolding pool_ok_def using True xs p \<open>c \<notin> set xs\<close> \<open>c \<noteq> 0\<close> assms(3)
      by (intro conjI exI [of _ "c # xs"]) (auto simp: client_free_def chain_update)
  next
    case False
    then show ?thesis
      unfolding pool_ok_def using xs p
      by (intro conjI exI [of _ xs]) (auto simp: client_free_def)
  qed
qed

section \<open>Any sequence of connections\<close>

text \<open>
  The states a server reaches by accepting and closing connections, each with the set of structures the
  open connections hold.
\<close>

inductive pool_reach :: "nat \<Rightarrow> nat \<Rightarrow> pool \<Rightarrow> nat set \<Rightarrow> bool" for sz cap where
  init: "pool_init cap base p0 = Some p \<Longrightarrow> pool_reach sz cap p {}"
| alloc: "\<lbrakk>pool_reach sz cap p live; fresh_from m sz p live; client_alloc sz m p = (c, p'); c \<noteq> 0\<rbrakk>
    \<Longrightarrow> pool_reach sz cap p' (insert c live)"
| free: "\<lbrakk>pool_reach sz cap p live; c \<in> live\<rbrakk> \<Longrightarrow> pool_reach sz cap (client_free sz c p) (live - {c})"

lemma pool_reach_ok:
  assumes "pool_reach sz cap p live" "0 < sz"
  shows "pool_ok sz p live \<and> 0 \<notin> live \<and> pool_cap p = cap"
  using assms(1)
proof (induction rule: pool_reach.induct)
  case (init base p0 p)
  then show ?case
    by (auto simp: pool_init_def pool_ok_def slots_def chain_Nil split: if_splits)
next
  case (alloc p live m c p')
  have "pool_cap p' = pool_cap p"
    using alloc.hyps(3) by (auto simp: client_alloc_def Let_def split: if_splits)
  then show ?case
    using pool_ok_alloc [of sz p live m c p'] alloc assms(2) by auto
next
  case (free p live c)
  have "pool_cap (client_free sz c p) = pool_cap p"
    by (simp add: client_free_def)
  then show ?case
    using pool_ok_free [of sz p live c] free assms(2) by simp
qed

text \<open>
  C39. No structure serves two connections. Whatever connections were accepted and closed before, in any
  order, \<open>client_alloc\<close> returns a structure no open connection holds; it fails only when the free list
  is empty, the slab is used up and \<open>malloc\<close> failed; and a structure given back by \<open>client_free\<close> is the
  next one handed out if it belongs to the slab.
\<close>

theorem client_pool_exclusive:
  assumes "pool_reach sz cap p live" "0 < sz" "fresh_from m sz p live"
  shows "(case client_alloc sz m p of (c, p') \<Rightarrow>
      if c = 0 then p' = p \<and> m = 0 \<and> pool_used p = cap \<and> free_list p = 0 else c \<notin> live)
    \<and> (\<forall>c \<in> live. slab p \<le> c \<and> c < slab p + cap * sz \<longrightarrow> fst (client_alloc sz m (client_free sz c p)) = c)"
proof -
  note ok = pool_reach_ok [OF assms(1,2)]
  have "case client_alloc sz m p of (c, p') \<Rightarrow>
      if c = 0 then p' = p \<and> m = 0 \<and> pool_used p = cap \<and> free_list p = 0 else c \<notin> live"
    using pool_ok_alloc [of sz p live m] ok assms(2,3) by (auto split: prod.split if_splits)
  then show ?thesis
    using ok by (auto simp: client_alloc_def client_free_def Let_def)
qed

text \<open>A slab of one structure of 8 bytes: the second connection gets its structure from \<open>malloc\<close>.\<close>

definition sample_pool :: pool where
  "sample_pool = \<lparr>slab = 64, pool_cap = 1, pool_used = 0, free_list = 0, next_free = (\<lambda>a. 0)\<rparr>"

theorem client_pool_exclusive_witness:
  "fst (client_alloc 8 32 (snd (client_alloc 8 0 sample_pool))) \<notin> {64}
   \<and> fst (client_alloc 8 32 (client_free 8 64 (snd (client_alloc 8 0 sample_pool)))) = 64"
proof -
  define p where "p = snd (client_alloc 8 0 sample_pool)"
  have c: "client_alloc 8 0 sample_pool = (64, p)"
    by (simp add: p_def client_alloc_def sample_pool_def)
  have p: "slab p = 64" "pool_cap p = 1"
    by (simp_all add: p_def client_alloc_def sample_pool_def)
  have "pool_init 1 64 sample_pool = Some sample_pool"
    by (simp add: pool_init_def sample_pool_def)
  then have "pool_reach 8 1 sample_pool {}"
    by (rule pool_reach.init)
  then have "pool_reach 8 1 p {64}"
    using pool_reach.alloc [OF _ _ c] by (simp add: fresh_from_def sample_pool_def)
  from client_pool_exclusive [OF this, of 32] show ?thesis
    unfolding p_def [symmetric] using p by (auto simp: fresh_from_def split: if_splits)
qed

end
