(* ===== verification/Ticket.thy ===== *)
theory Ticket
  imports Prelude "HOL-Library.Signed_Division"
begin

text \<open>
  Session-ticket keys, \<^verbatim>\<open>freastal/src/tls.c\<close> and \<^verbatim>\<open>server.h\<close>: a key, the ring of keys a process
  of its own rotates (\<open>tls_ticket_rotate_once\<close>, \<open>tls_ticket_key_by_name\<close>), and what a ring promises.

  \<^item> \<open>ptls_openssl_random_bytes\<close> is the argument \<open>rng\<close>: the bytes it yields, in the order they are asked
    for. It aborts rather than fail, so there is no error to model.
  \<^item> A ring is a list of \<open>TLS_TICKET_RING\<close> keys and the slot that seals. Its contract is the locale
    \<open>key_ring\<close>: rotating overwrites the slot after the current one and makes it current. What follows,
    once for every ring, is that a ring \<^emph>\<open>represents\<close> the history of the keys minted into it: the newest
    seals, the newest \<open>TLS_TICKET_RING\<close> open, and no byte of an older one is left.
\<close>

section \<open>Definitions\<close>

definition TLS_TICKET_NAME_LEN :: nat where "TLS_TICKET_NAME_LEN = 16"
definition TLS_TICKET_AES_LEN :: nat where "TLS_TICKET_AES_LEN = 32"
definition TLS_TICKET_HMAC_LEN :: nat where "TLS_TICKET_HMAC_LEN = 32"
definition TLS_TICKET_RING :: nat where "TLS_TICKET_RING = 3"
definition TLS_TICKET_ROTATE_MS :: nat where "TLS_TICKET_ROTATE_MS = 60 * 60 * 1000"
definition TLS_TICKET_LIFETIME_S :: nat where "TLS_TICKET_LIFETIME_S = 2 * 60 * 60"

lemmas ticket_consts = TLS_TICKET_NAME_LEN_def TLS_TICKET_AES_LEN_def TLS_TICKET_HMAC_LEN_def
  TLS_TICKET_RING_def TLS_TICKET_ROTATE_MS_def TLS_TICKET_LIFETIME_S_def

text \<open>\<^verbatim>\<open>server.h\<close> asserts at compile time that no ticket outlives the key that opens it.\<close>

definition ticket_lifetime_assert :: bool where
  "ticket_lifetime_assert \<longleftrightarrow> TLS_TICKET_LIFETIME_S * 1000 \<le> (TLS_TICKET_RING - 1) * TLS_TICKET_ROTATE_MS"

lemma ticket_lifetime_asserted: ticket_lifetime_assert
  by (simp add: ticket_lifetime_assert_def ticket_consts)

record tls_ticket_key =
  name :: bytes
  aes :: bytes
  hmac :: bytes
  live :: bool

text \<open>A slot after \<open>ptls_clear_memory\<close>, and a slot that was never filled.\<close>

definition cleared_key :: tls_ticket_key where
  "cleared_key =
     \<lparr>name = replicate TLS_TICKET_NAME_LEN NUL, aes = replicate TLS_TICKET_AES_LEN NUL,
      hmac = replicate TLS_TICKET_HMAC_LEN NUL, live = False\<rparr>"

definition tls_ticket_key_mint :: "(nat \<Rightarrow> char) \<Rightarrow> tls_ticket_key" where
  "tls_ticket_key_mint rng =
     \<lparr>name = map rng [0..<TLS_TICKET_NAME_LEN],
      aes = map (\<lambda>i. rng (TLS_TICKET_NAME_LEN + i)) [0..<TLS_TICKET_AES_LEN],
      hmac = map (\<lambda>i. rng (TLS_TICKET_NAME_LEN + TLS_TICKET_AES_LEN + i)) [0..<TLS_TICKET_HMAC_LEN],
      live = True\<rparr>"

text \<open>The sizes of the arrays of the structure.\<close>

definition key_shape :: "tls_ticket_key \<Rightarrow> bool" where
  "key_shape k \<longleftrightarrow> length (name k) = TLS_TICKET_NAME_LEN \<and> length (aes k) = TLS_TICKET_AES_LEN
     \<and> length (hmac k) = TLS_TICKET_HMAC_LEN"

lemma key_shape_simps [simp]: "key_shape cleared_key" "key_shape (tls_ticket_key_mint rng)"
  by (simp_all add: key_shape_def cleared_key_def tls_ticket_key_mint_def)

lemma live_simps [simp]: "\<not> live cleared_key" "live (tls_ticket_key_mint rng)"
  by (simp_all add: cleared_key_def tls_ticket_key_mint_def)

text \<open>
  The part of \<open>tls_server_t\<close> that tickets use. \<open>encrypt_ticket\<close> says whether the callback is installed
  in picotls' context, \<open>ticket_shared\<close> is the address of the shared mapping.
\<close>

record tls_server =
  ticket_lifetime :: nat
  encrypt_ticket :: bool
  require_dhe_on_psk :: bool
  max_early_data_size :: nat
  ticket_keys :: "tls_ticket_key list"
  ticket_cur :: int
  ticket_timer :: bool
  ticket_shared :: "nat option"
  ticket_shared_len :: nat
  tls_enabled :: bool

text \<open>The loop both searches of a ring run: the first live slot of that name.\<close>

primrec key_search :: "bytes \<Rightarrow> tls_ticket_key list \<Rightarrow> tls_ticket_key option" where
  "key_search nm [] = None"
| "key_search nm (k # ks) = (if live k \<and> name k = nm then Some k else key_search nm ks)"

definition tls_ticket_key_by_name :: "tls_server \<Rightarrow> bytes \<Rightarrow> tls_ticket_key option" where
  "tls_ticket_key_by_name ts nm = key_search nm (take TLS_TICKET_RING (ticket_keys ts))"

definition next_slot :: "int \<Rightarrow> int" where
  "next_slot cur = (cur + 1) smod int TLS_TICKET_RING"

definition tls_ticket_rotate_once :: "(nat \<Rightarrow> char) \<Rightarrow> tls_server \<Rightarrow> tls_server" where
  "tls_ticket_rotate_once rng ts =
     (let nxt = next_slot (ticket_cur ts);
          ts1 = ts\<lparr>ticket_keys := (ticket_keys ts)[nat nxt := cleared_key]\<rparr>;
          ts2 = ts1\<lparr>ticket_keys := (ticket_keys ts1)[nat nxt := tls_ticket_key_mint rng]\<rparr>
      in ts2\<lparr>ticket_cur := nxt\<rparr>)"

section \<open>What a ring promises\<close>

text \<open>
  The abstract ring is the history of the minted keys, the newest first: slot \<open>cur - i\<close> (cyclically)
  holds the \<open>i\<close>-th newest, or nothing when there are not that many.
\<close>

definition nth_newest :: "tls_ticket_key list \<Rightarrow> nat \<Rightarrow> tls_ticket_key" where
  "nth_newest hist i = (if i < length hist then hist ! i else cleared_key)"

definition represents :: "int \<Rightarrow> tls_ticket_key list \<Rightarrow> tls_ticket_key list \<Rightarrow> bool" where
  "represents cur keys hist \<longleftrightarrow>
     (cur = 0 \<and> keys = [nth_newest hist 0, nth_newest hist 2, nth_newest hist 1] \<or>
      cur = 1 \<and> keys = [nth_newest hist 1, nth_newest hist 0, nth_newest hist 2] \<or>
      cur = 2 \<and> keys = [nth_newest hist 2, nth_newest hist 1, nth_newest hist 0])"

text \<open>Every key of the history was minted, and no two of those still in the ring share a name.\<close>

definition good_hist :: "tls_ticket_key list \<Rightarrow> bool" where
  "good_hist hist \<longleftrightarrow> (\<forall>k \<in> set hist. live k \<and> key_shape k)
     \<and> distinct (map name (take TLS_TICKET_RING hist))"

lemma next_slot_simps [simp]: "next_slot 0 = 1" "next_slot 1 = 2" "next_slot 2 = 0"
  by (simp_all add: next_slot_def ticket_consts signed_modulo_int_def signed_divide_int_def)

lemma nth_newest_Cons [simp]:
  "nth_newest (k # hist) 0 = k"
  "nth_newest (k # hist) (Suc i) = nth_newest hist i"
  by (simp_all add: nth_newest_def)

lemma nth_newest_numeral [simp]:
  "nth_newest (k # hist) 1 = nth_newest hist 0"
  "nth_newest (k # hist) 2 = nth_newest hist 1"
  by (simp_all add: nth_newest_def nth_Cons' numeral_2_eq_2)

lemma represents_rotate:
  assumes "represents cur keys hist"
  shows "represents (next_slot cur) (keys[nat (next_slot cur) := k]) (k # hist)"
  using assms unfolding represents_def
  by (elim disjE conjE) (simp_all add: nat_numeral_as_int [symmetric] numeral_2_eq_2)

lemma represents_cases:
  assumes "represents cur keys hist"
  obtains "cur = 0" "keys = [nth_newest hist 0, nth_newest hist 2, nth_newest hist 1]"
  | "cur = 1" "keys = [nth_newest hist 1, nth_newest hist 0, nth_newest hist 2]"
  | "cur = 2" "keys = [nth_newest hist 2, nth_newest hist 1, nth_newest hist 0]"
  using assms unfolding represents_def by blast

lemma represents_bounds:
  assumes "represents cur keys hist"
  shows "0 \<le> cur" "cur < int TLS_TICKET_RING" "length keys = TLS_TICKET_RING"
  using assms by (auto elim!: represents_cases simp: ticket_consts)

lemma represents_set:
  assumes "represents cur keys hist"
  shows "set keys = {nth_newest hist 0, nth_newest hist 1, nth_newest hist 2}"
  using assms by (auto elim!: represents_cases)

lemma represents_newest:
  assumes "represents cur keys (k # hist)"
  shows "keys ! nat cur = k"
  using assms by (auto elim!: represents_cases)

lemma take_ring_nth:
  "set (take TLS_TICKET_RING hist) = (nth_newest hist) ` {i. i < TLS_TICKET_RING \<and> i < length hist}"
proof -
  have "set (take TLS_TICKET_RING hist) = (!) hist ` {i. i < TLS_TICKET_RING \<and> i < length hist}"
    by (auto simp: set_conv_nth image_iff) (metis nth_take)
  then show ?thesis
    by (auto simp: nth_newest_def)
qed

lemma ring_indices: "(i::nat) < TLS_TICKET_RING \<longleftrightarrow> i = 0 \<or> i = 1 \<or> i = 2"
  by (auto simp: ticket_consts)

lemma represents_live_recent:
  assumes "represents cur keys hist" "k \<in> set keys" "live k"
  shows "k \<in> set (take TLS_TICKET_RING hist)"
  using assms(2,3) unfolding represents_set [OF assms(1)] take_ring_nth
  by (auto simp: nth_newest_def ring_indices split: if_splits)

lemma represents_live:
  assumes "represents cur keys hist" and "good_hist hist"
  shows "{k \<in> set keys. live k} = set (take TLS_TICKET_RING hist)"
proof -
  have "{k \<in> set keys. live k} = {k \<in> nth_newest hist ` {i. i < TLS_TICKET_RING}. live k}"
    using represents_set [OF assms(1)] by (auto simp: ring_indices)
  also have "\<dots> = set (take TLS_TICKET_RING hist)"
    using assms(2) unfolding take_ring_nth by (auto simp: nth_newest_def good_hist_def split: if_splits)
  finally show ?thesis .
qed

lemma key_search_Some: "key_search nm ks = Some k \<Longrightarrow> k \<in> set ks \<and> live k \<and> name k = nm"
  by (induction ks) (auto split: if_splits)

lemma key_search_None: "key_search nm ks = None \<longleftrightarrow> (\<forall>k \<in> set ks. live k \<longrightarrow> name k \<noteq> nm)"
  by (induction ks) auto

lemma good_hist_unique:
  assumes "good_hist hist" "k \<in> set (take TLS_TICKET_RING hist)" "l \<in> set (take TLS_TICKET_RING hist)"
    "name k = name l"
  shows "k = l"
  using assms by (auto simp: good_hist_def distinct_map inj_on_def)

text \<open>A search of the ring is a search among the newest keys minted into it.\<close>

lemma represents_search:
  assumes "represents cur keys hist" and "good_hist hist"
  shows "key_search nm keys = Some k \<longleftrightarrow> k \<in> set (take TLS_TICKET_RING hist) \<and> name k = nm"
proof
  assume "key_search nm keys = Some k"
  then show "k \<in> set (take TLS_TICKET_RING hist) \<and> name k = nm"
    using key_search_Some represents_live [OF assms] by fastforce
next
  assume k: "k \<in> set (take TLS_TICKET_RING hist) \<and> name k = nm"
  then have "k \<in> set keys" "live k"
    using represents_live [OF assms] by auto
  with k have "key_search nm keys \<noteq> None"
    unfolding key_search_None by blast
  then obtain l where l: "key_search nm keys = Some l"
    by blast
  then have "l \<in> set (take TLS_TICKET_RING hist)" "name l = nm"
    using key_search_Some represents_live [OF assms] by fastforce+
  then show "key_search nm keys = Some k"
    using k l good_hist_unique [OF assms(2)] by metis
qed


text \<open>
  The interface of a ring to whatever draws keys from it: how it is rotated and how it is looked at.
  A rotation \<open>x\<close> draws the bytes \<open>draw x\<close>; \<open>valid\<close> is the invariant of the ring's own bookkeeping.
\<close>

locale key_ring =
  fixes rotate :: "'x \<Rightarrow> 'r \<Rightarrow> 'r"
    and draw :: "'x \<Rightarrow> nat \<Rightarrow> char"
    and usable :: "'x \<Rightarrow> bool"
    and slot :: "'r \<Rightarrow> int"
    and slots :: "'r \<Rightarrow> tls_ticket_key list"
    and valid :: "'r \<Rightarrow> bool"
  assumes rotate_slot: "\<lbrakk>valid r; usable x\<rbrakk> \<Longrightarrow> slot (rotate x r) = next_slot (slot r)"
    and rotate_slots: "\<lbrakk>valid r; usable x\<rbrakk> \<Longrightarrow>
      slots (rotate x r) = (slots r)[nat (next_slot (slot r)) := tls_ticket_key_mint (draw x)]"
    and rotate_valid: "\<lbrakk>valid r; usable x\<rbrakk> \<Longrightarrow> valid (rotate x r)"
begin

lemma run_represents:
  assumes "valid r" "represents (slot r) (slots r) hist" "list_all usable xs"
  shows "valid (fold rotate xs r) \<and>
    represents (slot (fold rotate xs r)) (slots (fold rotate xs r))
      (rev (map (\<lambda>x. tls_ticket_key_mint (draw x)) xs) @ hist)"
  using assms
proof (induction xs arbitrary: r hist)
  case (Cons x xs)
  have "represents (slot (rotate x r)) (slots (rotate x r)) (tls_ticket_key_mint (draw x) # hist)"
    using represents_rotate [OF Cons.prems(2)] Cons.prems(1,3) by (simp add: rotate_slot rotate_slots)
  with Cons.IH [of "rotate x r"] rotate_valid [OF Cons.prems(1)] Cons.prems(3) show ?case
    by simp
qed simp

text \<open>
  The ring refines the history: the newest key seals, a name opens exactly when it belongs to one of
  the newest keys, and every slot is either one of those or zero.
\<close>

lemma run_refines:
  fixes xs :: "'x list" and hist :: "tls_ticket_key list"
  defines "hist' \<equiv> rev (map (\<lambda>x. tls_ticket_key_mint (draw x)) xs) @ hist"
  assumes "valid r" "represents (slot r) (slots r) hist" "list_all usable xs" "good_hist hist'" "hist' \<noteq> []"
  shows "slots (fold rotate xs r) ! nat (slot (fold rotate xs r)) = hd hist'
    \<and> (key_search nm (slots (fold rotate xs r)) = Some k
         \<longleftrightarrow> k \<in> set (take TLS_TICKET_RING hist') \<and> name k = nm)
    \<and> set (slots (fold rotate xs r)) \<subseteq> insert cleared_key (set (take TLS_TICKET_RING hist'))"
proof -
  note rep = conjunct2 [OF run_represents [OF assms(2,3,4)], folded hist'_def]
  have "slots (fold rotate xs r) ! nat (slot (fold rotate xs r)) = hd hist'"
    using represents_newest rep \<open>hist' \<noteq> []\<close> by (metis list.collapse)
  moreover have "set (slots (fold rotate xs r)) \<subseteq> insert cleared_key (set (take TLS_TICKET_RING hist'))"
    unfolding represents_set [OF rep] take_ring_nth by (auto simp: nth_newest_def ticket_consts)
  ultimately show ?thesis
    using represents_search [OF rep \<open>good_hist hist'\<close>] by blast
qed

end

interpretation local_ring:
  key_ring tls_ticket_rotate_once "\<lambda>rng. rng" "\<lambda>rng. True" ticket_cur ticket_keys "\<lambda>ts. True"
  by unfold_locales (simp_all add: tls_ticket_rotate_once_def Let_def)

text \<open>Rotations spaced by at least \<open>gap\<close>: at most \<open>n\<close> of them fall into a window of length \<open>n * gap\<close>.\<close>

fun spaced :: "nat \<Rightarrow> nat list \<Rightarrow> bool" where
  "spaced gap (t # u # ts) \<longleftrightarrow> t + gap \<le> u \<and> spaced gap (u # ts)"
| "spaced gap ts \<longleftrightarrow> True"

lemma spaced_last: "spaced gap (t # ts) \<Longrightarrow> t + length ts * gap \<le> last (t # ts)"
  by (induction ts arbitrary: t) force+

lemma spaced_window:
  assumes "spaced gap ts" "\<forall>u \<in> set ts. t < u \<and> u \<le> t + n * gap"
  shows "length ts \<le> n"
proof (cases ts)
  case (Cons u us)
  have "u + length us * gap \<le> last ts" "t < u" "last ts \<le> t + n * gap"
    using assms spaced_last Cons by auto
  then have "length us * gap < n * gap"
    by linarith
  then show ?thesis
    using Cons by simp
qed simp

end
