(* ===== verification/TicketShare.thy ===== *)
theory TicketShare
  imports Ticket
begin

text \<open>
  The session-ticket ring that the workers of one server share, \<^verbatim>\<open>freastal/src/tls.c\<close>: the region, its
  seqlock (\<open>tls_ticket_ring_publish\<close>, \<open>tls_ticket_ring_read\<close>, \<open>tls_ticket_ring_is_stale\<close>), the owner's
  side (create, rotate, destroy), a worker's side (attach, disable, the rotation hook), and the ticket
  callback \<open>tls_ticket_key_cb\<close> over either ring.

  Owner and workers run in different processes on the same memory, so the model keeps every access:

  \<^item> What the owner does is a list of single stores (\<open>store\<close>), one per byte of a key; \<open>run_stores\<close>
    gives the memory after any number of them.
  \<^item> What a worker sees is a function \<open>mem\<close>: \<open>mem n\<close> is the region at the worker's \<open>n\<close>-th access, so a
    loop over shared memory is a function of \<open>mem\<close> and of the number of the next access. A worker
    beside an owner is \<open>mem n = run_stores ops r (sched n)\<close> for a monotone \<open>sched\<close>: any interleaving.
    The interleavings are those of sequential consistency, which the fences of the source establish.
  \<^item> The order in which \<open>memcpy\<close> and \<open>ptls_clear_memory\<close> visit the bytes is the library's: the arguments
    \<open>kord\<close> and \<open>ord\<close>.
  \<^item> The kernel's answers (descriptors, mappings, clock readings) are arguments.
\<close>

section \<open>The region\<close>

definition TLS_TICKET_RING_MAGIC :: "32 word" where "TLS_TICKET_RING_MAGIC = 0x6672746B"
definition TLS_TICKET_RING_ABI :: "32 word" where "TLS_TICKET_RING_ABI = 1"
definition TLS_TICKET_STALE_GRACE_MS :: nat where "TLS_TICKET_STALE_GRACE_MS = TLS_TICKET_ROTATE_MS"
definition TLS_TICKET_SEQ_RETRIES :: nat where "TLS_TICKET_SEQ_RETRIES = 64"
definition sizeof_ticket_key :: nat where
  "sizeof_ticket_key = TLS_TICKET_NAME_LEN + TLS_TICKET_AES_LEN + TLS_TICKET_HMAC_LEN + 1"

definition stale_grace_assert :: bool where
  "stale_grace_assert \<longleftrightarrow> TLS_TICKET_STALE_GRACE_MS \<le> TLS_TICKET_ROTATE_MS"

lemma stale_grace_asserted: stale_grace_assert
  by (simp add: stale_grace_assert_def TLS_TICKET_STALE_GRACE_MS_def)

text \<open>
  \<open>tls_monotonic_ms\<close>: \<open>ts\<close> is what \<open>clock_gettime\<close> filled in (seconds, nanoseconds), \<open>None\<close> when it
  failed. The result wraps at 64 bits.
\<close>

definition tls_monotonic_ms :: "(64 word \<times> 64 word) option \<Rightarrow> 64 word" where
  "tls_monotonic_ms ts = (case ts of None \<Rightarrow> 0 | Some (tv_sec, tv_nsec) \<Rightarrow> tv_sec * 1000 + tv_nsec div 1000000)"

text \<open>
  On a clock that has run for less than half a billion years it is the time in milliseconds, rounded
  down, and never goes back when the clock does not.
\<close>

lemma tls_monotonic_ms_exact:
  assumes "unat s < 2 ^ 54" "unat n < 10 ^ 9"
  shows "unat (tls_monotonic_ms (Some (s, n))) = unat s * 1000 + unat n div 10 ^ 6"
proof -
  have "unat n div 10 ^ 6 < 1000" using assms(2) by simp
  then have "unat s * 1000 + unat n div 10 ^ 6 < 2 ^ 64" using assms(1) by simp
  moreover from this have "unat (s * 1000) = unat s * 1000" by (subst unat_mult_lem [THEN iffD1]) simp_all
  ultimately show ?thesis
    by (simp add: tls_monotonic_ms_def) (subst unat_add_lem [THEN iffD1], simp_all add: unat_div)
qed

lemma tls_monotonic_ms_mono:
  assumes "unat s < 2 ^ 54" "unat n < 10 ^ 9" "unat s' < 2 ^ 54" "unat n' < 10 ^ 9"
    and "s < s' \<or> s = s' \<and> n \<le> n'"
  shows "tls_monotonic_ms (Some (s, n)) \<le> tls_monotonic_ms (Some (s', n'))"
proof -
  have "unat s < unat s' \<or> unat s = unat s' \<and> unat n \<le> unat n'"
    using assms(5) by (auto simp: word_less_nat_alt word_le_nat_alt)
  moreover have "unat n div 10 ^ 6 < 1000" using assms(2) by simp
  moreover have "unat n \<le> unat n' \<Longrightarrow> unat n div 10 ^ 6 \<le> unat n' div 10 ^ 6" by (rule div_le_mono)
  ultimately show ?thesis
    unfolding word_le_nat_alt tls_monotonic_ms_exact [OF assms(1,2)] tls_monotonic_ms_exact [OF assms(3,4)]
    by auto
qed

text \<open>The fields a worker copies out, and the region that extends them.\<close>

record tls_ticket_snapshot =
  cur :: int
  keys :: "tls_ticket_key list"

record tls_ticket_ring = tls_ticket_snapshot +
  magic :: "32 word"
  abi :: "32 word"
  ring_slots :: "32 word"
  key_stride :: "32 word"
  rotate_ms :: "32 word"
  grace_ms :: "32 word"
  owner_pid :: int
  seq :: "32 word"
  rotate_due_ms :: "64 word"

definition zeroed_ring :: tls_ticket_ring where
  "zeroed_ring =
     \<lparr>cur = 0, keys = replicate TLS_TICKET_RING cleared_key, magic = 0, abi = 0, ring_slots = 0,
      key_stride = 0, rotate_ms = 0, grace_ms = 0, owner_pid = 0, seq = 0, rotate_due_ms = 0\<rparr>"

text \<open>The bytes of a key, and of the array of keys.\<close>

datatype key_cell = NameByte nat | AesByte nat | HmacByte nat | LiveByte

definition key_cells :: "key_cell list" where
  "key_cells = map NameByte [0..<TLS_TICKET_NAME_LEN] @ map AesByte [0..<TLS_TICKET_AES_LEN]
     @ map HmacByte [0..<TLS_TICKET_HMAC_LEN] @ [LiveByte]"

definition ring_cells :: "(nat \<times> key_cell) list" where
  "ring_cells = List.product [0..<TLS_TICKET_RING] key_cells"

primrec copy_byte :: "key_cell \<Rightarrow> tls_ticket_key \<Rightarrow> tls_ticket_key \<Rightarrow> tls_ticket_key" where
  "copy_byte (NameByte i) src dst = dst\<lparr>name := (name dst)[i := name src ! i]\<rparr>"
| "copy_byte (AesByte i) src dst = dst\<lparr>aes := (aes dst)[i := aes src ! i]\<rparr>"
| "copy_byte (HmacByte i) src dst = dst\<lparr>hmac := (hmac dst)[i := hmac src ! i]\<rparr>"
| "copy_byte LiveByte src dst = dst\<lparr>live := live src\<rparr>"

section \<open>Publishing a rotation\<close>

datatype store =
    StoreSeq "32 word"
  | StoreByte nat key_cell tls_ticket_key
  | StoreCur int
  | StoreDue "64 word"

primrec exec_store :: "store \<Rightarrow> tls_ticket_ring \<Rightarrow> tls_ticket_ring" where
  "exec_store (StoreSeq s) r = r\<lparr>seq := s\<rparr>"
| "exec_store (StoreByte i a k) r = r\<lparr>keys := (keys r)[i := copy_byte a k (keys r ! i)]\<rparr>"
| "exec_store (StoreCur i) r = r\<lparr>cur := i\<rparr>"
| "exec_store (StoreDue t) r = r\<lparr>rotate_due_ms := t\<rparr>"

text \<open>
  \<open>tls_ticket_ring_publish\<close>: the stores in program order, and their joint effect. \<open>now\<close> is what
  \<open>tls_monotonic_ms\<close> returns.
\<close>

definition publish_window :: "key_cell list \<Rightarrow> tls_ticket_ring \<Rightarrow> int \<Rightarrow> tls_ticket_key \<Rightarrow> 64 word \<Rightarrow> store list"
  where
  "publish_window kord r slot fresh now =
     map (\<lambda>a. StoreByte (nat slot) a cleared_key) kord @ map (\<lambda>a. StoreByte (nat slot) a fresh) kord
     @ [StoreCur slot, StoreDue (now + ucast (rotate_ms r))]"

definition publish_stores :: "key_cell list \<Rightarrow> tls_ticket_ring \<Rightarrow> int \<Rightarrow> tls_ticket_key \<Rightarrow> 64 word \<Rightarrow> store list"
  where
  "publish_stores kord r slot fresh now =
     [StoreSeq (seq r + 1)] @ publish_window kord r slot fresh now @ [StoreSeq (seq r + 2)]"

definition tls_ticket_ring_publish ::
  "key_cell list \<Rightarrow> tls_ticket_ring \<Rightarrow> int \<Rightarrow> tls_ticket_key \<Rightarrow> 64 word \<Rightarrow> tls_ticket_ring" where
  "tls_ticket_ring_publish kord r slot fresh now = fold exec_store (publish_stores kord r slot fresh now) r"

text \<open>The memory after the first \<open>i\<close> of a list of stores.\<close>

definition run_stores :: "store list \<Rightarrow> tls_ticket_ring \<Rightarrow> nat \<Rightarrow> tls_ticket_ring" where
  "run_stores ops r i = fold exec_store (take i ops) r"

section \<open>Reading under the seqlock\<close>

definition copy_cell :: "nat \<times> key_cell \<Rightarrow> tls_ticket_ring \<Rightarrow> tls_ticket_snapshot \<Rightarrow> tls_ticket_snapshot" where
  "copy_cell ia r out =
     out\<lparr>keys := (keys out)[fst ia := copy_byte (snd ia) (keys r ! fst ia) (keys out ! fst ia)]\<rparr>"

text \<open>\<open>memcpy(out->keys, r->keys, ...)\<close>, one access per byte.\<close>

fun copy_keys :: "(nat \<times> key_cell) list \<Rightarrow> (nat \<Rightarrow> tls_ticket_ring) \<Rightarrow> nat \<Rightarrow> tls_ticket_snapshot
    \<Rightarrow> tls_ticket_snapshot" where
  "copy_keys [] mem n out = out"
| "copy_keys (a # as) mem n out = copy_keys as mem (Suc n) (copy_cell a (mem n) out)"

definition cleared_snapshot :: tls_ticket_snapshot where
  "cleared_snapshot = \<lparr>cur = 0, keys = replicate TLS_TICKET_RING cleared_key\<rparr>"

text \<open>
  The loop with \<open>tries\<close> attempts left; \<open>out\<close> is the caller's structure as it stands. The result is the
  snapshot, if one was taken, and the number of the next access.
\<close>

fun read_loop :: "(nat \<times> key_cell) list \<Rightarrow> (nat \<Rightarrow> tls_ticket_ring) \<Rightarrow> nat \<Rightarrow> nat \<Rightarrow> tls_ticket_snapshot
    \<Rightarrow> tls_ticket_snapshot option \<times> nat" where
  "read_loop ord mem n 0 out = (None, n)"
| "read_loop ord mem n (Suc tries) out =
     (let s1 = seq (mem n)
      in if s1 = 0 \<or> s1 AND 1 \<noteq> 0 then read_loop ord mem (n + 1) tries out
         else
           let out1 = copy_keys ord mem (n + 2) (out\<lparr>cur := cur (mem (n + 1))\<rparr>);
               n' = n + 2 + length ord
           in if seq (mem n') = s1 then (Some out1, n' + 1)
              else read_loop ord mem (n' + 1) tries cleared_snapshot)"

definition tls_ticket_ring_read ::
  "(nat \<times> key_cell) list \<Rightarrow> (nat \<Rightarrow> tls_ticket_ring) \<Rightarrow> nat \<Rightarrow> tls_ticket_snapshot
    \<Rightarrow> tls_ticket_snapshot option \<times> nat" where
  "tls_ticket_ring_read ord mem n out = read_loop ord mem n TLS_TICKET_SEQ_RETRIES out"

text \<open>The 64-bit deadline takes two accesses where the machine has no wider load.\<close>

fun stale_loop :: "(nat \<Rightarrow> tls_ticket_ring) \<Rightarrow> 64 word \<Rightarrow> nat \<Rightarrow> nat \<Rightarrow> bool" where
  "stale_loop mem now n 0 = False"
| "stale_loop mem now n (Suc tries) =
     (let s1 = seq (mem n)
      in if s1 = 0 \<or> s1 AND 1 \<noteq> 0 then stale_loop mem now (n + 1) tries
         else
           let due = push_bit 32 (drop_bit 32 (rotate_due_ms (mem (n + 1))))
                       + take_bit 32 (rotate_due_ms (mem (n + 2)))
           in if seq (mem (n + 3)) = s1 then now > due + ucast (grace_ms (mem (n + 4)))
              else stale_loop mem now (n + 4) tries)"

definition tls_ticket_ring_is_stale :: "(nat \<Rightarrow> tls_ticket_ring) \<Rightarrow> 64 word \<Rightarrow> nat \<Rightarrow> bool" where
  "tls_ticket_ring_is_stale mem now n = stale_loop mem now n TLS_TICKET_SEQ_RETRIES"

section \<open>Lemmas on the copies\<close>

primrec agree :: "tls_ticket_key \<Rightarrow> tls_ticket_key \<Rightarrow> key_cell \<Rightarrow> bool" where
  "agree k l (NameByte i) = (name k ! i = name l ! i)"
| "agree k l (AesByte i) = (aes k ! i = aes l ! i)"
| "agree k l (HmacByte i) = (hmac k ! i = hmac l ! i)"
| "agree k l LiveByte = (live k = live l)"

lemma agree_all:
  assumes "key_shape k" "key_shape l" "\<forall>a \<in> set key_cells. agree k l a"
  shows "k = l"
proof (rule tls_ticket_key.equality)
  show "name k = name l" "aes k = aes l" "hmac k = hmac l" "live k = live l"
    using assms by (auto simp: key_shape_def key_cells_def ball_Un intro!: nth_equalityI)
qed simp

lemma copy_byte_shape [simp]: "key_shape (copy_byte a k l) = key_shape l"
  by (cases a) (simp_all add: key_shape_def)

lemma copy_byte_agree:
  assumes "key_shape l" "a \<in> set key_cells"
  shows "agree k (copy_byte a k l) a"
  using assms by (auto simp: key_shape_def key_cells_def)

lemma list_update_keeps: "xs ! j = ys ! j \<Longrightarrow> xs ! j = ys[i := xs ! i] ! j"
  by (cases "i < length ys") (auto simp: nth_list_update list_update_beyond)

lemma copy_byte_keeps: "agree k l b \<Longrightarrow> agree k (copy_byte a k l) b"
  by (cases a; cases b) (simp_all add: list_update_keeps [symmetric])

lemma fold_copy_byte:
  assumes "key_shape k" "key_shape l" "set kord = set key_cells"
  shows "fold (\<lambda>a. copy_byte a k) kord l = k"
proof -
  have "key_shape (fold (\<lambda>a. copy_byte a k) as l) \<and>
      (\<forall>b. b \<in> set as \<or> agree k l b \<longrightarrow> agree k (fold (\<lambda>a. copy_byte a k) as l) b)"
    if "set as \<subseteq> set key_cells" for as
    using that assms(2)
  proof (induction as arbitrary: l)
    case (Cons a as)
    then show ?case
      using Cons.IH [of "copy_byte a k l"] copy_byte_agree copy_byte_keeps by auto
  qed simp
  from this [of kord] show ?thesis
    using agree_all [OF assms(1)] assms(3) by (metis order_refl)
qed


text \<open>The structures of a ring have the sizes of their arrays.\<close>

definition snap_shape :: "'a tls_ticket_snapshot_scheme \<Rightarrow> bool" where
  "snap_shape r \<longleftrightarrow> length (keys r) = TLS_TICKET_RING \<and> (\<forall>k \<in> set (keys r). key_shape k)"

lemma snap_shape_nth: "snap_shape r \<Longrightarrow> i < TLS_TICKET_RING \<Longrightarrow> key_shape (keys r ! i)"
  by (simp add: snap_shape_def)

lemma store_bytes:
  assumes "snap_shape r" "i < TLS_TICKET_RING" "key_shape k" "set kord = set key_cells"
  shows "fold exec_store (map (\<lambda>a. StoreByte i a k) kord) r = r\<lparr>keys := (keys r)[i := k]\<rparr>"
proof -
  have "fold exec_store (map (\<lambda>a. StoreByte i a k) as) r
      = r\<lparr>keys := (keys r)[i := fold (\<lambda>a. copy_byte a k) as (keys r ! i)]\<rparr>" for as
    using assms(1,2)
  proof (induction as arbitrary: r)
    case (Cons a as)
    have "snap_shape (r\<lparr>keys := (keys r)[i := copy_byte a k (keys r ! i)]\<rparr>)"
      using Cons.prems by (auto simp: snap_shape_def dest!: subsetD [OF set_update_subset_insert])
    from Cons.IH [OF this Cons.prems(2)] show ?case
      using Cons.prems by (simp add: snap_shape_def)
  qed (simp add: list_update_id)
  then show ?thesis
    using fold_copy_byte [OF assms(3) snap_shape_nth [OF assms(1,2)] assms(4)] by simp
qed

lemma snap_shape_update [simp]:
  assumes "snap_shape r" "key_shape k"
  shows "snap_shape (r\<lparr>keys := (keys r)[i := k]\<rparr>)"
  using assms by (auto simp: snap_shape_def dest!: subsetD [OF set_update_subset_insert])

lemma ring_publish_effect:
  assumes "snap_shape r" "0 \<le> slot" "slot < int TLS_TICKET_RING" "key_shape fresh" "set kord = set key_cells"
  shows "tls_ticket_ring_publish kord r slot fresh now =
    r\<lparr>seq := seq r + 2, keys := (keys r)[nat slot := fresh], cur := slot,
      rotate_due_ms := now + ucast (rotate_ms r)\<rparr>"
proof -
  have i: "nat slot < TLS_TICKET_RING"
    using assms(2,3) by simp
  have "snap_shape (r\<lparr>seq := seq r + 1\<rparr>)"
    using assms(1) by (simp add: snap_shape_def)
  note clear = store_bytes [OF this i key_shape_simps(1) assms(5)]
  have "snap_shape (r\<lparr>seq := seq r + 1, keys := (keys r)[nat slot := cleared_key]\<rparr>)"
    using assms(1) by (auto simp: snap_shape_def dest!: subsetD [OF set_update_subset_insert])
  note copy = store_bytes [OF this i assms(4,5)]
  show ?thesis
    using clear copy by (simp add: tls_ticket_ring_publish_def publish_stores_def publish_window_def)
qed

text \<open>A copy taken while the memory does not move is the memory.\<close>

lemma copy_cell_shape: "snap_shape out \<Longrightarrow> snap_shape (copy_cell a r out)"
  by (cases "fst a < length (keys out)")
    (auto simp: copy_cell_def snap_shape_def list_update_beyond dest!: subsetD [OF set_update_subset_insert])

lemma copy_keys_still:
  assumes "\<And>i. i < length as \<Longrightarrow> mem (n + i) = r"
  shows "copy_keys as mem n out = fold (\<lambda>a. copy_cell a r) as out"
  using assms
proof (induction as arbitrary: n out)
  case (Cons a as)
  have "mem (Suc n + i) = r" if "i < length as" for i
    using Cons.prems [of "Suc i"] that by simp
  from Cons.IH [OF this] show ?case
    using Cons.prems [of 0] by simp
qed simp

lemma fold_copy_cell_agree:
  assumes "set as \<subseteq> set ring_cells" "snap_shape r" "snap_shape out"
  shows "snap_shape (fold (\<lambda>a. copy_cell a r) as out)
    \<and> cur (fold (\<lambda>a. copy_cell a r) as out) = cur out
    \<and> (\<forall>i a. i < TLS_TICKET_RING \<and> ((i, a) \<in> set as \<or> agree (keys r ! i) (keys out ! i) a)
        \<longrightarrow> agree (keys r ! i) (keys (fold (\<lambda>a. copy_cell a r) as out) ! i) a)"
  using assms(1,3)
proof (induction as arbitrary: out)
  case (Cons c as)
  obtain i a where c: "c = (i, a)" "i < TLS_TICKET_RING" "a \<in> set key_cells"
    using Cons.prems(1) by (cases c) (auto simp: ring_cells_def)
  have len: "i < length (keys out)"
    using c(2) Cons.prems(2) by (simp add: snap_shape_def)
  have "agree (keys r ! j) (keys (copy_cell c r out) ! j) b"
    if "j < TLS_TICKET_RING" "(j, b) = c \<or> agree (keys r ! j) (keys out ! j) b" for j b
    using that c len copy_byte_agree [OF snap_shape_nth [OF Cons.prems(2) c(2)] c(3)]
    by (auto simp: copy_cell_def nth_list_update intro: copy_byte_keeps)
  moreover have "cur (copy_cell c r out) = cur out"
    by (simp add: copy_cell_def)
  ultimately show ?case
    using Cons.IH [of "copy_cell c r out"] Cons.prems copy_cell_shape [OF Cons.prems(2), of c r] by auto
qed simp

lemma copy_all_cells:
  assumes "set ord = set ring_cells" "snap_shape r" "snap_shape out"
  shows "fold (\<lambda>a. copy_cell a r) ord (out\<lparr>cur := cur r\<rparr>) = tls_ticket_snapshot.truncate r"
proof -
  define out' where "out' = fold (\<lambda>a. copy_cell a r) ord (out\<lparr>cur := cur r\<rparr>)"
  have "snap_shape (out\<lparr>cur := cur r\<rparr>)"
    using assms(3) by (simp add: snap_shape_def)
  note f = fold_copy_cell_agree [OF eq_refl [OF assms(1)] assms(2) this, folded out'_def]
  have "keys out' = keys r"
  proof (rule nth_equalityI)
    show "length (keys out') = length (keys r)"
      using f assms(2) by (simp add: snap_shape_def)
    fix i assume "i < length (keys out')"
    then have i: "i < TLS_TICKET_RING"
      using f by (simp add: snap_shape_def)
    have "\<forall>a \<in> set key_cells. agree (keys r ! i) (keys out' ! i) a"
      using f i assms(1) by (auto simp: ring_cells_def)
    then show "keys out' ! i = keys r ! i"
      using agree_all [OF snap_shape_nth [OF assms(2) i]] snap_shape_nth [of out' i] f i by metis
  qed
  then show ?thesis
    using f unfolding out'_def [symmetric]
    by (simp add: tls_ticket_snapshot.truncate_def tls_ticket_snapshot.equality)
qed


section \<open>The owner beside a reader\<close>

text \<open>
  What the owner does over its life: a list of rotations, each with the bytes it draws and the clock it
  reads. \<open>rotate_stores\<close> is one of them (\<open>tls_ticket_ring_rotate_owned\<close> with a ring), \<open>owner_stores\<close>
  their stores in order, \<open>owner_run\<close> the memory between rotations.
\<close>

type_synonym rotation = "(nat \<Rightarrow> char) \<times> 64 word"

definition rotate_stores :: "key_cell list \<Rightarrow> tls_ticket_ring \<Rightarrow> rotation \<Rightarrow> store list" where
  "rotate_stores kord r rot =
     publish_stores kord r (next_slot (cur r)) (tls_ticket_key_mint (fst rot)) (snd rot)"

definition rotate_ring :: "key_cell list \<Rightarrow> rotation \<Rightarrow> tls_ticket_ring \<Rightarrow> tls_ticket_ring" where
  "rotate_ring kord rot r =
     tls_ticket_ring_publish kord r (next_slot (cur r)) (tls_ticket_key_mint (fst rot)) (snd rot)"

definition owner_run :: "key_cell list \<Rightarrow> rotation list \<Rightarrow> tls_ticket_ring \<Rightarrow> tls_ticket_ring" where
  "owner_run kord rots r = fold (rotate_ring kord) rots r"

primrec owner_stores :: "key_cell list \<Rightarrow> rotation list \<Rightarrow> tls_ticket_ring \<Rightarrow> store list" where
  "owner_stores kord [] r = []"
| "owner_stores kord (rot # rots) r =
     rotate_stores kord r rot @ owner_stores kord rots (rotate_ring kord rot r)"

text \<open>A ring between rotations: initialised, of the right shape, not being written.\<close>

definition ring_valid :: "tls_ticket_ring \<Rightarrow> bool" where
  "ring_valid r \<longleftrightarrow> snap_shape r \<and> 0 \<le> cur r \<and> cur r < int TLS_TICKET_RING \<and> even (unat (seq r))"

lemma next_slot_range:
  assumes "0 \<le> c" "c < int TLS_TICKET_RING"
  shows "0 \<le> next_slot c" "next_slot c < int TLS_TICKET_RING"
proof -
  have "c = 0 \<or> c = 1 \<or> c = 2"
    using assms by (auto simp: ticket_consts)
  then show "0 \<le> next_slot c" "next_slot c < int TLS_TICKET_RING"
    by (auto simp: ticket_consts)
qed

lemma rotate_ring_effect:
  assumes "ring_valid r" "set kord = set key_cells"
  shows "rotate_ring kord rot r =
    r\<lparr>seq := seq r + 2, keys := (keys r)[nat (next_slot (cur r)) := tls_ticket_key_mint (fst rot)],
      cur := next_slot (cur r), rotate_due_ms := snd rot + ucast (rotate_ms r)\<rparr>"
  unfolding rotate_ring_def using assms next_slot_range [of "cur r"]
  by (simp add: ring_publish_effect ring_valid_def)

lemma unat_add_small:
  fixes s :: "'a::len word"
  assumes "unat s + m < 2 ^ LENGTH('a)"
  shows "unat (s + of_nat m) = unat s + m"
  using assms by (simp add: unat_word_ariths unat_of_nat)

lemma even_word_add2: "even (unat (s + 2 :: 32 word)) = even (unat s)"
proof -
  have "unat (s + 2) = (unat s + 2) mod 2 ^ 32"
    by (simp add: unat_word_ariths)
  also have "even \<dots> = even (unat s)"
    by (metis dvd_add_left_iff dvd_mod_iff dvd_power dvd_refl zero_less_numeral)
  finally show ?thesis .
qed

lemma rotate_ring_valid:
  assumes "ring_valid r" "set kord = set key_cells"
  shows "ring_valid (rotate_ring kord rot r)"
  using assms next_slot_range [of "cur r"] unfolding rotate_ring_effect [OF assms]
  by (auto simp: ring_valid_def snap_shape_def even_word_add2 dest!: subsetD [OF set_update_subset_insert])

lemma owner_run_valid:
  assumes "ring_valid r" "set kord = set key_cells"
  shows "ring_valid (owner_run kord rots r)"
  using assms unfolding owner_run_def by (induction rots arbitrary: r) (simp_all add: rotate_ring_valid)

lemma owner_run_seq:
  assumes "ring_valid r" "set kord = set key_cells"
  shows "seq (owner_run kord rots r) = seq r + of_nat (2 * length rots)"
  using assms
proof (induction rots arbitrary: r)
  case (Cons rot rots)
  have "owner_run kord (rot # rots) r = owner_run kord rots (rotate_ring kord rot r)"
    by (simp add: owner_run_def)
  then show ?case
    using Cons.IH [OF rotate_ring_valid [OF Cons.prems]] Cons.prems
    by (simp add: rotate_ring_effect [OF Cons.prems] algebra_simps)
qed (simp add: owner_run_def)

lemma rotate_stores_run: "fold exec_store (rotate_stores kord r rot) r = rotate_ring kord rot r"
  by (simp add: rotate_stores_def rotate_ring_def tls_ticket_ring_publish_def)

text \<open>
  The number of stores to the sequence number among the first \<open>i\<close> stores is the position of the owner:
  even between rotations, odd inside one.
\<close>

primrec is_seq :: "store \<Rightarrow> bool" where
  "is_seq (StoreSeq s) = True"
| "is_seq (StoreByte i a k) = False"
| "is_seq (StoreCur i) = False"
| "is_seq (StoreDue t) = False"

definition position :: "store list \<Rightarrow> nat \<Rightarrow> nat" where
  "position ops i = length (filter is_seq (take i ops))"

lemma position_mono: "i \<le> j \<Longrightarrow> position ops i \<le> position ops j"
proof -
  assume "i \<le> j"
  then obtain d where "j = i + d"
    using le_Suc_ex by blast
  then show ?thesis
    by (simp add: position_def take_add)
qed

lemma position_Suc: "i < length ops \<Longrightarrow> is_seq (ops ! i) \<Longrightarrow> position ops (Suc i) = Suc (position ops i)"
  by (simp add: position_def take_Suc_conv_app_nth)

lemma window_no_seq: "filter is_seq (publish_window kord r slot k now) = []"
  by (auto simp: publish_window_def filter_empty_conv)

lemma no_seq_keeps: "filter is_seq ops = [] \<Longrightarrow> seq (fold exec_store ops r) = seq r"
proof (induction ops arbitrary: r)
  case (Cons op ops)
  then show ?case
    by (cases op) (auto split: if_splits)
qed simp

lemma filter_take_empty: "filter P xs = [] \<Longrightarrow> filter P (take i xs) = []"
  by (auto simp: filter_empty_conv dest!: in_set_takeD)

lemma rotate_stores_inside:
  assumes "0 < i" "i < length (rotate_stores kord r rot)"
  shows "seq (run_stores (rotate_stores kord r rot) r i) = seq r + 1"
    and "position (rotate_stores kord r rot) i = 1"
proof -
  obtain j where i: "i = Suc j"
    using assms(1) gr0_implies_Suc by blast
  define w where "w = publish_window kord r (next_slot (cur r)) (tls_ticket_key_mint (fst rot)) (snd rot)"
  have "j \<le> length w"
    using assms(2) i by (simp add: rotate_stores_def publish_stores_def w_def)
  then have t: "take i (rotate_stores kord r rot) = StoreSeq (seq r + 1) # take j w"
    using i by (simp add: rotate_stores_def publish_stores_def w_def)
  have w: "filter is_seq (take j w) = []"
    unfolding w_def by (intro filter_take_empty window_no_seq)
  show "seq (run_stores (rotate_stores kord r rot) r i) = seq r + 1"
    using no_seq_keeps [OF w] by (simp add: run_stores_def t)
  show "position (rotate_stores kord r rot) i = 1"
    using w by (simp add: position_def t)
qed

lemma rotate_stores_whole:
  "position (rotate_stores kord r rot) (length (rotate_stores kord r rot)) = 2"
  by (simp add: position_def rotate_stores_def publish_stores_def window_no_seq)

lemma run_stores_append:
  "run_stores (ops @ ops') r i =
     (if i < length ops then run_stores ops r i else run_stores ops' (fold exec_store ops r) (i - length ops))"
  by (simp add: run_stores_def)

lemma position_append:
  "position (ops @ ops') i =
     (if i < length ops then position ops i else position ops (length ops) + position ops' (i - length ops))"
  by (simp add: position_def)

lemma rotate_stores_nth0: "rotate_stores kord r rot ! 0 = StoreSeq (seq r + 1)" "rotate_stores kord r rot \<noteq> []"
  by (simp_all add: rotate_stores_def publish_stores_def)

lemma owner_position:
  fixes rots :: "rotation list" and kord :: "key_cell list"
  defines "ops \<equiv> owner_stores kord rots"
  assumes "ring_valid r" "set kord = set key_cells"
  shows "seq (run_stores (ops r) r i) = seq r + of_nat (position (ops r) i)
    \<and> position (ops r) i \<le> 2 * length rots
    \<and> (even (position (ops r) i) \<longrightarrow>
        run_stores (ops r) r i = owner_run kord (take (position (ops r) i div 2) rots) r
        \<and> (i < length (ops r) \<longrightarrow> is_seq (ops r ! i)))"
  using assms(2) unfolding ops_def
proof (induction rots arbitrary: r i)
  case Nil
  then show ?case
    by (simp add: run_stores_def position_def owner_run_def)
next
  case (Cons rot rots)
  let ?r' = "rotate_ring kord rot r" and ?len = "length (rotate_stores kord r rot)"
  consider (start) "i = 0" | (inside) "0 < i" "i < ?len" | (after) "?len \<le> i"
    by linarith
  then show ?case
  proof cases
    case start
    then show ?thesis
      using rotate_stores_nth0 [of kord r rot]
      by (simp add: run_stores_def position_def owner_run_def nth_append)
  next
    case inside
    then show ?thesis
      using rotate_stores_inside [OF inside] by (simp add: run_stores_append position_append)
  next
    case after
    note IH = Cons.IH [OF rotate_ring_valid [OF Cons.prems assms(3), of rot], of "i - ?len"]
    have "seq ?r' = seq r + 2"
      by (simp add: rotate_ring_effect [OF Cons.prems assms(3)])
    moreover have "owner_run kord (take (Suc n) (rot # rots)) r = owner_run kord (take n rots) ?r'" for n
      by (simp add: owner_run_def)
    ultimately show ?thesis
      using after IH
      by (simp add: run_stores_append position_append rotate_stores_whole rotate_stores_run nth_append
          algebra_simps less_diff_conv2)
  qed
qed


lemma even_unat: "even (unat s) \<longleftrightarrow> s AND 1 = 0" for s :: "32 word"
proof -
  have "unat s mod 2 = unat (s mod 2)"
    by (simp add: unat_mod_distrib)
  then show ?thesis
    by (simp add: and_one_eq even_iff_mod_2_eq_zero unat_eq_0)
qed

text \<open>
  The interface between the writer of the region and its readers: the writer yields a history of the
  memory (\<open>memory w t\<close>, for every writer \<open>w\<close> that is \<open>good\<close>) in which nothing moves between two equal
  even readings of the sequence number, and which has its proper shape at such a moment. What a reader
  may conclude is proved from that alone, for every monotone placement \<open>sched\<close> of its accesses.
\<close>

locale seqlock =
  fixes good :: "'w \<Rightarrow> bool" and memory :: "'w \<Rightarrow> nat \<Rightarrow> tls_ticket_ring"
  assumes quiet: "\<lbrakk>good w; seq (memory w t) AND 1 = 0; seq (memory w t') = seq (memory w t); t \<le> u; u \<le> t'\<rbrakk>
      \<Longrightarrow> memory w u = memory w t"
    and shape: "\<lbrakk>good w; seq (memory w t) AND 1 = 0\<rbrakk> \<Longrightarrow> snap_shape (memory w t)"
begin

lemma quiet_mem:
  assumes "good w" "mono sched" "seq (memory w (sched n)) AND 1 = 0"
    "seq (memory w (sched n')) = seq (memory w (sched n))" "n \<le> m" "m \<le> n'"
  shows "memory w (sched m) = memory w (sched n)"
  using quiet [OF assms(1,3,4), of "sched m"] assms(2,5,6) by (simp add: mono_def)

text \<open>
  A snapshot is the region at a moment between the first and the last access of the read at which no
  rotation was under way: reads are linearisable.
\<close>

lemma read_loop_linearises:
  assumes "good w" "mono sched" "set ord = set ring_cells"
  defines "mem \<equiv> \<lambda>n. memory w (sched n)"
  assumes "snap_shape out" "read_loop ord mem n tries out = (Some snap, n')"
  shows "\<exists>t. sched n \<le> t \<and> t \<le> sched (n' - 1) \<and> seq (memory w t) AND 1 = 0
    \<and> snap = tls_ticket_snapshot.truncate (memory w t)"
  using assms(5,6)
proof (induction tries arbitrary: n out)
  case (Suc tries)
  let ?last = "n + 2 + length ord"
  have later: "n \<le> k \<Longrightarrow> sched n \<le> sched k" for k
    using assms(2) by (simp add: mono_def)
  consider (busy) "seq (mem n) = 0 \<or> seq (mem n) AND 1 \<noteq> 0"
    | (moved) "seq (mem n) \<noteq> 0" "seq (mem n) AND 1 = 0" "seq (mem ?last) \<noteq> seq (mem n)"
    | (still) "seq (mem n) \<noteq> 0" "seq (mem n) AND 1 = 0" "seq (mem ?last) = seq (mem n)"
    by blast
  then show ?case
  proof cases
    case busy
    then have "read_loop ord mem (n + 1) tries out = (Some snap, n')"
      using Suc.prems(2) by simp
    from Suc.IH [OF Suc.prems(1) this] show ?thesis
      using later [of "n + 1"] order_trans by auto
  next
    case moved
    then have "read_loop ord mem (?last + 1) tries cleared_snapshot = (Some snap, n')"
      using Suc.prems(2) by simp
    moreover have "snap_shape cleared_snapshot"
      by (simp add: snap_shape_def cleared_snapshot_def)
    ultimately obtain t where "sched (?last + 1) \<le> t" "t \<le> sched (n' - 1)" "seq (memory w t) AND 1 = 0"
      "snap = tls_ticket_snapshot.truncate (memory w t)"
      using Suc.IH by blast
    then show ?thesis
      using later [of "?last + 1"] by (intro exI [of _ t]) simp
  next
    case still
    have same: "mem m = mem n" if "n \<le> m" "m \<le> ?last" for m
      using quiet_mem [OF assms(1,2) _ _ that] still(2,3) by (simp add: mem_def)
    have "mem (n + 1) = mem n"
      by (rule same) simp_all
    moreover have "copy_keys ord mem (n + 2) out' = fold (\<lambda>a. copy_cell a (mem n)) ord out'" for out'
      by (rule copy_keys_still) (rule same, simp_all)
    ultimately have "copy_keys ord mem (n + 2) (out\<lparr>cur := cur (mem (n + 1))\<rparr>)
        = tls_ticket_snapshot.truncate (mem n)"
      using copy_all_cells [OF assms(3) _ Suc.prems(1)] shape [OF assms(1)] still(2) by (simp add: mem_def)
    then have "snap = tls_ticket_snapshot.truncate (mem n)" "n' = ?last + 1"
      using Suc.prems(2) still by (simp_all add: Let_def)
    then show ?thesis
      using later [of ?last] still(2) by (intro exI [of _ "sched n"]) (simp add: mem_def)
  qed
qed simp

text \<open>
  The same for the deadline. Either one of the attempts was undisturbed, and the verdict is about the region
  at that moment; or the owner was in the way of every one of them, and the ring passes for fresh.
\<close>

lemma stale_loop_looks:
  assumes "good w" "mono sched"
  defines "mem \<equiv> \<lambda>n. memory w (sched n)"
  shows "(\<exists>k. n \<le> k \<and> k < n + 4 * tries \<and> seq (mem k) AND 1 = 0
        \<and> (stale_loop mem now n tries \<longleftrightarrow> now > rotate_due_ms (mem k) + ucast (grace_ms (mem (k + 4)))))
    \<or> (\<not> stale_loop mem now n tries \<and> (\<exists>K. finite K \<and> card K = tries
        \<and> (\<forall>k \<in> K. n \<le> k \<and> k < n + 4 * tries
          \<and> (seq (mem k) = 0 \<or> seq (mem k) AND 1 \<noteq> 0 \<or> seq (mem (k + 3)) \<noteq> seq (mem k)))))"
proof (induction tries arbitrary: n)
  case 0
  show ?case by (auto intro: exI [of _ "{}"])
next
  case (Suc tries)
  let ?busy = "\<lambda>k. seq (mem k) = 0 \<or> seq (mem k) AND 1 \<noteq> 0 \<or> seq (mem (k + 3)) \<noteq> seq (mem k)"
  show ?case
  proof (cases "?busy n")
    case True
    obtain d where d: "stale_loop mem now n (Suc tries) = stale_loop mem now (n + d) tries" "0 < d" "d \<le> 4"
      using True that [of 1] that [of 4] by (cases "seq (mem n) = 0 \<or> seq (mem n) AND 1 \<noteq> 0") (auto simp: Let_def)
    from Suc.IH [of "n + d"] show ?thesis
    proof
      assume "\<exists>k. n + d \<le> k \<and> k < n + d + 4 * tries \<and> seq (mem k) AND 1 = 0
        \<and> (stale_loop mem now (n + d) tries \<longleftrightarrow> now > rotate_due_ms (mem k) + ucast (grace_ms (mem (k + 4))))"
      then obtain k where k: "n + d \<le> k" "k < n + d + 4 * tries" "seq (mem k) AND 1 = 0"
        "stale_loop mem now (n + d) tries \<longleftrightarrow> now > rotate_due_ms (mem k) + ucast (grace_ms (mem (k + 4)))"
        by blast
      have "n \<le> k" "k < n + 4 * Suc tries" using k(1,2) d(3) by simp_all
      then show ?thesis unfolding d(1) using k(3,4) by blast
    next
      assume "\<not> stale_loop mem now (n + d) tries \<and> (\<exists>K. finite K \<and> card K = tries
        \<and> (\<forall>k \<in> K. n + d \<le> k \<and> k < n + d + 4 * tries \<and> ?busy k))"
      then obtain K where K: "\<not> stale_loop mem now (n + d) tries" "finite K" "card K = tries"
        "\<forall>k \<in> K. n + d \<le> k \<and> k < n + d + 4 * tries \<and> ?busy k"
        by blast
      have "n \<notin> K" using K(4) d(2) by auto
      then have "finite (insert n K) \<and> card (insert n K) = Suc tries
          \<and> (\<forall>k \<in> insert n K. n \<le> k \<and> k < n + 4 * Suc tries \<and> ?busy k)"
        using K True d(3) by fastforce
      then show ?thesis unfolding d(1) using K(1) by blast
    qed
  next
    case False
    then have still: "seq (mem n) \<noteq> 0" "seq (mem n) AND 1 = 0" "seq (mem (n + 3)) = seq (mem n)" by auto
    have same: "mem m = mem n" if "n \<le> m" "m \<le> n + 3" for m
      using quiet_mem [OF assms(1,2) _ _ that] still(2,3) by (simp add: mem_def)
    have "mem (n + 1) = mem n" "mem (n + 2) = mem n" by (rule same, simp_all)+
    then have "stale_loop mem now n (Suc tries) \<longleftrightarrow> now > rotate_due_ms (mem n) + ucast (grace_ms (mem (n + 4)))"
      using still by (simp add: Let_def bits_ident)
    moreover have "n < n + 4 * Suc tries" by simp
    ultimately show ?thesis using still(2) by blast
  qed
qed

end

text \<open>The owner's rotations are such a writer, as long as the 32-bit sequence number does not wrap.\<close>

type_synonym watch = "key_cell list \<times> rotation list \<times> tls_ticket_ring"

definition watched :: "watch \<Rightarrow> bool" where
  "watched w = (case w of (kord, rots, r) \<Rightarrow>
     ring_valid r \<and> set kord = set key_cells \<and> unat (seq r) + 2 * length rots < 2 ^ 32)"

definition owner_memory :: "watch \<Rightarrow> nat \<Rightarrow> tls_ticket_ring" where
  "owner_memory w t = (case w of (kord, rots, r) \<Rightarrow> run_stores (owner_stores kord rots r) r t)"

lemma owner_seq:
  assumes "watched (kord, rots, r)"
  shows "unat (seq (owner_memory (kord, rots, r) t)) = unat (seq r) + position (owner_stores kord rots r) t"
proof -
  note p = owner_position [of r kord rots t]
  have "unat (seq r) + position (owner_stores kord rots r) t < 2 ^ 32"
    using p assms by (auto simp: watched_def)
  then show ?thesis
    using p assms unat_add_small [of "seq r" "position (owner_stores kord rots r) t"]
    by (simp add: watched_def owner_memory_def)
qed

lemma owner_even:
  assumes "watched (kord, rots, r)" "seq (owner_memory (kord, rots, r) t) AND 1 = 0"
  shows "even (position (owner_stores kord rots r) t)"
  using assms unfolding even_unat [symmetric] owner_seq [OF assms(1)] by (simp add: watched_def ring_valid_def)

lemma owner_between:
  assumes "watched (kord, rots, r)" "seq (owner_memory (kord, rots, r) t) AND 1 = 0"
  shows "\<exists>j \<le> length rots. owner_memory (kord, rots, r) t = owner_run kord (take j rots) r
    \<and> position (owner_stores kord rots r) t = 2 * j"
  using owner_position [of r kord rots t] owner_even [OF assms] assms(1)
  by (intro exI [of _ "position (owner_stores kord rots r) t div 2"]) (auto simp: watched_def owner_memory_def)

lemma owner_quiet:
  assumes w: "watched (kord, rots, r)" and even: "seq (owner_memory (kord, rots, r) t) AND 1 = 0"
    and "seq (owner_memory (kord, rots, r) t') = seq (owner_memory (kord, rots, r) t)" "t \<le> u" "u \<le> t'"
  shows "owner_memory (kord, rots, r) u = owner_memory (kord, rots, r) t"
proof (cases "t < length (owner_stores kord rots r) \<and> t < u")
  case True
  let ?ops = "owner_stores kord rots r"
  have "is_seq (?ops ! t)"
    using owner_position [of r kord rots t] owner_even [OF w even] w True by (simp add: watched_def)
  then have "position ?ops t < position ?ops (Suc t)"
    using True by (simp add: position_Suc)
  also have "\<dots> \<le> position ?ops t'"
    using True assms(5) by (intro position_mono) simp
  finally show ?thesis
    using owner_seq [OF w, of t] owner_seq [OF w, of t'] assms(3) by simp
next
  case False
  then show ?thesis
    using assms(4) by (auto simp: run_stores_def owner_memory_def)
qed

lemma owner_shape:
  assumes "watched (kord, rots, r)" "seq (owner_memory (kord, rots, r) t) AND 1 = 0"
  shows "snap_shape (owner_memory (kord, rots, r) t)"
proof -
  obtain j where "owner_memory (kord, rots, r) t = owner_run kord (take j rots) r"
    using owner_between [OF assms] by blast
  then show ?thesis
    using owner_run_valid [of r kord "take j rots"] assms(1) by (simp add: watched_def ring_valid_def)
qed

interpretation owner: seqlock watched owner_memory
proof
  fix w t t' u
  assume "watched w" "seq (owner_memory w t) AND 1 = 0" "seq (owner_memory w t') = seq (owner_memory w t)"
    "t \<le> u" "u \<le> t'"
  then show "owner_memory w u = owner_memory w t"
    by (cases w) (auto intro: owner_quiet)
next
  fix w t
  assume "watched w" "seq (owner_memory w t) AND 1 = 0"
  then show "snap_shape (owner_memory w t)"
    by (cases w) (auto intro: owner_shape)
qed


text \<open>Whatever the owner does, a read is over after a bounded number of accesses.\<close>

lemma read_loop_bound: "snd (read_loop ord mem n tries out) \<le> n + tries * (length ord + 3)"
proof (induction tries arbitrary: n out)
  case (Suc tries)
  show ?case
    using Suc.IH [of "n + 1" out] Suc.IH [of "n + 2 + length ord + 1" cleared_snapshot]
    by (auto simp: Let_def)
qed simp

lemma ring_read_still:
  assumes "ring_valid r" "seq r \<noteq> 0" "set ord = set ring_cells" "snap_shape out"
    "\<And>k. n \<le> k \<Longrightarrow> mem k = r"
  shows "tls_ticket_ring_read ord mem n out = (Some (tls_ticket_snapshot.truncate r), n + 3 + length ord)"
proof -
  have "copy_keys ord mem (n + 2) (out\<lparr>cur := cur r\<rparr>) = fold (\<lambda>a. copy_cell a r) ord (out\<lparr>cur := cur r\<rparr>)"
    by (rule copy_keys_still) (simp add: assms(5))
  moreover have "snap_shape r" "seq r AND 1 = 0"
    using assms(1) by (simp_all add: ring_valid_def flip: even_unat)
  ultimately show ?thesis
    using copy_all_cells [OF assms(3) _ assms(4)] assms(2,5)
    by (simp add: tls_ticket_ring_read_def TLS_TICKET_SEQ_RETRIES_def numeral_eq_Suc)
qed

end
