(* ===== verification/TicketRing.thy ===== *)
theory TicketRing
  imports TicketShare "HOL-Library.Multiset"
begin

text \<open>
  Who uses the session-ticket rings, \<^verbatim>\<open>freastal/src/tls.c\<close>: the owner of the shared region
  (\<open>tls_ticket_ring_create\<close>, \<open>tls_ticket_ring_rotate_owned\<close>, \<open>tls_ticket_ring_destroy\<close>), a worker
  (\<open>tls_ticket_ring_attach\<close>, \<open>tls_ticket_ring_disable\<close>, the check in \<open>tls_conn_init\<close>,
  \<open>tls_ticket_rotate_hook\<close>), the ticket callback \<open>tls_ticket_key_cb\<close>, and \<open>tls_server_init\<close>.

  \<^item> \<open>owner\<close> holds the owner's static variables and what the kernel holds for it: the region itself
    (which every mapping shares), the open descriptors, the names in the shared-memory name space and
    the number of mappings. What the kernel answers is \<open>ring_os\<close>.
  \<^item> The cipher and MAC contexts are \<open>ticket_ctx\<close>: the label and the IV that travel with a ticket and
    the keys the contexts were set up with. What OpenSSL answers to the callback, and the bytes it
    draws, are \<open>ticket_ext\<close>.
  \<^item> The ticket format is picotls' (\<open>ptls_openssl_encrypt_ticket_evp\<close> and its inverse, of
    \<^verbatim>\<open>vendor/picotls/lib/openssl.c\<close>); AES-256-CBC and HMAC-SHA256 are OpenSSL's, the argument \<open>ossl\<close>.
\<close>

section \<open>The owner\<close>

datatype ring_error = AlreadyOwned | OsError | NotOwner | TlsDisabled | TicketsOff | KillFailed | RotateTimeout

record owner =
  g_ring_owned :: bool
  g_ring_owned_len :: nat
  g_ring_owned_fd :: int
  g_ring_owned_how :: string
  g_ring_owned_locked :: bool
  region :: tls_ticket_ring
  open_fds :: "int list"
  shm_names :: "nat list"
  mappings :: nat

datatype shm_answer = ShmFd int | ShmExists | ShmError

record ring_os =
  memfd_create :: "int option"
  open_proc :: "int option"
  shm_open_rw :: "nat \<Rightarrow> shm_answer"
  shm_open_ro :: "nat \<Rightarrow> int option"
  page_size :: int
  ftruncate_ok :: bool
  mmap_ok :: bool
  mlock_ok :: bool
  getpid :: int

definition close_fd :: "int \<Rightarrow> owner \<Rightarrow> owner" where
  "close_fd fd g = g\<lparr>open_fds := remove1 fd (open_fds g)\<rparr>"

definition add_fd :: "int \<Rightarrow> owner \<Rightarrow> owner" where
  "add_fd fd g = g\<lparr>open_fds := fd # open_fds g\<rparr>"

text \<open>The named fallback of \<open>tls_ticket_ring_open\<close>: attempt \<open>i\<close>, with \<open>n\<close> attempts left.\<close>

primrec shm_loop :: "ring_os \<Rightarrow> nat \<Rightarrow> nat \<Rightarrow> owner \<Rightarrow> (int \<times> int \<times> string) option \<times> owner" where
  "shm_loop os 0 i g = (None, g)"
| "shm_loop os (Suc n) i g =
     (case shm_open_rw os i of
        ShmExists \<Rightarrow> shm_loop os n (i + 1) g
      | ShmError \<Rightarrow> (None, g)
      | ShmFd rw \<Rightarrow>
          let g1 = (add_fd rw g)\<lparr>shm_names := i # shm_names g\<rparr>;
              g2 = (case shm_open_ro os i of Some ro \<Rightarrow> add_fd ro g1 | None \<Rightarrow> g1);
              g3 = g2\<lparr>shm_names := remove1 i (shm_names g2)\<rparr>
          in case shm_open_ro os i of
               None \<Rightarrow> (None, close_fd rw g3)
             | Some ro \<Rightarrow> (Some (rw, ro, ''shm, unlinked''), g3))"

definition tls_ticket_ring_open :: "ring_os \<Rightarrow> owner \<Rightarrow> (int \<times> int \<times> string) option \<times> owner" where
  "tls_ticket_ring_open os g =
     (case memfd_create os of
        Some rw \<Rightarrow>
          let g1 = add_fd rw g
          in (case open_proc os of
                Some ro \<Rightarrow> (Some (rw, ro, ''memfd, anonymous''), add_fd ro g1)
              | None \<Rightarrow> shm_loop os 8 0 (close_fd rw g1))
      | None \<Rightarrow> shm_loop os 8 0 g)"

definition sizeof_ticket_ring :: nat where
  "sizeof_ticket_ring = ((8 * 4 + 8 + 8 + 8 + TLS_TICKET_RING * sizeof_ticket_key + 7) div 8) * 8"

definition tls_ticket_ring_len :: "int \<Rightarrow> nat" where
  "tls_ticket_ring_len pg =
     (let page = (if pg > 0 then nat pg else 4096)
      in ((sizeof_ticket_ring + page - 1) div page) * page)"

text \<open>\<open>mmap\<close> of the owner's region: the pages \<open>ftruncate\<close> added are zero, and \<open>memset\<close> zeroes them again.\<close>

definition tls_ticket_ring_create ::
  "ring_os \<Rightarrow> key_cell list \<Rightarrow> rotation \<Rightarrow> owner \<Rightarrow> (ring_error + int) \<times> owner" where
  "tls_ticket_ring_create os kord first g =
     (if g_ring_owned g then (Inl AlreadyOwned, g)
      else
        case tls_ticket_ring_open os g of
          (None, g1) \<Rightarrow> (Inl OsError, g1)
        | (Some (rw, ro, how), g1) \<Rightarrow>
            if \<not> ftruncate_ok os \<or> \<not> mmap_ok os then
              (Inl OsError, close_fd ro (close_fd rw (g1\<lparr>g_ring_owned := False, g_ring_owned_fd := - 1\<rparr>)))
            else
              let g2 = g1\<lparr>region := zeroed_ring, mappings := mappings g1 + 1, g_ring_owned := True,
                          g_ring_owned_len := tls_ticket_ring_len (page_size os), g_ring_owned_fd := rw,
                          g_ring_owned_how := how, g_ring_owned_locked := mlock_ok os\<rparr>;
                  r = (region g2)\<lparr>magic := TLS_TICKET_RING_MAGIC, abi := TLS_TICKET_RING_ABI,
                          ring_slots := of_nat TLS_TICKET_RING, key_stride := of_nat sizeof_ticket_key,
                          rotate_ms := of_nat TLS_TICKET_ROTATE_MS,
                          grace_ms := of_nat TLS_TICKET_STALE_GRACE_MS, owner_pid := getpid os\<rparr>;
                  r' = tls_ticket_ring_publish kord r 0 (tls_ticket_key_mint (fst first)) (snd first)
              in (Inr ro, g2\<lparr>region := r'\<rparr>))"

definition tls_ticket_ring_rotate_owned ::
  "key_cell list \<Rightarrow> rotation \<Rightarrow> owner \<Rightarrow> (ring_error + unit) \<times> owner" where
  "tls_ticket_ring_rotate_owned kord rot g =
     (if \<not> g_ring_owned g then (Inl NotOwner, g)
      else (Inr (), g\<lparr>region := rotate_ring kord rot (region g)\<rparr>))"

definition tls_ticket_ring_owner_pid :: "owner \<Rightarrow> int" where
  "tls_ticket_ring_owner_pid g = (if g_ring_owned g then owner_pid (region g) else - 1)"

definition tls_ticket_ring_destroy :: "owner \<Rightarrow> owner" where
  "tls_ticket_ring_destroy g =
     (let g1 = (if g_ring_owned g then
                  g\<lparr>region := zeroed_ring, mappings := mappings g - 1, g_ring_owned := False,
                    g_ring_owned_len := 0, g_ring_owned_locked := False\<rparr>
                else g)
      in if g_ring_owned_fd g1 \<ge> 0
         then (close_fd (g_ring_owned_fd g1) g1)\<lparr>g_ring_owned_fd := - 1\<rparr>
         else g1)"

section \<open>A worker\<close>

text \<open>
  \<open>tls_ticket_ring_attach\<close>: \<open>mapping\<close> is what \<open>mmap\<close> returns, an address and the region behind it. The
  result is \<open>None\<close> for -1.
\<close>

definition tls_ticket_ring_attach ::
  "(nat \<times> tls_ticket_ring) option \<Rightarrow> int \<Rightarrow> tls_server \<Rightarrow> tls_server option" where
  "tls_ticket_ring_attach mapping pg ts =
     (case mapping of
        None \<Rightarrow> None
      | Some (base, r) \<Rightarrow>
          if magic r \<noteq> TLS_TICKET_RING_MAGIC \<or> abi r \<noteq> TLS_TICKET_RING_ABI
             \<or> ring_slots r \<noteq> of_nat TLS_TICKET_RING \<or> key_stride r \<noteq> of_nat sizeof_ticket_key
             \<or> rotate_ms r > of_nat TLS_TICKET_ROTATE_MS \<or> grace_ms r > of_nat TLS_TICKET_STALE_GRACE_MS
             \<or> seq r = 0
          then None
          else Some (ts\<lparr>ticket_shared := Some base, ticket_shared_len := tls_ticket_ring_len pg\<rparr>))"

definition tls_ticket_ring_disable :: "tls_server \<Rightarrow> tls_server" where
  "tls_ticket_ring_disable ts =
     ts\<lparr>ticket_lifetime := 0, encrypt_ticket := False, ticket_shared := None, ticket_shared_len := 0\<rparr>"

text \<open>What \<open>tls_conn_init\<close> does before it sets the connection up (theory \<open>TlsBuf\<close> has the rest).\<close>

definition conn_ticket_check :: "(nat \<Rightarrow> tls_ticket_ring) \<Rightarrow> 64 word \<Rightarrow> nat \<Rightarrow> tls_server \<Rightarrow> tls_server" where
  "conn_ticket_check mem now n ts =
     (if ticket_shared ts \<noteq> None \<and> tls_ticket_ring_is_stale mem now n then tls_ticket_ring_disable ts
      else ts)"

text \<open>
  \<open>tls_ticket_key_pick_shared\<close>: \<open>stk\<close> is the caller's stack where the snapshot goes. The result carries
  the number of the next access.
\<close>

definition tls_ticket_key_pick_shared ::
  "(nat \<times> key_cell) list \<Rightarrow> (nat \<Rightarrow> tls_ticket_ring) \<Rightarrow> nat \<Rightarrow> tls_ticket_snapshot \<Rightarrow> bytes \<Rightarrow> bool
    \<Rightarrow> tls_ticket_key option \<times> nat" where
  "tls_ticket_key_pick_shared ord mem n stk nm enc =
     (case tls_ticket_ring_read ord mem n stk of
        (None, n') \<Rightarrow> (None, n')
      | (Some snap, n') \<Rightarrow>
          if enc then
            if cur snap \<ge> 0 \<and> cur snap < int TLS_TICKET_RING \<and> live (keys snap ! nat (cur snap))
            then (Some (keys snap ! nat (cur snap)), n') else (None, n')
          else (key_search nm (take TLS_TICKET_RING (keys snap)), n'))"

section \<open>The ticket callback\<close>

record ticket_ctx =
  label :: bytes
  iv :: bytes
  cipher_key :: "bytes option"
  mac_key :: "bytes option"

record ticket_ext =
  cb_ord :: "(nat \<times> key_cell) list"
  cb_mem :: "nat \<Rightarrow> tls_ticket_ring"
  cb_first :: nat
  cb_stack :: tls_ticket_snapshot
  cb_mint :: "nat \<Rightarrow> char"
  cb_iv :: bytes
  cipher_init :: bool
  mac_init :: int

text \<open>The key the callback settles on, if any.\<close>

definition callback_key :: "ticket_ext \<Rightarrow> tls_server \<Rightarrow> bytes \<Rightarrow> bool \<Rightarrow> tls_ticket_key option" where
  "callback_key E ts nm enc =
     (if ticket_shared ts \<noteq> None then
        (case fst (tls_ticket_key_pick_shared (cb_ord E) (cb_mem E) (cb_first E) (cb_stack E) nm enc) of
           Some k \<Rightarrow> Some k
         | None \<Rightarrow> if \<not> enc then None else Some (tls_ticket_key_mint (cb_mint E)))
      else if enc then
        (let k = ticket_keys ts ! nat (ticket_cur ts) in if \<not> live k then None else Some k)
      else tls_ticket_key_by_name ts nm)"

definition tls_ticket_key_cb :: "ticket_ext \<Rightarrow> tls_server \<Rightarrow> bool \<Rightarrow> ticket_ctx \<Rightarrow> int \<times> ticket_ctx" where
  "tls_ticket_key_cb E ts enc ctx =
     (case callback_key E ts (label ctx) enc of
        None \<Rightarrow> (0, ctx)
      | Some k \<Rightarrow>
          let ctx1 = (if enc then ctx\<lparr>label := name k, iv := cb_iv E\<rparr> else ctx)
          in if cipher_init E
             then (mac_init E, ctx1\<lparr>cipher_key := Some (aes k),
                                   mac_key := (if mac_init E \<noteq> 0 then Some (hmac k) else mac_key ctx1)\<rparr>)
             else (0, ctx1))"

type_synonym ticket_cb = "ticket_ctx \<Rightarrow> int \<times> ticket_ctx"

record ossl =
  ctx_new :: bool
  reserve_ok :: bool
  aes_cbc :: "bytes \<Rightarrow> bytes \<Rightarrow> bytes \<Rightarrow> bytes"
  aes_cbc_dec :: "bytes \<Rightarrow> bytes \<Rightarrow> bytes \<Rightarrow> bytes option"
  hmac_sha256 :: "bytes \<Rightarrow> bytes \<Rightarrow> bytes"

definition TICKET_IV_SIZE :: nat where "TICKET_IV_SIZE = 16"
definition HMAC_SIZE :: nat where "HMAC_SIZE = 32"

definition blank_ctx :: ticket_ctx where
  "blank_ctx = \<lparr>label = [], iv = [], cipher_key = None, mac_key = None\<rparr>"

text \<open>A context the callback did not key makes OpenSSL fail.\<close>

definition ptls_openssl_encrypt_ticket_evp :: "ossl \<Rightarrow> ticket_cb \<Rightarrow> bytes \<Rightarrow> bytes option" where
  "ptls_openssl_encrypt_ticket_evp L cb src =
     (if \<not> ctx_new L \<or> \<not> reserve_ok L then None
      else case cb blank_ctx of (rc, c) \<Rightarrow>
        if rc = 0 then None
        else case (cipher_key c, mac_key c) of
            (Some ck, Some mk) \<Rightarrow>
              let body = label c @ iv c @ aes_cbc L ck (iv c) src
              in Some (body @ hmac_sha256 L mk body)
          | _ \<Rightarrow> None)"

definition ptls_openssl_decrypt_ticket_evp :: "ossl \<Rightarrow> ticket_cb \<Rightarrow> bytes \<Rightarrow> bytes option" where
  "ptls_openssl_decrypt_ticket_evp L cb src =
     (if \<not> ctx_new L \<or> length src < TLS_TICKET_NAME_LEN + TICKET_IV_SIZE then None
      else case cb (blank_ctx\<lparr>label := take TLS_TICKET_NAME_LEN src,
                              iv := take TICKET_IV_SIZE (drop TLS_TICKET_NAME_LEN src)\<rparr>) of (rc, c) \<Rightarrow>
        if rc = 0 then None
        else case (cipher_key c, mac_key c) of
            (Some ck, Some mk) \<Rightarrow>
              if length src < TLS_TICKET_NAME_LEN + TICKET_IV_SIZE + HMAC_SIZE then None
              else
                let body = take (length src - HMAC_SIZE) src
                in if drop (length src - HMAC_SIZE) src \<noteq> hmac_sha256 L mk body \<or> \<not> reserve_ok L then None
                   else aes_cbc_dec L ck (iv c) (drop (TLS_TICKET_NAME_LEN + TICKET_IV_SIZE) body)
          | _ \<Rightarrow> None)"

definition tls_ticket_encrypt :: "ossl \<Rightarrow> ticket_ext \<Rightarrow> tls_server \<Rightarrow> bool \<Rightarrow> bytes \<Rightarrow> bytes option" where
  "tls_ticket_encrypt L E ts is_encrypt src =
     (if is_encrypt then ptls_openssl_encrypt_ticket_evp L (tls_ticket_key_cb E ts True) src
      else ptls_openssl_decrypt_ticket_evp L (tls_ticket_key_cb E ts False) src)"

section \<open>The rotation hook and start-up\<close>

text \<open>The wait of \<open>tls_ticket_rotate_hook\<close> for the owner, with \<open>tries\<close> milliseconds left.\<close>

fun hook_wait :: "(nat \<Rightarrow> tls_ticket_ring) \<Rightarrow> 32 word \<Rightarrow> nat \<Rightarrow> nat \<Rightarrow> bool" where
  "hook_wait mem before n 0 = False"
| "hook_wait mem before n (Suc tries) =
     (let now = seq (mem n)
      in if now \<ge> before + 2 \<and> now AND 1 = 0 then True else hook_wait mem before (n + 1) tries)"

definition tls_ticket_rotate_hook ::
  "key_cell list \<Rightarrow> rotation \<Rightarrow> (nat \<Rightarrow> tls_ticket_ring) \<Rightarrow> bool \<Rightarrow> owner \<Rightarrow> tls_server
    \<Rightarrow> (ring_error + unit) \<times> owner \<times> tls_server" where
  "tls_ticket_rotate_hook kord rot mem kill_ok g ts =
     (if g_ring_owned g then
        (case tls_ticket_ring_rotate_owned kord rot g of (res, g') \<Rightarrow> (res, g', ts))
      else if ticket_shared ts = None then
        if \<not> tls_enabled ts then (Inl TlsDisabled, g, ts)
        else if \<not> encrypt_ticket ts then (Inl TicketsOff, g, ts)
        else (Inr (), g, tls_ticket_rotate_once (fst rot) ts)
      else
        let before = seq (mem 0)
        in if \<not> kill_ok then (Inl KillFailed, g, ts)
           else if hook_wait mem before 1 5000 then (Inr (), g, ts)
           else (Inl RotateTimeout, g, ts))"

text \<open>
  \<open>tls_server_init\<close>: whether the certificate and the key could be loaded are arguments, and so is
  what \<open>mmap\<close> of the ring descriptor returns (\<open>ring_fd\<close> is negative in a process with a ring of its own).
\<close>

definition zeroed_tls_server :: tls_server where
  "zeroed_tls_server =
     \<lparr>ticket_lifetime = 0, encrypt_ticket = False, require_dhe_on_psk = False, max_early_data_size = 0,
      ticket_keys = replicate TLS_TICKET_RING cleared_key, ticket_cur = 0, ticket_timer = False,
      ticket_shared = None, ticket_shared_len = 0, tls_enabled = False\<rparr>"

definition tls_server_init ::
  "bool \<Rightarrow> bool \<Rightarrow> int \<Rightarrow> (nat \<times> tls_ticket_ring) option \<Rightarrow> int \<Rightarrow> (nat \<Rightarrow> char) \<Rightarrow> tls_server
    \<Rightarrow> tls_server option" where
  "tls_server_init cert_ok key_ok ring_fd mapping pg rng ts0 =
     (let ts = zeroed_tls_server\<lparr>tls_enabled := tls_enabled ts0\<rparr>
      in if \<not> cert_ok \<or> \<not> key_ok then None
         else
           case (if ring_fd \<ge> 0 then tls_ticket_ring_attach mapping pg ts
                 else Some (ts\<lparr>ticket_cur := 0,
                               ticket_keys := (ticket_keys ts)[0 := tls_ticket_key_mint rng]\<rparr>)) of
             None \<Rightarrow> None
           | Some ts1 \<Rightarrow>
               let ts2 = ts1\<lparr>encrypt_ticket := True, ticket_lifetime := TLS_TICKET_LIFETIME_S,
                             require_dhe_on_psk := True\<rparr>
               in if max_early_data_size ts2 \<noteq> 0 then None
                  else Some (ts2\<lparr>ticket_timer := ticket_shared ts2 = None, tls_enabled := True\<rparr>))"


section \<open>Lemmas on the shared ring\<close>

interpretation shared_ring:
  key_ring "\<lambda>x. rotate_ring (fst x) (snd x)" "\<lambda>x. fst (snd x)" "\<lambda>x. set (fst x) = set key_cells" cur keys ring_valid
  by unfold_locales (simp add: rotate_ring_effect, simp add: rotate_ring_effect, rule rotate_ring_valid)

lemma owner_run_shared: "owner_run kord rots r = fold (\<lambda>x. rotate_ring (fst x) (snd x)) (map (Pair kord) rots) r"
  by (simp add: owner_run_def fold_map comp_def)

definition minted :: "rotation list \<Rightarrow> tls_ticket_key list" where
  "minted rots = rev (map (\<lambda>rot. tls_ticket_key_mint (fst rot)) rots)"

lemma owner_run_represents:
  assumes "ring_valid r" "set kord = set key_cells" "represents (cur r) (keys r) hist"
  shows "represents (cur (owner_run kord rots r)) (keys (owner_run kord rots r)) (minted rots @ hist)"
  using shared_ring.run_represents [OF assms(1,3), of "map (Pair kord) rots"] assms(2)
  by (simp add: owner_run_shared list_all_iff minted_def comp_def)

text \<open>
  C30. Both rings implement the same abstract ring, the history of the keys minted into them: after any
  sequence of rotations the newest key is the one that seals, a name opens exactly when it belongs to
  one of the newest \<open>TLS_TICKET_RING\<close> keys, and every slot holds one of those keys or zeroes, so that no
  byte of a retired key is left. A zeroed slot never matches a name.
\<close>

theorem ticket_rings_refine:
  fixes rots :: "rotation list"
  defines "rngs \<equiv> map fst rots"
  assumes "represents (ticket_cur ts) (ticket_keys ts) hist"
    and "ring_valid r" and "represents (cur r) (keys r) hist" and "set kord = set key_cells"
    and "good_hist (minted rots @ hist)" and "minted rots @ hist \<noteq> []"
  shows "(let ts' = fold tls_ticket_rotate_once rngs ts in
      ticket_keys ts' ! nat (ticket_cur ts') = hd (minted rots @ hist)
      \<and> (tls_ticket_key_by_name ts' nm = Some k
           \<longleftrightarrow> k \<in> set (take TLS_TICKET_RING (minted rots @ hist)) \<and> name k = nm)
      \<and> set (ticket_keys ts') \<subseteq> insert cleared_key (set (take TLS_TICKET_RING (minted rots @ hist))))
    \<and> (let r' = owner_run kord rots r in
      keys r' ! nat (cur r') = hd (minted rots @ hist)
      \<and> (key_search nm (keys r') = Some k
           \<longleftrightarrow> k \<in> set (take TLS_TICKET_RING (minted rots @ hist)) \<and> name k = nm)
      \<and> set (keys r') \<subseteq> insert cleared_key (set (take TLS_TICKET_RING (minted rots @ hist))))"
proof -
  have m: "rev (map tls_ticket_key_mint rngs) = minted rots"
    by (simp add: minted_def rngs_def comp_def)
  note l = local_ring.run_refines [of ts hist rngs nm k]
    and rep = local_ring.run_represents [OF TrueI assms(2), of rngs]
  have "take TLS_TICKET_RING (ticket_keys (fold tls_ticket_rotate_once rngs ts))
      = ticket_keys (fold tls_ticket_rotate_once rngs ts)"
    using rep represents_bounds(3) by (simp add: list_all_iff)
  moreover have "rev (map (\<lambda>x. tls_ticket_key_mint (fst (snd x))) (map (Pair kord) rots)) = minted rots"
    by (simp add: minted_def comp_def)
  ultimately show ?thesis
    using l shared_ring.run_refines [of r hist "map (Pair kord) rots" nm k] assms(2-) m
    by (simp add: tls_ticket_key_by_name_def owner_run_shared list_all_iff Let_def)
qed


text \<open>
  A concrete ring for the witnesses: three rotations of a fresh region whose keys are told apart by
  their first byte.
\<close>

definition sample_rng :: "nat \<Rightarrow> nat \<Rightarrow> char" where
  "sample_rng seed i = (if i = 0 then char_of seed else NUL)"

definition sample_ring :: tls_ticket_ring where
  "sample_ring = zeroed_ring\<lparr>seq := 2, keys := [tls_ticket_key_mint (sample_rng 1), cleared_key, cleared_key],
     rotate_ms := of_nat TLS_TICKET_ROTATE_MS, grace_ms := of_nat TLS_TICKET_STALE_GRACE_MS,
     rotate_due_ms := of_nat TLS_TICKET_ROTATE_MS\<rparr>"

definition sample_rots :: "rotation list" where
  "sample_rots = [(sample_rng 2, 3600000), (sample_rng 3, 7200000)]"

abbreviation sample_hist :: "tls_ticket_key list" where
  "sample_hist \<equiv> [tls_ticket_key_mint (sample_rng 1)]"

lemma sample_ring_valid [simp]: "ring_valid sample_ring"
  by (simp add: ring_valid_def sample_ring_def zeroed_ring_def snap_shape_def TLS_TICKET_RING_def)

lemma sample_ring_represents: "represents (cur sample_ring) (keys sample_ring) sample_hist"
  by (simp add: represents_def sample_ring_def zeroed_ring_def nth_newest_def)

lemma sample_name: "name (tls_ticket_key_mint (sample_rng k)) = char_of k # replicate 15 NUL"
  by (simp add: tls_ticket_key_mint_def sample_rng_def TLS_TICKET_NAME_LEN_def upt_rec numeral_eq_Suc)

lemma sample_names:
  "name (tls_ticket_key_mint (sample_rng 1)) \<noteq> name (tls_ticket_key_mint (sample_rng 2))"
  "name (tls_ticket_key_mint (sample_rng 1)) \<noteq> name (tls_ticket_key_mint (sample_rng 3))"
  "name (tls_ticket_key_mint (sample_rng 2)) \<noteq> name (tls_ticket_key_mint (sample_rng 3))"
  by (simp_all add: sample_name char_of_def bit_iff_odd)

lemma sample_good_hist: "good_hist (minted sample_rots @ sample_hist)"
  using sample_names by (auto simp: good_hist_def minted_def sample_rots_def ticket_consts)

theorem ticket_rings_refine_witness:
  "keys (owner_run key_cells sample_rots sample_ring) ! nat (cur (owner_run key_cells sample_rots sample_ring))
     = tls_ticket_key_mint (sample_rng 3)"
proof -
  have "represents (ticket_cur (zeroed_tls_server\<lparr>ticket_keys := keys sample_ring\<rparr>))
      (ticket_keys (zeroed_tls_server\<lparr>ticket_keys := keys sample_ring\<rparr>)) sample_hist"
    using sample_ring_represents by (simp add: zeroed_tls_server_def sample_ring_def zeroed_ring_def)
  from ticket_rings_refine [OF this sample_ring_valid sample_ring_represents refl sample_good_hist, of "[]" undefined]
  show ?thesis
    by (simp add: Let_def minted_def sample_rots_def)
qed

section \<open>The seqlock\<close>

text \<open>The moment a snapshot was taken, with the owner's position at that moment.\<close>

lemma ring_read_moment:
  assumes "watched (kord, rots, r)" "set ord = set ring_cells" "mono sched" "snap_shape stk"
    and "tls_ticket_ring_read ord (\<lambda>n. run_stores (owner_stores kord rots r) r (sched n)) n stk = (Some snap, n')"
  obtains t j where "sched n \<le> t" "t \<le> sched (n' - 1)" "j \<le> length rots"
    "position (owner_stores kord rots r) t = 2 * j"
    "run_stores (owner_stores kord rots r) r t = owner_run kord (take j rots) r"
    "snap = tls_ticket_snapshot.truncate (owner_run kord (take j rots) r)"
proof -
  obtain t where t: "sched n \<le> t" "t \<le> sched (n' - 1)" "seq (owner_memory (kord, rots, r) t) AND 1 = 0"
    "snap = tls_ticket_snapshot.truncate (owner_memory (kord, rots, r) t)"
    using owner.read_loop_linearises [OF assms(1,3,2,4), of n TLS_TICKET_SEQ_RETRIES snap n'] assms(5)
    by (auto simp: tls_ticket_ring_read_def owner_memory_def)
  obtain j where "j \<le> length rots" "owner_memory (kord, rots, r) t = owner_run kord (take j rots) r"
    "position (owner_stores kord rots r) t = 2 * j"
    using owner_between [OF assms(1) t(3)] by blast
  then show thesis
    using t by (intro that [of t j]) (simp_all add: owner_memory_def)
qed

text \<open>
  C31. No torn read. A worker that reads the shared ring while the owner carries out any sequence of
  rotations, with its accesses placed anywhere among the owner's stores and the bytes of a key copied
  in any order, either gets no snapshot or one that is exactly the ring after some whole number of
  rotations, at a moment between the first and the last access of the read: it never pairs one key's
  name with another key's bytes.
\<close>

theorem ring_read_linearises:
  assumes "ring_valid r" "set kord = set key_cells" "set ord = set ring_cells"
    and "unat (seq r) + 2 * length rots < 2 ^ 32" and "mono sched" and "snap_shape stk"
    and "tls_ticket_ring_read ord (\<lambda>n. run_stores (owner_stores kord rots r) r (sched n)) n stk = (Some snap, n')"
  shows "\<exists>t j. sched n \<le> t \<and> t \<le> sched (n' - 1) \<and> j \<le> length rots
    \<and> run_stores (owner_stores kord rots r) r t = owner_run kord (take j rots) r
    \<and> snap = tls_ticket_snapshot.truncate (owner_run kord (take j rots) r)"
proof -
  have "watched (kord, rots, r)"
    using assms(1,2,4) by (simp add: watched_def)
  from ring_read_moment [OF this assms(3,5,6,7)] show ?thesis
    by metis
qed

text \<open>The worker's accesses lie after the first of the two rotations and before the second.\<close>

theorem ring_read_linearises_witness:
  "\<exists>t j. j \<le> length sample_rots
    \<and> run_stores (owner_stores key_cells sample_rots sample_ring) sample_ring t
        = owner_run key_cells (take j sample_rots) sample_ring
    \<and> tls_ticket_snapshot.truncate (owner_run key_cells (take 1 sample_rots) sample_ring)
        = tls_ticket_snapshot.truncate (owner_run key_cells (take j sample_rots) sample_ring)"
proof -
  define mid where "mid = owner_run key_cells (take 1 sample_rots) sample_ring"
  let ?i = "length (rotate_stores key_cells sample_ring (sample_rng 2, 3600000))"
  have mid: "run_stores (owner_stores key_cells sample_rots sample_ring) sample_ring ?i = mid"
    by (simp add: mid_def sample_rots_def run_stores_append owner_run_def rotate_stores_run)
      (simp add: run_stores_def)
  have "ring_valid mid" "seq mid \<noteq> 0"
    using owner_run_valid [OF sample_ring_valid refl]
      owner_run_seq [OF sample_ring_valid refl, of "take 1 sample_rots"]
    by (simp_all add: mid_def sample_rots_def) (simp add: sample_ring_def)
  moreover have stk: "snap_shape cleared_snapshot"
    by (simp add: snap_shape_def cleared_snapshot_def)
  ultimately have "tls_ticket_ring_read ring_cells
      (\<lambda>n. run_stores (owner_stores key_cells sample_rots sample_ring) sample_ring ?i) 0 cleared_snapshot
      = (Some (tls_ticket_snapshot.truncate mid), 0 + 3 + length ring_cells)"
    using mid by (intro ring_read_still) simp_all
  moreover have "unat (seq sample_ring) + 2 * length sample_rots < 2 ^ 32"
    by (simp add: sample_ring_def sample_rots_def)
  moreover have "mono (\<lambda>n::nat. ?i)"
    by (simp add: mono_def)
  ultimately show ?thesis
    using ring_read_linearises [OF sample_ring_valid refl refl _ _ stk, of sample_rots "\<lambda>n. ?i" 0]
    unfolding mid_def by blast
qed


text \<open>
  C32. A read always ends: after at most \<open>TLS_TICKET_SEQ_RETRIES\<close> attempts, whatever the owner does
  meanwhile. When the owner is idle the first attempt succeeds, and a region that was never
  initialised or was destroyed yields nothing.
\<close>

theorem ring_read_ends:
  "snd (tls_ticket_ring_read ord mem n stk) \<le> n + TLS_TICKET_SEQ_RETRIES * (length ord + 3)
   \<and> (ring_valid r \<and> seq r \<noteq> 0 \<and> set ord = set ring_cells \<and> snap_shape stk \<and> (\<forall>k \<ge> n. mem k = r) \<longrightarrow>
       tls_ticket_ring_read ord mem n stk = (Some (tls_ticket_snapshot.truncate r), n + 3 + length ord))
   \<and> ((\<forall>k \<ge> n. seq (mem k) = 0) \<longrightarrow> fst (tls_ticket_ring_read ord mem n stk) = None)"
proof -
  have "(\<forall>k \<ge> n. seq (mem k) = 0) \<longrightarrow> fst (read_loop ord mem n tries stk) = None" for tries
    by (induction tries arbitrary: n) simp_all
  then show ?thesis
    using read_loop_bound [of ord mem n TLS_TICKET_SEQ_RETRIES stk] ring_read_still [of r ord stk n mem]
    by (simp add: tls_ticket_ring_read_def)
qed

theorem ring_read_ends_witness:
  "tls_ticket_ring_read ring_cells (\<lambda>n. sample_ring) 7 cleared_snapshot
     = (Some (tls_ticket_snapshot.truncate sample_ring), 10 + length ring_cells)
   \<and> fst (tls_ticket_ring_read ring_cells (\<lambda>n. zeroed_ring) 7 cleared_snapshot) = None"
proof -
  have "seq sample_ring \<noteq> 0" "seq zeroed_ring = 0" "snap_shape cleared_snapshot"
    by (simp_all add: sample_ring_def zeroed_ring_def snap_shape_def cleared_snapshot_def)
  then show ?thesis
    using ring_read_ends [of ring_cells "\<lambda>n. sample_ring" 7 cleared_snapshot sample_ring]
      ring_read_ends [of ring_cells "\<lambda>n. zeroed_ring" 7 cleared_snapshot zeroed_ring]
    by simp
qed

section \<open>Tickets\<close>

lemma minted_take:
  assumes "i \<le> j"
  shows "minted (take j rots) = minted (drop i (take j rots)) @ minted (take i rots)"
proof -
  have "take j rots = take i rots @ drop i (take j rots)"
    using assms by (metis append_take_drop_id min.absorb1 take_take)
  then show ?thesis
    unfolding minted_def by (metis map_append rev_append)
qed

lemma minted_split: "minted rots = minted (drop j rots) @ minted (take j rots)"
  using minted_take [of j "length rots" rots] by (cases "j \<le> length rots") (simp_all add: minted_def)

lemma good_hist_suffix:
  assumes "\<forall>k \<in> set (xs @ ys). live k \<and> key_shape k" "distinct (map name (xs @ ys))"
  shows "good_hist ys"
  using assms by (auto simp: good_hist_def simp flip: take_map)

lemma pick_seal:
  assumes "tls_ticket_key_pick_shared ord mem n stk nm True = (Some k, n')"
  obtains snap where "tls_ticket_ring_read ord mem n stk = (Some snap, n')" "k = keys snap ! nat (cur snap)"
  using assms unfolding tls_ticket_key_pick_shared_def
  by (auto split: prod.splits option.splits if_splits)

text \<open>
  C33. Resumption across workers. The key one worker seals a ticket under is found, whole, by any worker
  that later reads the ring, unless more than \<open>TLS_TICKET_RING - 1\<close> rotations were begun between the
  start of the first worker's read and the end of the second's. Both reads run beside the owner, with
  any interleaving. (README.md:150 still says that the ticket key is per worker process and that freastal
  has no interface to share it; the shared ring is that interface.)
\<close>

theorem ticket_cross_worker:
  fixes rots :: "rotation list" and kord :: "key_cell list" and r :: tls_ticket_ring
  defines "ops \<equiv> owner_stores kord rots r"
  assumes "ring_valid r" "set kord = set key_cells" "set ord = set ring_cells"
    and "unat (seq r) + 2 * length rots < 2 ^ 32"
    and "represents (cur r) (keys r) hist" "hist \<noteq> []"
    and "\<forall>k \<in> set (minted rots @ hist). live k \<and> key_shape k" "distinct (map name (minted rots @ hist))"
    and "mono sA" "mono sB" "snap_shape stkA" "snap_shape stkB"
    and "tls_ticket_key_pick_shared ord (\<lambda>n. run_stores ops r (sA n)) nA stkA nm True = (Some k, nA')"
    and "tls_ticket_ring_read ord (\<lambda>n. run_stores ops r (sB n)) nB stkB = (Some snap, nB')"
    and "sA (nA' - 1) \<le> sB nB"
    and "position ops (sB (nB' - 1)) \<le> position ops (sA nA) + 2 * (TLS_TICKET_RING - 1)"
  shows "tls_ticket_key_pick_shared ord (\<lambda>n. run_stores ops r (sB n)) nB stkB (name k) False = (Some k, nB')"
proof -
  have w: "watched (kord, rots, r)"
    using assms(2,3,5) by (simp add: watched_def)
  obtain snapA where A: "tls_ticket_ring_read ord (\<lambda>n. run_stores ops r (sA n)) nA stkA = (Some snapA, nA')"
    "k = keys snapA ! nat (cur snapA)"
    using pick_seal [OF assms(14)] by blast
  obtain tA i where i: "sA nA \<le> tA" "tA \<le> sA (nA' - 1)" "i \<le> length rots" "position ops tA = 2 * i"
    "snapA = tls_ticket_snapshot.truncate (owner_run kord (take i rots) r)"
    using ring_read_moment [OF w assms(4,10,12) A(1) [unfolded ops_def]] unfolding ops_def by metis
  obtain tB j where j: "sB nB \<le> tB" "tB \<le> sB (nB' - 1)" "j \<le> length rots" "position ops tB = 2 * j"
    "snap = tls_ticket_snapshot.truncate (owner_run kord (take j rots) r)"
    using ring_read_moment [OF w assms(4,11,13) assms(15) [unfolded ops_def]] unfolding ops_def by metis
  have ij: "i \<le> j" "j \<le> i + (TLS_TICKET_RING - 1)"
    using position_mono [of tA tB ops] position_mono [of "sA nA" tA ops]
      position_mono [of tB "sB (nB' - 1)" ops] i j assms(16,17) by linarith+
  note repA = owner_run_represents [OF assms(2,3,6), of "take i rots"]
    and repB = owner_run_represents [OF assms(2,3,6), of "take j rots"]
  have k: "k = hd (minted (take i rots) @ hist)"
    using represents_newest [of _ _ k] repA A(2) i(5) assms(7)
    by (metis Nil_is_append_conv list.collapse represents_newest tls_ticket_snapshot.select_convs(1,2)
        tls_ticket_snapshot.truncate_def)
  have "length (minted (drop i (take j rots))) < TLS_TICKET_RING"
    using ij by (auto simp: minted_def ticket_consts)
  then have mem: "k \<in> set (take TLS_TICKET_RING (minted (take j rots) @ hist))"
    unfolding k minted_take [OF ij(1)] using assms(7)
    by (cases "minted (take i rots) @ hist") (auto simp: take_Cons' ticket_consts)
  have "good_hist (minted (take j rots) @ hist)"
    using good_hist_suffix [of "minted (drop j rots)" "minted (take j rots) @ hist"] assms(8,9)
      minted_split [of rots j] by simp
  then have "key_search (name k) (keys (owner_run kord (take j rots) r)) = Some k"
    using represents_search [OF repB] mem by blast
  moreover have "take TLS_TICKET_RING (keys snap) = keys (owner_run kord (take j rots) r)"
    using represents_bounds(3) [OF repB] j(5) by (simp add: tls_ticket_snapshot.truncate_def)
  ultimately show ?thesis
    using assms(15) by (simp add: tls_ticket_key_pick_shared_def)
qed


text \<open>The first worker reads before two rotations, the second after both.\<close>

lemma owner_stores_all:
  assumes "length (owner_stores kord rots r) \<le> i"
  shows "run_stores (owner_stores kord rots r) r i = owner_run kord rots r"
  using assms
proof (induction rots arbitrary: r i)
  case (Cons rot rots)
  then show ?case
    by (simp add: run_stores_append rotate_stores_run owner_run_def)
qed (simp add: run_stores_def owner_run_def)

lemma sample_seq: "unat (seq sample_ring) + 2 * length sample_rots < 2 ^ 32" "seq sample_ring \<noteq> 0"
  by (simp_all add: sample_ring_def sample_rots_def)

lemma snap_shape_cleared: "snap_shape cleared_snapshot"
  by (simp add: snap_shape_def cleared_snapshot_def)

theorem ticket_cross_worker_witness:
  "fst (tls_ticket_key_pick_shared ring_cells (\<lambda>n. owner_run key_cells sample_rots sample_ring) 0 cleared_snapshot
     (name (tls_ticket_key_mint (sample_rng 1))) False) = Some (tls_ticket_key_mint (sample_rng 1))"
proof -
  let ?ops = "owner_stores key_cells sample_rots sample_ring"
  let ?final = "owner_run key_cells sample_rots sample_ring"
  have readA: "tls_ticket_ring_read ring_cells (\<lambda>n. run_stores ?ops sample_ring 0) 0 cleared_snapshot
      = (Some (tls_ticket_snapshot.truncate sample_ring), 0 + 3 + length ring_cells)"
    using sample_seq snap_shape_cleared by (intro ring_read_still) (simp_all add: run_stores_def)
  have A: "tls_ticket_key_pick_shared ring_cells (\<lambda>n. run_stores ?ops sample_ring 0) 0 cleared_snapshot [] True
      = (Some (tls_ticket_key_mint (sample_rng 1)), 0 + 3 + length ring_cells)"
    unfolding tls_ticket_key_pick_shared_def readA
    by (simp add: tls_ticket_snapshot.truncate_def sample_ring_def zeroed_ring_def ticket_consts)
  have "seq ?final \<noteq> 0"
    using owner_run_seq [OF sample_ring_valid refl, of sample_rots] by (simp add: sample_rots_def sample_ring_def)
  then have readB: "tls_ticket_ring_read ring_cells (\<lambda>n. run_stores ?ops sample_ring (length ?ops)) 0 cleared_snapshot
      = (Some (tls_ticket_snapshot.truncate ?final), 0 + 3 + length ring_cells)"
    using owner_run_valid [OF sample_ring_valid refl] snap_shape_cleared
    by (intro ring_read_still) (simp_all add: owner_stores_all)
  have "position ?ops (length ?ops) \<le> position ?ops 0 + 2 * (TLS_TICKET_RING - 1)"
    using owner_position [OF sample_ring_valid refl, of sample_rots "length ?ops"]
    by (simp add: sample_rots_def ticket_consts)
  moreover have "\<forall>k \<in> set (minted sample_rots @ sample_hist). live k \<and> key_shape k"
    "distinct (map name (minted sample_rots @ sample_hist))"
    using sample_names by (auto simp: minted_def sample_rots_def)
  ultimately have "tls_ticket_key_pick_shared ring_cells (\<lambda>n. run_stores ?ops sample_ring (length ?ops)) 0
      cleared_snapshot (name (tls_ticket_key_mint (sample_rng 1))) False
      = (Some (tls_ticket_key_mint (sample_rng 1)), 0 + 3 + length ring_cells)"
    by (intro ticket_cross_worker [OF sample_ring_valid refl refl sample_seq(1) sample_ring_represents _ _ _
          _ _ snap_shape_cleared snap_shape_cleared A readB]) (simp_all add: mono_def)
  then show ?thesis
    by (simp add: owner_stores_all)
qed


text \<open>
  What is assumed of OpenSSL: its contexts can be allocated, decrypting inverts encrypting under the same
  key and IV, and an HMAC-SHA256 has 32 bytes.
\<close>

definition openssl_ok :: "ossl \<Rightarrow> bool" where
  "openssl_ok L \<longleftrightarrow> ctx_new L \<and> reserve_ok L \<and> (\<forall>k v p. aes_cbc_dec L k v (aes_cbc L k v p) = Some p)
     \<and> (\<forall>k msg. length (hmac_sha256 L k msg) = HMAC_SIZE)"

definition TLS_TICKET_IV_LEN :: nat where "TLS_TICKET_IV_LEN = 16"

definition crypto_ready :: "ticket_ext \<Rightarrow> bool" where
  "crypto_ready E \<longleftrightarrow> cipher_init E \<and> mac_init E \<noteq> 0 \<and> length (cb_iv E) = TLS_TICKET_IV_LEN"

lemma iv_fits: "TICKET_IV_SIZE = TLS_TICKET_IV_LEN"
  by (simp add: TICKET_IV_SIZE_def TLS_TICKET_IV_LEN_def)

text \<open>A sealed ticket carries the key's name in front and opens exactly when the callback finds the key.\<close>

lemma ticket_opens:
  assumes "openssl_ok L" "crypto_ready E" "crypto_ready E'"
    and "callback_key E ts [] True = Some k" "key_shape k"
  shows "\<exists>ticket. tls_ticket_encrypt L E ts True src = Some ticket
    \<and> (callback_key E' ts' (name k) False = Some k \<longrightarrow> tls_ticket_encrypt L E' ts' False ticket = Some src)
    \<and> (callback_key E' ts' (name k) False = None \<longrightarrow> tls_ticket_encrypt L E' ts' False ticket = None)"
proof -
  define cipher where "cipher = aes_cbc L (aes k) (cb_iv E) src"
  define body where "body = name k @ cb_iv E @ cipher"
  define ticket where "ticket = body @ hmac_sha256 L (hmac k) body"
  have len: "length (name k) = TLS_TICKET_NAME_LEN" "length (cb_iv E) = TICKET_IV_SIZE"
    "length (hmac_sha256 L (hmac k) body) = HMAC_SIZE"
    using assms(1,2,5) by (simp_all add: openssl_ok_def crypto_ready_def key_shape_def iv_fits)
  have "tls_ticket_encrypt L E ts True src = Some ticket"
    using assms(1,2,4)
    by (simp add: tls_ticket_encrypt_def ptls_openssl_encrypt_ticket_evp_def tls_ticket_key_cb_def openssl_ok_def
        crypto_ready_def blank_ctx_def ticket_def body_def cipher_def Let_def)
  moreover have parts: "take TLS_TICKET_NAME_LEN ticket = name k"
    "take TICKET_IV_SIZE (drop TLS_TICKET_NAME_LEN ticket) = cb_iv E"
    "take (length ticket - HMAC_SIZE) ticket = body"
    "drop (length ticket - HMAC_SIZE) ticket = hmac_sha256 L (hmac k) body"
    "drop (TLS_TICKET_NAME_LEN + TICKET_IV_SIZE) body = cipher"
    "\<not> length ticket < TLS_TICKET_NAME_LEN + TICKET_IV_SIZE + HMAC_SIZE"
    using len by (simp_all add: ticket_def body_def)
  moreover have "\<not> length ticket < TLS_TICKET_NAME_LEN + TICKET_IV_SIZE"
    using parts(6) by simp
  moreover have "aes_cbc_dec L (aes k) (cb_iv E) cipher = Some src"
    using assms(1) by (simp add: openssl_ok_def cipher_def)
  ultimately show ?thesis
    using assms(1,3)
    by (intro exI [of _ ticket])
      (simp add: tls_ticket_encrypt_def ptls_openssl_decrypt_ticket_evp_def tls_ticket_key_cb_def openssl_ok_def
        crypto_ready_def blank_ctx_def Let_def)
qed

text \<open>What opens was authenticated by the key the callback found for its name.\<close>

lemma ticket_authentic:
  assumes "tls_ticket_encrypt L E ts False ticket = Some p"
  shows "\<exists>k. callback_key E ts (take TLS_TICKET_NAME_LEN ticket) False = Some k
    \<and> drop (length ticket - HMAC_SIZE) ticket
        = hmac_sha256 L (hmac k) (take (length ticket - HMAC_SIZE) ticket)"
  using assms
  by (auto simp: tls_ticket_encrypt_def ptls_openssl_decrypt_ticket_evp_def tls_ticket_key_cb_def blank_ctx_def
      Let_def split: if_splits option.splits prod.splits)

lemma fold_rotate_once_shared: "ticket_shared (fold tls_ticket_rotate_once rngs ts) = ticket_shared ts"
  by (induction rngs arbitrary: ts) (simp_all add: tls_ticket_rotate_once_def Let_def)

text \<open>
  C34. A ticket lives as long as it was promised to. In a process with its own ring, a ticket sealed at
  time \<open>t\<close> opens to what was sealed at any time up to \<open>t\<close> plus \<open>TLS_TICKET_LIFETIME_S\<close>, if the ring was
  rotated no more often than every \<open>TLS_TICKET_ROTATE_MS\<close>; after \<open>TLS_TICKET_RING\<close> rotations it opens
  never again. Whatever else a client presents as a ticket opens only if its last bytes are its HMAC
  under the live key it names.
\<close>

theorem ticket_lifetime_kept:
  fixes rngs :: "(nat \<Rightarrow> char) list" and times :: "nat list" and hist :: "tls_ticket_key list"
  defines "hist' \<equiv> rev (map tls_ticket_key_mint rngs) @ hist"
  assumes "openssl_ok L" "crypto_ready E" "crypto_ready E'"
    and "ticket_shared ts = None" "represents (ticket_cur ts) (ticket_keys ts) hist" "hist \<noteq> []"
    and "\<forall>k \<in> set hist'. live k \<and> key_shape k" "distinct (map name hist')"
    and "length times = length rngs"
  shows "\<exists>ticket. tls_ticket_encrypt L E ts True src = Some ticket
    \<and> (spaced TLS_TICKET_ROTATE_MS times \<and> (\<forall>u \<in> set times. t < u \<and> u \<le> t + TLS_TICKET_LIFETIME_S * 1000) \<longrightarrow>
        tls_ticket_encrypt L E' (fold tls_ticket_rotate_once rngs ts) False ticket = Some src)
    \<and> (TLS_TICKET_RING \<le> length rngs \<longrightarrow>
        tls_ticket_encrypt L E' (fold tls_ticket_rotate_once rngs ts) False ticket = None)
    \<and> (\<forall>forged p. tls_ticket_encrypt L E' (fold tls_ticket_rotate_once rngs ts) False forged = Some p \<longrightarrow>
        (\<exists>k \<in> set (take TLS_TICKET_RING hist'). name k = take TLS_TICKET_NAME_LEN forged
          \<and> drop (length forged - HMAC_SIZE) forged
              = hmac_sha256 L (hmac k) (take (length forged - HMAC_SIZE) forged)))"
proof -
  let ?ts' = "fold tls_ticket_rotate_once rngs ts"
  define k where "k = hd hist"
  have hist: "hist = k # tl hist"
    using assms(7) by (simp add: k_def)
  have k: "live k" "key_shape k"
    using assms(8) hist unfolding hist'_def by (metis list.set_intros(1) Un_iff set_append)+
  have seal: "callback_key E ts [] True = Some k"
    using represents_newest assms(5,6) hist k(1) by (auto simp: callback_key_def) (metis)
  have rep: "represents (ticket_cur ?ts') (ticket_keys ?ts') hist'"
    using local_ring.run_represents [OF TrueI assms(6), of rngs] by (simp add: hist'_def list_all_iff)
  have good: "good_hist hist'"
    using good_hist_suffix [of "[]" hist'] assms(8,9) by simp
  have "callback_key E' ?ts' nm False = key_search nm (ticket_keys ?ts')" for nm
    using assms(5) represents_bounds(3) [OF rep]
    by (simp add: callback_key_def fold_rotate_once_shared tls_ticket_key_by_name_def)
  then have opens: "callback_key E' ?ts' nm False = Some l
      \<longleftrightarrow> l \<in> set (take TLS_TICKET_RING hist') \<and> name l = nm" for nm l
    using represents_search [OF rep good] by simp
  have "callback_key E' ?ts' (name k) False = Some k"
    if "spaced TLS_TICKET_ROTATE_MS times" "\<forall>u \<in> set times. t < u \<and> u \<le> t + TLS_TICKET_LIFETIME_S * 1000"
  proof -
    have "length rngs \<le> TLS_TICKET_RING - 1"
      using spaced_window [OF that(1), of t "TLS_TICKET_RING - 1"] that(2) assms(10) by (simp add: ticket_consts)
    then show ?thesis
      unfolding opens hist'_def by (subst hist) (auto simp: take_Cons' ticket_consts)
  qed
  moreover have "callback_key E' ?ts' (name k) False = None" if "TLS_TICKET_RING \<le> length rngs"
  proof -
    have "name l \<noteq> name k" if "l \<in> set (rev (map tls_ticket_key_mint rngs))" for l
      using assms(9) that unfolding hist'_def by (subst (asm) hist) (auto simp: image_iff)
    then have "\<not> (l \<in> set (take TLS_TICKET_RING hist') \<and> name l = name k)" for l
      using that by (auto simp: hist'_def dest: in_set_takeD)
    then show ?thesis
      using opens by (metis not_Some_eq)
  qed
  moreover have "\<exists>k \<in> set (take TLS_TICKET_RING hist'). name k = take TLS_TICKET_NAME_LEN forged
      \<and> drop (length forged - HMAC_SIZE) forged
          = hmac_sha256 L (hmac k) (take (length forged - HMAC_SIZE) forged)"
    if "tls_ticket_encrypt L E' ?ts' False forged = Some p" for forged p
    using ticket_authentic [OF that] unfolding opens by blast
  ultimately show ?thesis
    using ticket_opens [OF assms(2-4) seal k(2), of src ?ts'] by blast
qed


text \<open>Functions that satisfy the assumption, and a process with its own ring, for the witness.\<close>

definition sample_ossl :: ossl where
  "sample_ossl = \<lparr>ctx_new = True, reserve_ok = True, aes_cbc = (\<lambda>k v p. rev p), aes_cbc_dec = (\<lambda>k v p. Some (rev p)),
     hmac_sha256 = (\<lambda>k m. take HMAC_SIZE (k @ replicate HMAC_SIZE NUL))\<rparr>"

lemma sample_ossl_ok: "openssl_ok sample_ossl"
  by (simp add: openssl_ok_def sample_ossl_def min_def)

definition sample_ticket_ext :: ticket_ext where
  "sample_ticket_ext =
     \<lparr>cb_ord = ring_cells, cb_mem = (\<lambda>n. zeroed_ring), cb_first = 0, cb_stack = cleared_snapshot,
      cb_mint = sample_rng 9, cb_iv = replicate TLS_TICKET_IV_LEN NUL, cipher_init = True, mac_init = 1\<rparr>"

theorem ticket_lifetime_kept_witness:
  "\<exists>ticket.
     tls_ticket_encrypt sample_ossl sample_ticket_ext
       (zeroed_tls_server\<lparr>ticket_keys := keys sample_ring\<rparr>) True ''secret'' = Some ticket
   \<and> tls_ticket_encrypt sample_ossl sample_ticket_ext
       (fold tls_ticket_rotate_once [sample_rng 2, sample_rng 3] (zeroed_tls_server\<lparr>ticket_keys := keys sample_ring\<rparr>))
       False ticket = Some ''secret''"
proof -
  let ?ts = "zeroed_tls_server\<lparr>ticket_keys := keys sample_ring\<rparr>"
  have rep: "represents (ticket_cur ?ts) (ticket_keys ?ts) sample_hist"
    using sample_ring_represents by (simp add: zeroed_tls_server_def sample_ring_def zeroed_ring_def)
  have E: "crypto_ready sample_ticket_ext"
    by (simp add: crypto_ready_def sample_ticket_ext_def)
  have own: "ticket_shared ?ts = None" "sample_hist \<noteq> []"
    by (simp_all add: zeroed_tls_server_def)
  have keys: "\<forall>k \<in> set (rev (map tls_ticket_key_mint [sample_rng 2, sample_rng 3]) @ sample_hist).
      live k \<and> key_shape k"
    "distinct (map name (rev (map tls_ticket_key_mint [sample_rng 2, sample_rng 3]) @ sample_hist))"
    using sample_names by auto
  have len: "length [TLS_TICKET_ROTATE_MS, 2 * TLS_TICKET_ROTATE_MS] = length [sample_rng 2, sample_rng 3]"
    by simp
  have times: "spaced TLS_TICKET_ROTATE_MS [TLS_TICKET_ROTATE_MS, 2 * TLS_TICKET_ROTATE_MS] \<and>
      (\<forall>u \<in> set [TLS_TICKET_ROTATE_MS, 2 * TLS_TICKET_ROTATE_MS]. 0 < u \<and> u \<le> 0 + TLS_TICKET_LIFETIME_S * 1000)"
    by (simp add: ticket_consts)
  from ticket_lifetime_kept [OF sample_ossl_ok E E own(1) rep own(2) keys len, of "''secret''" 0] show ?thesis
    by (elim exE conjE) (rule exI, rule conjI, assumption, erule mp [OF _ times])
qed

section \<open>The owner's life\<close>

text \<open>The region as \<open>tls_ticket_ring_create\<close> leaves it.\<close>

definition fresh_region :: "int \<Rightarrow> key_cell list \<Rightarrow> rotation \<Rightarrow> tls_ticket_ring" where
  "fresh_region pid kord first =
     tls_ticket_ring_publish kord
       (zeroed_ring\<lparr>magic := TLS_TICKET_RING_MAGIC, abi := TLS_TICKET_RING_ABI,
          ring_slots := of_nat TLS_TICKET_RING, key_stride := of_nat sizeof_ticket_key,
          rotate_ms := of_nat TLS_TICKET_ROTATE_MS, grace_ms := of_nat TLS_TICKET_STALE_GRACE_MS,
          owner_pid := pid\<rparr>)
       0 (tls_ticket_key_mint (fst first)) (snd first)"

lemma zeroed_shape: "snap_shape (zeroed_ring\<lparr>magic := a, abi := b, ring_slots := c, key_stride := d,
    rotate_ms := e, grace_ms := f, owner_pid := g\<rparr>)"
  by (simp add: snap_shape_def zeroed_ring_def)

lemma fresh_region_eq:
  assumes "set kord = set key_cells"
  shows "fresh_region pid kord first =
    \<lparr>cur = 0, keys = [tls_ticket_key_mint (fst first), cleared_key, cleared_key],
     magic = TLS_TICKET_RING_MAGIC, abi = TLS_TICKET_RING_ABI, ring_slots = of_nat TLS_TICKET_RING,
     key_stride = of_nat sizeof_ticket_key, rotate_ms = of_nat TLS_TICKET_ROTATE_MS,
     grace_ms = of_nat TLS_TICKET_STALE_GRACE_MS, owner_pid = pid, seq = 2,
     rotate_due_ms = snd first + of_nat TLS_TICKET_ROTATE_MS\<rparr>"
  unfolding fresh_region_def
  by (subst ring_publish_effect [OF zeroed_shape]) (simp_all add: assms zeroed_ring_def ticket_consts numeral_3_eq_3)

lemma fresh_region_valid:
  assumes "set kord = set key_cells"
  shows "ring_valid (fresh_region pid kord first)"
    and "represents (cur (fresh_region pid kord first)) (keys (fresh_region pid kord first))
      [tls_ticket_key_mint (fst first)]"
  by (simp_all add: fresh_region_eq [OF assms] ring_valid_def snap_shape_def represents_def nth_newest_def
      TLS_TICKET_RING_def)

text \<open>What rotations leave alone, and the deadline they set.\<close>

lemma owner_run_fixed:
  assumes "ring_valid r" "set kord = set key_cells"
  shows "rotate_ms (owner_run kord rots r) = rotate_ms r \<and> grace_ms (owner_run kord rots r) = grace_ms r
    \<and> magic (owner_run kord rots r) = magic r \<and> abi (owner_run kord rots r) = abi r
    \<and> ring_slots (owner_run kord rots r) = ring_slots r \<and> key_stride (owner_run kord rots r) = key_stride r
    \<and> owner_pid (owner_run kord rots r) = owner_pid r"
  using assms unfolding owner_run_def
proof (induction rots arbitrary: r)
  case (Cons rot rots)
  then show ?case
    using Cons.IH [OF rotate_ring_valid [OF Cons.prems]] by (simp add: rotate_ring_effect [OF Cons.prems])
qed simp

lemma owner_run_due:
  assumes "ring_valid r" "set kord = set key_cells" "rotate_due_ms r = p + ucast (rotate_ms r)"
  shows "rotate_due_ms (owner_run kord rots r) = last (p # map snd rots) + ucast (rotate_ms r)"
  using assms unfolding owner_run_def
proof (induction rots arbitrary: r p)
  case (Cons rot rots)
  then show ?case
    using Cons.IH [OF rotate_ring_valid [OF Cons.prems(1,2)], of rot "snd rot"]
    by (simp add: rotate_ring_effect [OF Cons.prems(1,2)])
qed simp


text \<open>
  What a look at the deadline finds beside a moving owner: the ring after a whole number of rotations, or
  the owner in the way of every attempt.
\<close>

lemma exec_store_grace: "grace_ms (exec_store s r) = grace_ms r"
  by (cases s) simp_all

lemma run_stores_grace: "grace_ms (run_stores ops r i) = grace_ms r"
proof -
  have "grace_ms (fold exec_store os r) = grace_ms r" for os
    by (induction os arbitrary: r) (simp_all add: exec_store_grace)
  then show ?thesis by (simp add: run_stores_def)
qed

definition in_the_way :: "store list \<Rightarrow> (nat \<Rightarrow> nat) \<Rightarrow> nat \<Rightarrow> bool" where
  "in_the_way ops sched k \<longleftrightarrow> odd (position ops (sched k)) \<or> position ops (sched (k + 3)) \<noteq> position ops (sched k)"

lemma stale_look:
  assumes "watched (kord, rots, r)" "seq r \<noteq> 0" "mono sched"
  defines "ops \<equiv> owner_stores kord rots r"
  defines "mem \<equiv> \<lambda>k. run_stores ops r (sched k)"
  shows "(\<exists>k j. n \<le> k \<and> k < n + 4 * TLS_TICKET_SEQ_RETRIES \<and> j \<le> length rots \<and> position ops (sched k) = 2 * j
        \<and> mem k = owner_run kord (take j rots) r
        \<and> (tls_ticket_ring_is_stale mem now n
            \<longleftrightarrow> now > rotate_due_ms (owner_run kord (take j rots) r) + ucast (grace_ms r)))
    \<or> (\<not> tls_ticket_ring_is_stale mem now n
      \<and> (\<exists>K. finite K \<and> card K = TLS_TICKET_SEQ_RETRIES \<and> (\<forall>k \<in> K. n \<le> k \<and> k < n + 4 * TLS_TICKET_SEQ_RETRIES \<and> in_the_way ops sched k)))"
proof -
  have m: "owner_memory (kord, rots, r) (sched k) = mem k" for k by (simp add: owner_memory_def mem_def ops_def)
  have seq: "unat (seq (mem k)) = unat (seq r) + position ops (sched k)" for k
    using owner_seq [OF assms(1), of "sched k"] by (simp add: m ops_def)
  have even: "even (unat (seq r))" using assms(1) by (simp add: watched_def ring_valid_def)
  have way: "in_the_way ops sched k"
    if "seq (mem k) = 0 \<or> seq (mem k) AND 1 \<noteq> 0 \<or> seq (mem (k + 3)) \<noteq> seq (mem k)" for k
  proof -
    have "0 < unat (seq r)" using assms(2) by (simp add: unat_gt_0)
    then have "seq (mem k) \<noteq> 0" using seq [of k] by (metis add_gr_0 less_irrefl unat_0)
    moreover have "odd (position ops (sched k))" if "seq (mem k) AND 1 \<noteq> 0"
      using that even seq [of k] by (simp flip: even_unat)
    moreover have "position ops (sched (k + 3)) \<noteq> position ops (sched k)" if "seq (mem (k + 3)) \<noteq> seq (mem k)"
      using that seq [of k] seq [of "k + 3"] by (metis word_unat_eq_iff)
    ultimately show ?thesis using that by (auto simp: in_the_way_def)
  qed
  have g: "grace_ms (mem k) = grace_ms r" for k by (simp add: mem_def run_stores_grace)
  have whole: "\<exists>j \<le> length rots. mem k = owner_run kord (take j rots) r \<and> position ops (sched k) = 2 * j"
    if "seq (mem k) AND 1 = 0" for k
    using owner_between [OF assms(1), of "sched k"] that by (simp add: m ops_def)
  from owner.stale_loop_looks [OF assms(1,3), of n TLS_TICKET_SEQ_RETRIES now, unfolded m, folded tls_ticket_ring_is_stale_def]
  show ?thesis
  proof
    assume "\<exists>k. n \<le> k \<and> k < n + 4 * TLS_TICKET_SEQ_RETRIES \<and> seq (mem k) AND 1 = 0
      \<and> (tls_ticket_ring_is_stale mem now n \<longleftrightarrow> now > rotate_due_ms (mem k) + ucast (grace_ms (mem (k + 4))))"
    then obtain k where k: "n \<le> k" "k < n + 4 * TLS_TICKET_SEQ_RETRIES" "seq (mem k) AND 1 = 0"
      "tls_ticket_ring_is_stale mem now n \<longleftrightarrow> now > rotate_due_ms (mem k) + ucast (grace_ms (mem (k + 4)))" by blast
    obtain j where "j \<le> length rots" "mem k = owner_run kord (take j rots) r" "position ops (sched k) = 2 * j"
      using whole [OF k(3)] by blast
    then show ?thesis using k(1,2,4) g by (intro disjI1 exI [of _ k] exI [of _ j]) simp
  qed (use way in blast)
qed

text \<open>Rotations that come no later than \<open>gap\<close> after each other.\<close>

fun paced :: "nat \<Rightarrow> nat list \<Rightarrow> bool" where
  "paced gap (t # u # ts) \<longleftrightarrow> u \<le> t + gap \<and> paced gap (u # ts)"
| "paced gap ts \<longleftrightarrow> True"

lemma paced_append: "paced gap (xs @ ys) \<Longrightarrow> paced gap ys"
  by (induction gap xs rule: paced.induct) (auto elim: paced.elims)

lemma paced_last: "paced gap (t # ts) \<Longrightarrow> last (t # ts) \<le> t + length ts * gap"
  by (induction ts arbitrary: t) force+

lemma paced_recent:
  assumes "paced gap (map f xs)" "x \<in> set (take (Suc n) (rev xs))"
  shows "f (last xs) \<le> f x + n * gap"
proof -
  obtain i where i: "i < length (take (Suc n) (rev xs))" "x = take (Suc n) (rev xs) ! i"
    using assms(2) by (metis in_set_conv_nth)
  then have x: "x = rev xs ! i" "i < length xs" "i \<le> n"
    by simp_all
  define ys where "ys = drop (length xs - Suc i) xs"
  have hd: "ys = x # tl ys" and len: "length (tl ys) = i"
    using x by (simp_all add: ys_def rev_nth Cons_nth_drop_Suc [symmetric])
  have "paced gap (map f ys)"
    using paced_append [of gap "map f (take (length xs - Suc i) xs)" "map f ys"] assms(1)
    by (simp add: ys_def flip: map_append)
  then have "last (map f ys) \<le> f x + i * gap"
    using paced_last [of gap "f x" "map f (tl ys)"] len by (subst (asm) hd, subst hd) simp
  moreover have "last (map f ys) = f (last xs)"
    using hd x(2) by (simp add: last_map ys_def)
  ultimately show ?thesis
    using x(3) by (metis add_left_mono le_trans mult_le_mono1)
qed

text \<open>The keys of a ring that was rotated on time, when its deadline and the grace have not passed.\<close>

lemma owner_run_age:
  assumes "set kord = set key_cells" "paced TLS_TICKET_ROTATE_MS (map (unat \<circ> snd) (first # rots))"
    and "now \<le> unat (snd (last (first # rots))) + TLS_TICKET_ROTATE_MS + TLS_TICKET_STALE_GRACE_MS"
    and "k \<in> set (keys (owner_run kord rots (fresh_region pid kord first)))" "live k"
  shows "\<exists>rot \<in> set (first # rots). k = tls_ticket_key_mint (fst rot)
    \<and> now \<le> unat (snd rot) + TLS_TICKET_RING * TLS_TICKET_ROTATE_MS + TLS_TICKET_STALE_GRACE_MS"
proof -
  let ?r = "owner_run kord rots (fresh_region pid kord first)"
  note fresh = fresh_region_valid [OF assms(1), of pid first]
  have "represents (cur ?r) (keys ?r) (minted (first # rots))"
    using owner_run_represents [OF fresh(1) assms(1) fresh(2), of rots] by (simp add: minted_def)
  then have "k \<in> set (take TLS_TICKET_RING (minted (first # rots)))"
    using assms(4,5) by (rule represents_live_recent)
  then obtain rot where rot: "rot \<in> set (take TLS_TICKET_RING (rev (first # rots)))"
    "k = tls_ticket_key_mint (fst rot)"
    unfolding minted_def rev_map take_map set_map by (elim imageE)
  have "unat (snd (last (first # rots))) \<le> unat (snd rot) + (TLS_TICKET_RING - 1) * TLS_TICKET_ROTATE_MS"
    using paced_recent [OF assms(2), of rot "TLS_TICKET_RING - 1"] rot(1) by (simp add: ticket_consts)
  then show ?thesis
    using assms(3) rot by (intro bexI [of _ rot]) (auto simp: ticket_consts dest: in_set_takeD)
qed

text \<open>The deadline with its grace, as a number that does not wrap.\<close>

lemma owner_run_deadline:
  assumes "set kord = set key_cells"
    and "unat (snd (last (first # rots))) + TLS_TICKET_ROTATE_MS + TLS_TICKET_STALE_GRACE_MS < 2 ^ 64"
  shows "now > rotate_due_ms (owner_run kord rots (fresh_region pid kord first)) + ucast (grace_ms (fresh_region pid kord first))
    \<longleftrightarrow> unat now > unat (snd (last (first # rots))) + TLS_TICKET_ROTATE_MS + TLS_TICKET_STALE_GRACE_MS"
proof -
  let ?p = "snd (last (first # rots))"
  note fresh = fresh_region_valid [OF assms(1), of pid first]
  have "rotate_due_ms (owner_run kord rots (fresh_region pid kord first)) + ucast (grace_ms (fresh_region pid kord first))
      = ?p + of_nat (TLS_TICKET_ROTATE_MS + TLS_TICKET_STALE_GRACE_MS)"
    using owner_run_due [OF fresh(1) assms(1), of "snd first" rots]
    by (simp add: fresh_region_eq [OF assms(1)] last_map ticket_consts TLS_TICKET_STALE_GRACE_MS_def)
  then show ?thesis
    using unat_add_small [of ?p "TLS_TICKET_ROTATE_MS + TLS_TICKET_STALE_GRACE_MS"] assms(2)
    by (simp add: word_less_nat_alt add.assoc)
qed

text \<open>
  C35. The exposure bound, beside an owner that rotates, lags or is killed at any store. A worker's check in
  \<open>tls_conn_init\<close> ends in one of two ways. It sees the ring as it stood at a moment of the check, after a
  whole number of rotations. Then it drops the ring and turns tickets off exactly when the last of these
  rotations is more than a period and the grace old; and if it keeps the ring, and the rotations were on time
  until then, every key in it was minted at most \<open>TLS_TICKET_RING\<close> periods and the grace ago. Or each of its
  \<open>TLS_TICKET_SEQ_RETRIES\<close> attempts met the owner inside a rotation or was overtaken by one; then it keeps
  the ring. For an owner that is alive that is a matter of one unlucky check; an owner killed inside a
  rotation is in the way for ever, and theorem \<open>killed_midway_kept\<close> shows that the keys then are kept without
  a bound. The bound is four hours where README.md promises three.
\<close>

theorem ticket_exposure_bounded:
  fixes first :: rotation and rots :: "rotation list" and kord :: "key_cell list" and pid :: int
    and sched :: "nat \<Rightarrow> nat"
  defines "r \<equiv> fresh_region pid kord first"
  defines "ops \<equiv> owner_stores kord rots r"
  defines "mem \<equiv> \<lambda>k. run_stores ops r (sched k)"
  assumes "set kord = set key_cells" "2 + 2 * length rots < 2 ^ 32" "mono sched"
    and "\<forall>rot \<in> set (first # rots). unat (snd rot) + TLS_TICKET_ROTATE_MS + TLS_TICKET_STALE_GRACE_MS < 2 ^ 64"
    and "ticket_shared ts = Some base"
  shows "(\<exists>k j. n \<le> k \<and> k < n + 4 * TLS_TICKET_SEQ_RETRIES \<and> j \<le> length rots
      \<and> mem k = owner_run kord (take j rots) r \<and> position ops (sched k) = 2 * j
      \<and> (if unat now \<le> unat (snd (last (first # take j rots))) + TLS_TICKET_ROTATE_MS + TLS_TICKET_STALE_GRACE_MS
         then conn_ticket_check mem now n ts = ts
           \<and> (paced TLS_TICKET_ROTATE_MS (map (unat \<circ> snd) (first # take j rots)) \<longrightarrow>
               (\<forall>key \<in> set (keys (mem k)). live key \<longrightarrow>
                 (\<exists>rot \<in> set (first # take j rots). key = tls_ticket_key_mint (fst rot)
                   \<and> unat now \<le> unat (snd rot) + TLS_TICKET_RING * TLS_TICKET_ROTATE_MS + TLS_TICKET_STALE_GRACE_MS)))
         else conn_ticket_check mem now n ts
           = ts\<lparr>ticket_lifetime := 0, encrypt_ticket := False, ticket_shared := None, ticket_shared_len := 0\<rparr>))
    \<or> (conn_ticket_check mem now n ts = ts
      \<and> (\<exists>K. finite K \<and> card K = TLS_TICKET_SEQ_RETRIES \<and> (\<forall>k \<in> K. n \<le> k \<and> k < n + 4 * TLS_TICKET_SEQ_RETRIES \<and> in_the_way ops sched k)))"
proof -
  have r: "watched (kord, rots, r)" "seq r \<noteq> 0"
    using assms(4,5) fresh_region_valid(1) [OF assms(4), of pid first]
    by (simp_all add: watched_def r_def fresh_region_eq [OF assms(4)])
  have check: "conn_ticket_check mem now n ts = (if tls_ticket_ring_is_stale mem now n
      then ts\<lparr>ticket_lifetime := 0, encrypt_ticket := False, ticket_shared := None, ticket_shared_len := 0\<rparr> else ts)"
    using assms(8) by (simp add: conn_ticket_check_def tls_ticket_ring_disable_def)
  from stale_look [OF r assms(6), of n now, folded ops_def, folded mem_def] show ?thesis
  proof
    assume "\<exists>k j. n \<le> k \<and> k < n + 4 * TLS_TICKET_SEQ_RETRIES \<and> j \<le> length rots \<and> position ops (sched k) = 2 * j
      \<and> run_stores ops r (sched k) = owner_run kord (take j rots) r
      \<and> (tls_ticket_ring_is_stale mem now n
          \<longleftrightarrow> now > rotate_due_ms (owner_run kord (take j rots) r) + ucast (grace_ms r))"
    then obtain k j where k: "n \<le> k" "k < n + 4 * TLS_TICKET_SEQ_RETRIES" "j \<le> length rots"
      "position ops (sched k) = 2 * j" "mem k = owner_run kord (take j rots) r"
      "tls_ticket_ring_is_stale mem now n
        \<longleftrightarrow> now > rotate_due_ms (owner_run kord (take j rots) r) + ucast (grace_ms r)" unfolding mem_def by blast
    have "last (first # take j rots) \<in> set (first # rots)"
      using last_in_set [of "first # take j rots"] set_take_subset [of j rots] by auto
    then have "unat (snd (last (first # take j rots))) + TLS_TICKET_ROTATE_MS + TLS_TICKET_STALE_GRACE_MS < 2 ^ 64"
      using assms(7) by blast
    note dl = owner_run_deadline [OF assms(4) this, where now = now and pid = pid, folded r_def]
    show ?thesis
      using k(1-5) check k(6) dl owner_run_age [OF assms(4), of first "take j rots" "unat now" _ pid, folded r_def]
      by (intro disjI1 exI [of _ k] exI [of _ j]) (simp add: not_less)
  qed (use check in simp)
qed

lemma run_stores_sched: "position (owner_stores kord rots r) (length (owner_stores kord rots r)) = 2 * length rots"
  by (induction rots arbitrary: r) (simp add: position_def, simp add: position_append rotate_stores_whole)

theorem ticket_exposure_bounded_witness:
  "conn_ticket_check (\<lambda>n. owner_run key_cells sample_rots (fresh_region 7 key_cells (sample_rng 1, 0))) 14400000 0
     (zeroed_tls_server\<lparr>ticket_shared := Some 64\<rparr>) = zeroed_tls_server\<lparr>ticket_shared := Some 64\<rparr>
   \<and> ticket_shared (conn_ticket_check
       (\<lambda>n. owner_run key_cells sample_rots (fresh_region 7 key_cells (sample_rng 1, 0))) 14400001 0
       (zeroed_tls_server\<lparr>ticket_shared := Some 64\<rparr>)) = None"
proof -
  let ?r = "fresh_region 7 key_cells (sample_rng 1, 0)"
  let ?ops = "owner_stores key_cells sample_rots ?r"
  let ?ts = "zeroed_tls_server\<lparr>ticket_shared := Some 64\<rparr>"
  have pos: "position ?ops (length ?ops) = 2 * length sample_rots" by (rule run_stores_sched)
  then have way: "\<not> in_the_way ?ops (\<lambda>_. length ?ops) k" for k by (simp add: in_the_way_def)
  have none: "\<not> (\<exists>K. finite K \<and> card K = TLS_TICKET_SEQ_RETRIES \<and> (\<forall>k \<in> K. 0 \<le> k \<and> k < 0 + 4 * TLS_TICKET_SEQ_RETRIES \<and> in_the_way ?ops (\<lambda>_. length ?ops) k))"
    using way by (metis TLS_TICKET_SEQ_RETRIES_def all_not_in_conv card.empty zero_neq_numeral)
  have e: "run_stores ?ops ?r (length ?ops) = owner_run key_cells sample_rots ?r" by (simp add: owner_stores_all)
  have h: "2 + 2 * length sample_rots < 2 ^ 32" "mono (\<lambda>_::nat. length ?ops)" "ticket_shared ?ts = Some 64"
    "\<forall>rot \<in> set ((sample_rng 1, 0) # sample_rots). unat (snd rot) + TLS_TICKET_ROTATE_MS + TLS_TICKET_STALE_GRACE_MS < 2 ^ 64"
    by (simp_all add: sample_rots_def mono_def ticket_consts TLS_TICKET_STALE_GRACE_MS_def)
  note t = ticket_exposure_bounded [OF refl h(1,2,4,3), where n = 0 and pid = 7, unfolded e]
  have j: "j = length sample_rots" if "position ?ops (length ?ops) = 2 * j" for j using that pos by simp
  have l: "snd (last ((sample_rng 1, 0) # take (length sample_rots) sample_rots)) = 7200000"
    by (simp add: sample_rots_def ticket_consts)
  have b: "unat (14400000 :: 64 word) = 14400000" "unat (14400001 :: 64 word) = 14400001" "unat (7200000 :: 64 word) = 7200000"
    by simp_all
  show ?thesis
  proof
    show "conn_ticket_check (\<lambda>n. owner_run key_cells sample_rots ?r) 14400000 0 ?ts = ?ts"
      using t [where now = 14400000] none by (elim disjE exE conjE) (use j l b in \<open>auto simp: ticket_consts TLS_TICKET_STALE_GRACE_MS_def\<close>)
    show "ticket_shared (conn_ticket_check (\<lambda>n. owner_run key_cells sample_rots ?r) 14400001 0 ?ts) = None"
      using t [where now = 14400001] none by (elim disjE exE conjE) (use j l b in \<open>auto simp: ticket_consts TLS_TICKET_STALE_GRACE_MS_def\<close>)
  qed
qed

text \<open>
  What the check does not see: a sequence number that stays odd counts as a rotation in progress. A worker
  whose owner was killed inside a rotation keeps the ring, keys and all, at every time.
\<close>

theorem killed_midway_kept:
  assumes "watched (kord, rots, r)" "odd (position (owner_stores kord rots r) t)" "\<forall>k \<ge> n. sched k = t"
  shows "conn_ticket_check (\<lambda>k. run_stores (owner_stores kord rots r) r (sched k)) now n ts = ts"
proof -
  let ?mem = "\<lambda>k. run_stores (owner_stores kord rots r) r (sched k)"
  have "seq (?mem k) AND 1 \<noteq> 0" if "n \<le> k" for k
    using owner_seq [OF assms(1), of t] assms that
    by (simp add: owner_memory_def watched_def ring_valid_def flip: even_unat)
  then have "\<not> stale_loop ?mem now m tries" if "n \<le> m" for m tries
    using that by (induction tries arbitrary: m) (simp_all add: Let_def)
  then show ?thesis by (simp add: conn_ticket_check_def tls_ticket_ring_is_stale_def)
qed

lemma shm_loop_fds:
  "(case shm_loop os n i g of
      (None, g') \<Rightarrow> mset (open_fds g') = mset (open_fds g) \<and> shm_names g' = shm_names g
        \<and> mappings g' = mappings g \<and> g_ring_owned g' = g_ring_owned g
    | (Some (rw, ro, how), g') \<Rightarrow> mset (open_fds g') = mset (open_fds g) + {#rw, ro#} \<and> shm_names g' = shm_names g
        \<and> mappings g' = mappings g \<and> (\<exists>j. shm_open_rw os j = ShmFd rw))"
proof (induction n arbitrary: i g)
  case (Suc n)
  show ?case
    using Suc.IH [where i = "i + 1" and g = g]
    by (auto simp: add_fd_def close_fd_def Let_def split: shm_answer.split option.split)
qed simp

lemma close_add: "close_fd fd (add_fd fd g) = g"
  by (simp add: close_fd_def add_fd_def)

lemma add_fd_fields:
  "open_fds (add_fd fd g) = fd # open_fds g" "shm_names (add_fd fd g) = shm_names g"
  "mappings (add_fd fd g) = mappings g"
  by (simp_all add: add_fd_def)

lemma ring_open_fds:
  "(case tls_ticket_ring_open os g of
      (None, g') \<Rightarrow> mset (open_fds g') = mset (open_fds g) \<and> shm_names g' = shm_names g
        \<and> mappings g' = mappings g \<and> g_ring_owned g' = g_ring_owned g
    | (Some (rw, ro, how), g') \<Rightarrow> mset (open_fds g') = mset (open_fds g) + {#rw, ro#} \<and> shm_names g' = shm_names g
        \<and> mappings g' = mappings g \<and> (memfd_create os = Some rw \<or> (\<exists>j. shm_open_rw os j = ShmFd rw)))"
  using shm_loop_fds [where os = os and n = 8 and i = 0 and g = g]
  by (cases "memfd_create os"; cases "open_proc os")
    (auto simp: tls_ticket_ring_open_def Let_def close_add add_fd_fields split: prod.splits option.splits)

text \<open>A region is accepted from its creation on, until it is destroyed.\<close>

lemma attach_owned:
  assumes "set kord = set key_cells" "2 + 2 * length rots < 2 ^ 32"
  shows "tls_ticket_ring_attach (Some (base, owner_run kord rots (fresh_region pid kord first))) pg ts
    = Some (ts\<lparr>ticket_shared := Some base, ticket_shared_len := tls_ticket_ring_len pg\<rparr>)"
proof -
  note fresh = fresh_region_valid(1) [OF assms(1), of pid first]
  have "unat (seq (owner_run kord rots (fresh_region pid kord first))) = 2 + 2 * length rots"
    using owner_run_seq [OF fresh assms(1), of rots] unat_add_small [of "2 :: 32 word" "2 * length rots"] assms(2)
    by (simp add: fresh_region_eq [OF assms(1)])
  then have "seq (owner_run kord rots (fresh_region pid kord first)) \<noteq> 0"
    by auto
  then show ?thesis
    using owner_run_fixed [OF fresh assms(1), of rots]
    by (simp add: tls_ticket_ring_attach_def fresh_region_eq [OF assms(1)])
qed

lemma attach_zeroed: "tls_ticket_ring_attach (Some (base, zeroed_ring)) pg ts = None"
  by (simp add: tls_ticket_ring_attach_def zeroed_ring_def)

text \<open>
  C36. The life of the shared region. Creating it either fails and leaves no descriptor, name or mapping
  behind, or leaves the owner with one mapping and one writable descriptor and the caller with the
  read-only one, no name, and a region that every worker accepts from then on, after any number of
  rotations. Destroying it zeroes the region, which no worker accepts any more, and leaves only the
  descriptor the caller was given.
\<close>

theorem ticket_ring_lifecycle:
  assumes "\<not> g_ring_owned g" and "set kord = set key_cells"
    and "\<And>fd. memfd_create os = Some fd \<Longrightarrow> fd \<ge> 0" "\<And>j fd. shm_open_rw os j = ShmFd fd \<Longrightarrow> fd \<ge> 0"
    and "tls_ticket_ring_create os kord first g = (res, g')"
  shows "case res of
      Inl e \<Rightarrow> e = OsError \<and> \<not> g_ring_owned g' \<and> mset (open_fds g') = mset (open_fds g)
        \<and> shm_names g' = shm_names g \<and> mappings g' = mappings g
    | Inr ro \<Rightarrow>
        mset (open_fds g') = mset (open_fds g) + {#g_ring_owned_fd g', ro#}
        \<and> shm_names g' = shm_names g \<and> mappings g' = mappings g + 1 \<and> g_ring_owned g'
        \<and> (2 + 2 * length rots < 2 ^ 32 \<longrightarrow>
            tls_ticket_ring_attach (Some (base, owner_run kord rots (region g'))) pg ts
              = Some (ts\<lparr>ticket_shared := Some base, ticket_shared_len := tls_ticket_ring_len pg\<rparr>))
        \<and> mset (open_fds (tls_ticket_ring_destroy g')) = mset (open_fds g) + {#ro#}
        \<and> mappings (tls_ticket_ring_destroy g') = mappings g \<and> \<not> g_ring_owned (tls_ticket_ring_destroy g')
        \<and> region (tls_ticket_ring_destroy g') = zeroed_ring
        \<and> tls_ticket_ring_attach (Some (base, region (tls_ticket_ring_destroy g'))) pg ts = None"
proof (cases "tls_ticket_ring_open os g")
  case (Pair opened g1)
  note fds = ring_open_fds [where os = os and g = g, unfolded Pair]
  show ?thesis
  proof (cases opened)
    case None
    then show ?thesis
      using fds assms(1,5) Pair by (auto simp: tls_ticket_ring_create_def)
  next
    case (Some fdp)
    obtain rw ro how where fdp: "fdp = (rw, ro, how)"
      by (metis prod_cases3)
    have rw: "rw \<ge> 0" "mset (open_fds g1) = mset (open_fds g) + {#rw, ro#}" "shm_names g1 = shm_names g"
      "mappings g1 = mappings g"
      using fds assms(3,4) Some fdp by auto
    show ?thesis
    proof (cases "ftruncate_ok os \<and> mmap_ok os")
      case False
      then show ?thesis
        using assms(1,5) rw Pair Some fdp by (auto simp: tls_ticket_ring_create_def close_fd_def)
    next
      case True
      have region: "region g' = fresh_region (getpid os) kord first" and res: "res = Inr ro"
        and g': "open_fds g' = open_fds g1" "shm_names g' = shm_names g1" "mappings g' = mappings g1 + 1"
          "g_ring_owned g'" "g_ring_owned_fd g' = rw"
        using assms(1,5) True Pair Some fdp
        by (auto simp: tls_ticket_ring_create_def fresh_region_def Let_def)
      have "mset (open_fds (tls_ticket_ring_destroy g')) = mset (open_fds g) + {#ro#}"
        "mappings (tls_ticket_ring_destroy g') = mappings g" "\<not> g_ring_owned (tls_ticket_ring_destroy g')"
        "region (tls_ticket_ring_destroy g') = zeroed_ring"
        using g' rw by (simp_all add: tls_ticket_ring_destroy_def close_fd_def Let_def)
      then show ?thesis
        using res g' rw attach_owned [OF assms(2), of rots base "getpid os" first pg ts]
        by (simp add: region attach_zeroed)
    qed
  qed
qed


text \<open>A process without \<open>/proc\<close>: the anonymous object is given up for a named one, at the second name.\<close>

definition sample_os :: ring_os where
  "sample_os = \<lparr>memfd_create = Some 5, open_proc = None,
     shm_open_rw = (\<lambda>i. if i = 0 then ShmExists else ShmFd 6), shm_open_ro = (\<lambda>i. Some 7),
     page_size = 4096, ftruncate_ok = True, mmap_ok = True, mlock_ok = True, getpid = 42\<rparr>"

definition sample_owner :: owner where
  "sample_owner = \<lparr>g_ring_owned = False, g_ring_owned_len = 0, g_ring_owned_fd = - 1, g_ring_owned_how = [],
     g_ring_owned_locked = False, region = zeroed_ring, open_fds = [0, 1, 2], shm_names = [], mappings = 0\<rparr>"

theorem ticket_ring_lifecycle_witness:
  "fst (tls_ticket_ring_create sample_os key_cells (sample_rng 1, 0) sample_owner) = Inr 7
   \<and> mset (open_fds (tls_ticket_ring_destroy
        (snd (tls_ticket_ring_create sample_os key_cells (sample_rng 1, 0) sample_owner)))) = {#0, 1, 2, 7#}"
proof -
  have res: "fst (tls_ticket_ring_create sample_os key_cells (sample_rng 1, 0) sample_owner) = Inr 7"
    by (simp add: tls_ticket_ring_create_def tls_ticket_ring_open_def sample_os_def sample_owner_def close_add
        numeral_eq_Suc Let_def)
  moreover have "\<not> g_ring_owned sample_owner"
    by (simp add: sample_owner_def)
  moreover have "\<And>fd. memfd_create sample_os = Some fd \<Longrightarrow> fd \<ge> 0"
    "\<And>j fd. shm_open_rw sample_os j = ShmFd fd \<Longrightarrow> fd \<ge> 0"
    by (auto simp: sample_os_def split: if_splits)
  ultimately show ?thesis
    using ticket_ring_lifecycle [OF _ refl _ _ prod.collapse [symmetric], of sample_owner sample_os "(sample_rng 1, 0)"]
    by (simp add: sample_owner_def)
qed

section \<open>The rotation hook\<close>

lemma hook_wait_iff:
  "hook_wait mem before n tries \<longleftrightarrow>
     (\<exists>k. n \<le> k \<and> k < n + tries \<and> before + 2 \<le> seq (mem k) \<and> seq (mem k) AND 1 = 0)"
proof (induction tries arbitrary: n)
  case (Suc tries)
  have range: "n \<le> k \<and> k < n + Suc tries \<and> Q \<longleftrightarrow> k = n \<and> Q \<or> n + 1 \<le> k \<and> k < n + 1 + tries \<and> Q" for k Q
    by arith
  show ?case
    unfolding range ex_disj_distrib Suc.IH [of "n + 1", symmetric] by (auto simp: Let_def)
qed simp

text \<open>
  C37. What the rotation hook reports. In a worker it changes nothing itself, and it reports success
  exactly when the signal was delivered and at one of its 5000 looks the ring stood between two
  rotations, at least one of which began after the hook was called. In a process with a private ring it
  rotates that ring by one step, but not once tickets are off; there it reports an error. (The owner of a
  shared ring, and a process without TLS, are not part of the claim.)
\<close>

theorem rotate_hook_exact:
  assumes "ring_valid r" "set kord = set key_cells" "unat (seq r) + 2 * length rots + 2 < 2 ^ 32" "mono sched"
    and "\<not> g_ring_owned g"
  shows "(\<forall>base res g' ts'. ticket_shared ts = Some base \<and>
      tls_ticket_rotate_hook kord' rot (\<lambda>n. run_stores (owner_stores kord rots r) r (sched n)) kill_ok g ts
        = (res, g', ts') \<longrightarrow>
      g' = g \<and> ts' = ts \<and>
      (res = Inr () \<longleftrightarrow> kill_ok \<and> (\<exists>n j. 1 \<le> n \<and> n \<le> 5000
        \<and> run_stores (owner_stores kord rots r) r (sched n) = owner_run kord (take j rots) r
        \<and> position (owner_stores kord rots r) (sched n) = 2 * j
        \<and> position (owner_stores kord rots r) (sched 0) + 2 \<le> 2 * j)))
    \<and> (ticket_shared ts = None \<and> tls_enabled ts \<longrightarrow>
        tls_ticket_rotate_hook kord' rot mem kill_ok g ts
        = (if encrypt_ticket ts then (Inr (), g, tls_ticket_rotate_once (fst rot) ts) else (Inl TicketsOff, g, ts)))"
proof -
  let ?ops = "owner_stores kord rots r"
  let ?mem = "\<lambda>n. run_stores ?ops r (sched n)"
  have w: "watched (kord, rots, r)"
    using assms(1-3) by (simp add: watched_def)
  note seq = owner_seq [OF w, unfolded owner_memory_def prod.case]
  have bound: "position ?ops t \<le> 2 * length rots" for t
    using owner_position [OF assms(1,2)] by blast
  have before: "unat (seq (?mem 0) + 2) = unat (seq r) + position ?ops (sched 0) + 2"
    using unat_add_small [of "seq (?mem 0)" 2] seq [of "sched 0"] bound [of "sched 0"] assms(3) by simp
  have look: "seq (?mem 0) + 2 \<le> seq (?mem n) \<and> seq (?mem n) AND 1 = 0 \<longleftrightarrow>
      (\<exists>j. run_stores ?ops r (sched n) = owner_run kord (take j rots) r \<and> position ?ops (sched n) = 2 * j
        \<and> position ?ops (sched 0) + 2 \<le> 2 * j)" for n
  proof -
    have "seq (?mem 0) + 2 \<le> seq (?mem n) \<longleftrightarrow> position ?ops (sched 0) + 2 \<le> position ?ops (sched n)"
      using before seq [of "sched n"] by (simp add: word_le_nat_alt)
    moreover have "seq (?mem n) AND 1 = 0 \<longleftrightarrow> even (position ?ops (sched n))"
      unfolding even_unat [symmetric] seq using assms(1) by (simp add: ring_valid_def)
    ultimately show ?thesis
      using owner_between [OF w, of "sched n"] by (auto simp: owner_memory_def)
  qed
  have look_bound: "n < 1 + 5000 \<longleftrightarrow> n \<le> 5000" for n :: nat
    by arith
  have "hook_wait ?mem (seq (?mem 0)) 1 5000 \<longleftrightarrow> (\<exists>n j. 1 \<le> n \<and> n \<le> 5000
      \<and> run_stores ?ops r (sched n) = owner_run kord (take j rots) r \<and> position ?ops (sched n) = 2 * j
      \<and> position ?ops (sched 0) + 2 \<le> 2 * j)"
    unfolding hook_wait_iff look using look_bound by metis
  then show ?thesis
    using assms(5) by (auto simp: tls_ticket_rotate_hook_def Let_def split: if_splits)
qed


text \<open>The hook looks again once both rotations are done.\<close>

theorem rotate_hook_exact_witness:
  "fst (tls_ticket_rotate_hook key_cells (sample_rng 9, 0)
     (\<lambda>n. run_stores (owner_stores key_cells sample_rots sample_ring) sample_ring
        (if n = 0 then 0 else length (owner_stores key_cells sample_rots sample_ring)))
     True sample_owner (zeroed_tls_server\<lparr>ticket_shared := Some 64\<rparr>)) = Inr ()"
proof -
  let ?ops = "owner_stores key_cells sample_rots sample_ring"
  let ?sched = "\<lambda>n::nat. if n = 0 then 0 else length ?ops"
  let ?ts = "zeroed_tls_server\<lparr>ticket_shared := Some 64\<rparr>"
  have seq: "unat (seq sample_ring) + 2 * length sample_rots + 2 < 2 ^ 32" and mono: "mono ?sched"
    and free: "\<not> g_ring_owned sample_owner" "ticket_shared ?ts = Some 64"
    by (simp_all add: sample_ring_def sample_rots_def mono_def sample_owner_def)
  have "position ?ops (length ?ops) = 4"
    by (simp add: sample_rots_def position_append rotate_stores_whole)
  moreover have two: "take 2 sample_rots = sample_rots"
    by (simp add: sample_rots_def)
  ultimately have "\<exists>n j. 1 \<le> n \<and> n \<le> (5000::nat)
      \<and> run_stores ?ops sample_ring (?sched n) = owner_run key_cells (take j sample_rots) sample_ring
      \<and> position ?ops (?sched n) = 2 * j \<and> position ?ops (?sched 0) + 2 \<le> 2 * j"
    using two by (intro exI [of _ 1] exI [of _ 2]) (simp add: owner_stores_all, simp add: position_def)
  then show ?thesis
    using rotate_hook_exact [OF sample_ring_valid refl seq mono free(1), of ?ts key_cells "(sample_rng 9, 0)" True]
      free(2) by (metis prod.collapse)
qed

section \<open>Start-up\<close>

text \<open>
  \<open>tls_server_init\<close> succeeds exactly when certificate and key load and, in a worker, the shared ring
  is accepted. A worker then uses the shared ring, starts no timer of its own and holds no key; a
  process with its own ring holds exactly one key, which seals, and rotates it by a timer. Both issue
  tickets for \<open>TLS_TICKET_LIFETIME_S\<close> seconds, demand a key exchange on resumption and refuse early data.
\<close>

lemma tls_server_init_exact:
  "case tls_server_init cert_ok key_ok ring_fd mapping pg rng ts0 of
     None \<Rightarrow> \<not> cert_ok \<or> \<not> key_ok \<or> ring_fd \<ge> 0 \<and> tls_ticket_ring_attach mapping pg zeroed_tls_server = None
   | Some ts \<Rightarrow>
       cert_ok \<and> key_ok \<and> tls_enabled ts \<and> encrypt_ticket ts \<and> require_dhe_on_psk ts
       \<and> ticket_lifetime ts = TLS_TICKET_LIFETIME_S \<and> max_early_data_size ts = 0
       \<and> (if ring_fd \<ge> 0
          then (\<exists>base r. mapping = Some (base, r) \<and> ticket_shared ts = Some base) \<and> \<not> ticket_timer ts
            \<and> (\<forall>nm. tls_ticket_key_by_name ts nm = None)
          else ticket_shared ts = None \<and> ticket_timer ts
            \<and> represents (ticket_cur ts) (ticket_keys ts) [tls_ticket_key_mint rng])"
proof -
  have none: "key_search nm (replicate TLS_TICKET_RING cleared_key) = None" for nm
    by (simp add: key_search_None)
  have rep: "represents 0 ((replicate TLS_TICKET_RING cleared_key)[0 := k]) [k]" for k
    by (simp add: represents_def nth_newest_def TLS_TICKET_RING_def numeral_3_eq_3)
  show ?thesis
    by (auto simp: tls_server_init_def tls_ticket_ring_attach_def zeroed_tls_server_def tls_ticket_key_by_name_def
        Let_def none rep split: option.split if_splits)
qed


text \<open>A worker is handed a fresh region; a zeroed one is refused.\<close>

theorem tls_server_init_exact_witness:
  "(\<exists>ts. tls_server_init True True 3 (Some (64, fresh_region 7 key_cells (sample_rng 1, 0))) 4096 (sample_rng 2)
      zeroed_tls_server = Some ts \<and> tls_enabled ts \<and> \<not> ticket_timer ts)
   \<and> tls_server_init True True 3 (Some (64, zeroed_ring)) 4096 (sample_rng 2) zeroed_tls_server = None"
proof -
  have "tls_ticket_ring_attach (Some (64, fresh_region 7 key_cells (sample_rng 1, 0))) 4096 zeroed_tls_server \<noteq> None"
    using attach_owned [of key_cells "[]" 64 7 "(sample_rng 1, 0)" 4096 zeroed_tls_server] by (simp add: owner_run_def)
  then show ?thesis
    using tls_server_init_exact [of True True 3 "Some (64, fresh_region 7 key_cells (sample_rng 1, 0))" 4096
        "sample_rng 2" zeroed_tls_server]
      attach_zeroed [of 64 4096 "zeroed_tls_server\<lparr>tls_enabled := tls_enabled zeroed_tls_server\<rparr>"]
    by (auto simp: tls_server_init_def Let_def split: option.splits)
qed

end
