(* ===== verification/Startup.thy ===== *)
theory Startup
  imports ConnLife AsgiLoop ClientPool TicketRing
begin

text \<open>
  Starting a server: \<open>server_init\<close>, \<open>server_run\<close> and \<open>server_reuseport_supported\<close> of \<^verbatim>\<open>freastal/src/server.c\<close>,
  \<open>asgi_server_init\<close> of \<^verbatim>\<open>asgi.c\<close>, and the entry points \<open>py_serve\<close> and \<open>py_serve_asgi\<close> of
  \<^verbatim>\<open>freastalmodule.c\<close>.

  \<^item> The record \<open>proc\<close> is what outlives a call: \<open>g_server\<close> (its request fields, the ticket fields, the driver
    of the asyncio loop), the statics of the client pool, and the descriptors and libuv calls of the
    process. The libuv calls are a log, as in theory \<open>Client\<close>.
  \<^item> The record \<open>start_ext\<close> is what the code does not control: what allocations, imports, the kernel and
    libuv answer.
  \<^item> Every function returns the error that stopped it, if any, with the state as it is then; the initialiser
    returns no error exactly when the C function returns 0.
\<close>

section \<open>Definitions\<close>

subsection \<open>State\<close>

type_synonym sockaddr = "32 word \<times> 16 word"

datatype srv_call =
    TcpInit
  | TcpOpen int
  | TcpBind sockaddr bool
  | Listen nat
  | CheckStart
  | IdleInit
  | TimerInit
  | PollStart int
  | LoopRun

record proc =
  gs :: server
  gpool :: pool
  ghost :: bytes
  gport :: int
  gkeys :: "wsgi_keys option"
  io_bytesio :: bool
  empty_wsgi_input :: bool
  gtls :: tls_server
  gdriver :: aloop
  fds :: "int set"
  uvlog :: "srv_call list"

record serve_args =
  app_callable :: bool
  a_host :: bytes
  a_port :: int
  a_reuse_port :: bool
  a_certfile :: "bytes option"
  a_keyfile :: "bytes option"
  a_fd :: int
  a_ring_fd :: int

text \<open>
  \<open>dup_fd\<close> is negative when \<open>dup\<close> fails; \<open>ip4_addr\<close> is \<open>uv_ip4_addr\<close>, \<open>None\<close> when it reports an error; the
  \<open>_rc\<close> functions are return codes of libuv. \<open>selector_fd\<close> is what \<open>loop._selector.fileno()\<close> gives.
\<close>

record start_ext =
  tls_build :: bool
  reuseport_build :: bool
  slab_mem :: nat
  keys_alloc :: bool
  names_alloc :: "nat \<Rightarrow> bool \<times> bool"
  io_import :: bool
  empty_alloc :: bool
  stderr_object :: bool
  template_alloc :: bool
  pad_results :: "nat \<Rightarrow> pad_result"
  sizeof_calls :: "(nat \<Rightarrow> int) option"
  template_probe :: "(int \<times> int) option"
  dup_fd :: "int \<Rightarrow> int"
  tcp_open_rc :: "int \<Rightarrow> int"
  ip4_addr :: "bytes \<Rightarrow> int \<Rightarrow> sockaddr option"
  bind_rc :: "sockaddr \<Rightarrow> bool \<Rightarrow> int"
  listen_rc :: int
  cert_loads :: "bytes \<Rightarrow> bool"
  key_loads :: "bytes \<Rightarrow> bool"
  ring_mmap :: "int \<Rightarrow> (nat \<times> tls_ticket_ring) option"
  page_size :: int
  key_rng :: "nat \<Rightarrow> char"
  loop_attrs :: bool
  attr_names_alloc :: bool
  bridge_import :: bool
  scope_objects_alloc :: bool
  selector_fd :: "int option"
  poll_init_rc :: int

datatype start_error =
    NotCallable
  | NoTlsSupport
  | NoPool
  | NoKeys
  | NoHdrCache
  | NoBytesIO
  | NoTemplate
  | DupFailed
  | TcpOpenFailed
  | BadHost
  | BindFailed
  | ListenFailed
  | TlsFailed
  | AsgiFailed

type_synonym start_step = "proc \<Rightarrow> start_error option \<times> proc"

text \<open>\<open>if (f() < 0) return -1; g();\<close>\<close>

definition then_do :: "start_step \<Rightarrow> start_step \<Rightarrow> start_step" where
  "then_do f g p = (case f p of (None, p') \<Rightarrow> g p' | (Some e, p') \<Rightarrow> (Some e, p'))"

definition LISTEN_BACKLOG :: nat where "LISTEN_BACKLOG = 4096"
definition HOST_MAX :: nat where "HOST_MAX = 63"

subsection \<open>\<open>server_init\<close>\<close>

text \<open>
  \<open>memset(&g_server, 0, sizeof(g_server))\<close>. The header cache is not part of \<open>g_server\<close>, the heap is not memory
  of the process.
\<close>

definition zeroed_server :: "server \<Rightarrow> server" where
  "zeroed_server s =
     \<lparr>asgi_mode = False, srv_cache = srv_cache s, environ_template = None, environ_template_https = None,
      asgi_scope_template = [], asgi_scope_template_https = [],
      tls_wbuf_pool = [], tls_wbuf_pool_n = 0, tls_spill_pool = [], tls_spill_pool_n = 0,
      tls_bigbuf = None, tls_bigbuf_cap = 0, tls_wbuf_live = 0, tls_bigbuf_live = 0, tls_wbuf_mallocs = 0,
      tls_read_grows = 0, tls_read_spills = 0, heap_next = heap_next s, heap_freed = heap_freed s\<rparr>"

definition zeroed_driver :: "aloop \<Rightarrow> aloop" where
  "zeroed_driver d = d\<lparr>asgi_idle_active := False, asgi_timer_active := False, asgi_poll_active := False,
                       uv_idle := False, uv_timer := None\<rparr>"

definition clear_g_server :: "serve_args \<Rightarrow> proc \<Rightarrow> proc" where
  "clear_g_server a p =
     p\<lparr>gs := zeroed_server (gs p), ghost := take HOST_MAX (a_host a), gport := a_port a, gkeys := None,
       io_bytesio := False, empty_wsgi_input := False, gtls := zeroed_tls_server,
       gdriver := zeroed_driver (gdriver p)\<rparr>"

definition start_pool :: "start_ext \<Rightarrow> start_step" where
  "start_pool E p =
     (case pool_init 4096 (slab_mem E) (gpool p) of
        None \<Rightarrow> (Some NoPool, p)
      | Some q \<Rightarrow> (None, p\<lparr>gpool := q\<rparr>))"

definition start_keys :: "start_ext \<Rightarrow> start_step" where
  "start_keys E p =
     (case init_wsgi_keys (keys_alloc E) (ghost p) (gport p) of
        None \<Rightarrow> (Some NoKeys, p)
      | Some k \<Rightarrow> (None, p\<lparr>gkeys := Some k\<rparr>))"

definition start_hdr_cache :: "start_ext \<Rightarrow> start_step" where
  "start_hdr_cache E p =
     (case hdr_cache_init (names_alloc E) (srv_cache (gs p)) of
        (rc, hc) \<Rightarrow> (if rc < 0 then Some NoHdrCache else None, p\<lparr>gs := (gs p)\<lparr>srv_cache := hc\<rparr>\<rparr>))"

text \<open>\<open>io.BytesIO\<close>, and the empty stream of every request without a body.\<close>

definition start_bytesio :: "start_ext \<Rightarrow> start_step" where
  "start_bytesio E p =
     (if \<not> io_import E then (Some NoBytesIO, p)
      else if \<not> empty_alloc E then (Some NoBytesIO, p\<lparr>io_bytesio := True\<rparr>)
      else (None, p\<lparr>io_bytesio := True, empty_wsgi_input := True\<rparr>))"

definition start_template :: "start_ext \<Rightarrow> start_step" where
  "start_template E p =
     (case wsgi_init_environ_template (template_alloc E) (pad_results E) (the (gkeys p)) (stderr_object E)
             (sizeof_calls E) (template_probe E) (gs p) of
        (rc, s) \<Rightarrow> (if rc < 0 then Some NoTemplate else None, p\<lparr>gs := s\<rparr>))"

definition uv_srv :: "srv_call \<Rightarrow> proc \<Rightarrow> proc" where
  "uv_srv call p = p\<lparr>uvlog := uvlog p @ [call]\<rparr>"

text \<open>A listening socket of the caller is duplicated, and the duplicate given to the handle.\<close>

definition start_socket :: "start_ext \<Rightarrow> serve_args \<Rightarrow> start_step" where
  "start_socket E a p0 =
     (let p = uv_srv TcpInit p0
      in if a_fd a \<ge> 0 then
           let owned = dup_fd E (a_fd a)
           in if owned < 0 then (Some DupFailed, p)
              else
                let p1 = uv_srv (TcpOpen owned) (p\<lparr>fds := insert owned (fds p)\<rparr>)
                in if tcp_open_rc E owned \<noteq> 0 then (Some TcpOpenFailed, p1\<lparr>fds := fds p1 - {owned}\<rparr>)
                   else (None, p1)
         else
           case ip4_addr E (a_host a) (a_port a) of
             None \<Rightarrow> (Some BadHost, p)
           | Some addr \<Rightarrow>
               let flag = reuseport_build E \<and> a_reuse_port a;
                   p1 = uv_srv (TcpBind addr flag) p
               in if bind_rc E addr flag \<noteq> 0 then (Some BindFailed, p1) else (None, p1))"

definition start_listen :: "start_ext \<Rightarrow> start_step" where
  "start_listen E p =
     (if listen_rc E \<noteq> 0 then (Some ListenFailed, uv_srv (Listen LISTEN_BACKLOG) p)
      else (None, uv_srv (Listen LISTEN_BACKLOG) p))"

definition start_tls :: "start_ext \<Rightarrow> serve_args \<Rightarrow> start_step" where
  "start_tls E a p =
     (if \<not> tls_build E then (None, p)
      else case (a_certfile a, a_keyfile a) of
          (Some cert, Some key) \<Rightarrow>
            (case tls_server_init (cert_loads E cert) (key_loads E key) (a_ring_fd a) (ring_mmap E (a_ring_fd a))
                    (page_size E) (key_rng E) (gtls p) of
               None \<Rightarrow> (Some TlsFailed, p)
             | Some ts \<Rightarrow> (None, p\<lparr>gtls := ts\<rparr>))
        | _ \<Rightarrow> (None, p))"

definition server_init :: "start_ext \<Rightarrow> serve_args \<Rightarrow> start_step" where
  "server_init E a p =
     (if \<not> tls_build E \<and> (a_certfile a \<noteq> None \<or> a_keyfile a \<noteq> None) then (Some NoTlsSupport, p)
      else
        then_do (start_pool E)
       (then_do (start_keys E)
       (then_do (start_hdr_cache E)
       (then_do (start_bytesio E)
       (then_do (start_template E)
       (then_do (start_socket E a)
       (then_do (start_listen E)
       (start_tls E a)))))))
        (clear_g_server a p))"

definition server_run :: "proc \<Rightarrow> proc" where
  "server_run p = uv_srv LoopRun p"

subsection \<open>\<open>asgi_server_init\<close>\<close>

text \<open>The libuv handles of the driver. A poll handle is started when the selector has a descriptor.\<close>

definition asgi_watchers :: "start_ext \<Rightarrow> proc \<Rightarrow> proc" where
  "asgi_watchers E p =
     (let p1 = uv_srv TimerInit (uv_srv IdleInit (uv_srv CheckStart p))
      in case selector_fd E of
           None \<Rightarrow> p1
         | Some afd \<Rightarrow>
             if afd \<ge> 0 \<and> poll_init_rc E = 0
             then uv_srv (PollStart afd) (p1\<lparr>gdriver := (gdriver p1)\<lparr>asgi_poll_active := True\<rparr>\<rparr>)
             else p1)"

text \<open>
  The attributes of the loop and the interned names, the running loop (whose errors are ignored), the
  import of the bridge, the scope templates, the watchers.
\<close>

definition asgi_server_init :: "start_ext \<Rightarrow> start_step" where
  "asgi_server_init E p =
     (if \<not> loop_attrs E then (Some AsgiFailed, p)
      else if \<not> attr_names_alloc E then (Some AsgiFailed, p)
      else if \<not> bridge_import E then (Some AsgiFailed, p)
      else case asgi_scope_init (scope_objects_alloc E) (ghost p) (gport p) (gs p) of
          None \<Rightarrow> (Some AsgiFailed, p)
        | Some s \<Rightarrow> (None, (asgi_watchers E p)\<lparr>gs := s\<rparr>))"

subsection \<open>The entry points\<close>

definition serve_init :: "start_ext \<Rightarrow> serve_args \<Rightarrow> start_step" where
  "serve_init E a p =
     (case server_init E a p of
        (e, p1) \<Rightarrow> (e, if a_ring_fd a \<ge> 0 then p1\<lparr>fds := fds p1 - {a_ring_fd a}\<rparr> else p1))"

text \<open>With the arguments parsed.\<close>

definition py_serve :: "start_ext \<Rightarrow> serve_args \<Rightarrow> start_step" where
  "py_serve E a p =
     (if \<not> app_callable a then (Some NotCallable, p)
      else then_do (serve_init E a) (\<lambda>p1. (None, server_run p1)) p)"

definition py_serve_asgi :: "start_ext \<Rightarrow> serve_args \<Rightarrow> start_step" where
  "py_serve_asgi E a p =
     (if \<not> app_callable a then (Some NotCallable, p)
      else then_do (serve_init E a) (then_do (asgi_server_init E) (\<lambda>p1. (None, server_run p1))) p)"


section \<open>Stages\<close>

lemma then_do_None: "then_do f g p = (None, q) \<longleftrightarrow> (\<exists>p1. f p = (None, p1) \<and> g p1 = (None, q))"
  by (auto simp: then_do_def split: prod.split option.split)

lemma then_do_Some: "then_do f g p = (Some e, q) \<longleftrightarrow> f p = (Some e, q) \<or> (\<exists>p1. f p = (None, p1) \<and> g p1 = (Some e, q))"
  by (auto simp: then_do_def split: prod.split option.split)

text \<open>A stage that neither opens, closes nor calls libuv, and fails with one of the errors \<open>es\<close> only.\<close>

definition quiet :: "start_error set \<Rightarrow> start_step \<Rightarrow> bool" where
  "quiet es f \<longleftrightarrow> (\<forall>p e q. f p = (e, q) \<longrightarrow> fds q = fds p \<and> uvlog q = uvlog p \<and> (\<forall>x. e = Some x \<longrightarrow> x \<in> es))"

lemma quiet_then:
  assumes "quiet es f" "quiet es' g"
  shows "quiet (es \<union> es') (then_do f g)"
  unfolding quiet_def
proof (intro allI impI)
  fix p e q
  assume t: "then_do f g p = (e, q)"
  obtain e1 p1 where f: "f p = (e1, p1)" by (cases "f p")
  show "fds q = fds p \<and> uvlog q = uvlog p \<and> (\<forall>x. e = Some x \<longrightarrow> x \<in> es \<union> es')"
  proof (cases e1)
    case None
    then have "g p1 = (e, q)" using t f by (simp add: then_do_def)
    then show ?thesis using assms f unfolding quiet_def by (metis UnI2)
  next
    case (Some x)
    then have "e = Some x" "q = p1" using t f by (simp_all add: then_do_def)
    then show ?thesis using assms(1) f Some unfolding quiet_def by (metis UnI1)
  qed
qed

text \<open>The stages before the socket.\<close>

definition start_objects :: "start_ext \<Rightarrow> start_step" where
  "start_objects E =
     then_do (start_pool E) (then_do (start_keys E) (then_do (start_hdr_cache E)
       (then_do (start_bytesio E) (start_template E))))"

definition object_errors :: "start_error set" where
  "object_errors = {NoPool, NoKeys, NoHdrCache, NoBytesIO, NoTemplate}"

lemma then_do_assoc: "then_do (then_do f g) h = then_do f (then_do g h)"
  by (rule ext) (auto simp: then_do_def split: prod.split option.split)

lemma server_init_stages:
  "server_init E a p =
     (if \<not> tls_build E \<and> (a_certfile a \<noteq> None \<or> a_keyfile a \<noteq> None) then (Some NoTlsSupport, p)
      else then_do (start_objects E) (then_do (start_socket E a) (then_do (start_listen E) (start_tls E a)))
        (clear_g_server a p))"
  by (simp add: server_init_def start_objects_def then_do_assoc)

lemma start_objects_quiet: "quiet object_errors (start_objects E)"
proof -
  have "quiet {NoPool} (start_pool E)"
    by (auto simp: quiet_def start_pool_def split: option.splits)
  moreover have "quiet {NoKeys} (start_keys E)"
    by (auto simp: quiet_def start_keys_def split: option.splits)
  moreover have "quiet {NoHdrCache} (start_hdr_cache E)"
    by (auto simp: quiet_def start_hdr_cache_def split: prod.splits if_splits)
  moreover have "quiet {NoBytesIO} (start_bytesio E)"
    by (auto simp: quiet_def start_bytesio_def split: if_splits)
  moreover have "quiet {NoTemplate} (start_template E)"
    by (auto simp: quiet_def start_template_def split: prod.splits if_splits)
  ultimately have "quiet ({NoPool} \<union> ({NoKeys} \<union> ({NoHdrCache} \<union> ({NoBytesIO} \<union> {NoTemplate})))) (start_objects E)"
    unfolding start_objects_def by (intro quiet_then)
  then show ?thesis by (simp add: object_errors_def insert_commute)
qed

text \<open>What the objects are when these stages succeed.\<close>

definition objects_ready :: "start_ext \<Rightarrow> proc \<Rightarrow> bool" where
  "objects_ready E p \<longleftrightarrow>
     (\<forall>sz. pool_reach sz 4096 (gpool p) {}) \<and> srv_cache (gs p) = built_cache \<and> io_bytesio p \<and> empty_wsgi_input p
     \<and> (\<exists>k. gkeys p = Some k \<and> init_wsgi_keys True (ghost p) (gport p) = Some k
          \<and> environ_template (gs p) = Some (template_entries k (stderr_object E) (ascii_str ''http''))
          \<and> environ_template_https (gs p) = Some (template_entries k (stderr_object E) (ascii_str ''https'')))"

definition cache_ok :: "hdr_cache \<Rightarrow> bool" where
  "cache_ok hc \<longleftrightarrow> hc = hdr_cache_zero \<or> hc = built_cache"

lemma hdr_cache_init_again: "hdr_cache_init alloc built_cache = (0, built_cache)"
  by (simp add: hdr_cache_init_def built_cache_def built_entry_def hdr_names_def)

lemma hdr_cache_init_ok:
  assumes "cache_ok hc" "hdr_cache_init alloc hc = (rc, hc')" "\<not> rc < 0"
  shows "hc' = built_cache"
proof (cases "hc = built_cache")
  case True
  then show ?thesis using assms(2) hdr_cache_init_again by simp
next
  case False
  then have "hc = hdr_cache_zero" using assms(1) by (simp add: cache_ok_def)
  moreover have "rc = 0" using assms(2,3) by (auto simp: hdr_cache_init_def split: if_splits sum.splits)
  ultimately show ?thesis using hdr_cache_init_built assms(2) by metis
qed

lemma start_template_alloc:
  "start_template E p = (None, q) \<Longrightarrow> template_alloc E"
  by (cases "template_alloc E")
    (auto simp: start_template_def wsgi_init_environ_template_def environ_template_build_def environ_template_new_def
      environ_template_plain_def Let_def)

lemma start_objects_ready:
  assumes "start_objects E p = (None, q)" "cache_ok (srv_cache (gs p))"
  shows "objects_ready E q \<and> ghost q = ghost p \<and> gport q = gport p \<and> gtls q = gtls p \<and> gdriver q = gdriver p
    \<and> asgi_mode (gs q) = asgi_mode (gs p)"
proof -
  obtain p1 p2 p3 p4 where s: "start_pool E p = (None, p1)" "start_keys E p1 = (None, p2)"
    "start_hdr_cache E p2 = (None, p3)" "start_bytesio E p3 = (None, p4)" "start_template E p4 = (None, q)"
    using assms(1) unfolding start_objects_def then_do_None by blast
  obtain pl where p1: "pool_init 4096 (slab_mem E) (gpool p) = Some pl" "p1 = p\<lparr>gpool := pl\<rparr>"
    using s(1) by (auto simp: start_pool_def split: option.splits)
  obtain k where k: "init_wsgi_keys True (ghost p) (gport p) = Some k" "p2 = p1\<lparr>gkeys := Some k\<rparr>"
    using s(2) p1(2) by (auto simp: start_keys_def init_wsgi_keys_def split: option.splits if_splits)
  have c: "p3 = p2\<lparr>gs := (gs p2)\<lparr>srv_cache := built_cache\<rparr>\<rparr>"
    using s(3) hdr_cache_init_ok assms(2) k(2) p1(2)
    by (auto simp: start_hdr_cache_def split: prod.splits if_splits)
  have b: "p4 = p3\<lparr>io_bytesio := True, empty_wsgi_input := True\<rparr>"
    using s(4) by (auto simp: start_bytesio_def split: if_splits)
  have t: "q = p4\<lparr>gs := (gs p4)\<lparr>environ_template := Some (template_entries k (stderr_object E) (ascii_str ''http'')),
      environ_template_https := Some (template_entries k (stderr_object E) (ascii_str ''https''))\<rparr>\<rparr>"
    using s(5) start_template_alloc [OF s(5)] b c k(2)
    by (simp add: start_template_def environ_template_exact)
  have "pool_reach sz 4096 pl {}" for sz by (rule pool_reach.init [OF p1(1)])
  then show ?thesis
    using p1 k c b t by (simp add: objects_ready_def)
qed


section \<open>What a start opens and calls\<close>

definition opens :: "start_ext \<Rightarrow> serve_args \<Rightarrow> srv_call list" where
  "opens E a =
     TcpInit # (if a_fd a \<ge> 0 then [TcpOpen (dup_fd E (a_fd a))]
                else case ip4_addr E (a_host a) (a_port a) of
                    None \<Rightarrow> []
                  | Some addr \<Rightarrow> [TcpBind addr (reuseport_build E \<and> a_reuse_port a)])"

text \<open>The libuv calls of \<open>server_init\<close>, by its outcome.\<close>

definition init_calls :: "start_ext \<Rightarrow> serve_args \<Rightarrow> start_error option \<Rightarrow> srv_call list" where
  "init_calls E a e =
     (case e of
        None \<Rightarrow> opens E a @ [Listen LISTEN_BACKLOG]
      | Some x \<Rightarrow>
          if x \<in> {ListenFailed, TlsFailed, AsgiFailed} then opens E a @ [Listen LISTEN_BACKLOG]
          else if x \<in> {TcpOpenFailed, BindFailed} then opens E a
          else if x \<in> {DupFailed, BadHost} then [TcpInit]
          else [])"

text \<open>The descriptor the handle owns: the duplicate, from the moment libuv accepted it.\<close>

definition handed_over :: "start_ext \<Rightarrow> serve_args \<Rightarrow> start_error option \<Rightarrow> int set" where
  "handed_over E a e =
     (if a_fd a \<ge> 0 \<and> (\<forall>x. e = Some x \<longrightarrow> x \<in> {ListenFailed, TlsFailed, AsgiFailed})
      then {dup_fd E (a_fd a)} else {})"

text \<open>What \<open>dup\<close> documents: the new descriptor was not open.\<close>

definition dup_fresh :: "start_ext \<Rightarrow> serve_args \<Rightarrow> int set \<Rightarrow> bool" where
  "dup_fresh E a before \<longleftrightarrow> dup_fd E (a_fd a) \<notin> before"

lemma start_socket_effect:
  assumes "start_socket E a p = (e, q)" "dup_fresh E a (fds p)"
  shows "uvlog q = uvlog p @ (if e = None \<or> e = Some TcpOpenFailed \<or> e = Some BindFailed then opens E a else [TcpInit])
    \<and> fds q = fds p \<union> (if e = None \<and> a_fd a \<ge> 0 then {dup_fd E (a_fd a)} else {})
    \<and> (\<forall>x. e = Some x \<longrightarrow> x \<in> {TcpOpenFailed, BindFailed, DupFailed, BadHost})
    \<and> q = p\<lparr>uvlog := uvlog q, fds := fds q\<rparr>"
  using assms
  by (auto simp: start_socket_def opens_def uv_srv_def dup_fresh_def Let_def split: if_splits option.splits)

lemma start_listen_effect:
  "start_listen E p = (e, q) \<Longrightarrow>
     q = p\<lparr>uvlog := uvlog p @ [Listen LISTEN_BACKLOG]\<rparr> \<and> (\<forall>x. e = Some x \<longrightarrow> x = ListenFailed)"
  by (auto simp: start_listen_def uv_srv_def split: if_splits)

lemma start_tls_effect:
  "start_tls E a p = (e, q) \<Longrightarrow> (e = None \<or> e = Some TlsFailed) \<and> uvlog q = uvlog p \<and> fds q = fds p"
  by (auto simp: start_tls_def split: if_splits option.splits)

lemma server_init_effect:
  assumes "server_init E a p = (e, q)" "dup_fresh E a (fds p)"
  shows "uvlog q = uvlog p @ init_calls E a e \<and> fds q = fds p \<union> handed_over E a e
    \<and> e \<noteq> Some NotCallable \<and> e \<noteq> Some AsgiFailed
    \<and> (e = Some NoTlsSupport \<longleftrightarrow> \<not> tls_build E \<and> (a_certfile a \<noteq> None \<or> a_keyfile a \<noteq> None))"
proof (cases "\<not> tls_build E \<and> (a_certfile a \<noteq> None \<or> a_keyfile a \<noteq> None)")
  case True
  then have "e = Some NoTlsSupport" "q = p" using assms(1) by (simp_all add: server_init_def)
  then show ?thesis using True by (simp add: init_calls_def handed_over_def)
next
  case False
  let ?p0 = "clear_g_server a p"
  have p0: "fds ?p0 = fds p" "uvlog ?p0 = uvlog p" by (simp_all add: clear_g_server_def)
  have run: "then_do (start_objects E) (then_do (start_socket E a) (then_do (start_listen E) (start_tls E a))) ?p0 = (e, q)"
    using assms(1) False by (auto simp: server_init_stages)
  obtain e1 p1 where o: "start_objects E ?p0 = (e1, p1)" by (cases "start_objects E ?p0")
  have q1: "fds p1 = fds p" "uvlog p1 = uvlog p" "\<forall>x. e1 = Some x \<longrightarrow> x \<in> object_errors"
    using start_objects_quiet o p0 unfolding quiet_def by metis+
  show ?thesis
  proof (cases e1)
    case (Some x)
    then have "e = Some x" "q = p1" using run o by (simp_all add: then_do_def)
    then show ?thesis using q1 Some False by (auto simp: init_calls_def handed_over_def object_errors_def)
  next
    case None
    then have run1: "then_do (start_socket E a) (then_do (start_listen E) (start_tls E a)) p1 = (e, q)"
      using run o by (simp add: then_do_def)
    obtain e2 p2 where s: "start_socket E a p1 = (e2, p2)" by (cases "start_socket E a p1")
    note se = start_socket_effect [OF s]
    have fr: "dup_fresh E a (fds p1)" using assms(2) q1 by simp
    show ?thesis
    proof (cases e2)
      case (Some x)
      then have "e = Some x" "q = p2" using run1 s by (simp_all add: then_do_def)
      then show ?thesis using se [OF fr] q1 Some False by (auto simp: init_calls_def handed_over_def)
    next
      case None
      then have run2: "then_do (start_listen E) (start_tls E a) p2 = (e, q)"
        using run1 s by (simp add: then_do_def)
      obtain e3 p3 where l: "start_listen E p2 = (e3, p3)" by (cases "start_listen E p2")
      have e: "(e = None \<or> e = Some ListenFailed \<or> e = Some TlsFailed) \<and> uvlog q = uvlog p3 \<and> fds q = fds p3"
      proof (cases e3)
        case None
        then have "start_tls E a p3 = (e, q)" using run2 l by (simp add: then_do_def)
        from start_tls_effect [OF this] show ?thesis by blast
      next
        case (Some x)
        then show ?thesis using run2 l start_listen_effect [OF l] by (auto simp: then_do_def)
      qed
      have p3: "uvlog p3 = uvlog p2 @ [Listen LISTEN_BACKLOG]" "fds p3 = fds p2"
        using start_listen_effect [OF l] by simp_all
      show ?thesis using e p3 se [OF fr] q1 None False
        by (auto simp: init_calls_def handed_over_def)
    qed
  qed
qed


section \<open>A started server\<close>

text \<open>
  What the caller asked for in the way of TLS: with a certificate and a key, TLS 1.3 with tickets, in a
  worker from the shared ring, elsewhere from a ring of its own that a timer rotates; otherwise nothing.
\<close>

definition tls_as_asked :: "start_ext \<Rightarrow> serve_args \<Rightarrow> tls_server \<Rightarrow> bool" where
  "tls_as_asked E a ts \<longleftrightarrow>
     (case (a_certfile a, a_keyfile a) of
        (Some cert, Some key) \<Rightarrow>
          tls_build E \<and> cert_loads E cert \<and> key_loads E key \<and> tls_enabled ts \<and> encrypt_ticket ts
          \<and> require_dhe_on_psk ts \<and> ticket_lifetime ts = TLS_TICKET_LIFETIME_S \<and> max_early_data_size ts = 0
          \<and> (if a_ring_fd a \<ge> 0
             then (\<exists>base r. ring_mmap E (a_ring_fd a) = Some (base, r) \<and> ticket_shared ts = Some base)
               \<and> \<not> ticket_timer ts \<and> (\<forall>nm. tls_ticket_key_by_name ts nm = None)
             else ticket_shared ts = None \<and> ticket_timer ts
               \<and> represents (ticket_cur ts) (ticket_keys ts) [tls_ticket_key_mint (key_rng E)])
      | _ \<Rightarrow> ts = zeroed_tls_server)"

lemma start_tls_asked:
  assumes "start_tls E a p = (None, q)" "gtls p = zeroed_tls_server"
    and "tls_build E \<or> (a_certfile a = None \<and> a_keyfile a = None)"
  shows "q = p\<lparr>gtls := gtls q\<rparr> \<and> tls_as_asked E a (gtls q)"
proof (cases "a_certfile a = None \<or> a_keyfile a = None")
  case True
  then have "q = p" using assms(1) by (auto simp: start_tls_def split: if_splits option.splits)
  then show ?thesis using True assms(2) by (auto simp: tls_as_asked_def split: option.splits)
next
  case False
  then obtain cert key where ck: "a_certfile a = Some cert" "a_keyfile a = Some key" by auto
  then have b: "tls_build E" using assms(3) by simp
  then obtain ts where ts: "tls_server_init (cert_loads E cert) (key_loads E key) (a_ring_fd a)
      (ring_mmap E (a_ring_fd a)) (page_size E) (key_rng E) (gtls p) = Some ts" "q = p\<lparr>gtls := ts\<rparr>"
    using assms(1) ck by (auto simp: start_tls_def split: option.splits)
  show ?thesis
    using ts(2) ck b tls_server_init_exact [of "cert_loads E cert" "key_loads E key" "a_ring_fd a"
        "ring_mmap E (a_ring_fd a)" "page_size E" "key_rng E" "gtls p", unfolded ts(1)]
    by (auto simp: tls_as_asked_def)
qed

definition server_ready :: "start_ext \<Rightarrow> serve_args \<Rightarrow> proc \<Rightarrow> bool" where
  "server_ready E a p \<longleftrightarrow> objects_ready E p \<and> ghost p = take HOST_MAX (a_host a) \<and> gport p = a_port a
     \<and> tls_as_asked E a (gtls p)"

lemma server_init_ready:
  assumes "server_init E a p = (None, q)" "cache_ok (srv_cache (gs p))"
  shows "server_ready E a q \<and> \<not> asgi_mode (gs q)"
proof -
  let ?p0 = "clear_g_server a p"
  have b: "tls_build E \<or> (a_certfile a = None \<and> a_keyfile a = None)"
    using assms(1) by (auto simp: server_init_def split: if_splits)
  then obtain p1 p2 p3 where s: "start_objects E ?p0 = (None, p1)" "start_socket E a p1 = (None, p2)"
    "start_listen E p2 = (None, p3)" "start_tls E a p3 = (None, q)"
    using assms(1) by (auto simp: server_init_stages then_do_None)
  have p0: "srv_cache (gs ?p0) = srv_cache (gs p)" "ghost ?p0 = take HOST_MAX (a_host a)" "gport ?p0 = a_port a"
    "gtls ?p0 = zeroed_tls_server" "\<not> asgi_mode (gs ?p0)"
    by (simp_all add: clear_g_server_def zeroed_server_def)
  have p1: "objects_ready E p1" "ghost p1 = take HOST_MAX (a_host a)" "gport p1 = a_port a"
    "gtls p1 = zeroed_tls_server" "\<not> asgi_mode (gs p1)"
    using start_objects_ready [OF s(1)] p0 assms(2) by simp_all
  have p2: "gs p2 = gs p1 \<and> gpool p2 = gpool p1 \<and> gkeys p2 = gkeys p1 \<and> ghost p2 = ghost p1 \<and> gport p2 = gport p1
    \<and> io_bytesio p2 = io_bytesio p1 \<and> empty_wsgi_input p2 = empty_wsgi_input p1 \<and> gtls p2 = gtls p1"
    using s(2) by (auto simp: start_socket_def uv_srv_def Let_def split: if_splits option.splits)
  have p3: "p3 = p2\<lparr>uvlog := uvlog p2 @ [Listen LISTEN_BACKLOG]\<rparr>"
    using start_listen_effect [OF s(3)] by simp
  have g: "gtls p3 = zeroed_tls_server" using p1 p2 p3 by simp
  from start_tls_asked [OF s(4) this b] have t: "tls_as_asked E a (gtls q)"
    "gs q = gs p3" "gpool q = gpool p3" "gkeys q = gkeys p3" "ghost q = ghost p3" "gport q = gport p3"
    "io_bytesio q = io_bytesio p3" "empty_wsgi_input q = empty_wsgi_input p3"
    by (metis proc.surjective proc.update_convs proc.select_convs)+
  then show ?thesis using p1 p2 p3 by (simp add: server_ready_def objects_ready_def)
qed


subsection \<open>The entry points\<close>

text \<open>\<open>asgi\<close> says which of the two entry points was called.\<close>

definition py_start :: "bool \<Rightarrow> start_ext \<Rightarrow> serve_args \<Rightarrow> start_step" where
  "py_start asgi E a = (if asgi then py_serve_asgi E a else py_serve E a)"

definition watcher_calls :: "start_ext \<Rightarrow> srv_call list" where
  "watcher_calls E =
     [CheckStart, IdleInit, TimerInit]
     @ (case selector_fd E of
          Some afd \<Rightarrow> if afd \<ge> 0 \<and> poll_init_rc E = 0 then [PollStart afd] else []
        | None \<Rightarrow> [])"

lemma asgi_server_init_effect:
  assumes "asgi_server_init E p = (e, q)"
  shows "fds q = fds p \<and> (e = None \<or> e = Some AsgiFailed)
    \<and> uvlog q = uvlog p @ (if e = None then watcher_calls E else [])
    \<and> (server_ready E a p \<longrightarrow> server_ready E a q)
    \<and> (e = None \<longrightarrow> asgi_mode (gs q) \<and> asgi_scope_init True (ghost q) (gport q) (gs p) = Some (gs q)
        \<and> gdriver q = (gdriver p)\<lparr>asgi_poll_active := asgi_poll_active (gdriver q)\<rparr>
        \<and> (asgi_poll_active (gdriver q) \<longleftrightarrow> asgi_poll_active (gdriver p) \<or> (\<exists>afd. PollStart afd \<in> set (watcher_calls E))))"
  using assms
  by (auto simp: asgi_server_init_def asgi_watchers_def watcher_calls_def uv_srv_def server_ready_def
      objects_ready_def asgi_scope_init_def Let_def split: if_splits option.splits)


lemma serve_init_effect:
  assumes "serve_init E a p = (e, q)" "dup_fresh E a (fds p)"
  shows "uvlog q = uvlog p @ init_calls E a e
    \<and> fds q = (fds p \<union> handed_over E a e) - (if a_ring_fd a \<ge> 0 then {a_ring_fd a} else {})
    \<and> e \<noteq> Some NotCallable \<and> e \<noteq> Some AsgiFailed
    \<and> (e = Some NoTlsSupport \<longleftrightarrow> \<not> tls_build E \<and> (a_certfile a \<noteq> None \<or> a_keyfile a \<noteq> None))
    \<and> (e = None \<longrightarrow> cache_ok (srv_cache (gs p)) \<longrightarrow> server_ready E a q \<and> \<not> asgi_mode (gs q))"
proof -
  obtain q1 where i: "server_init E a p = (e, q1)" "q = (if a_ring_fd a \<ge> 0 then q1\<lparr>fds := fds q1 - {a_ring_fd a}\<rparr> else q1)"
    using assms(1) by (cases "server_init E a p") (simp add: serve_init_def)
  have "server_ready E a q = server_ready E a q1" "gs q = gs q1" "uvlog q = uvlog q1"
    using i(2) by (simp_all add: server_ready_def objects_ready_def)
  then show ?thesis using server_init_effect [OF i(1) assms(2)] server_init_ready [of E a p q1] i by auto
qed

lemma no_loop_run: "LoopRun \<notin> set (init_calls E a e)"
  by (auto simp: init_calls_def opens_def split: option.splits)

text \<open>When nothing it needs is refused, a start succeeds.\<close>

definition socket_ok :: "start_ext \<Rightarrow> serve_args \<Rightarrow> bool" where
  "socket_ok E a \<longleftrightarrow> listen_rc E = 0
     \<and> (if a_fd a \<ge> 0 then dup_fd E (a_fd a) \<ge> 0 \<and> tcp_open_rc E (dup_fd E (a_fd a)) = 0
        else case ip4_addr E (a_host a) (a_port a) of
            None \<Rightarrow> False
          | Some addr \<Rightarrow> bind_rc E addr (reuseport_build E \<and> a_reuse_port a) = 0)"

definition objects_ok :: "start_ext \<Rightarrow> serve_args \<Rightarrow> bool" where
  "objects_ok E a \<longleftrightarrow> slab_mem E \<noteq> 0 \<and> keys_alloc E \<and> utf8_decode (take HOST_MAX (a_host a)) \<noteq> None
     \<and> names_alloc E = (\<lambda>_. (True, True)) \<and> io_import E \<and> empty_alloc E \<and> template_alloc E"

definition startable :: "start_ext \<Rightarrow> serve_args \<Rightarrow> bool" where
  "startable E a \<longleftrightarrow> app_callable a \<and> objects_ok E a \<and> socket_ok E a \<and> loop_attrs E \<and> attr_names_alloc E \<and> bridge_import E \<and> scope_objects_alloc E"

lemma start_objects_succeeds:
  assumes "objects_ok E a" "cache_ok (srv_cache (gs p))" "ghost p = take HOST_MAX (a_host a)"
  shows "fst (start_objects E p) = None"
proof -
  obtain h where h: "utf8_decode (ghost p) = Some h" using assms(1,3) by (auto simp: objects_ok_def)
  have "\<exists>hc. hdr_cache_init (names_alloc E) (srv_cache (gs p)) = (0, hc)"
    using assms(1,2) hdr_cache_init_again sample_init by (auto simp: objects_ok_def cache_ok_def)
  then show ?thesis
    using assms(1) h
    by (auto simp: objects_ok_def start_objects_def then_do_def start_pool_def start_keys_def start_hdr_cache_def
        start_bytesio_def start_template_def pool_init_def init_wsgi_keys_def environ_template_exact)
qed

lemma socket_succeeds:
  assumes "socket_ok E a"
  shows "\<exists>q. start_socket E a p = (None, q) \<and> ghost q = ghost p"
proof (cases "a_fd a \<ge> 0")
  case True
  then show ?thesis using assms by (simp add: start_socket_def socket_ok_def uv_srv_def Let_def)
next
  case False
  then obtain addr where "ip4_addr E (a_host a) (a_port a) = Some addr"
    "bind_rc E addr (reuseport_build E \<and> a_reuse_port a) = 0"
    using assms by (auto simp: socket_ok_def split: option.splits)
  then show ?thesis using False by (simp add: start_socket_def uv_srv_def Let_def)
qed

lemma plain_start_succeeds:
  assumes "startable E a" "cache_ok (srv_cache (gs p))" "a_certfile a = None" "a_keyfile a = None"
  shows "fst (py_start asgi E a p) = None"
proof -
  let ?p0 = "clear_g_server a p"
  have p0: "srv_cache (gs ?p0) = srv_cache (gs p)" "ghost ?p0 = take HOST_MAX (a_host a)"
    by (simp_all add: clear_g_server_def zeroed_server_def)
  obtain p1 where o: "start_objects E ?p0 = (None, p1)"
    using start_objects_succeeds [of E a ?p0] p0 assms(1,2) by (metis prod.collapse startable_def)
  obtain p2 where s: "start_socket E a p1 = (None, p2)" "ghost p2 = ghost p1"
    using socket_succeeds [of E a p1] assms(1) by (auto simp: startable_def)
  have l: "start_listen E p2 = (None, uv_srv (Listen LISTEN_BACKLOG) p2)"
    using assms(1) by (simp add: start_listen_def startable_def socket_ok_def)
  have t: "start_tls E a r = (None, r)" for r using assms(3,4) by (simp add: start_tls_def)
  have "\<exists>q. server_init E a p = (None, q) \<and> ghost q = ghost p1"
    using assms(3,4) s(2) by (simp add: server_init_stages then_do_def o s(1) l t uv_srv_def)
  then obtain q where q: "serve_init E a p = (None, q)" "ghost q = ghost p1" by (auto simp: serve_init_def)
  have "ghost q = take HOST_MAX (a_host a)"
    using start_objects_ready [OF o] p0 assms(2) q(2) by simp
  then show ?thesis using q(1) assms(1)
    by (auto simp: py_start_def py_serve_def py_serve_asgi_def then_do_def asgi_server_init_def asgi_scope_init_def
        startable_def objects_ok_def Let_def)
qed

text \<open>
  A connection the server accepts, on a structure of its pool, is ready for the state machine of theory
  \<open>ConnLife\<close>. \<open>slot\<close> is the structure with the contents of its last use.
\<close>

definition slot_of :: "proc \<Rightarrow> 'p conn \<Rightarrow> bool" where
  "slot_of p slot \<longleftrightarrow> srv slot = gs p \<and> length (read_buf slot) = READ_BUF_ALLOC \<and> length (resp_hdr slot) = RESP_HDR_SIZE"

lemma accepted_fresh:
  assumes "slot_of p slot"
  shows "fresh_conn (on_new_connection X tls_on True peer slot, 0, 0, [])
    \<and> same_conf (gs p) (srv (on_new_connection X tls_on True peer slot))"
proof -
  obtain enc s where m: "malloc X (gs p) = (enc, s)" by (cases "malloc X (gs p)")
  show ?thesis using assms m malloc_conf [OF m]
    by (cases tls_on; cases peer)
      (auto simp: slot_of_def fresh_conn_def on_new_connection_def client_zero_def tls_conn_init_def uv_read_start_def Let_def)
qed

lemma plaintext_iff: "tls_as_asked E a ts \<Longrightarrow> tls_enabled ts \<longleftrightarrow> a_certfile a \<noteq> None \<and> a_keyfile a \<noteq> None"
  by (auto simp: tls_as_asked_def zeroed_tls_server_def split: option.splits)

lemma py_start_effect:
  assumes "py_start asgi E a p0 = (None, p)" "cache_ok (srv_cache (gs p0))" "dup_fresh E a (fds p0)"
  shows "app_callable a \<and> server_ready E a p \<and> asgi_mode (gs p) = asgi
    \<and> (asgi \<longrightarrow> (\<exists>s0. asgi_scope_init True (ghost p) (gport p) s0 = Some (gs p)))
    \<and> uvlog p = uvlog p0 @ opens E a @ [Listen LISTEN_BACKLOG] @ (if asgi then watcher_calls E else []) @ [LoopRun]
    \<and> fds p = (fds p0 \<union> (if a_fd a \<ge> 0 then {dup_fd E (a_fd a)} else {}))
        - (if a_ring_fd a \<ge> 0 then {a_ring_fd a} else {})"
proof -
  have c: "app_callable a"
    using assms(1) by (auto simp: py_start_def py_serve_def py_serve_asgi_def split: if_splits)
  obtain q where q: "serve_init E a p0 = (None, q)"
    "(if asgi then then_do (asgi_server_init E) (\<lambda>p1. (None, server_run p1)) q else (None, server_run q)) = (None, p)"
    using assms(1) c by (auto simp: py_start_def py_serve_def py_serve_asgi_def then_do_None split: if_splits)
  note se = serve_init_effect [OF q(1) assms(3)]
  have calls: "init_calls E a None = opens E a @ [Listen LISTEN_BACKLOG]"
    "handed_over E a None = (if a_fd a \<ge> 0 then {dup_fd E (a_fd a)} else {})"
    by (simp_all add: init_calls_def handed_over_def)
  have run: "gs (server_run r) = gs r" "ghost (server_run r) = ghost r" "gport (server_run r) = gport r"
    "fds (server_run r) = fds r" "uvlog (server_run r) = uvlog r @ [LoopRun]"
    "server_ready E a (server_run r) = server_ready E a r" for r
    by (simp_all add: server_run_def uv_srv_def server_ready_def objects_ready_def)
  show ?thesis
  proof (cases asgi)
    case False
    then have "p = server_run q" using q(2) by simp
    then show ?thesis using False c se assms(2) calls run by simp
  next
    case True
    then obtain r where r: "asgi_server_init E q = (None, r)" "p = server_run r"
      using q(2) by (auto simp: then_do_None)
    show ?thesis using True c se assms(2) calls run r(2) asgi_server_init_effect [OF r(1), of a] by auto
  qed
qed

text \<open>
  C38. A server that runs is the one that was asked for. Whenever one of the entry points reaches the event
  loop: the pool, the header cache, the environ templates and, for ASGI, the scope templates are built and
  hold the host and port given (the host cut to 63 bytes); TLS is on exactly when a certificate and a key
  were given, with the tickets of the shared ring in a worker and of a private ring elsewhere; the handle
  listens on a duplicate of the caller's socket or on the parsed address, with the flag for load balancing
  only when it was asked for and built in; listening precedes the loop, which runs last and once; the
  caller's own descriptors are still open and the descriptor of the ticket ring is closed; and every
  connection it accepts, plaintext or encrypted, starts in the state from which C28 and C29 follow.
\<close>

theorem server_start_ready:
  assumes "py_start asgi E a p0 = (None, p)" "cache_ok (srv_cache (gs p0))" "dup_fresh E a (fds p0)"
  shows "app_callable a \<and> server_ready E a p \<and> asgi_mode (gs p) = asgi
    \<and> (tls_enabled (gtls p) \<longleftrightarrow> a_certfile a \<noteq> None \<and> a_keyfile a \<noteq> None)
    \<and> (asgi \<longrightarrow> (\<exists>s0. asgi_scope_init True (ghost p) (gport p) s0 = Some (gs p)))
    \<and> uvlog p = uvlog p0 @ opens E a @ [Listen LISTEN_BACKLOG] @ (if asgi then watcher_calls E else []) @ [LoopRun]
    \<and> fds p = (fds p0 \<union> (if a_fd a \<ge> 0 then {dup_fd E (a_fd a)} else {}))
        - (if a_ring_fd a \<ge> 0 then {a_ring_fd a} else {})
    \<and> (slot_of p slot \<longrightarrow> fresh_conn (on_new_connection X (tls_enabled (gtls p)) True peer slot, 0, 0, []))"
  using py_start_effect [OF assms] accepted_fresh [of p slot X "tls_enabled (gtls p)" peer] plaintext_iff [of E a "gtls p"]
  by (auto simp: server_ready_def)

text \<open>A process that never served, and a server that is asked to bind loopback.\<close>

definition sample_proc :: proc where
  "sample_proc =
     \<lparr>gs = sample_server\<lparr>srv_cache := hdr_cache_zero\<rparr>, gpool = sample_pool, ghost = [], gport = 0, gkeys = None,
      io_bytesio = False, empty_wsgi_input = False, gtls = zeroed_tls_server,
      gdriver = \<lparr>ready = [], scheduled = [], loop_time = None, asgi_idle_active = False, asgi_timer_active = False,
                 asgi_poll_active = False, uv_idle = False, uv_timer = None\<rparr>,
      fds = {5}, uvlog = []\<rparr>"

definition sample_start :: start_ext where
  "sample_start =
     \<lparr>tls_build = False, reuseport_build = True, slab_mem = 64, keys_alloc = True, names_alloc = (\<lambda>_. (True, True)),
      io_import = True, empty_alloc = True, stderr_object = True, template_alloc = True,
      pad_results = (\<lambda>_. PadDone), sizeof_calls = None, template_probe = None,
      dup_fd = (\<lambda>_. 9), tcp_open_rc = (\<lambda>_. 0),
      ip4_addr = (\<lambda>h n. if h = ''127.0.0.1'' then Some (0x7F000001, word_of_int n) else None),
      bind_rc = (\<lambda>_ _. 0), listen_rc = 0, cert_loads = (\<lambda>_. False), key_loads = (\<lambda>_. False),
      ring_mmap = (\<lambda>_. None), page_size = 4096, key_rng = (\<lambda>_. NUL), loop_attrs = True, attr_names_alloc = True,
      bridge_import = True, scope_objects_alloc = True, selector_fd = Some 4, poll_init_rc = 0\<rparr>"

definition sample_args :: serve_args where
  "sample_args =
     \<lparr>app_callable = True, a_host = ''127.0.0.1'', a_port = 8000, a_reuse_port = False, a_certfile = None,
      a_keyfile = None, a_fd = -1, a_ring_fd = 5\<rparr>"

lemma sample_startable: "startable sample_start sample_args"
proof -
  have "utf8_decode (take HOST_MAX ''127.0.0.1'') = Some (latin1 ''127.0.0.1'')"
    unfolding HOST_MAX_def by (rule utf8_decode_ascii [of "''127.0.0.1''", THEN trans [rotated]]) simp_all
  then show ?thesis by (simp add: startable_def objects_ok_def socket_ok_def sample_start_def sample_args_def)
qed

theorem server_start_ready_witness:
  "\<exists>p. py_start True sample_start sample_args sample_proc = (None, p)
     \<and> uvlog p = [TcpInit, TcpBind (0x7F000001, 8000) False, Listen 4096, CheckStart, IdleInit, TimerInit, PollStart 4, LoopRun]
     \<and> fds p = {}"
proof -
  have "fst (py_start True sample_start sample_args sample_proc) = None"
    using plain_start_succeeds [OF sample_startable, of sample_proc True]
    by (simp add: cache_ok_def sample_proc_def sample_args_def)
  then obtain p where p: "py_start True sample_start sample_args sample_proc = (None, p)" by (metis prod.collapse)
  have "cache_ok (srv_cache (gs sample_proc))" "dup_fresh sample_start sample_args (fds sample_proc)"
    by (simp_all add: cache_ok_def dup_fresh_def sample_proc_def sample_start_def)
  from server_start_ready [OF p this, where slot = "sample_conn :: nat conn" and X = sample_ext and peer = None]
  show ?thesis using p
    by (simp add: opens_def watcher_calls_def LISTEN_BACKLOG_def sample_proc_def sample_start_def sample_args_def)
qed

text \<open>
  C40. A start that fails leaves nothing running. The error is reported and the event loop is not entered;
  the calls made to libuv are those up to the failing one; a duplicate of the caller's socket that libuv
  did not take is closed, one that it took stays with the handle, the caller's socket is untouched and the
  descriptor of the ticket ring is closed, except that an application that is not callable is refused
  before anything is looked at. (The descriptors accounted for are the caller's, its duplicate and the
  ring's; the socket that \<open>uv_tcp_bind\<close> opens inside the handle is libuv's and is not tracked.) A build without TLS refuses a certificate or a key; it never serves in
  plaintext instead.
\<close>

theorem server_start_fails_clean:
  assumes "py_start asgi E a p0 = (Some e, p)" "dup_fresh E a (fds p0)"
  shows "uvlog p = uvlog p0 @ init_calls E a (Some e) \<and> LoopRun \<notin> set (init_calls E a (Some e))
    \<and> (if e = NotCallable then \<not> app_callable a \<and> p = p0
       else fds p = (fds p0 \<union> handed_over E a (Some e)) - (if a_ring_fd a \<ge> 0 then {a_ring_fd a} else {}))
    \<and> (e = NoTlsSupport \<longleftrightarrow> app_callable a \<and> \<not> tls_build E \<and> (a_certfile a \<noteq> None \<or> a_keyfile a \<noteq> None))
    \<and> (e = AsgiFailed \<longrightarrow> asgi)"
proof (cases "app_callable a")
  case False
  then have "e = NotCallable" "p = p0"
    using assms(1) by (auto simp: py_start_def py_serve_def py_serve_asgi_def split: if_splits)
  then show ?thesis using False by (simp add: init_calls_def)
next
  case True
  then have "serve_init E a p0 = (Some e, p)
    \<or> (asgi \<and> (\<exists>q. serve_init E a p0 = (None, q) \<and> asgi_server_init E q = (Some e, p)))"
    using assms(1)
    by (auto simp: py_start_def py_serve_def py_serve_asgi_def then_do_Some split: if_splits)
  then show ?thesis
  proof (elim disjE conjE exE)
    assume s: "serve_init E a p0 = (Some e, p)"
    show ?thesis using serve_init_effect [OF s assms(2)] True no_loop_run [of E a] by simp
  next
    fix q
    assume s: "asgi" "serve_init E a p0 = (None, q)" "asgi_server_init E q = (Some e, p)"
    have e: "e = AsgiFailed" using asgi_server_init_effect [OF s(3)] by simp
    then have "init_calls E a (Some e) = init_calls E a None" "handed_over E a (Some e) = handed_over E a None"
      by (simp_all add: init_calls_def handed_over_def)
    then show ?thesis
      using serve_init_effect [OF s(2) assms(2)] asgi_server_init_effect [OF s(3)] True s(1) e no_loop_run [of E a] by auto
  qed
qed

text \<open>A host name in place of an address: nothing is bound, and the descriptor of the ring is closed.\<close>

theorem server_start_fails_clean_witness:
  "\<exists>p. py_start False sample_start (sample_args\<lparr>a_host := ''localhost''\<rparr>) sample_proc = (Some BadHost, p)
     \<and> uvlog p = [TcpInit] \<and> fds p = {}"
proof -
  let ?a = "sample_args\<lparr>a_host := ''localhost''\<rparr>"
  have u: "utf8_decode (take HOST_MAX ''localhost'') = Some (latin1 ''localhost'')"
    unfolding HOST_MAX_def by (rule utf8_decode_ascii [of "''localhost''", THEN trans [rotated]]) simp_all
  let ?p0 = "clear_g_server ?a sample_proc"
  have "objects_ok sample_start ?a" "cache_ok (srv_cache (gs ?p0))" "ghost ?p0 = take HOST_MAX (a_host ?a)"
    using u by (simp_all add: objects_ok_def sample_start_def sample_args_def cache_ok_def sample_proc_def
        clear_g_server_def zeroed_server_def)
  from start_objects_succeeds [OF this] obtain p1 where o: "start_objects sample_start ?p0 = (None, p1)"
    by (metis prod.collapse)
  have "ip4_addr sample_start (a_host ?a) (a_port ?a) = None" "a_fd ?a = -1" "tls_build sample_start = False"
    "a_certfile ?a = None" "a_keyfile ?a = None" "app_callable ?a"
    by (simp_all add: sample_start_def sample_args_def)
  then have "\<exists>p. py_start False sample_start ?a sample_proc = (Some BadHost, p)"
    by (simp add: py_start_def py_serve_def serve_init_def server_init_stages then_do_def o start_socket_def Let_def)
  then obtain p where p: "py_start False sample_start ?a sample_proc = (Some BadHost, p)" ..
  have "dup_fresh sample_start ?a (fds sample_proc)"
    by (simp add: dup_fresh_def sample_proc_def sample_start_def)
  from server_start_fails_clean [OF p this] show ?thesis using p
    by (simp add: init_calls_def handed_over_def sample_proc_def sample_args_def)
qed

end
