(* ===== verification/Typing.thy ===== *)
theory Typing
  imports Startup
begin

text \<open>
  The types of what an application is handed by a started server: the environ of PEP 3333 and the HTTP scope
  of the ASGI specification. The state a request meets is the one theory \<open>Startup\<close> leaves behind.
\<close>

section \<open>The types\<close>

text \<open>PEP 3333: a native string holds code points up to U+00FF only.\<close>

fun native_str :: "pyobj \<Rightarrow> bool" where
  "native_str (PyStr s) = list_all (\<lambda>cp. cp < 256) s"
| "native_str _ = False"

definition environ_value_ok :: "string \<Rightarrow> pyobj \<Rightarrow> bool" where
  "environ_value_ok k v \<longleftrightarrow>
     (if k = ''wsgi.version'' then v = PyTuple True [PyInt 1, PyInt 0]
      else if k = ''wsgi.multithread'' \<or> k = ''wsgi.multiprocess'' \<or> k = ''wsgi.run_once''
      then v = PyBool True \<or> v = PyBool False
      else if k = ''wsgi.input'' then (case v of PyBytesIO _ \<Rightarrow> True | _ \<Rightarrow> False)
      else if k = ''wsgi.errors'' then v = sys_stderr
      else native_str v)"

definition required_keys :: "bool \<Rightarrow> string list" where
  "required_keys have_stderr =
     [''REQUEST_METHOD'', ''SCRIPT_NAME'', ''PATH_INFO'', ''QUERY_STRING'', ''SERVER_NAME'', ''SERVER_PORT'',
      ''SERVER_PROTOCOL'', ''wsgi.version'', ''wsgi.url_scheme'', ''wsgi.input'', ''wsgi.multithread'',
      ''wsgi.multiprocess'', ''wsgi.run_once'']
     @ (if have_stderr then [''wsgi.errors''] else [])"

definition environ_values_ok :: "pydict \<Rightarrow> bool" where
  "environ_values_ok = list_all (\<lambda>(k, v). environ_value_ok k v)"

definition environ_typed :: "bool \<Rightarrow> pydict \<Rightarrow> bool" where
  "environ_typed have_stderr env \<longleftrightarrow> environ_values_ok env \<and> distinct (map fst env)
     \<and> list_all (\<lambda>k. map_of env k \<noteq> None) (required_keys have_stderr)"

fun is_str :: "pyobj \<Rightarrow> bool" where
  "is_str (PyStr _) = True"
| "is_str _ = False"

text \<open>A byte string, exactly of that type.\<close>

fun is_bytes :: "pyobj \<Rightarrow> bool" where
  "is_bytes (PyBytes True _) = True"
| "is_bytes _ = False"

text \<open>The pair of a host and a port.\<close>

fun is_address :: "pyobj \<Rightarrow> bool" where
  "is_address (PyTuple True [PyStr _, PyInt _]) = True"
| "is_address _ = False"

text \<open>A header of the scope: two byte strings, the name without capital letters.\<close>

fun is_scope_header :: "pyobj \<Rightarrow> bool" where
  "is_scope_header (PyTuple True [PyBytes True n, PyBytes True _]) = list_all (\<lambda>ch. \<not> (65 \<le> byte ch \<and> byte ch \<le> 90)) n"
| "is_scope_header _ = False"

fun is_header_list :: "pyobj \<Rightarrow> bool" where
  "is_header_list (PyList True hs) = list_all is_scope_header hs"
| "is_header_list _ = False"

fun is_version_dict :: "pyobj \<Rightarrow> bool" where
  "is_version_dict (PyDict d) = (case map_of d ''version'' of Some v \<Rightarrow> is_str v | None \<Rightarrow> False)"
| "is_version_dict _ = False"

definition scope_types :: "(string \<times> (pyobj \<Rightarrow> bool)) list" where
  "scope_types =
     [(''type'', is_str), (''asgi'', is_version_dict), (''root_path'', is_str), (''scheme'', is_str),
      (''server'', is_address), (''http_version'', is_str), (''method'', is_str), (''path'', is_str),
      (''raw_path'', is_bytes), (''query_string'', is_bytes), (''client'', is_address), (''headers'', is_header_list)]"

definition scope_typed :: "pydict \<Rightarrow> bool" where
  "scope_typed scope \<longleftrightarrow> list_all2 (\<lambda>(k, v) (k', ok). k = k' \<and> ok v) scope scope_types"

section \<open>The environ\<close>

lemma native_latin1 [simp]: "list_all (\<lambda>cp. cp < 256) (latin1 b)"
  by (simp add: latin1_def list_all_iff)

lemma native_ascii [simp]: "native_str (ascii_str s)"
  by (simp add: ascii_str_def)

lemma values_ok_update:
  "environ_values_ok env \<Longrightarrow> environ_value_ok k v \<Longrightarrow> environ_values_ok (AList.update k v env)"
  by (induction env) (auto simp: environ_values_ok_def)

lemma special_not_http:
  "http_key k \<Longrightarrow> k \<notin> {''wsgi.version'', ''wsgi.multithread'', ''wsgi.multiprocess'', ''wsgi.run_once'', ''wsgi.input'', ''wsgi.errors''}"
  by (intro notI, elim insertE emptyE; simp add: http_key_def)

lemma http_value: "http_key k \<Longrightarrow> environ_value_ok k v = native_str v"
  using special_not_http [of k] unfolding environ_value_ok_def insert_iff by presburger

lemma values_ok_map_of: "environ_values_ok env \<Longrightarrow> map_of env k = Some v \<Longrightarrow> environ_value_ok k v"
  using map_of_SomeD [of env k v] by (auto simp: environ_values_ok_def list_all_iff)

lemma content_value: "environ_value_ok ''CONTENT_TYPE'' v = native_str v" "environ_value_ok ''CONTENT_LENGTH'' v = native_str v"
  by (simp_all add: environ_value_ok_def)

context name_cache
begin

lemma add_header_typed:
  assumes "add_header hc env h = Some env'" "environ_values_ok env" "str_http env"
  shows "environ_values_ok env'"
proof (cases "general_header h")
  case False
  then have "env' = AList.update ''CONTENT_TYPE'' (PyStr (latin1 (hvalue h))) env
    \<or> env' = AList.update ''CONTENT_LENGTH'' (PyStr (latin1 (hvalue h))) env"
    using assms(1) by (auto simp: add_header_def general_header_def Let_def split: if_splits)
  then show ?thesis using assms(2) by (auto intro!: values_ok_update simp: content_value)
next
  case True
  let ?K = "cached_key (name_bytes h)"
  have K: "http_key ?K" by simp
  show ?thesis
  proof (cases "map_of env ?K")
    case None
    then have "env' = env @ [(?K, PyStr (latin1 (hvalue h)))]"
      using assms(1) add_header_general [OF True assms(3)] by simp
    then show ?thesis using assms(2) http_value [OF K] by (simp add: environ_values_ok_def)
  next
    case (Some p)
    then have e: "env' = AList.update ?K (PyStr (str_of p @ latin1 (key_sep ?K) @ latin1 (hvalue h))) env"
      using assms(1) add_header_general [OF True assms(3)] by simp
    have "native_str p" using values_ok_map_of [OF assms(2) Some] http_value [OF K] by simp
    then have "list_all (\<lambda>cp. cp < 256) (str_of p)" by (cases p) simp_all
    then show ?thesis unfolding e by (intro values_ok_update [OF assms(2)]) (simp add: http_value [OF K])
  qed
qed

lemma add_header_str_http:
  assumes "add_header hc env h = Some env'" "environ_values_ok env'"
  shows "str_http env'"
  unfolding str_http_def
proof (intro allI impI)
  fix K
  assume "http_key K"
  then have "native_str v" if "map_of env' K = Some v" for v
    using values_ok_map_of [OF assms(2) that] http_value by simp
  then show "map_of env' K = None \<or> (\<exists>s. map_of env' K = Some (PyStr s))"
    by (cases "map_of env' K") (auto elim: native_str.elims)
qed

lemma add_headers_typed:
  "add_headers hc hs env = Some env' \<Longrightarrow> environ_values_ok env \<Longrightarrow> str_http env \<Longrightarrow> environ_values_ok env'"
proof (induction hs arbitrary: env)
  case (Cons h hs)
  then obtain env1 where e: "add_header hc env h = Some env1" "add_headers hc hs env1 = Some env'"
    by (auto split: option.splits)
  have "environ_values_ok env1" using add_header_typed [OF e(1)] Cons.prems by simp
  then show ?case using Cons.IH [OF e(2)] add_header_str_http [OF e(1)] by simp
qed simp

end

lemma template_typed:
  assumes "native_str (server_name_val k)" "native_str (server_port_val k)" "K \<notin> request_keys"
    "map_of (template_entries k have_stderr (ascii_str scheme)) K = Some v"
  shows "environ_value_ok K v"
  using assms
  by (auto simp: template_entries_def environ_value_ok_def request_keys_def split: if_splits)


lemma values_ok_distinct:
  "distinct (map fst env) \<Longrightarrow> (\<And>k v. map_of env k = Some v \<Longrightarrow> environ_value_ok k v) \<Longrightarrow> environ_values_ok env"
  by (auto simp: environ_values_ok_def list_all_iff)

lemma request_entries_typed:
  assumes "native_str (server_name_val k)" "native_str (server_port_val k)" "native_str ad"
  shows "environ_values_ok (request_entries c r ad (template_entries k have_stderr (ascii_str scheme)))"
proof (rule values_ok_distinct [OF distinct_request_entries [OF distinct_template]])
  fix K v
  assume m: "map_of (request_entries c r ad (template_entries k have_stderr (ascii_str scheme))) K = Some v"
  show "environ_value_ok K v"
  proof (cases "K \<in> request_keys")
    case False
    then have "map_of (template_entries k have_stderr (ascii_str scheme)) K = Some v"
      using m request_entries_other [OF False] by metis
    then show ?thesis by (rule template_typed [OF assms(1,2) False])
  next
    case True
    then show ?thesis using m assms(3) unfolding request_keys_def map_of_request_entries
      by (elim insertE) (auto simp: environ_value_ok_def split: option.splits if_splits)
  qed
qed

lemma required_request_entries:
  "\<forall>K \<in> set (required_keys have_stderr).
     \<not> http_key K \<and> K \<noteq> ''CONTENT_TYPE'' \<and> K \<noteq> ''CONTENT_LENGTH''
     \<and> map_of (request_entries c r ad (template_entries k have_stderr url)) K \<noteq> None"
  by (cases have_stderr)
    (simp_all add: required_keys_def map_of_request_entries http_key_def template_entries_def)

lemma build_environ_typed:
  assumes "(if tls c \<noteq> None then environ_template_https (srv c) else environ_template (srv c))
      = Some (template_entries k have_stderr (ascii_str scheme))"
    and "environ_alloc (py_mem X)" "req c = Some r" "srv_cache (srv c) = built_cache"
    and "peer_addr_obj c = Some ad \<or> (peer_addr_obj c = None \<and> utf8_decode (peer_addr c) = Some s \<and> ad = PyStr s)"
    and "native_str (server_name_val k)" "native_str (server_port_val k)" "native_str ad"
  shows "\<exists>env c'. build_environ X c = (Some env, c') \<and> environ_typed have_stderr env"
proof -
  let ?e = "request_entries c r ad (template_entries k have_stderr (ascii_str scheme))"
  have str: "str_http ?e" by (simp add: str_http_def http_request_entries)
  obtain env where env: "add_headers built_cache (headers r) ?e = Some env" "distinct (map fst env)"
    "\<forall>K. \<not> http_key K \<longrightarrow> K \<noteq> ''CONTENT_TYPE'' \<longrightarrow> K \<noteq> ''CONTENT_LENGTH'' \<longrightarrow> map_of env K = map_of ?e K"
    using built.add_headers_spec [OF str distinct_request_entries [OF distinct_template]] by blast
  have "environ_values_ok env"
    using built.add_headers_typed [OF env(1) request_entries_typed [OF assms(6-8)] str] .
  moreover have "list_all (\<lambda>K. map_of env K \<noteq> None) (required_keys have_stderr)"
    unfolding list_all_iff
  proof
    fix K
    assume "K \<in> set (required_keys have_stderr)"
    from bspec [OF required_request_entries [of have_stderr c r ad k "ascii_str scheme"] this] env(3) show "map_of env K \<noteq> None" by simp
  qed
  ultimately show ?thesis
    using build_environ_eq [OF assms(1-3,5)] env(1,2) assms(4) by (simp add: environ_typed_def)
qed

section \<open>The scope\<close>

lemma ascii_lower_small: "\<not> (65 \<le> byte (ascii_lower ch) \<and> byte (ascii_lower ch) \<le> 90)"
  by (simp add: byte_ascii_lower)

lemma scope_header_typed: "is_scope_header (scope_header h)"
  using ascii_lower_small by (simp add: scope_header_def list_all_iff)

lemma request_scope_typed:
  assumes "is_address cl"
  shows "scope_typed (request_scope https host port r m p cl)"
  using assms scope_header_typed
  by (simp add: scope_typed_def scope_types_def request_scope_def ascii_str_def list_all_iff)


section \<open>Requests of a started server\<close>

text \<open>A connection of the process: its server has the templates and the cache of the start.\<close>

definition serves_with :: "proc \<Rightarrow> 'p conn \<Rightarrow> bool" where
  "serves_with p c \<longleftrightarrow> srv_cache (srv c) = srv_cache (gs p)
     \<and> environ_template (srv c) = environ_template (gs p) \<and> environ_template_https (srv c) = environ_template_https (gs p)
     \<and> asgi_scope_template (srv c) = asgi_scope_template (gs p)
     \<and> asgi_scope_template_https (srv c) = asgi_scope_template_https (gs p)"

lemma same_conf_serves: "same_conf (gs p) (srv c) \<Longrightarrow> serves_with p c"
  by (simp add: same_conf_def serves_with_def)

text \<open>It keeps them: so does every connection the process accepted, in every state it can reach.\<close>

lemma reachable_serves:
  assumes "slot_of p slot" "asgi_mode (gs p) \<longrightarrow> app_sends_once X"
    "(conn_step X)\<^sup>*\<^sup>* (on_new_connection X tls_on True peer slot, 0, 0, []) (c, n, f, ts)"
  shows "serves_with p c"
proof -
  note a = accepted_fresh [OF assms(1), of X tls_on peer]
  have "app_ok X (on_new_connection X tls_on True peer slot, 0, 0, [])"
    using assms(2) same_conf_mode [OF conjunct2 [OF a]] by (simp add: app_ok_def)
  from reachable_conf [OF assms(3) _ this] a show ?thesis
    using same_conf_serves same_conf_trans by fastforce
qed

definition ascii :: "bytes \<Rightarrow> bool" where
  "ascii b \<longleftrightarrow> list_all (\<lambda>ch. byte ch < 128) b"

lemma ascii_decode: "ascii b \<Longrightarrow> utf8_decode b = Some (latin1 b)"
  by (intro utf8_decode_ascii) (simp add: ascii_def list_all_iff)

lemma ascii_take: "ascii b \<Longrightarrow> ascii (take n b)"
  by (auto simp: ascii_def list_all_iff dest: in_set_takeD)

text \<open>The peer address of the connection, and the objects the connection has cached for it.\<close>

definition peer_ok :: "'p conn \<Rightarrow> bool" where
  "peer_ok c \<longleftrightarrow> ascii (peer_addr c) \<and> client_cached c
     \<and> (peer_addr_obj c = None \<or> peer_addr_obj c = Some (PyStr (latin1 (peer_addr c))))"

text \<open>
  C12. Types. Whatever request a server reads that was started with an ASCII host name, on whichever
  connection whose peer address is text of ASCII characters, when memory lasts: a WSGI application gets an
  environ in which every key PEP 3333 requires is present, none occurs twice, and every value has its type:
  native strings of code points up to U+00FF for the CGI variables and the headers, the version pair,
  the three flags, a byte stream for the input, \<open>sys.stderr\<close>. An ASGI application gets a scope of
  exactly the twelve entries, each of the type the ASGI specification gives it, with header names in lower
  case; there is no scope only when the method or the path is not UTF-8.
\<close>

theorem request_objects_typed:
  assumes "py_start asgi E a p0 = (None, p)" "cache_ok (srv_cache (gs p0))" "dup_fresh E a (fds p0)"
    and "ascii (a_host a)" "serves_with p c" "req c = Some r" "peer_ok c"
    and "environ_alloc (py_mem X)" "scope_alloc (py_mem X)"
  shows "(\<exists>env c'. build_environ X c = (Some env, c') \<and> environ_typed (stderr_object E) env)
    \<and> (asgi \<longrightarrow> (case fst (build_asgi_scope X c) of
         Some scope \<Rightarrow> scope_typed scope
       | None \<Rightarrow> utf8_decode (req_method r) = None \<or> utf8_decode (path_part (path r)) = None))"
proof -
  note st = py_start_effect [OF assms(1-3)]
  have host: "utf8_decode (ghost p) = Some (latin1 (ghost p))"
    using st assms(4) by (simp add: server_ready_def ascii_decode ascii_take)
  obtain k where k: "init_wsgi_keys True (ghost p) (gport p) = Some k" "srv_cache (gs p) = built_cache"
      "environ_template (gs p) = Some (template_entries k (stderr_object E) (ascii_str ''http''))"
      "environ_template_https (gs p) = Some (template_entries k (stderr_object E) (ascii_str ''https''))"
    using st unfolding server_ready_def objects_ready_def by blast
  have nat: "native_str (server_name_val k)" "native_str (server_port_val k)"
    using k(1) host by (auto simp: init_wsgi_keys_def)
  have c: "srv_cache (srv c) = built_cache" "utf8_decode (peer_addr c) = Some (latin1 (peer_addr c))"
    using assms(5,7) k(2) by (simp_all add: serves_with_def peer_ok_def ascii_decode)
  have tmpl: "\<exists>scheme. (if tls c \<noteq> None then environ_template_https (srv c) else environ_template (srv c))
      = Some (template_entries k (stderr_object E) (ascii_str scheme))"
    using assms(5) k(3,4) unfolding serves_with_def by auto
  have "\<exists>env c'. build_environ X c = (Some env, c') \<and> environ_typed (stderr_object E) env"
    using tmpl
  proof
    fix scheme
    assume t: "(if tls c \<noteq> None then environ_template_https (srv c) else environ_template (srv c))
      = Some (template_entries k (stderr_object E) (ascii_str scheme))"
    show ?thesis
      using build_environ_typed [OF t assms(8,6) c(1), of "PyStr (latin1 (peer_addr c))" "latin1 (peer_addr c)"]
        assms(7) nat c(2) unfolding peer_ok_def by fastforce
  qed
  moreover have "case fst (build_asgi_scope X c) of Some scope \<Rightarrow> scope_typed scope
      | None \<Rightarrow> utf8_decode (req_method r) = None \<or> utf8_decode (path_part (path r)) = None" if b: asgi
  proof -
    obtain s0 where s0: "asgi_scope_init True (ghost p) (gport p) s0 = Some (gs p)" using st b by blast
    have sc: "asgi_scope_template (srv c) = asgi_scope_template (gs p)"
      "asgi_scope_template_https (srv c) = asgi_scope_template_https (gs p)" "client_cached c"
      using assms(5,7) by (simp_all add: serves_with_def peer_ok_def)
    have cl: "client_tuple c = Some (PyTuple True [PyStr (latin1 (peer_addr c)), PyInt (int (peer_port c))])"
      using c(2) by (simp add: client_tuple_def)
    show ?thesis
      using build_asgi_scope_spec [OF s0 host sc(1,2) c(1) assms(6) sc(3) assms(9)] cl
      by (auto simp: request_scope_typed split: option.splits)
  qed
  ultimately show ?thesis by blast
qed

text \<open>A GET for a path with an escape, on a server started for ASGI.\<close>

definition sample_ready :: proc where
  "sample_ready = snd (py_start True sample_start sample_args sample_proc)"

theorem request_objects_typed_witness:
  "\<exists>env c'. build_environ (sample_ext :: nat ext) (sample_conn\<lparr>srv := gs sample_ready, req := Some sample_request\<rparr>) = (Some env, c')
     \<and> environ_typed True env"
proof -
  let ?c = "sample_conn\<lparr>srv := gs sample_ready, req := Some sample_request\<rparr> :: nat conn"
  have "fst (py_start True sample_start sample_args sample_proc) = None"
    using plain_start_succeeds [OF sample_startable, of sample_proc True]
    by (simp add: cache_ok_def sample_proc_def sample_args_def)
  then have s: "py_start True sample_start sample_args sample_proc = (None, sample_ready)"
    by (metis sample_ready_def prod.collapse)
  have p: "cache_ok (srv_cache (gs sample_proc))" "dup_fresh sample_start sample_args (fds sample_proc)"
    "ascii (a_host sample_args)"
    by (simp_all add: cache_ok_def dup_fresh_def sample_proc_def sample_start_def sample_args_def ascii_def)
  have c: "serves_with sample_ready ?c" "req ?c = Some sample_request" "peer_ok ?c"
    by (simp_all add: serves_with_def peer_ok_def sample_conn_def ascii_def client_cached_def)
  have "environ_alloc (py_mem (sample_ext :: nat ext))" "scope_alloc (py_mem (sample_ext :: nat ext))"
    by (simp_all add: sample_ext_def)
  from conjunct1 [OF request_objects_typed [OF s p c this]] show ?thesis by (simp add: sample_start_def)
qed

end
