(* ===== verification/Module.thy ===== *)
theory Module
  imports Startup
begin

text \<open>
  The extension module, \<^verbatim>\<open>freastal/src/freastalmodule.c\<close>: its initialisation and constants, the arguments of
  \<open>serve\<close> and \<open>serve_asgi\<close>, the counters \<open>tls_buffer_stats\<close>, the hooks of the ticket ring; and the probe
  \<open>server_reuseport_supported\<close> of \<^verbatim>\<open>server.c\<close>.

  \<^item> A function called from Python returns \<open>None\<close> for \<open>NULL\<close>, that is an exception.
  \<^item> Whether an object is callable and whether an allocation of the interpreter succeeds are arguments.
\<close>

section \<open>Definitions\<close>

subsection \<open>Arguments\<close>

text \<open>\<open>PyObject_IsTrue\<close>; objects without a length are true.\<close>

fun PyObject_IsTrue :: "pyobj \<Rightarrow> bool" where
  "PyObject_IsTrue PyNone = False"
| "PyObject_IsTrue (PyBool b) = b"
| "PyObject_IsTrue (PyInt n) = (n \<noteq> 0)"
| "PyObject_IsTrue (PyStr s) = (s \<noteq> [])"
| "PyObject_IsTrue (PyBytes _ b) = (b \<noteq> [])"
| "PyObject_IsTrue (PyTuple _ xs) = (xs \<noteq> [])"
| "PyObject_IsTrue (PyList _ xs) = (xs \<noteq> [])"
| "PyObject_IsTrue (PySeq xs) = (xs \<noteq> [])"
| "PyObject_IsTrue (PyDict d) = (d \<noteq> [])"
| "PyObject_IsTrue _ = True"

text \<open>The format \<open>s\<close>: a \<open>str\<close> with a UTF-8 form and no NUL. The format \<open>z\<close> takes \<open>None\<close> for a null pointer.\<close>

definition arg_s :: "pyobj \<Rightarrow> bytes option" where
  "arg_s v = (case v of
      PyStr s \<Rightarrow> (case utf8_encode s of None \<Rightarrow> None | Some b \<Rightarrow> if NUL \<in> set b then None else Some b)
    | _ \<Rightarrow> None)"

definition arg_z :: "pyobj \<Rightarrow> bytes option option" where
  "arg_z v = (if v = PyNone then Some None else map_option Some (arg_s v))"

text \<open>
  One parameter of \<open>PyArg_ParseTupleAndKeywords\<close>: the positional argument or the keyword, its default when
  there is neither, an error (\<open>None\<close>) when there are both or the conversion fails.
\<close>

definition parse_arg :: "pyobj list \<Rightarrow> pydict \<Rightarrow> nat \<Rightarrow> string \<Rightarrow> (pyobj \<Rightarrow> 'a option) \<Rightarrow> 'a option \<Rightarrow> 'a option" where
  "parse_arg args kwargs i kw conv dflt =
     (case (if i < length args then Some (args ! i) else None, map_of kwargs kw) of
        (Some _, Some _) \<Rightarrow> None
      | (Some v, None) \<Rightarrow> conv v
      | (None, Some v) \<Rightarrow> conv v
      | (None, None) \<Rightarrow> dflt)"

definition serve_kwlist :: "bool \<Rightarrow> string list" where
  "serve_kwlist asgi =
     ''app'' # (if asgi then [''loop''] else [])
     @ [''host'', ''port'', ''reuse_port'', ''certfile'', ''keyfile'', ''fd'', ''ticket_ring_fd'']"

text \<open>The formats \<open>O|sipzzii\<close> and \<open>OO|sipzzii\<close>.\<close>

definition parse_serve_args :: "bool \<Rightarrow> (pyobj \<Rightarrow> bool) \<Rightarrow> pyobj list \<Rightarrow> pydict \<Rightarrow> serve_args option" where
  "parse_serve_args asgi callable args kwargs =
     (let o1 = (if asgi then 2 else 1)
      in if length args > o1 + 7 \<or> \<not> set (map fst kwargs) \<subseteq> set (serve_kwlist asgi) then None
         else if asgi \<and> parse_arg args kwargs 1 ''loop'' Some None = None then None
         else
           case (parse_arg args kwargs 0 ''app'' Some None,
                 parse_arg args kwargs o1 ''host'' arg_s (Some ''0.0.0.0''),
                 parse_arg args kwargs (o1 + 1) ''port'' as_c_int (Some 8000),
                 parse_arg args kwargs (o1 + 2) ''reuse_port'' (\<lambda>v. Some (PyObject_IsTrue v)) (Some False),
                 parse_arg args kwargs (o1 + 3) ''certfile'' arg_z (Some None),
                 parse_arg args kwargs (o1 + 4) ''keyfile'' arg_z (Some None),
                 parse_arg args kwargs (o1 + 5) ''fd'' as_c_int (Some (-1)),
                 parse_arg args kwargs (o1 + 6) ''ticket_ring_fd'' as_c_int (Some (-1))) of
             (Some app, Some host, Some port, Some reuse, Some cert, Some key, Some fd, Some ring) \<Rightarrow>
               Some \<lparr>app_callable = callable app, a_host = host, a_port = port, a_reuse_port = reuse,
                     a_certfile = cert, a_keyfile = key, a_fd = fd, a_ring_fd = ring\<rparr>
           | _ \<Rightarrow> None)"

text \<open>\<open>serve\<close> and \<open>serve_asgi\<close> as Python calls them: \<open>None\<close> when they return, \<open>NULL\<close> when they raise.\<close>

definition call_serve :: "bool \<Rightarrow> start_ext \<Rightarrow> (pyobj \<Rightarrow> bool) \<Rightarrow> pyobj list \<Rightarrow> pydict \<Rightarrow> proc \<Rightarrow> pyobj option \<times> proc" where
  "call_serve asgi E callable args kwargs p =
     (case parse_serve_args asgi callable args kwargs of
        None \<Rightarrow> (None, p)
      | Some a \<Rightarrow>
          (case (if asgi then py_serve_asgi E a p else py_serve E a p) of
             (Some _, p') \<Rightarrow> (None, p')
           | (None, p') \<Rightarrow> (Some PyNone, p')))"

subsection \<open>The load balancing probe\<close>

text \<open>The static \<open>cached\<close> is -1 before the first answer, here \<open>None\<close>.\<close>

definition server_reuseport_supported :: "bool \<Rightarrow> bool \<Rightarrow> bool \<Rightarrow> bool \<Rightarrow> bool option \<Rightarrow> bool \<times> bool option" where
  "server_reuseport_supported build loop_ok tcp_ok bind_ok cached =
     (if \<not> build then (False, cached)
      else case cached of
          Some b \<Rightarrow> (b, cached)
        | None \<Rightarrow>
            if \<not> loop_ok then (False, None)
            else let supported = (tcp_ok \<and> bind_ok) in (supported, Some supported))"

definition py_reuse_port_supported :: "bool \<Rightarrow> bool \<Rightarrow> bool \<Rightarrow> bool \<Rightarrow> bool option \<Rightarrow> pyobj \<times> bool option" where
  "py_reuse_port_supported build loop_ok tcp_ok bind_ok cached =
     (case server_reuseport_supported build loop_ok tcp_ok bind_ok cached of (b, c) \<Rightarrow> (PyBool b, c))"

subsection \<open>Counters and hooks\<close>

text \<open>\<open>unsigned long\<close>\<close>

definition ulong :: "int \<Rightarrow> int" where
  "ulong n = n mod 2 ^ 64"

definition py_tls_buffer_stats :: "bool \<Rightarrow> server \<Rightarrow> pyobj" where
  "py_tls_buffer_stats tls_built s =
     (if \<not> tls_built then PyNone
      else PyDict
        [(''blocks_live'', PyInt (ulong (tls_wbuf_live s))),
         (''bigbufs_live'', PyInt (ulong (tls_bigbuf_live s))),
         (''mallocs'', PyInt (ulong (tls_wbuf_mallocs s))),
         (''pool_free'', PyInt (int (tls_wbuf_pool_n s))),
         (''read_grows'', PyInt (ulong (tls_read_grows s))),
         (''read_spills'', PyInt (ulong (tls_read_spills s))),
         (''read_zerocopy_max'', PyInt (int READ_BUF_SIZE))])"

definition none_or_raise :: "'e + unit \<Rightarrow> pyobj option" where
  "none_or_raise r = (case r of Inl _ \<Rightarrow> None | Inr _ \<Rightarrow> Some PyNone)"

definition py_rotate_ticket_key ::
  "key_cell list \<Rightarrow> rotation \<Rightarrow> (nat \<Rightarrow> tls_ticket_ring) \<Rightarrow> bool \<Rightarrow> owner \<Rightarrow> tls_server
    \<Rightarrow> pyobj option \<times> owner \<times> tls_server" where
  "py_rotate_ticket_key kord rot mem kill_ok g ts =
     (case tls_ticket_rotate_hook kord rot mem kill_ok g ts of (r, g', ts') \<Rightarrow> (none_or_raise r, g', ts'))"

definition py_ticket_ring_rotate :: "key_cell list \<Rightarrow> rotation \<Rightarrow> owner \<Rightarrow> pyobj option \<times> owner" where
  "py_ticket_ring_rotate kord rot g = (case tls_ticket_ring_rotate_owned kord rot g of (r, g') \<Rightarrow> (none_or_raise r, g'))"

definition py_ticket_ring_create ::
  "ring_os \<Rightarrow> key_cell list \<Rightarrow> rotation \<Rightarrow> owner \<Rightarrow> pyobj option \<times> owner" where
  "py_ticket_ring_create os kord first g =
     (case tls_ticket_ring_create os kord first g of
        (Inl _, g') \<Rightarrow> (None, g')
      | (Inr ro, g') \<Rightarrow> (Some (PyInt ro), g'))"

definition py_ticket_ring_destroy :: "owner \<Rightarrow> pyobj option \<times> owner" where
  "py_ticket_ring_destroy g = (Some PyNone, tls_ticket_ring_destroy g)"

subsection \<open>The module\<close>

definition freastal_methods :: "bool \<Rightarrow> string list" where
  "freastal_methods tls_built =
     (if tls_built then [''_ticket_ring_create'', ''_ticket_ring_rotate'', ''_ticket_ring_destroy'', ''_rotate_ticket_key''] else [])
     @ [''reuse_port_supported'', ''tls_buffer_stats'', ''serve'', ''serve_asgi'', ''asgi_send_response'', ''asgi_coro_step'']"

text \<open>\<open>wsgi_init\<close> and \<open>asgi_init\<close>: the entries they add, \<open>None\<close> for -1.\<close>

definition wsgi_init :: "bool \<Rightarrow> bool \<Rightarrow> (string \<Rightarrow> bool) \<Rightarrow> pydict option" where
  "wsgi_init type_ready noop_ok add_ok =
     (if \<not> type_ready \<or> \<not> noop_ok \<or> \<not> add_ok ''StartResponse'' then None
      else Some [(''StartResponse'', PyObject 0)])"

definition asgi_init :: "bool \<Rightarrow> (string \<Rightarrow> bool) \<Rightarrow> pydict option" where
  "asgi_init done_ok add_ok =
     (if \<not> done_ok \<or> \<not> add_ok ''ASGI_CORO_DONE'' then None else Some [(''ASGI_CORO_DONE'', PyObject 1)])"

text \<open>The constants; a failure to add one goes unnoticed, except for \<open>has_tls\<close>.\<close>

definition module_constants :: "bool \<Rightarrow> bool \<Rightarrow> bytes \<Rightarrow> pydict" where
  "module_constants tls_built reuse_built libuv =
     [(''libuv_version'', ascii_str libuv),
      (''HAS_REUSE_PORT'', PyInt (if reuse_built then 1 else 0)),
      (''__version__'', ascii_str ''0.0.1'')]
     @ (if tls_built
        then [(''TICKET_ROTATE_MS'', PyInt (int TLS_TICKET_ROTATE_MS)),
              (''TICKET_LIFETIME_S'', PyInt (int TLS_TICKET_LIFETIME_S)),
              (''TICKET_RING_SLOTS'', PyInt (int TLS_TICKET_RING))]
        else [])"

definition PyInit_freastal ::
  "bool \<Rightarrow> bool \<Rightarrow> bytes \<Rightarrow> bool \<Rightarrow> bool \<Rightarrow> bool \<Rightarrow> bool \<Rightarrow> (string \<Rightarrow> bool) \<Rightarrow> pydict option" where
  "PyInit_freastal tls_built reuse_built libuv create_ok type_ready noop_ok done_ok add_ok =
     (if \<not> create_ok then None
      else case (wsgi_init type_ready noop_ok add_ok, asgi_init done_ok add_ok) of
          (Some w, Some a) \<Rightarrow>
            if \<not> add_ok ''has_tls'' then None
            else Some (w @ a @ filter (\<lambda>e. add_ok (fst e)) (module_constants tls_built reuse_built libuv)
                       @ [(''has_tls'', PyInt (if tls_built then 1 else 0))])
        | _ \<Rightarrow> None)"

section \<open>Properties\<close>

text \<open>A Python call runs the loop only for arguments that parse, and returns only after it ran.\<close>

lemma call_serve_start:
  "call_serve asgi E callable args kwargs p = (res, p') \<Longrightarrow>
     (parse_serve_args asgi callable args kwargs = None \<longrightarrow> res = None \<and> p' = p)
     \<and> (\<forall>a. parse_serve_args asgi callable args kwargs = Some a \<longrightarrow>
          (\<exists>e. py_start asgi E a p = (e, p') \<and> (res = Some PyNone \<longleftrightarrow> e = None)))"
  by (auto simp: call_serve_def py_start_def split: option.splits prod.splits if_splits)

text \<open>Once the probe has an answer it never gives another.\<close>

lemma reuseport_stable:
  assumes "server_reuseport_supported build l t b cached = (r, Some x)" "build"
  shows "r = x \<and> server_reuseport_supported build l' t' b' (Some x) = (x, Some x)"
  using assms by (auto simp: server_reuseport_supported_def Let_def split: option.splits if_splits)

text \<open>
  What a caller can tell: \<open>has_tls\<close> is in the module whenever the import succeeds, and says whether
  \<open>server_init\<close> accepts a certificate.
\<close>

lemma has_tls_truthful:
  assumes "PyInit_freastal (tls_build E) reuse_built libuv c t n d add_ok = Some m"
    "server_init E a p = (e, q)" "dup_fresh E a (fds p)"
  shows "map_of m ''has_tls'' = Some (PyInt (if tls_build E then 1 else 0))
    \<and> (e = Some NoTlsSupport \<longleftrightarrow> map_of m ''has_tls'' = Some (PyInt 0) \<and> (a_certfile a \<noteq> None \<or> a_keyfile a \<noteq> None))"
proof -
  have "map_of (filter (\<lambda>e. add_ok (fst e)) (module_constants (tls_build E) reuse_built libuv)) ''has_tls'' = None"
    unfolding map_of_eq_None_iff by (auto simp: module_constants_def)
  then have "map_of m ''has_tls'' = Some (PyInt (if tls_build E then 1 else 0))"
    using assms(1) by (auto simp: PyInit_freastal_def wsgi_init_def asgi_init_def map_add_def split: if_splits)
  then show ?thesis using server_init_effect [OF assms(2,3)] by simp
qed

end
