(* ===== verification/Spec2Isabelle.thy ===== *)
theory Spec2Isabelle
  imports Prelude Parser Prefix RespParser Chunked Decimal HdrValid HdrCache PyObj HdrBuf Client TlsBuf TlsWrite RespFrame
    Environ RespHead WireRead Wsgi Asgi AppRead AsgiLoop Conn ConnFrame Pipeline AsgiLife EndToEnd ConnTurn ConnLife
    ClientPool Ticket TicketShare TicketRing Startup Typing Module
begin

text \<open>
  Verification of freastal, a WSGI and ASGI server written as a CPython extension in C on libuv, with
  TLS 1.3 by picotls. Source files are under \<^verbatim>\<open>src/freastal/src\<close> unless a path says otherwise.

  \<^bold>\<open>The program.\<close> One process runs one libuv loop. \<open>server.c\<close> accepts connections into structures
  (\<open>client_t\<close>) from a pool, reads into the structure's fixed buffer, parses with picohttpparser, and
  hands a complete request to the application: \<open>wsgi.c\<close> builds an environ dictionary and calls a WSGI
  callable, \<open>asgi.c\<close> builds a scope and drives a coroutine on an asyncio loop that it embeds in libuv.
  The response head is formatted into the structure, and head and body go out in one write, encrypted
  when the connection is a TLS one. The completion of the write compacts the buffer and dispatches the
  next pipelined request. \<open>tls.c\<close> keeps the blocks that encryption and decryption need and the keys that
  seal session tickets; with several workers those keys are in memory the workers share.

  \<^bold>\<open>Theories and sources.\<close>

  \<^item> \<open>Prelude\<close>: bytes, delimiters, C integer conversions, copies into fixed arrays.
  \<^item> \<open>Parser\<close>: \<open>phr_parse_request\<close> of \<^verbatim>\<open>src/vendor/picohttpparser\<close>, in both its builds. C1: the SSE4.2
    build and the scalar build agree; C2: what an accepted request looks like; \<open>phr_incremental\<close>: parsing again
    with \<open>last_len\<close> changes nothing; C4: a request printed by a client parses back to itself. \<open>Prefix\<close>: a
    rejection is final, what the parser turns down is the beginning of no request.
  \<^item> \<open>RespParser\<close>, \<open>Chunked\<close>: the rest of picohttpparser, which the server does not call. \<open>phr_parse_response\<close> and
    \<open>phr_parse_headers\<close>: the builds agree, what is accepted, the completeness check, the round trip. The
    decoder for chunked bodies, which works in the caller's buffer: it computes an automaton that reads one
    byte at a time, whatever the calls the input is cut into, and decodes what an encoder wrote.
  \<^item> \<open>Decimal\<close>: \<open>write_uint\<close> of \<open>server.h\<close> and \<open>strtoul\<close> (C5). \<open>HdrValid\<close>: the checks of \<open>hdrvalid.h\<close> (C6).
    \<open>HdrCache\<close>: the cache of header names of \<open>hdrcache.c\<close> (C7).
  \<^item> \<open>PyObj\<close>: the Python values the C code looks at. \<open>HdrBuf\<close>: the macros that fill the header buffer,
    with the locale \<open>hdr_writer\<close>, the contract of everything that appends to it. \<open>Client\<close>: \<open>client_t\<close>, the
    fields of \<open>server_t\<close> that requests touch, the libuv calls as a log, and \<open>ext\<close>, everything the
    code takes from outside (allocation, picotls, the application, libuv's return values).
  \<^item> \<open>TlsBuf\<close>, \<open>TlsWrite\<close>: the pools of \<open>tls.c\<close> and the encrypted write of \<open>server.c\<close>. C8, C11: an account of
    the heap, every block is in exactly one place on every path; C9: what goes out decrypts to head
    and body, and no read or write leaves its array (\<open>OutOfBounds\<close> in the log marks where one would);
    C10: the sizes chosen are enough, while no key update of picotls falls due. \<open>RespFrame\<close>: the frame of a response, what \<open>write_response\<close>
    leaves alone, and \<open>delivers\<close>: a text leaves a connection as it is, or as ciphertext that opens to it.
  \<^item> \<open>Environ\<close>: the environ template and \<open>build_environ\<close> (C13). \<open>RespHead\<close>: the text of a response head,
    the specification of both formatters. \<open>WireRead\<close>: that text read by \<open>phr_parse_response\<close>. \<open>Wsgi\<close>:
    \<open>start_response\<close>, \<open>collect_body\<close>, the formatter and \<open>wsgi_call_application\<close> (C14 to C18), with what
    start_response should accept and what the application announced stated apart from the code (\<open>checks_spec\<close>,
    \<open>clean_response\<close>). The locale \<open>app_invariant\<close> says what survives a call into the
    application.
  \<^item> \<open>Asgi\<close>: scope, formatter, \<open>asgi_send_response\<close>, \<open>asgi_dispatch\<close> (C19 to C22; C21 includes what a reader of
    the response gets). \<open>AppRead\<close>: a client reads what the WSGI application announced (C24). \<open>AsgiLoop\<close>: the
    driver of the asyncio loop (C23: no wakeup is lost; \<open>asgi_drain_turn\<close>: a turn is bounded).
  \<^item> \<open>Conn\<close>: every callback of a connection in \<open>server.c\<close>, plain and encrypted. The locale \<open>input_queue\<close> is the
    contract of the input buffer, met by the plain buffer and by the buffer with its overflow block
    (C25); C26: what \<open>http_dispatch\<close> does with a buffer, when it waits and when it turns the client away. \<open>ConnFrame\<close>: what applications and the farewell
    of an encrypted connection leave alone. \<open>Pipeline\<close>: pipelined requests are served in order (C27).
    \<open>EndToEnd\<close>: parser, dispatcher, application protocol, formatter and response parser composed: a client that
    sends requests, pipelined or not, reads one response for each, the one the application gave (C3).
    \<open>AsgiLife\<close>: what one step of an ASGI application does to its connection. \<open>ConnTurn\<close>: the invariant of a
    connection and one lemma for each kind of turn. \<open>ConnLife\<close>: the life of a connection as a step relation,
    plaintext or encrypted, WSGI or ASGI with its suspended tasks: reads, completions of responses, of
    handshake writes and of the farewell, each with any status, resumed tasks; all reachable states are safe
    but for those behind a handshake write that failed too late (\<open>hs_late\<close>, a defect of the code; C28), and
    none is stuck (C29).
  \<^item> \<open>ClientPool\<close>: the pool of \<open>client_t\<close> (C39).
  \<^item> \<open>Ticket\<close>: session-ticket keys and the locale \<open>key_ring\<close>, which the private ring and the shared ring both
    interpret (C30). \<open>TicketShare\<close>: the shared region and its seqlock, store by store; the locale \<open>seqlock\<close> is
    the contract between the owner's stores and a worker's reads (C31: no torn read; C32: a read ends).
    \<open>TicketRing\<close>: owner, workers, the ticket callback and the ticket format (C33: resumption across workers;
    C34: a ticket lives as long as promised; C35: exposure of keys is bounded, unless the owner dies inside a
    rotation; C36: the life of the region; C37: the rotation hook), and \<open>tls_server_init\<close>.
  \<^item> \<open>Startup\<close>: \<open>server_init\<close> stage by stage, \<open>asgi_server_init\<close>, the entry points (C38: a server that runs is
    the one that was asked for; C40: a start that fails leaves nothing running). It composes \<open>ClientPool\<close>,
    \<open>HdrCache\<close>, \<open>Environ\<close>, \<open>Asgi\<close> and \<open>TicketRing\<close>, and hands over to \<open>ConnLife\<close>. \<open>Typing\<close>: the types of what
    an application gets from a started server (C12). \<open>Module\<close>: the extension module, \<open>freastalmodule.c\<close>:
    argument parsing, counters, hooks and constants.

  Next to the properties there are theorems that exhibit a defect of the code on a concrete input:
  \<open>hdr_append_overrun\<close>, \<open>wsgi_mutation_splits\<close>, \<open>wsgi_mutation_undefined\<close>, \<open>asgi_sequence_splits\<close>,
  \<open>asgi_double_write\<close>, \<open>tls_alert_double_close\<close>, \<open>late_failure_closes_twice\<close>, \<open>killed_midway_kept\<close>,
  \<open>asgi_status_unreadable\<close>, \<open>phr_headers_empty_block_hidden\<close>.

  \<^bold>\<open>Conventions.\<close> A pointer that a parser advances is the rest of the buffer. A C function that fails
  returns a sum or an option. Sizes are natural numbers, and integers whose width matters are words or
  carry their conversion (\<open>c_int\<close>, the 32-bit length of \<open>uv_buf_init\<close>, the 32-bit sequence number and the
  64-bit deadline of the ring). Loops are recursive functions that terminate; where the source bounds a
  loop (64 attempts of a seqlock read, 8 names of a shared object, 5000 looks of the rotation hook)
  the model has the same bound. Libuv calls are recorded in a log, in the order they are made.

  \<^bold>\<open>Not modelled.\<close> The TLS engine of picotls and OpenSSL (parameters, with documented behaviour
  as named hypotheses: \<open>record_layer\<close>, \<open>openssl_ok\<close>); reference counts of Python objects; type
  objects and doc strings; the descriptor that libuv opens for a listener it binds itself; log output;
  \<open>mlock\<close> and \<open>madvise\<close>; weak memory (the
  interleavings of the shared ring are sequentially consistent, as its fences make them); the Python
  front end that starts workers.
\<close>

end
